(* ===== verification/Umpi_Prelude.thy ===== *)
theory Umpi_Prelude
  imports Main "HOL-Library.Word"
begin

text \<open>
  Shared vocabulary of the development: the C integer types and their conversions, the
  return codes of \<^verbatim>\<open>include/mpi.h\<close>, the outcome type of a call that may also exit the
  process, block or run into undefined behaviour, and byte-addressed memory with
  \<^verbatim>\<open>memcpy\<close>.

  Conventions used by every theory: \<^verbatim>\<open>size_t\<close> is \<open>64 word\<close> and wraps; \<^verbatim>\<open>int\<close> and
  \<^verbatim>\<open>ptrdiff_t\<close> are \<open>int\<close> (their overflow is undefined in C++, the model computes the
  mathematical value); every narrowing conversion the source makes is written out with
  \<open>to_i32\<close> or \<open>to_i16\<close>; an \<^verbatim>\<open>int\<close> used where a \<^verbatim>\<open>size_t\<close> is expected is converted
  with \<open>size_of_int\<close>.
\<close>

unbundle bit_operations_syntax

named_theorems mpi_consts "numeric values of the constants of mpi.h and umpi.hh"
named_theorems loc_simps "facts on segments and the byte locations they cover"

section \<open>C integers\<close>

type_synonym byte = "8 word"
type_synonym size_t = "64 word"

definition size_of_int :: "int \<Rightarrow> size_t" where
  "size_of_int n = word_of_int n"

definition to_i32 :: "int \<Rightarrow> int" where
  "to_i32 n = signed_take_bit 31 n"

definition to_i16 :: "int \<Rightarrow> int" where
  "to_i16 n = signed_take_bit 15 n"

lemma to_i16_id: "- 32768 \<le> n \<Longrightarrow> n < 32768 \<Longrightarrow> to_i16 n = n"
  by (simp add: to_i16_def signed_take_bit_int_eq_self)

lemma to_i16_range: "- 32768 \<le> to_i16 n \<and> to_i16 n < 32768"
  using signed_take_bit_int_less_exp [of 15 n] signed_take_bit_int_greater_eq_minus_exp [of 15 n]
  by (simp add: to_i16_def)

lemma to_i32_id: "- 2147483648 \<le> n \<Longrightarrow> n < 2147483648 \<Longrightarrow> to_i32 n = n"
  by (simp add: to_i32_def signed_take_bit_int_eq_self)

lemma unat_size_of_int: "0 \<le> n \<Longrightarrow> n < 2 ^ 64 \<Longrightarrow> unat (size_of_int n) = nat n"
  by (simp add: size_of_int_def unat_eq_nat_uint uint_word_of_int_eq take_bit_int_eq_self)

lemma unat_lt64: "unat (w :: size_t) < 18446744073709551616"
  using unsigned_less [of w, where ?'a = nat] by simp

lemma size_of_int_sint [simp]: "size_of_int (sint w) = w"
  by (simp add: size_of_int_def)

lemma int_less_63: "int n < 2 ^ 63 \<Longrightarrow> n < 2 ^ 63"
  by simp

lemma sint_size_of_int: "0 \<le> x \<Longrightarrow> x < 2 ^ 63 \<Longrightarrow> sint (size_of_int x) = x"
  unfolding size_of_int_def
  by (intro signed_take_bit_int_eq_self [THEN trans [OF sint_sbintrunc']]) simp_all

lemma sint_small:
  assumes "unat (w :: size_t) < 9223372036854775808"
  shows "sint w = int (unat w)"
proof -
  have "int (unat w) < int 9223372036854775808" using assms by (simp only: of_nat_less_iff)
  then have "uint w < 9223372036854775808" by simp
  then have "signed_take_bit 63 (uint w) = uint w"
    by (intro signed_take_bit_int_eq_self) (auto intro: order_trans [OF _ uint_ge_0])
  moreover have "sint w = signed_take_bit 63 (uint w)"
    using sint_uint [of w] by (simp only: len_num1 len_bit0 len_bit1) (simp add: numeral_eq_Suc)
  ultimately show ?thesis by simp
qed

section \<open>Return codes and wildcards of mpi.h\<close>

definition MPI_SUCCESS :: int where "MPI_SUCCESS = 0"
definition MPI_FAIL :: int where "MPI_FAIL = 1"
definition MPI_ERR_IN_STATUS :: int where "MPI_ERR_IN_STATUS = 2"
definition MPI_ERR_COMM :: int where "MPI_ERR_COMM = 3"
definition MPI_ERR_ARG :: int where "MPI_ERR_ARG = 4"
definition MPI_ANY_SOURCE :: int where "MPI_ANY_SOURCE = -1"
definition MPI_ANY_TAG :: int where "MPI_ANY_TAG = -1"
definition MPI_UNDEFINED :: int where "MPI_UNDEFINED = -1"

lemmas mpi_codes [mpi_consts] =
  MPI_SUCCESS_def MPI_FAIL_def MPI_ERR_IN_STATUS_def MPI_ERR_COMM_def MPI_ERR_ARG_def
  MPI_ANY_SOURCE_def MPI_ANY_TAG_def MPI_UNDEFINED_def

section \<open>Outcomes\<close>

text \<open>
  A call returns (\<open>Ret\<close>, with the new state in the value), ends the process with
  \<^verbatim>\<open>std::exit\<close> (\<open>Exit\<close>), waits for a lock that nobody releases (\<open>Block\<close>) or
  executes something C++ leaves undefined (\<open>Undef\<close>).
\<close>

datatype 'a outcome = Ret 'a | Exit int | Block | Undef

fun and_then :: "'a outcome \<Rightarrow> ('a \<Rightarrow> 'b outcome) \<Rightarrow> 'b outcome" where
  "and_then (Ret x) f = f x"
| "and_then (Exit n) f = Exit n"
| "and_then Block f = Block"
| "and_then Undef f = Undef"

lemma and_then_Ret_iff: "and_then r f = Ret y \<longleftrightarrow> (\<exists>x. r = Ret x \<and> f x = Ret y)"
  by (cases r) auto

lemma and_then_assoc: "and_then (and_then r f) g = and_then r (\<lambda>x. and_then (f x) g)"
  by (cases r) auto

lemma and_then_cong [fundef_cong]:
  "r = r' \<Longrightarrow> (\<And>x. r' = Ret x \<Longrightarrow> f x = g x) \<Longrightarrow> and_then r f = and_then r' g"
  by (cases r') auto

section \<open>Byte memory\<close>

text \<open>
  Each rank has its private address space (\<open>Priv rank\<close>, the user's buffers) and all share
  the mapped segment (\<open>Shm\<close>). A location is a space and an address in it.
\<close>

datatype space = Priv nat | Shm

type_synonym loc = "space \<times> int"
type_synonym mem = "loc \<Rightarrow> byte"
type_synonym seg = "loc \<times> size_t"

definition loc_range :: "loc \<Rightarrow> nat \<Rightarrow> loc list" where
  "loc_range l n = map (\<lambda>k. (fst l, snd l + int k)) [0..<n]"

definition seg_locs :: "seg \<Rightarrow> loc list" where
  "seg_locs s = loc_range (fst s) (unat (snd s))"

definition segs_locs :: "seg list \<Rightarrow> loc list" where
  "segs_locs ss = concat (map seg_locs ss)"

fun write_locs :: "mem \<Rightarrow> loc list \<Rightarrow> byte list \<Rightarrow> mem" where
  "write_locs m (l # ls) (b # bs) = write_locs (m(l := b)) ls bs"
| "write_locs m ls bs = m"

definition memcpy :: "mem \<Rightarrow> loc \<Rightarrow> loc \<Rightarrow> nat \<Rightarrow> mem" where
  "memcpy m dst src n = write_locs m (loc_range dst n) (map m (loc_range src n))"

lemma length_loc_range [simp]: "length (loc_range l n) = n"
  by (simp add: loc_range_def)

lemma loc_range_0 [simp]: "loc_range l 0 = []"
  by (simp add: loc_range_def)

lemma nth_loc_range [simp]: "k < n \<Longrightarrow> loc_range l n ! k = (fst l, snd l + int k)"
  by (simp add: loc_range_def)

lemma distinct_loc_range [simp]: "distinct (loc_range l n)"
  by (simp add: loc_range_def distinct_map inj_on_def)

lemma set_loc_range:
  "set (loc_range l n) = {(fst l, a) | a. snd l \<le> a \<and> a < snd l + int n}" (is "?A = ?B")
proof
  show "?A \<subseteq> ?B" by (auto simp: loc_range_def)
  show "?B \<subseteq> ?A"
  proof
    fix x assume "x \<in> ?B"
    then obtain a where a: "x = (fst l, a)" "snd l \<le> a" "a < snd l + int n" by auto
    then have "nat (a - snd l) < n" "x = loc_range l n ! nat (a - snd l)" by auto
    then show "x \<in> ?A" by (metis length_loc_range nth_mem)
  qed
qed

lemma in_loc_range [loc_simps]:
  "(sp, a) \<in> set (loc_range l n) \<longleftrightarrow> sp = fst l \<and> snd l \<le> a \<and> a < snd l + int n"
  by (auto simp: set_loc_range)

lemma loc_range_append:
  "loc_range l (n + k) = loc_range l n @ loc_range (fst l, snd l + int n) k"
  by (rule nth_equalityI) (auto simp: nth_append)

lemma take_loc_range [simp]: "take k (loc_range l n) = loc_range l (min k n)"
  by (rule nth_equalityI) auto

lemma segs_locs_Nil [simp]: "segs_locs [] = []"
  by (simp add: segs_locs_def)

lemma segs_locs_Cons [simp]: "segs_locs (s # ss) = seg_locs s @ segs_locs ss"
  by (simp add: segs_locs_def)

lemma segs_locs_append [simp]: "segs_locs (ss @ ts) = segs_locs ss @ segs_locs ts"
  by (simp add: segs_locs_def)

lemma write_locs_Nil [simp]: "write_locs m [] bs = m" "write_locs m ls [] = m"
  by (cases ls; simp)+

lemma write_locs_other: "l \<notin> set ls \<Longrightarrow> write_locs m ls bs l = m l"
  by (induction m ls bs rule: write_locs.induct) auto

lemma write_locs_other_take: "l \<notin> set (take (length bs) ls) \<Longrightarrow> write_locs m ls bs l = m l"
  by (induction m ls bs rule: write_locs.induct) auto

lemma write_locs_nth:
  "distinct ls \<Longrightarrow> k < length ls \<Longrightarrow> k < length bs \<Longrightarrow> write_locs m ls bs (ls ! k) = bs ! k"
proof (induction m ls bs arbitrary: k rule: write_locs.induct)
  case (1 m l ls b bs)
  then show ?case by (cases k) (auto simp: write_locs_other fun_upd_same simp del: fun_upd_apply)
qed auto

lemma write_locs_read:
  "distinct ls \<Longrightarrow> length ls = length bs \<Longrightarrow> map (write_locs m ls bs) ls = bs"
  by (rule nth_equalityI) (auto simp: write_locs_nth)

lemma memcpy_read: "map (memcpy m dst src n) (loc_range dst n) = map m (loc_range src n)"
  by (simp add: memcpy_def write_locs_read)

lemma memcpy_other: "l \<notin> set (loc_range dst n) \<Longrightarrow> memcpy m dst src n l = m l"
  by (simp add: memcpy_def write_locs_other)

end
