(* ===== verification/Based_Ptr.thy ===== *)
theory Based_Ptr
  imports Umpi_Prelude
begin

text \<open>
  \<^verbatim>\<open>based_ptr.hh\<close>: a pointer into the shared segment, kept as the offset from the address
  at which this process has mapped it. \<open>BP d\<close> is the object with \<^verbatim>\<open>ptr_\<close> equal to \<open>d\<close>; \<open>d\<close> is a
  64-bit \<^verbatim>\<open>ptrdiff_t\<close>, read with \<open>sint\<close> where its sign matters. The null pointer is the
  smallest \<^verbatim>\<open>ptrdiff_t\<close>. Absolute addresses are \<open>64 word\<close>; \<open>base\<close> is the value of
  \<open>*addr\<close> and \<open>sz\<close> is \<^verbatim>\<open>sizeof(element_type)\<close>.
\<close>

type_synonym addr = "64 word"

datatype based_ptr = BP (off: "64 word")

definition bp_null :: based_ptr where
  "bp_null = BP (word_of_int (- (2 ^ 63)))"

definition bp_of_addr :: "addr \<Rightarrow> addr \<Rightarrow> based_ptr" where
  "bp_of_addr base p = (if p = 0 then bp_null else BP (p - base))"

definition bp_bool :: "based_ptr \<Rightarrow> bool" where
  "bp_bool b \<longleftrightarrow> b \<noteq> bp_null"

definition bp_to_addr :: "addr \<Rightarrow> based_ptr \<Rightarrow> addr" where
  "bp_to_addr base b = base + off b"

definition bp_incr :: "size_t \<Rightarrow> based_ptr \<Rightarrow> based_ptr" where
  "bp_incr sz b = BP (off b + sz)"

definition bp_decr :: "size_t \<Rightarrow> based_ptr \<Rightarrow> based_ptr" where
  "bp_decr sz b = BP (off b - sz)"

text \<open>The postfix forms return the old value beside the new pointer.\<close>

definition bp_post_incr :: "size_t \<Rightarrow> based_ptr \<Rightarrow> based_ptr \<times> based_ptr" where
  "bp_post_incr sz b = (b, bp_incr sz b)"

definition bp_post_decr :: "size_t \<Rightarrow> based_ptr \<Rightarrow> based_ptr \<times> based_ptr" where
  "bp_post_decr sz b = (b, bp_decr sz b)"

definition bp_add :: "size_t \<Rightarrow> based_ptr \<Rightarrow> int \<Rightarrow> based_ptr" where
  "bp_add sz b i = BP (off b + sz * size_of_int i)"

definition bp_sub :: "size_t \<Rightarrow> based_ptr \<Rightarrow> int \<Rightarrow> based_ptr" where
  "bp_sub sz b i = BP (off b - sz * size_of_int i)"

text \<open>
  The difference divides a \<^verbatim>\<open>ptrdiff_t\<close> by a \<^verbatim>\<open>size_t\<close>: by the usual arithmetic
  conversions the division is unsigned, and its result is read back as \<^verbatim>\<open>ptrdiff_t\<close>.
\<close>

definition bp_diff :: "size_t \<Rightarrow> based_ptr \<Rightarrow> based_ptr \<Rightarrow> int" where
  "bp_diff sz a b = sint ((off a - off b) div sz)"

definition bp_index :: "addr \<Rightarrow> size_t \<Rightarrow> based_ptr \<Rightarrow> size_t \<Rightarrow> addr" where
  "bp_index base sz b i = bp_to_addr base (bp_add sz b (sint i))"

text \<open>The comparison operators compare the signed offsets: a linear order.\<close>

text \<open>The comparisons are those of the offsets, signed.\<close>

definition bp_eq :: "based_ptr \<Rightarrow> based_ptr \<Rightarrow> bool" where
  "bp_eq a b \<longleftrightarrow> sint (off a) = sint (off b)"

definition bp_ne :: "based_ptr \<Rightarrow> based_ptr \<Rightarrow> bool" where
  "bp_ne a b \<longleftrightarrow> sint (off a) \<noteq> sint (off b)"

definition bp_le :: "based_ptr \<Rightarrow> based_ptr \<Rightarrow> bool" where
  "bp_le a b \<longleftrightarrow> sint (off a) \<le> sint (off b)"

definition bp_ge :: "based_ptr \<Rightarrow> based_ptr \<Rightarrow> bool" where
  "bp_ge a b \<longleftrightarrow> sint (off b) \<le> sint (off a)"

definition bp_lt :: "based_ptr \<Rightarrow> based_ptr \<Rightarrow> bool" where
  "bp_lt a b \<longleftrightarrow> sint (off a) < sint (off b)"

definition bp_gt :: "based_ptr \<Rightarrow> based_ptr \<Rightarrow> bool" where
  "bp_gt a b \<longleftrightarrow> sint (off b) < sint (off a)"

lemmas bp_order_defs = bp_le_def bp_ge_def bp_lt_def bp_gt_def

lemma bp_eq_iff: "bp_eq a b \<longleftrightarrow> a = b" "bp_ne a b \<longleftrightarrow> a \<noteq> b"
  by (auto simp: bp_eq_def bp_ne_def intro: based_ptr.expand signed_word_eqI)

instantiation based_ptr :: linorder
begin

definition less_eq_based_ptr :: "based_ptr \<Rightarrow> based_ptr \<Rightarrow> bool" where
  "less_eq_based_ptr = bp_le"

definition less_based_ptr :: "based_ptr \<Rightarrow> based_ptr \<Rightarrow> bool" where
  "less_based_ptr = bp_lt"

instance
proof
  fix a b :: based_ptr
  assume "a \<le> b" "b \<le> a"
  then have "sint (off a) = sint (off b)" by (simp add: less_eq_based_ptr_def bp_order_defs)
  then have "off a = off b" by (rule signed_word_eqI)
  then show "a = b" by (rule based_ptr.expand)
qed (auto simp: less_eq_based_ptr_def less_based_ptr_def bp_order_defs)

end

section \<open>Round trips\<close>

lemma bp_to_of_addr: "p \<noteq> 0 \<Longrightarrow> bp_to_addr base' (bp_of_addr base p) = base' + (p - base)"
  by (simp add: bp_to_addr_def bp_of_addr_def)

lemma bp_of_addr_null_iff: "bp_of_addr base p = bp_null \<longleftrightarrow> p = 0 \<or> p = base + word_of_int (- (2 ^ 63))"
  by (auto simp: bp_of_addr_def bp_null_def algebra_simps)

lemma bp_null_least: "bp_null \<le> b"
  using sint_greater_eq [of "off b"] by (simp add: less_eq_based_ptr_def bp_le_def bp_null_def)

lemma bp_add_sub: "bp_sub sz (bp_add sz b i) i = b"
  by (cases b) (simp add: bp_add_def bp_sub_def)

lemma bp_incr_add: "bp_incr sz b = bp_add sz b 1" "bp_decr sz b = bp_sub sz b 1"
  by (simp_all add: bp_incr_def bp_decr_def bp_add_def bp_sub_def size_of_int_def)

end
