(* ===== verification/Memory_Pool.thy ===== *)
theory Memory_Pool
  imports Based_Ptr
begin

text \<open>
  \<^verbatim>\<open>memory_pool.hh\<close> and \<^verbatim>\<open>pool_allocator.hh\<close>: the allocator of the shared segment. It
  hands out aligned blocks from a bump pointer and keeps freed blocks of up to
  \<open>max_dealloc_size\<close> bytes on one intrusive free list per size class; the link to the next
  free block is stored in the first word of a free block. The words that blocks of the
  segment start with are the field \<open>p_word\<close>.

  The pool's mutex is taken at the start and released on every path of \<^verbatim>\<open>alloc\<close> and
  \<^verbatim>\<open>dealloc\<close>, so each is one atomic operation here. \<^verbatim>\<open>max_size\<close> is never instantiated by
  the program and not modelled.
\<close>

section \<open>Sizes\<close>

definition align_size :: size_t where "align_size = 16"
definition sizeof_pointer :: size_t where "sizeof_pointer = 8"

text \<open>
  \<^verbatim>\<open>sizeof(cookie)\<close>: two based pointers and a plain pointer (24 bytes), two \<^verbatim>\<open>int\<close> (8), five
  \<^verbatim>\<open>int16_t\<close> (10), padded to a multiple of 8.
\<close>

definition sizeof_cookie :: size_t where "sizeof_cookie = 48"

definition max_dealloc_size :: size_t where
  "max_dealloc_size = sizeof_cookie + 2 * sizeof_pointer"

definition list_size :: size_t where
  "list_size = (max_dealloc_size + align_size - 1) div align_size"

lemmas size_consts = align_size_def sizeof_pointer_def sizeof_cookie_def max_dealloc_size_def
  list_size_def

lemma list_size_4: "list_size = 4"
  by (simp add: size_consts)

section \<open>State and operations\<close>

record pool =
  p_first :: "based_ptr list"
  p_count :: "size_t list"
  p_space :: size_t
  p_begin :: based_ptr
  p_word :: "based_ptr \<Rightarrow> based_ptr"

definition pool_align :: "size_t \<Rightarrow> size_t" where
  "pool_align v = (v + align_size - 1) AND NOT (align_size - 1)"

definition pool_list :: "size_t \<Rightarrow> size_t" where
  "pool_list v = (v - 1) div align_size"

definition pool_empty :: "pool \<Rightarrow> size_t \<Rightarrow> bool" where
  "pool_empty p i \<longleftrightarrow> p_count p ! unat i = 0"

definition pool_push :: "pool \<Rightarrow> size_t \<Rightarrow> based_ptr \<Rightarrow> pool" where
  "pool_push p i b =
     p\<lparr>p_count := (p_count p)[unat i := p_count p ! unat i + 1],
       p_word := (p_word p)(b := p_first p ! unat i),
       p_first := (p_first p)[unat i := b]\<rparr>"

definition pool_pop :: "pool \<Rightarrow> size_t \<Rightarrow> pool \<times> based_ptr" where
  "pool_pop p i =
     (p\<lparr>p_count := (p_count p)[unat i := p_count p ! unat i - 1],
        p_first := (p_first p)[unat i := p_word p (p_first p ! unat i)]\<rparr>,
      p_first p ! unat i)"

text \<open>
  \<^verbatim>\<open>std::align\<close> moves the pointer up to the alignment and takes the padding from the
  space; it returns null and changes nothing when the space does not suffice.
\<close>

definition std_align :: "size_t \<Rightarrow> size_t \<Rightarrow> addr \<Rightarrow> size_t \<Rightarrow> addr \<times> size_t" where
  "std_align alignment sz p sp =
     (let pad = (- p) AND (alignment - 1)
      in if unat sp < unat sz + unat pad then (0, sp) else (p + pad, sp - pad))"

definition pool_init :: "addr \<Rightarrow> addr \<Rightarrow> addr \<Rightarrow> (based_ptr \<Rightarrow> based_ptr) \<Rightarrow> pool" where
  "pool_init base b_addr e_addr words =
     (let (b, sp) = std_align align_size (pool_align sizeof_pointer) b_addr (e_addr - b_addr)
      in \<lparr>p_first = replicate (unat list_size) bp_null, p_count = replicate (unat list_size) 0,
          p_space = sp, p_begin = bp_of_addr base b, p_word = words\<rparr>)"

definition pool_alloc :: "pool \<Rightarrow> size_t \<Rightarrow> (pool \<times> based_ptr) outcome" where
  "pool_alloc p len =
     (if len = 0 then Ret (p, bp_null)
      else let aligned_len = pool_align (max sizeof_pointer len);
               i = pool_list aligned_len
           in if i < list_size \<and> \<not> pool_empty p i then Ret (pool_pop p i)
              else if p_space p < aligned_len then Exit 1
              else Ret (p\<lparr>p_begin := bp_add 1 (p_begin p) (sint aligned_len),
                          p_space := p_space p - aligned_len\<rparr>, p_begin p))"

definition pool_dealloc :: "pool \<Rightarrow> based_ptr \<Rightarrow> size_t \<Rightarrow> pool outcome" where
  "pool_dealloc p b len =
     (if len = 0 then Ret p
      else let aligned_len = pool_align (max sizeof_pointer len);
               i = pool_list aligned_len
           in if list_size \<le> i then Exit 1 else Ret (pool_push p i b))"

text \<open>\<^verbatim>\<open>pool_allocator::allocate\<close> and \<^verbatim>\<open>deallocate\<close>: \<open>n\<close> objects of \<open>sz\<close> bytes.\<close>

definition allocate :: "size_t \<Rightarrow> pool \<Rightarrow> size_t \<Rightarrow> (pool \<times> based_ptr) outcome" where
  "allocate sz p n = pool_alloc p (n * sz)"

definition deallocate :: "size_t \<Rightarrow> pool \<Rightarrow> based_ptr \<Rightarrow> size_t \<Rightarrow> pool outcome" where
  "deallocate sz p b n = pool_dealloc p b (n * sz)"

section \<open>Alignment and size classes\<close>

lemma and_not_15: "w AND NOT (15 :: size_t) = push_bit 4 (drop_bit 4 w)"
proof -
  have "w AND NOT (15 :: size_t) = w AND NOT (mask 4)" by (simp add: mask_eq_exp_minus_1)
  also have "\<dots> = push_bit 4 (drop_bit 4 w)" by (rule bit_word_eqI) (auto simp: bit_simps)
  finally show ?thesis .
qed

lemma unat_and_not_15: "unat (w AND NOT (15 :: size_t)) = unat w div 16 * 16"
proof -
  have le: "unat w div 16 * 16 \<le> unat w" by simp
  with unat_lt64 [of w] have "unat (w div 16) * unat (16 :: size_t) < 2 ^ LENGTH(64)"
    by (simp add: unat_div)
  then have "unat (w div 16 * 16) = unat (w div 16) * unat (16 :: size_t)"
    by (rule unat_mult_lem [THEN iffD1])
  then show ?thesis
    unfolding and_not_15 by (simp add: push_bit_eq_mult drop_bit_eq_div unat_div)
qed

lemma unat_pool_align:
  "unat (pool_align v) = (if unat v + 15 < 2 ^ 64 then (unat v + 15) div 16 * 16 else 0)"
proof -
  have eq: "unat (pool_align v) = unat (v + 15) div 16 * 16"
    unfolding pool_align_def align_size_def by (subst unat_and_not_15 [symmetric]) (simp add: add.commute)
  show ?thesis
  proof (cases "unat v + 15 < 2 ^ 64")
    case True
    then have "unat (v + 15) = unat v + 15" by (simp add: unat_plus_if')
    with True eq show ?thesis by simp
  next
    case False
    then have "unat (v + 15) = unat v + 15 - 2 ^ 64"
      using unat_lt64 [of v] by (simp add: unat_plus_if')
    then have "unat (v + 15) < 16" using unat_lt64 [of v] by simp
    with False eq show ?thesis by simp
  qed
qed

end
