(* ===== verification/Pool_Inv.thy ===== *)
theory Pool_Inv
  imports Memory_Pool
begin

text \<open>
  The invariant of the pool and its preservation. A block is a pointer with its size in
  bytes; \<open>L\<close> is the set of blocks handed out and not given back (the live blocks). The
  invariant says that the live blocks and the blocks on the free lists are pairwise apart,
  aligned and inside the part of the segment the bump pointer has passed, and that each
  free list is a proper chain of \<open>p_count\<close> different blocks.
\<close>

type_synonym block = "based_ptr \<times> nat"

abbreviation pos :: "based_ptr \<Rightarrow> nat" where
  "pos b \<equiv> unat (off b)"

section \<open>Chains\<close>

fun chain :: "(based_ptr \<Rightarrow> based_ptr) \<Rightarrow> based_ptr \<Rightarrow> nat \<Rightarrow> based_ptr list" where
  "chain m b 0 = []"
| "chain m b (Suc n) = b # chain m (m b) n"

lemma length_chain [simp]: "length (chain m b n) = n"
  by (induction n arbitrary: b) auto

lemma chain_upd_other [simp]: "x \<notin> set (chain m b n) \<Longrightarrow> chain (m(x := y)) b n = chain m b n"
  by (induction n arbitrary: b) auto

lemma chain_cong: "(\<And>x. x \<in> set (chain m b n) \<Longrightarrow> m' x = m x) \<Longrightarrow> chain m' b n = chain m b n"
  by (induction n arbitrary: b) auto

section \<open>Blocks and the invariant\<close>

definition free_list :: "pool \<Rightarrow> nat \<Rightarrow> based_ptr list" where
  "free_list p i = chain (p_word p) (p_first p ! i) (unat (p_count p ! i))"

definition free_blocks :: "pool \<Rightarrow> block set" where
  "free_blocks p = {(b, 16 * (i + 1)) | b i. i < 4 \<and> b \<in> set (free_list p i)}"

definition apart :: "block \<Rightarrow> block \<Rightarrow> bool" where
  "apart x y \<longleftrightarrow> pos (fst x) + snd x \<le> pos (fst y) \<or> pos (fst y) + snd y \<le> pos (fst x)"

definition block_ok :: "nat \<Rightarrow> nat \<Rightarrow> block \<Rightarrow> bool" where
  "block_ok lo hi x \<longleftrightarrow>
     0 < snd x \<and> 16 dvd snd x \<and> 16 dvd pos (fst x) \<and> lo \<le> pos (fst x) \<and> pos (fst x) + snd x \<le> hi"

definition all_apart :: "block set \<Rightarrow> bool" where
  "all_apart A \<longleftrightarrow> (\<forall>x \<in> A. \<forall>y \<in> A. x \<noteq> y \<longrightarrow> apart x y)"

definition pool_inv :: "nat \<Rightarrow> nat \<Rightarrow> pool \<Rightarrow> block set \<Rightarrow> bool" where
  "pool_inv lo hi p L \<longleftrightarrow>
     length (p_first p) = 4 \<and> length (p_count p) = 4 \<and>
     lo \<le> pos (p_begin p) \<and> pos (p_begin p) + unat (p_space p) = hi \<and> hi < 2 ^ 63 \<and>
     16 dvd pos (p_begin p) \<and>
     (\<forall>x \<in> L \<union> free_blocks p. block_ok lo (pos (p_begin p)) x) \<and>
     all_apart (L \<union> free_blocks p) \<and> L \<inter> free_blocks p = {} \<and>
     (\<forall>i < 4. distinct (free_list p i))"

lemma apart_sym: "apart x y = apart y x"
  by (auto simp: apart_def)

lemma all_apart_insert:
  "all_apart (insert x A) \<longleftrightarrow> all_apart A \<and> (\<forall>y \<in> A. y \<noteq> x \<longrightarrow> apart x y)"
  by (auto simp: all_apart_def apart_sym)

lemma all_apart_mono: "all_apart A \<Longrightarrow> B \<subseteq> A \<Longrightarrow> all_apart B"
  unfolding all_apart_def by blast

lemma all_apart_same_pos:
  assumes "all_apart A" "(b, n) \<in> A" "(b, k) \<in> A" "0 < n" "0 < k"
  shows "n = k"
proof (rule ccontr)
  assume "n \<noteq> k"
  then have "apart (b, n) (b, k)" using assms(1-3) unfolding all_apart_def by blast
  then show False using assms(4,5) by (simp add: apart_def)
qed

lemma free_blocks_iff: "(b, n) \<in> free_blocks p \<longleftrightarrow> (\<exists>i < 4. n = 16 * (i + 1) \<and> b \<in> set (free_list p i))"
  by (auto simp: free_blocks_def)

lemma pool_inv_block:
  "pool_inv lo hi p L \<Longrightarrow> x \<in> L \<union> free_blocks p \<Longrightarrow> block_ok lo (pos (p_begin p)) x"
  unfolding pool_inv_def by blast

lemma pool_inv_positive: "pool_inv lo hi p L \<Longrightarrow> (b, n) \<in> L \<union> free_blocks p \<Longrightarrow> 0 < n"
  by (drule (1) pool_inv_block) (simp add: block_ok_def)

lemma pool_inv_apart: "pool_inv lo hi p L \<Longrightarrow> all_apart (L \<union> free_blocks p)"
  unfolding pool_inv_def by blast

lemma pool_inv_disjoint: "pool_inv lo hi p L \<Longrightarrow> L \<inter> free_blocks p = {}"
  unfolding pool_inv_def by blast

text \<open>A free list is shorter than the segment, so its counter does not wrap.\<close>

lemma free_list_short:
  assumes "pool_inv lo hi p L" and "i < 4"
  shows "length (free_list p i) < 2 ^ 63"
proof -
  let ?xs = "free_list p i"
  have "distinct ?xs" using assms by (simp add: pool_inv_def)
  moreover have "inj_on pos (set ?xs)"
    by (intro inj_onI) (metis based_ptr.expand unsigned_word_eqI)
  moreover have lt: "pos b < 2 ^ 63 - 1" if "b \<in> set ?xs" for b
  proof -
    have "(b, 16 * (i + 1)) \<in> free_blocks p" using that assms(2) by (auto simp: free_blocks_iff)
    with assms(1) have "block_ok lo (pos (p_begin p)) (b, 16 * (i + 1))"
      by (blast intro: pool_inv_block)
    moreover have "pos (p_begin p) < 2 ^ 63" using assms(1) by (auto simp: pool_inv_def)
    ultimately show ?thesis by (auto simp: block_ok_def)
  qed
  ultimately have "length ?xs = card (pos ` set ?xs)" by (simp add: card_image distinct_card)
  also have "\<dots> \<le> card {..<2 ^ 63 - 1 :: nat}" using lt by (intro card_mono) auto
  finally show ?thesis by simp
qed

section \<open>Push and pop\<close>

lemma free_list_push:
  assumes inv: "pool_inv lo hi p L" and i: "unat i < 4" and b: "(b, n) \<in> L" and j: "j < 4"
  shows "free_list (pool_push p i b) j = (if j = unat i then b # free_list p j else free_list p j)"
proof -
  have nin: "b \<notin> set (free_list p k)" if "k < 4" for k
  proof
    assume "b \<in> set (free_list p k)"
    with that have fb: "(b, 16 * (k + 1)) \<in> free_blocks p" by (auto simp: free_blocks_iff)
    have "n = 16 * (k + 1)"
      using b fb pool_inv_positive [OF inv, of b]
      by (intro all_apart_same_pos [OF pool_inv_apart [OF inv], of b]) auto
    with fb b pool_inv_disjoint [OF inv] show False by blast
  qed
  have len: "length (p_count p) = 4" "length (p_first p) = 4" using inv by (auto simp: pool_inv_def)
  have "unat (p_count p ! unat i) < 2 ^ 63"
    using free_list_short [OF inv i] by (simp add: free_list_def)
  then have cnt: "unat (p_count p ! unat i + 1) = Suc (unat (p_count p ! unat i))"
    by (simp add: unat_plus_if')
  show ?thesis
  proof (cases "j = unat i")
    case True
    with len i nin [OF i] show ?thesis
      by (simp add: free_list_def pool_push_def cnt)
  next
    case False
    with len j nin [OF j] show ?thesis by (simp add: free_list_def pool_push_def)
  qed
qed

lemma free_list_pop:
  assumes inv: "pool_inv lo hi p L" and i: "unat i < 4" and ne: "\<not> pool_empty p i" and j: "j < 4"
  shows "free_list (fst (pool_pop p i)) j = (if j = unat i then tl (free_list p j) else free_list p j)"
    and "free_list p (unat i) = snd (pool_pop p i) # tl (free_list p (unat i))"
proof -
  have len: "length (p_count p) = 4" "length (p_first p) = 4" using inv by (auto simp: pool_inv_def)
  from ne obtain k where k: "unat (p_count p ! unat i) = Suc k"
    by (metis pool_empty_def not0_implies_Suc unat_0_iff)
  have cnt: "unat (p_count p ! unat i - 1) = k"
    using k by (subst unat_minus_one) auto
  show "free_list p (unat i) = snd (pool_pop p i) # tl (free_list p (unat i))"
    by (simp add: free_list_def pool_pop_def k)
  show "free_list (fst (pool_pop p i)) j = (if j = unat i then tl (free_list p j) else free_list p j)"
    using len i j by (simp add: free_list_def pool_pop_def k cnt)
qed

lemma free_blocks_push:
  assumes "pool_inv lo hi p L" "unat i < 4" "(b, n) \<in> L"
  shows "free_blocks (pool_push p i b) = insert (b, 16 * (unat i + 1)) (free_blocks p)"
  using assms(2) free_list_push [OF assms(1,2,3)]
  by (auto simp: free_blocks_iff split: if_splits)

lemma free_blocks_pop:
  assumes inv: "pool_inv lo hi p L" and i: "unat i < 4" and ne: "\<not> pool_empty p i"
  defines "x \<equiv> (snd (pool_pop p i), 16 * (unat i + 1))"
  shows "free_blocks (fst (pool_pop p i)) = free_blocks p - {x}" and "x \<in> free_blocks p"
proof -
  let ?b = "snd (pool_pop p i)"
  have fl: "free_list p (unat i) = ?b # tl (free_list p (unat i))"
    by (rule free_list_pop(2) [OF inv i ne i])
  have "distinct (free_list p (unat i))" using inv i by (simp add: pool_inv_def)
  then have nin: "?b \<notin> set (tl (free_list p (unat i)))" using fl by (metis distinct.simps(2))
  have mem: "c \<in> set (free_list p (unat i)) \<longleftrightarrow> c = ?b \<or> c \<in> set (tl (free_list p (unat i)))" for c
    using fl by (metis set_ConsD list.set_intros)
  show "x \<in> free_blocks p" using i mem by (auto simp: x_def free_blocks_iff)
  have st: "set (free_list (fst (pool_pop p i)) j) =
      set (free_list p j) - (if j = unat i then {?b} else {})" if "j < 4" for j
    using free_list_pop(1) [OF inv i ne that] mem nin by auto
  show "free_blocks (fst (pool_pop p i)) = free_blocks p - {x}"
  proof (intro set_eqI)
    fix y :: block
    obtain c n where y: "y = (c, n)" by (cases y)
    show "y \<in> free_blocks (fst (pool_pop p i)) \<longleftrightarrow> y \<in> free_blocks p - {x}"
      unfolding y using st i by (auto simp: free_blocks_iff x_def split: if_splits)
  qed
qed

lemma pool_push_inv:
  assumes inv: "pool_inv lo hi p L" and i: "unat i < 4" and b: "(b, 16 * (unat i + 1)) \<in> L"
  shows "pool_inv lo hi (pool_push p i b) (L - {(b, 16 * (unat i + 1))})"
proof -
  let ?x = "(b, 16 * (unat i + 1))" and ?q = "pool_push p i b"
  have fb: "free_blocks ?q = insert ?x (free_blocks p)" by (rule free_blocks_push [OF inv i b])
  have un: "L - {?x} \<union> free_blocks ?q = L \<union> free_blocks p" using b fb by auto
  have nin: "?x \<notin> free_blocks p" using b pool_inv_disjoint [OF inv] by blast
  have flds: "p_begin ?q = p_begin p" "p_space ?q = p_space p" "length (p_first ?q) = length (p_first p)"
    "length (p_count ?q) = length (p_count p)"
    by (simp_all add: pool_push_def)
  have dist: "distinct (free_list ?q j)" if "j < 4" for j
  proof -
    have "b \<notin> set (free_list p (unat i))" using nin i by (auto simp: free_blocks_iff)
    moreover have "distinct (free_list p j)" using inv that by (simp add: pool_inv_def)
    ultimately show ?thesis by (auto simp: free_list_push [OF inv i b that])
  qed
  have "(L - {?x}) \<inter> free_blocks ?q = {}" using fb pool_inv_disjoint [OF inv] by blast
  then show ?thesis
    using inv dist unfolding pool_inv_def flds un by blast
qed

lemma pool_pop_inv:
  assumes inv: "pool_inv lo hi p L" and i: "unat i < 4" and ne: "\<not> pool_empty p i"
  defines "x \<equiv> (snd (pool_pop p i), 16 * (unat i + 1))"
  shows "pool_inv lo hi (fst (pool_pop p i)) (insert x L)" and "x \<notin> L"
proof -
  let ?q = "fst (pool_pop p i)"
  note fb = free_blocks_pop [OF inv i ne, folded x_def]
  have un: "insert x L \<union> free_blocks ?q = L \<union> free_blocks p" using fb by auto
  show nin: "x \<notin> L" using fb(2) pool_inv_disjoint [OF inv] by blast
  have flds: "p_begin ?q = p_begin p" "p_space ?q = p_space p" "length (p_first ?q) = length (p_first p)"
    "length (p_count ?q) = length (p_count p)"
    by (simp_all add: pool_pop_def)
  have dist: "distinct (free_list ?q j)" if "j < 4" for j
    using inv that by (auto simp: free_list_pop(1) [OF inv i ne that] pool_inv_def distinct_tl)
  have "insert x L \<inter> free_blocks ?q = {}" using fb pool_inv_disjoint [OF inv] by blast
  then show "pool_inv lo hi ?q (insert x L)"
    using inv dist unfolding pool_inv_def flds un by blast
qed

section \<open>Allocation and release\<close>

definition block_size :: "size_t \<Rightarrow> nat" where
  "block_size len = unat (pool_align (max sizeof_pointer len))"

lemma block_size_props:
  assumes "unat len + 15 < 2 ^ 64"
  shows "0 < block_size len" "16 dvd block_size len" "unat len \<le> block_size len"
    "block_size len \<le> max 8 (unat len) + 15"
proof -
  have "unat (max sizeof_pointer len) = max 8 (unat len)"
    by (simp add: max_def sizeof_pointer_def word_le_nat_alt)
  then have eq: "block_size len = (max 8 (unat len) + 15) div 16 * 16"
    using assms by (simp add: block_size_def unat_pool_align)
  show "16 dvd block_size len" by (simp add: eq)
  have "max 8 (unat len) \<le> block_size len" unfolding eq by arith
  then show "0 < block_size len" "unat len \<le> block_size len" by auto
  show "block_size len \<le> max 8 (unat len) + 15" unfolding eq by simp
qed

lemma pool_list_class:
  "0 < unat a \<Longrightarrow> 16 dvd unat a \<Longrightarrow> 16 * (unat (pool_list a) + 1) = unat a"
proof -
  assume "0 < unat a" "16 dvd unat a"
  then obtain k where k: "unat a = 16 * k" "0 < k" by (auto elim!: dvdE)
  moreover from k have "unat (a - 1) = 16 * k - 1" by (subst unat_minus_one) auto
  moreover from k have "(16 * k - 1) div 16 = k - 1" by arith
  ultimately show ?thesis by (simp add: pool_list_def align_size_def unat_div)
qed

lemma pool_list_small: "pool_list a < list_size \<longleftrightarrow> unat (pool_list a) < 4"
  by (simp add: list_size_4 word_less_nat_alt)

text \<open>Allocation by cases: from the free list of the size class, from the bump pointer, or out of memory.\<close>

lemma pool_alloc_cases:
  assumes "len \<noteq> 0"
  obtains (pop) i where "i = pool_list (pool_align (max sizeof_pointer len))" "unat i < 4"
      "\<not> pool_empty p i" "pool_alloc p len = Ret (pool_pop p i)"
  | (bump) "block_size len \<le> unat (p_space p)"
      "pool_alloc p len = Ret (p\<lparr>p_begin := BP (off (p_begin p) + pool_align (max sizeof_pointer len)),
         p_space := p_space p - pool_align (max sizeof_pointer len)\<rparr>, p_begin p)"
  | (full) "unat (p_space p) < block_size len" "pool_alloc p len = Exit 1"
proof -
  let ?a = "pool_align (max sizeof_pointer len)"
  consider "pool_list ?a < list_size \<and> \<not> pool_empty p (pool_list ?a)"
    | "\<not> (pool_list ?a < list_size \<and> \<not> pool_empty p (pool_list ?a))" "p_space p < ?a"
    | "\<not> (pool_list ?a < list_size \<and> \<not> pool_empty p (pool_list ?a))" "\<not> p_space p < ?a"
    by blast
  then show thesis
  proof cases
    case 1
    with assms show ?thesis
      by (intro pop [of "pool_list ?a"]) (auto simp: pool_alloc_def Let_def pool_list_small)
  next
    case 2
    with assms show ?thesis
      by (intro full) (auto simp: pool_alloc_def Let_def block_size_def word_less_nat_alt)
  next
    case 3
    with assms show ?thesis
      by (intro bump)
        (auto simp: pool_alloc_def Let_def block_size_def word_less_nat_alt bp_add_def not_less)
  qed
qed

lemma pool_bump_inv:
  fixes a :: size_t
  assumes inv: "pool_inv lo hi p L" and a: "0 < unat a" "16 dvd unat a" "unat a \<le> unat (p_space p)"
  defines "q \<equiv> p\<lparr>p_begin := BP (off (p_begin p) + a), p_space := p_space p - a\<rparr>"
  shows "pool_inv lo hi q (insert (p_begin p, unat a) L)"
    and "\<forall>x \<in> L \<union> free_blocks p. apart (p_begin p, unat a) x" and "(p_begin p, unat a) \<notin> L"
proof -
  let ?x = "(p_begin p, unat a)"
  from inv have b: "lo \<le> pos (p_begin p)" "pos (p_begin p) + unat (p_space p) = hi" "hi < 2 ^ 63"
    "16 dvd pos (p_begin p)"
    by (auto simp: pool_inv_def)
  with a have nb: "pos (p_begin q) = pos (p_begin p) + unat a"
    by (simp add: q_def unat_plus_if')
  have ns: "unat (p_space q) = unat (p_space p) - unat a"
    using a by (simp add: q_def unat_sub_if')
  have fl: "free_list q = free_list p" by (simp add: free_list_def fun_eq_iff q_def)
  then have fb: "free_blocks q = free_blocks p" by (simp add: free_blocks_def)
  have ok: "block_ok lo (pos (p_begin p)) y" if "y \<in> L \<union> free_blocks p" for y
    using that by (rule pool_inv_block [OF inv])
  then show ap: "\<forall>x \<in> L \<union> free_blocks p. apart ?x x"
    by (auto simp: block_ok_def apart_def)
  have self: "\<not> apart ?x ?x" using a by (simp add: apart_def)
  from ap self show nin: "?x \<notin> L" by blast
  have nfree: "?x \<notin> free_blocks p" using ap self by blast
  have ok': "block_ok lo (pos (p_begin q)) y" if "y \<in> insert ?x L \<union> free_blocks q" for y
    using that ok a b nb unfolding fb by (fastforce simp: block_ok_def)
  have "all_apart (insert ?x L \<union> free_blocks q)"
    using pool_inv_apart [OF inv] ap unfolding fb by (simp add: all_apart_insert)
  moreover have "insert ?x L \<inter> free_blocks q = {}"
    using pool_inv_disjoint [OF inv] nfree unfolding fb by blast
  moreover have "length (p_first q) = 4 \<and> length (p_count q) = 4 \<and> (\<forall>i < 4. distinct (free_list q i))"
    using inv unfolding pool_inv_def fl by (simp add: q_def)
  moreover have "lo \<le> pos (p_begin q) \<and> pos (p_begin q) + unat (p_space q) = hi \<and> 16 dvd pos (p_begin q)"
    using b a nb ns by auto
  ultimately show "pool_inv lo hi q (insert ?x L)"
    using b(3) ok' unfolding pool_inv_def by blast
qed

lemma pool_alloc_inv:
  assumes inv: "pool_inv lo hi p L" and len: "len \<noteq> 0" "unat len + 15 < 2 ^ 64"
    and ret: "pool_alloc p len = Ret (q, b)"
  shows "pool_inv lo hi q (insert (b, block_size len) L)" and "(b, block_size len) \<notin> L"
proof -
  note bs = block_size_props [OF len(2)]
  let ?a = "pool_align (max sizeof_pointer len)"
  have "pool_inv lo hi q (insert (b, block_size len) L) \<and> (b, block_size len) \<notin> L"
    using len(1)
  proof (cases rule: pool_alloc_cases [of _ p])
    case (pop i)
    have "16 * (unat i + 1) = block_size len"
      unfolding pop(1) block_size_def by (rule pool_list_class) (use bs in \<open>simp_all add: block_size_def\<close>)
    moreover have "pool_pop p i = (q, b)" using pop(4) ret by simp
    ultimately show ?thesis using pool_pop_inv [OF inv pop(2,3)] by simp
  next
    case bump
    have "0 < unat ?a" "16 dvd unat ?a" "unat ?a \<le> unat (p_space p)"
      using bs bump(1) by (simp_all add: block_size_def)
    from pool_bump_inv [OF inv this] bump(2) ret show ?thesis by (simp add: block_size_def)
  next
    case full
    with ret show ?thesis by simp
  qed
  then show "pool_inv lo hi q (insert (b, block_size len) L)" "(b, block_size len) \<notin> L" by auto
qed

lemma pool_dealloc_inv:
  assumes inv: "pool_inv lo hi p L" and len: "len \<noteq> 0" "unat len \<le> 64"
    and b: "(b, block_size len) \<in> L"
  shows "\<exists>q. pool_dealloc p b len = Ret q \<and> pool_inv lo hi q (L - {(b, block_size len)})"
proof -
  let ?i = "pool_list (pool_align (max sizeof_pointer len))"
  have l: "unat len + 15 < 2 ^ 64" using len(2) by simp
  note bs = block_size_props [OF l]
  have cls: "16 * (unat ?i + 1) = block_size len"
    unfolding block_size_def by (rule pool_list_class) (use bs in \<open>simp_all add: block_size_def\<close>)
  have "block_size len < 80" using bs(4) len(2) by (simp add: max_def split: if_splits)
  with cls have i: "unat ?i < 4" by simp
  then have "pool_dealloc p b len = Ret (pool_push p ?i b)"
    using len(1) by (simp add: pool_dealloc_def Let_def not_le pool_list_small flip: not_less)
  then show ?thesis using pool_push_inv [OF inv i, of b] b cls by simp
qed

lemma pool_alloc_exit_iff:
  assumes "len \<noteq> 0"
  shows "(\<exists>n. pool_alloc p len = Exit n) \<longleftrightarrow>
    unat (p_space p) < block_size len \<and>
    \<not> (pool_list (pool_align (max sizeof_pointer len)) < list_size \<and>
       \<not> pool_empty p (pool_list (pool_align (max sizeof_pointer len))))"
  using assms by (auto simp: pool_alloc_def Let_def block_size_def word_less_nat_alt)

lemma pool_alloc_total: "len \<noteq> 0 \<Longrightarrow> (\<exists>q b. pool_alloc p len = Ret (q, b)) \<or> pool_alloc p len = Exit 1"
  by (auto simp: pool_alloc_def Let_def pool_pop_def)

text \<open>Freeing and allocating in the same size class gives the same block back.\<close>

lemma pool_alloc_after_dealloc:
  assumes inv: "pool_inv lo hi p L" and len: "len \<noteq> 0" "unat len \<le> 64"
    and b: "(b, block_size len) \<in> L" and ret: "pool_dealloc p b len = Ret q"
  shows "\<exists>r. pool_alloc q len = Ret (r, b)"
proof -
  let ?i = "pool_list (pool_align (max sizeof_pointer len))"
  have i: "?i < list_size" and q: "q = pool_push p ?i b"
    using len(1) ret by (auto simp: pool_dealloc_def Let_def not_le split: if_splits)
  have i4: "unat ?i < 4" using i by (simp add: pool_list_small)
  have len4: "length (p_count p) = 4" "length (p_first p) = 4" using inv by (auto simp: pool_inv_def)
  have "unat (p_count p ! unat ?i) < 2 ^ 63"
    using free_list_short [OF inv i4] by (simp add: free_list_def)
  then have "unat (p_count p ! unat ?i + 1) \<noteq> 0" by (simp add: unat_plus_if')
  then have "\<not> pool_empty q ?i" "p_first q ! unat ?i = b"
    using i4 len4 by (auto simp: q pool_empty_def pool_push_def)
  with i len(1) show ?thesis by (simp add: pool_alloc_def Let_def pool_pop_def)
qed

section \<open>Clients write to their live blocks only\<close>

definition in_live :: "block set \<Rightarrow> based_ptr \<Rightarrow> bool" where
  "in_live L x \<longleftrightarrow> (\<exists>y \<in> L. pos (fst y) \<le> pos x \<and> pos x < pos (fst y) + snd y)"

lemma pool_client_write_inv:
  assumes inv: "pool_inv lo hi p L" and wr: "\<And>x. \<not> in_live L x \<Longrightarrow> w x = p_word p x"
  shows "pool_inv lo hi (p\<lparr>p_word := w\<rparr>) L"
proof -
  let ?q = "p\<lparr>p_word := w\<rparr>"
  have "w x = p_word p x" if j: "j < 4" and x: "x \<in> set (free_list p j)" for j x
  proof (rule wr)
    have fb: "(x, 16 * (j + 1)) \<in> free_blocks p" using j x by (auto simp: free_blocks_iff)
    show "\<not> in_live L x"
    proof
      assume "in_live L x"
      then obtain b n where l: "(b, n) \<in> L" "pos b \<le> pos x" "pos x < pos b + n"
        by (auto simp: in_live_def)
      with fb pool_inv_disjoint [OF inv] have ne: "(b, n) \<noteq> (x, 16 * (j + 1))" by blast
      have "apart (b, n) (x, 16 * (j + 1))"
        using pool_inv_apart [OF inv] l(1) fb ne unfolding all_apart_def by blast
      with l show False by (auto simp: apart_def)
    qed
  qed
  then have fl: "free_list ?q j = free_list p j" if "j < 4" for j
    using that by (auto simp: free_list_def intro: chain_cong)
  then have fb: "free_blocks ?q = free_blocks p" by (auto simp: free_blocks_def)
  show ?thesis using inv fl unfolding pool_inv_def fb by simp
qed

section \<open>Initial state and runs\<close>

lemma pad_15: "unat ((- b) AND (15 :: size_t)) < 16" "unat ((- b) AND (15 :: size_t)) + unat b mod 16 \<in> {0, 16}"
proof -
  have "(- b) AND (15 :: size_t) = take_bit 4 (- b)"
    by (simp add: take_bit_eq_mask mask_eq_exp_minus_1)
  then have eq: "unat ((- b) AND (15 :: size_t)) = unat (- b) mod 16"
    by (simp add: take_bit_eq_mod unat_mod)
  then show "unat ((- b) AND (15 :: size_t)) < 16" by simp
  have neg: "unat (- b) = (if b = 0 then 0 else 2 ^ 64 - unat b)"
    using unat_sub_if' [of 0 b] by (simp add: unat_eq_0)
  have ar: "(16 * K - n) mod 16 + n mod 16 \<in> {0, 16}" if "n \<le> 16 * K" for n K :: nat
  proof -
    define q r where "q = n div 16" and "r = n mod 16"
    have n: "n = 16 * q + r" "r < 16" by (simp_all add: q_def r_def)
    show ?thesis
    proof (cases "r = 0")
      case True
      with n have "16 * K - n = 16 * (K - q)" by simp
      with True show ?thesis by (simp add: r_def)
    next
      case False
      with n that have "16 * K - n = (16 - r) + 16 * (K - q - 1)" by arith
      then have "(16 * K - n) mod 16 = (16 - r) mod 16" by (metis mod_mult_self2)
      with False n(2) show ?thesis by (simp add: r_def)
    qed
  qed
  show "unat ((- b) AND (15 :: size_t)) + unat b mod 16 \<in> {0, 16}"
  proof (cases "b = 0")
    case True
    then show ?thesis by simp
  next
    case False
    with neg have "unat (- b) = 16 * 1152921504606846976 - unat b" by simp
    with ar [of "unat b" 1152921504606846976] unat_lt64 [of b] show ?thesis unfolding eq by simp
  qed
qed

lemma pool_init_inv':
  assumes base: "16 dvd unat base" "0 < unat base" "unat base \<le> unat b" "unat b + 32 \<le> unat e"
    and e: "unat e - unat base < 2 ^ 63"
  shows "\<exists>lo hi. pool_inv lo hi (pool_init base b e words) {} \<and> hi \<le> unat e - unat base \<and> unat b - unat base \<le> lo"
proof -
  define pad where "pad = (- b) AND (15 :: size_t)"
  have pad: "unat pad < 16" "16 dvd unat pad + unat b mod 16"
    using pad_15 [of b] by (auto simp: pad_def)
  have al: "unat (pool_align sizeof_pointer) = 16"
    by (simp add: unat_pool_align sizeof_pointer_def)
  have eb: "unat (e - b) = unat e - unat b" using base by (simp add: unat_sub_if')
  have "\<not> unat (e - b) < unat (pool_align sizeof_pointer) + unat pad"
    using base pad al eb by simp
  then have sa: "std_align align_size (pool_align sizeof_pointer) b (e - b) = (b + pad, e - b - pad)"
    by (simp add: std_align_def align_size_def pad_def Let_def)
  have bp: "unat (b + pad) = unat b + unat pad"
    using base pad unat_lt64 [of e] by (simp add: unat_plus_if')
  have sp: "unat (e - b - pad) = unat e - unat b - unat pad"
    using base pad eb by (simp add: unat_sub_if')
  have off: "unat (b + pad - base) = unat b + unat pad - unat base"
    using base bp by (simp add: unat_sub_if')
  have nz: "b + pad \<noteq> 0" using bp base by auto
  define q where "q = pool_init base b e words"
  have q: "p_begin q = BP (b + pad - base)" "p_space q = e - b - pad" "length (p_first q) = 4"
    "length (p_count q) = 4" "\<And>i. i < 4 \<Longrightarrow> free_list q i = []"
    using nz by (auto simp: q_def pool_init_def sa bp_of_addr_def list_size_4 free_list_def)
  have "free_blocks q = {}" using q(5) by (auto simp: free_blocks_def)
  moreover have "16 dvd unat b + unat pad - unat base"
  proof -
    have "16 dvd unat b + unat pad" using pad(2) by presburger
    with base(1) show ?thesis by (rule dvd_diff_nat [rotated])
  qed
  ultimately have "pool_inv (pos (p_begin q)) (unat e - unat base) q {}"
    using q off sp base pad e by (simp add: pool_inv_def all_apart_def)
  moreover have "unat b - unat base \<le> pos (p_begin q)" using q(1) off by simp
  ultimately show ?thesis unfolding q_def by blast
qed

lemma pool_init_inv:
  assumes "16 dvd unat base" "0 < unat base" "unat base \<le> unat b" "unat b + 32 \<le> unat e"
    and "unat e - unat base < 2 ^ 63"
  shows "\<exists>lo hi. pool_inv lo hi (pool_init base b e words) {}"
  using pool_init_inv' [OF assms] by blast

end
