(* ===== verification/Node_Pool.thy ===== *)
theory Node_Pool
  imports Pool_Inv
begin

text \<open>
  What the rest of the program relies on when it takes list nodes from the pool: the
  interface \<open>node_allocator\<close>, its interpretation on \<^verbatim>\<open>pool_allocator\<close> for the nodes of a
  \<^verbatim>\<open>std::list<cookie>\<close>, and the pool as a machine driven by well-behaved clients.
\<close>

section \<open>The interface\<close>

fun put_all :: "('s \<Rightarrow> 'a \<Rightarrow> 's outcome) \<Rightarrow> 's \<Rightarrow> 'a list \<Rightarrow> 's outcome" where
  "put_all put s [] = Ret s"
| "put_all put s (x # xs) = and_then (put s x) (\<lambda>s'. put_all put s' xs)"

locale node_allocator =
  fixes get :: "'s \<Rightarrow> ('s \<times> 'a) outcome"
    and put :: "'s \<Rightarrow> 'a \<Rightarrow> 's outcome"
    and inv :: "'s \<Rightarrow> 'a set \<Rightarrow> bool"
  assumes get_fresh: "inv s N \<Longrightarrow> get s = Ret (s', a) \<Longrightarrow> a \<notin> N"
    and get_inv: "inv s N \<Longrightarrow> get s = Ret (s', a) \<Longrightarrow> inv s' (insert a N)"
    and put_inv: "inv s N \<Longrightarrow> a \<in> N \<Longrightarrow> \<exists>s'. put s a = Ret s' \<and> inv s' (N - {a})"
begin

lemma put_all_inv:
  "inv s N \<Longrightarrow> distinct xs \<Longrightarrow> set xs \<subseteq> N \<Longrightarrow>
   \<exists>s'. put_all put s xs = Ret s' \<and> inv s' (N - set xs)"
proof (induction xs arbitrary: s N)
  case Nil
  then show ?case by simp
next
  case (Cons x xs)
  from Cons.prems obtain s1 where s1: "put s x = Ret s1" "inv s1 (N - {x})"
    using put_inv [of s N x] by auto
  have "\<exists>s'. put_all put s1 xs = Ret s' \<and> inv s' (N - {x} - set xs)"
    using Cons.prems by (intro Cons.IH [OF s1(2)]) auto
  with s1(1) show ?case by (auto simp: Diff_insert2 [symmetric])
qed

end

section \<open>Nodes of the cookie lists\<close>

text \<open>A node of \<^verbatim>\<open>std::list<cookie>\<close>: two links and the cookie.\<close>

definition sizeof_list_node :: size_t where
  "sizeof_list_node = 2 * sizeof_pointer + sizeof_cookie"

definition node_get :: "pool \<Rightarrow> (pool \<times> based_ptr) outcome" where
  "node_get p = allocate sizeof_list_node p 1"

definition node_put :: "pool \<Rightarrow> based_ptr \<Rightarrow> pool outcome" where
  "node_put p b = deallocate sizeof_list_node p b 1"

definition node_inv :: "pool \<Rightarrow> based_ptr set \<Rightarrow> bool" where
  "node_inv p N \<longleftrightarrow> (\<exists>lo hi L. pool_inv lo hi p L \<and> (\<lambda>b. (b, 64)) ` N \<subseteq> L)"

lemma sizeof_list_node_64: "sizeof_list_node = 64"
  by (simp add: sizeof_list_node_def size_consts)

lemma block_size_node: "block_size 64 = 64"
  by (simp add: block_size_def unat_pool_align sizeof_pointer_def max_def)

interpretation nodes: node_allocator node_get node_put node_inv
proof
  fix p N q b
  assume inv: "node_inv p N" and get: "node_get p = Ret (q, b)"
  then obtain lo hi L where L: "pool_inv lo hi p L" "(\<lambda>b. (b, 64)) ` N \<subseteq> L"
    by (auto simp: node_inv_def)
  from get have al: "pool_alloc p 64 = Ret (q, b)"
    by (simp add: node_get_def allocate_def sizeof_list_node_64)
  note r = pool_alloc_inv [OF L(1) _ _ al, unfolded block_size_node]
  show "b \<notin> N" using r(2) L(2) by auto
  show "node_inv q (insert b N)" using r(1) L(2) unfolding node_inv_def by fastforce
next
  fix p N b
  assume "node_inv p N" "b \<in> N"
  then obtain lo hi L where L: "pool_inv lo hi p L" "(\<lambda>b. (b, 64)) ` N \<subseteq> L" "(b, 64) \<in> L"
    unfolding node_inv_def by blast
  then obtain q where "pool_dealloc p b 64 = Ret q" "pool_inv lo hi q (L - {(b, 64)})"
    using pool_dealloc_inv [OF L(1), of 64 b] by (auto simp: block_size_node)
  with L(2) show "\<exists>q. node_put p b = Ret q \<and> node_inv q (N - {b})"
    unfolding node_put_def deallocate_def sizeof_list_node_64 node_inv_def by fastforce
qed

section \<open>The pool driven by its clients\<close>

text \<open>
  A client allocates, gives back a live block with the size it asked for, or stores words
  inside its live blocks (anything it likes there).
\<close>

inductive pool_step :: "pool \<times> block set \<Rightarrow> pool \<times> block set \<Rightarrow> bool" where
  alloc: "len \<noteq> 0 \<Longrightarrow> unat len + 15 < 2 ^ 64 \<Longrightarrow> pool_alloc p len = Ret (q, b) \<Longrightarrow>
    pool_step (p, L) (q, insert (b, block_size len) L)"
| dealloc: "len \<noteq> 0 \<Longrightarrow> unat len \<le> 64 \<Longrightarrow> (b, block_size len) \<in> L \<Longrightarrow> pool_dealloc p b len = Ret q \<Longrightarrow>
    pool_step (p, L) (q, L - {(b, block_size len)})"
| store: "(\<And>x. \<not> in_live L x \<Longrightarrow> w x = p_word p x) \<Longrightarrow> pool_step (p, L) (p\<lparr>p_word := w\<rparr>, L)"

inductive_cases pool_stepE: "pool_step (p, L) (q, M)"

lemma pool_step_inv: "pool_step (p, L) (q, M) \<Longrightarrow> pool_inv lo hi p L \<Longrightarrow> pool_inv lo hi q M"
  by (erule pool_stepE) (auto dest: pool_alloc_inv(1) pool_dealloc_inv intro: pool_client_write_inv)

lemma pool_steps_inv:
  "pool_step\<^sup>*\<^sup>* x y \<Longrightarrow> pool_inv lo hi (fst x) (snd x) \<Longrightarrow> pool_inv lo hi (fst y) (snd y)"
  by (induction rule: rtranclp_induct) (auto intro: pool_step_inv)

end
