(* ===== verification/Iovec.thy ===== *)
theory Iovec
  imports Umpi_Prelude
begin

text \<open>
  \<^verbatim>\<open>umpi_iovec\<close> of \<^verbatim>\<open>umpi.hh\<close>: the layout of a datatype. A contiguous type is one entry, its
  id and its length in bytes. A scattered type is an array: the id and the number of
  blocks, then the stride and the total length of one element, then one entry
  (displacement, length) per block. The object the C++ code reaches through an
  \<^verbatim>\<open>umpi_iovec *\<close> is the list of entries from that address on.
\<close>

datatype umpi_id =
    UMPI_ID_CONTIGUOUS | UMPI_ID_SCATTERED | UMPI_ID_PACKED | UMPI_ID_BYTE
  | UMPI_ID_CHAR | UMPI_ID_UNSIGNED_CHAR | UMPI_ID_SHORT | UMPI_ID_UNSIGNED_SHORT
  | UMPI_ID_INT | UMPI_ID_UNSIGNED | UMPI_ID_LONG | UMPI_ID_UNSIGNED_LONG
  | UMPI_ID_FLOAT | UMPI_ID_DOUBLE | UMPI_ID_LONG_DOUBLE

fun id_val :: "umpi_id \<Rightarrow> int" where
  "id_val UMPI_ID_CONTIGUOUS = 0"
| "id_val UMPI_ID_SCATTERED = 1"
| "id_val UMPI_ID_PACKED = 2"
| "id_val UMPI_ID_BYTE = 3"
| "id_val UMPI_ID_CHAR = 4"
| "id_val UMPI_ID_UNSIGNED_CHAR = 5"
| "id_val UMPI_ID_SHORT = 6"
| "id_val UMPI_ID_UNSIGNED_SHORT = 7"
| "id_val UMPI_ID_INT = 8"
| "id_val UMPI_ID_UNSIGNED = 9"
| "id_val UMPI_ID_LONG = 10"
| "id_val UMPI_ID_UNSIGNED_LONG = 11"
| "id_val UMPI_ID_FLOAT = 12"
| "id_val UMPI_ID_DOUBLE = 13"
| "id_val UMPI_ID_LONG_DOUBLE = 14"

record umpi_iovec =
  iv_dis :: int
  iv_len :: size_t

type_synonym iovecs = "umpi_iovec list"

definition iov_entry :: "int \<Rightarrow> size_t \<Rightarrow> umpi_iovec" where
  "iov_entry d n = \<lparr>iv_dis = d, iv_len = n\<rparr>"

definition iov_id :: "iovecs \<Rightarrow> int" where
  "iov_id xs = iv_dis (xs ! 0)"

definition iov_scattered :: "iovecs \<Rightarrow> bool" where
  "iov_scattered xs \<longleftrightarrow> iov_id xs = id_val UMPI_ID_SCATTERED"

definition iov_contiguous :: "iovecs \<Rightarrow> bool" where
  "iov_contiguous xs \<longleftrightarrow> iov_id xs \<noteq> id_val UMPI_ID_SCATTERED"

definition iov_size :: "iovecs \<Rightarrow> size_t" where
  "iov_size xs = (if iov_scattered xs then iv_len (xs ! 0) + 2 else 1)"

definition iov_count :: "iovecs \<Rightarrow> size_t" where
  "iov_count xs = (if iov_scattered xs then iv_len (xs ! 0) else 1)"

text \<open>\<^verbatim>\<open>contiguous() ? len_ : this[1].dis_\<close> has type \<^verbatim>\<open>size_t\<close> and is returned as \<^verbatim>\<open>ptrdiff_t\<close>.\<close>

definition iov_stride :: "iovecs \<Rightarrow> int" where
  "iov_stride xs = (if iov_contiguous xs then sint (iv_len (xs ! 0)) else iv_dis (xs ! 1))"

definition iov_len :: "iovecs \<Rightarrow> size_t" where
  "iov_len xs = (if iov_contiguous xs then iv_len (xs ! 0) else iv_len (xs ! 1))"

definition iov_derived :: "iovecs \<Rightarrow> bool" where
  "iov_derived xs \<longleftrightarrow> iov_id xs = id_val UMPI_ID_CONTIGUOUS \<or> iov_id xs = id_val UMPI_ID_SCATTERED"

definition iov_eq :: "iovecs \<Rightarrow> iovecs \<Rightarrow> bool" where
  "iov_eq xs ys \<longleftrightarrow> iov_size xs = iov_size ys \<and>
     take (unat (iov_size xs)) xs = take (unat (iov_size xs)) ys"

text \<open>The entries between \<^verbatim>\<open>begin()\<close> and \<^verbatim>\<open>end()\<close>.\<close>

definition iov_range :: "iovecs \<Rightarrow> iovecs" where
  "iov_range xs = drop (if iov_scattered xs then 2 else 0) (take (unat (iov_size xs)) xs)"

lemmas iov_defs = iov_id_def iov_scattered_def iov_contiguous_def iov_size_def iov_count_def
  iov_stride_def iov_len_def iov_derived_def iov_eq_def iov_range_def iov_entry_def

lemma iov_contiguous_iff: "iov_contiguous xs \<longleftrightarrow> \<not> iov_scattered xs"
  by (simp add: iov_contiguous_def iov_scattered_def)

section \<open>The predefined types\<close>

text \<open>The arrays the constructor of \<^verbatim>\<open>shared\<close> builds, with the sizes of x86-64 Linux.\<close>

fun predefined :: "umpi_id \<Rightarrow> iovecs option" where
  "predefined UMPI_ID_CONTIGUOUS = None"
| "predefined UMPI_ID_SCATTERED = None"
| "predefined UMPI_ID_PACKED = Some [iov_entry (id_val UMPI_ID_PACKED) 1]"
| "predefined UMPI_ID_BYTE = Some [iov_entry (id_val UMPI_ID_BYTE) 1]"
| "predefined UMPI_ID_CHAR = Some [iov_entry (id_val UMPI_ID_CHAR) 1]"
| "predefined UMPI_ID_UNSIGNED_CHAR = Some [iov_entry (id_val UMPI_ID_UNSIGNED_CHAR) 1]"
| "predefined UMPI_ID_SHORT = Some [iov_entry (id_val UMPI_ID_SHORT) 2]"
| "predefined UMPI_ID_UNSIGNED_SHORT = Some [iov_entry (id_val UMPI_ID_UNSIGNED_SHORT) 2]"
| "predefined UMPI_ID_INT = Some [iov_entry (id_val UMPI_ID_INT) 4]"
| "predefined UMPI_ID_UNSIGNED = Some [iov_entry (id_val UMPI_ID_UNSIGNED) 4]"
| "predefined UMPI_ID_LONG = Some [iov_entry (id_val UMPI_ID_LONG) 8]"
| "predefined UMPI_ID_UNSIGNED_LONG = Some [iov_entry (id_val UMPI_ID_UNSIGNED_LONG) 8]"
| "predefined UMPI_ID_FLOAT = Some [iov_entry (id_val UMPI_ID_FLOAT) 4]"
| "predefined UMPI_ID_DOUBLE = Some [iov_entry (id_val UMPI_ID_DOUBLE) 8]"
| "predefined UMPI_ID_LONG_DOUBLE = Some [iov_entry (id_val UMPI_ID_LONG_DOUBLE) 16]"

section \<open>Well-formed layouts\<close>

text \<open>
  The total length of a list of blocks, as a number, and what every constructor
  establishes: the header describes the array, the blocks lie inside one stride, and the
  recorded length is the sum of the block lengths.
\<close>

definition blocks_len :: "iovecs \<Rightarrow> nat" where
  "blocks_len bs = sum_list (map (unat \<circ> iv_len) bs)"

definition blocks_within :: "int \<Rightarrow> iovecs \<Rightarrow> bool" where
  "blocks_within stride bs \<longleftrightarrow> (\<forall>e \<in> set bs. 0 \<le> iv_dis e \<and> iv_dis e + int (unat (iv_len e)) \<le> stride)"

definition wf_iovec :: "iovecs \<Rightarrow> bool" where
  "wf_iovec xs \<longleftrightarrow>
     (if iov_id xs = id_val UMPI_ID_SCATTERED
      then length xs = unat (iv_len (xs ! 0)) + 2 \<and> length xs < 2 ^ 60 \<and>
        blocks_within (iv_dis (xs ! 1)) (drop 2 xs) \<and>
        unat (iv_len (xs ! 1)) = blocks_len (drop 2 xs) \<and> blocks_len (drop 2 xs) < 2 ^ 63
      else length xs = 1 \<and> iv_len (xs ! 0) < 2 ^ 63)"

lemma wf_iovec_range:
  "wf_iovec xs \<Longrightarrow> iov_range xs = (if iov_scattered xs then drop 2 xs else xs)"
proof (cases "iov_scattered xs")
  case True
  assume "wf_iovec xs"
  with True have l: "length xs = unat (iv_len (xs ! 0)) + 2" "length xs < 2 ^ 60"
    by (auto simp: wf_iovec_def iov_scattered_def)
  then have "unat (iv_len (xs ! 0) + 2) = unat (iv_len (xs ! 0)) + 2"
    by (simp add: unat_plus_if')
  with True l show ?thesis by (simp add: iov_range_def iov_size_def)
qed (simp add: wf_iovec_def iov_range_def iov_size_def iov_scattered_def)

lemma wf_iovec_size: "wf_iovec xs \<Longrightarrow> unat (iov_size xs) = length xs"
  by (auto simp: wf_iovec_def iov_size_def iov_scattered_def unat_plus_if' split: if_splits)

lemma wf_iovec_count: "wf_iovec xs \<Longrightarrow> unat (iov_count xs) = length (iov_range xs)"
  by (simp add: wf_iovec_range)
    (auto simp: wf_iovec_def iov_count_def iov_scattered_def split: if_splits)

lemma wf_iovec_blocks:
  "wf_iovec xs \<Longrightarrow> iov_scattered xs \<Longrightarrow> unat (iov_len xs) = blocks_len (iov_range xs)"
  "wf_iovec xs \<Longrightarrow> iov_scattered xs \<Longrightarrow> blocks_within (iov_stride xs) (iov_range xs)"
  by (simp_all add: wf_iovec_range)
    (auto simp: wf_iovec_def iov_len_def iov_stride_def iov_contiguous_def iov_scattered_def split: if_splits)

lemma wf_iovec_len63: "wf_iovec xs \<Longrightarrow> unat (iov_len xs) < 2 ^ 63"
  by (auto simp: wf_iovec_def iov_len_def iov_contiguous_def word_less_nat_alt split: if_splits)

lemma wf_iovec_eq: "wf_iovec xs \<Longrightarrow> wf_iovec ys \<Longrightarrow> iov_eq xs ys \<longleftrightarrow> xs = ys"
proof -
  assume "wf_iovec xs" "wf_iovec ys"
  note s = wf_iovec_size [OF this(1)] wf_iovec_size [OF this(2)]
  show ?thesis
  proof
    assume "iov_eq xs ys"
    then have "iov_size xs = iov_size ys" "take (unat (iov_size xs)) xs = take (unat (iov_size xs)) ys"
      by (auto simp: iov_eq_def)
    with s show "xs = ys" by simp
  qed (simp add: iov_eq_def)
qed

lemma wf_predefined: "predefined i = Some xs \<Longrightarrow> wf_iovec xs \<and> iov_contiguous xs \<and> \<not> iov_derived xs"
  by (cases i) (auto simp: wf_iovec_def iov_defs)

end
