(* ===== verification/Typed_Copy.thy ===== *)
theory Typed_Copy
  imports Iovec
begin

text \<open>
  Moving the bytes of typed buffers: the segment lists that \<^verbatim>\<open>umpi_copy\<close>,
  \<^verbatim>\<open>cookie::write_to_owner\<close> and \<^verbatim>\<open>cookie::read_from_owner\<close> build, the system calls they
  hand them to, and \<^verbatim>\<open>umpi_copy\<close> itself.

  \<^verbatim>\<open>process_vm_writev\<close> and \<^verbatim>\<open>process_vm_readv\<close> are calls of the Linux kernel: a parameter
  \<open>vm\<close> of the model that takes the memory, the source segments and the destination
  segments and gives the memory and the returned count. \<open>vm_ok\<close> and \<open>vm_frame\<close> state
  what their manual page promises.
\<close>

section \<open>The kernel calls\<close>

type_synonym vm = "mem \<Rightarrow> seg list \<Rightarrow> seg list \<Rightarrow> mem \<times> int"

definition vm_ok :: "vm \<Rightarrow> bool" where
  "vm_ok vm \<longleftrightarrow> (\<forall>m src dst.
     length src \<le> 1024 \<and> length dst \<le> 1024 \<and>
     distinct (segs_locs dst) \<and> set (segs_locs src) \<inter> set (segs_locs dst) = {} \<longrightarrow>
     (let n = min (length (segs_locs src)) (length (segs_locs dst))
      in vm m src dst = (write_locs m (take n (segs_locs dst)) (map m (take n (segs_locs src))), int n)))"

definition vm_frame :: "vm \<Rightarrow> bool" where
  "vm_frame vm \<longleftrightarrow> (\<forall>m src dst l. l \<notin> set (segs_locs dst) \<longrightarrow> fst (vm m src dst) l = m l)"

text \<open>A transfer that always succeeds: what the manual page describes, as a function.\<close>

definition vm_copy :: vm where
  "vm_copy m src dst =
     (let n = min (length (segs_locs src)) (length (segs_locs dst))
      in (write_locs m (take n (segs_locs dst)) (map m (take n (segs_locs src))), int n))"

lemma vm_ok_copy: "vm_ok vm_copy"
  by (simp add: vm_ok_def vm_copy_def)

lemma vm_frame_copy: "vm_frame vm_copy"
  by (auto simp: vm_frame_def vm_copy_def Let_def intro!: write_locs_other dest: in_set_takeD)

lemma vm_okD:
  assumes "vm_ok vm" "length src \<le> 1024" "length dst \<le> 1024" "distinct (segs_locs dst)"
    "set (segs_locs src) \<inter> set (segs_locs dst) = {}"
    "n = min (length (segs_locs src)) (length (segs_locs dst))"
  shows "vm m src dst = (write_locs m (take n (segs_locs dst)) (map m (take n (segs_locs src))), int n)"
  using assms unfolding vm_ok_def Let_def by blast

section \<open>Segments of a typed buffer\<close>

definition add_loc :: "loc \<Rightarrow> int \<Rightarrow> loc" where
  "add_loc l d = (fst l, snd l + d)"

text \<open>
  The \<^verbatim>\<open>struct iovec\<close> array for the elements \<open>from\<close> to \<open>till - 1\<close> of a buffer: one entry
  per block of each element of a scattered type, one entry of \<open>bytes\<close> bytes otherwise.
\<close>

definition type_segs :: "loc \<Rightarrow> iovecs \<Rightarrow> int \<Rightarrow> int \<Rightarrow> size_t \<Rightarrow> seg list" where
  "type_segs buf xs from till bytes =
     (if iov_scattered xs
      then concat (map (\<lambda>j. map (\<lambda>e. (add_loc buf (j * iov_stride xs + iv_dis e), iv_len e)) (iov_range xs))
        [from..till - 1])
      else [(add_loc buf (uint (size_of_int from * iov_len xs)), bytes)])"

definition umpi_copy ::
  "vm \<Rightarrow> mem \<Rightarrow> loc \<Rightarrow> iovecs \<Rightarrow> int \<Rightarrow> int \<Rightarrow> loc \<Rightarrow> iovecs \<Rightarrow> int \<Rightarrow> int \<Rightarrow> mem \<times> size_t" where
  "umpi_copy vm m read_buf read_iovec read_count read_skip write_buf write_iovec write_count write_seek =
     (let total_bytes = size_of_int read_count * iov_len read_iovec
      in if size_of_int write_count * iov_len write_iovec < total_bytes then (m, 0)
         else if iov_contiguous read_iovec \<and> iov_contiguous write_iovec
         then (memcpy m
                 (add_loc write_buf (uint (size_of_int write_seek * iov_len write_iovec)))
                 (add_loc read_buf (uint (size_of_int read_skip * iov_len read_iovec)))
                 (unat total_bytes), total_bytes)
         else let (m', n) = vm m
                  (type_segs read_buf read_iovec read_skip (read_skip + read_count) total_bytes)
                  (type_segs write_buf write_iovec write_seek (write_seek + write_count) total_bytes)
              in if sint total_bytes \<noteq> n then (m', 0) else (m', total_bytes))"

section \<open>The data bytes of a typed buffer\<close>

text \<open>
  The abstract view: the locations of the data bytes of element \<open>j\<close>, and of \<open>n\<close> elements
  from element \<open>from\<close> on, in the order of the type.
\<close>

definition elem_locs :: "loc \<Rightarrow> iovecs \<Rightarrow> int \<Rightarrow> loc list" where
  "elem_locs buf xs j =
     (if iov_scattered xs
      then concat (map (\<lambda>e. loc_range (add_loc buf (j * iov_stride xs + iv_dis e)) (unat (iv_len e))) (iov_range xs))
      else loc_range (add_loc buf (j * int (unat (iov_len xs)))) (unat (iov_len xs)))"

definition payload :: "loc \<Rightarrow> iovecs \<Rightarrow> int \<Rightarrow> int \<Rightarrow> loc list" where
  "payload buf xs from n = concat (map (elem_locs buf xs) [from..from + n - 1])"

lemma fst_add_loc [simp]: "fst (add_loc l d) = fst l"
  by (simp add: add_loc_def)

lemma snd_add_loc [simp]: "snd (add_loc l d) = snd l + d"
  by (simp add: add_loc_def)

lemma length_elem_locs [simp]:
  assumes "wf_iovec xs" shows "length (elem_locs buf xs j) = unat (iov_len xs)"
proof (cases "iov_scattered xs")
  case True
  have "length (elem_locs buf xs j) = blocks_len (iov_range xs)"
    using True by (simp add: elem_locs_def length_concat blocks_len_def comp_def)
  with True assms show ?thesis by (simp add: wf_iovec_blocks)
qed (simp add: elem_locs_def)

lemma length_payload:
  "wf_iovec xs \<Longrightarrow> 0 \<le> n \<Longrightarrow> length (payload buf xs from n) = nat n * unat (iov_len xs)"
  by (simp add: payload_def length_concat comp_def sum_list_triv)

lemma payload_0 [simp]: "payload buf xs from 0 = []"
  by (simp add: payload_def)

lemma upto_split:
  "0 \<le> n \<Longrightarrow> 0 \<le> k \<Longrightarrow> [a..a + (n + k) - 1] = [a..a + n - 1] @ [a + n..a + n + k - 1 :: int]"
  using upto_split1 [of a "a + n" "a + (n + k) - 1"] upto_split2 [of a "a + n - 1" "a + (n + k) - 1"]
  by (cases "k = 0") (auto simp: algebra_simps)

lemma payload_append:
  "0 \<le> n \<Longrightarrow> 0 \<le> k \<Longrightarrow> payload buf xs from (n + k) = payload buf xs from n @ payload buf xs (from + n) k"
  by (simp add: payload_def upto_split)

text \<open>Whole elements of a contiguous type are one byte range.\<close>

lemma payload_contiguous:
  assumes "\<not> iov_scattered xs" "0 \<le> n"
  shows "payload buf xs from n =
    loc_range (add_loc buf (from * int (unat (iov_len xs)))) (nat n * unat (iov_len xs))"
  using assms(2)
proof (induction n rule: int_ge_induct)
  case base
  then show ?case by simp
next
  case (step n)
  let ?w = "unat (iov_len xs)"
  have "payload buf xs from (n + 1) = payload buf xs from n @ elem_locs buf xs (from + n)"
    using step.hyps by (simp add: payload_append) (simp add: payload_def)
  also have "\<dots> = loc_range (add_loc buf (from * int ?w)) (nat n * ?w) @
      loc_range (add_loc buf ((from + n) * int ?w)) ?w"
    using step.IH assms(1) by (simp add: elem_locs_def)
  also have "\<dots> = loc_range (add_loc buf (from * int ?w)) (nat n * ?w + ?w)"
    using step.hyps
    by (subst loc_range_append) (simp add: add_loc_def distrib_right add.assoc)
  also have "nat n * ?w + ?w = nat (n + 1) * ?w"
    using step.hyps by (simp add: nat_add_distrib)
  finally show ?case .
qed

section \<open>Segments cover the data bytes\<close>

lemma uint_size_mult:
  assumes "0 \<le> n" "n * int (unat w) < 2 ^ 64"
  shows "uint (size_of_int n * w) = n * int (unat w)"
proof -
  have eq: "size_of_int n * w = word_of_int (n * uint w)"
    by (simp add: size_of_int_def)
  have "0 \<le> n * uint w" using assms(1) by simp
  with assms(2) show ?thesis
    unfolding eq uint_word_of_int_eq by (simp add: take_bit_int_eq_self)
qed

lemma unat_size_mult:
  assumes "0 \<le> n" "n * int (unat w) < 2 ^ 64"
  shows "unat (size_of_int n * w) = nat n * unat w"
proof -
  have "int (unat (size_of_int n * w)) = n * int (unat w)" using uint_size_mult [OF assms] by simp
  then show ?thesis using assms(1) by (metis int_nat_eq of_nat_eq_iff of_nat_mult)
qed

lemma segs_locs_concat: "segs_locs (concat sss) = concat (map segs_locs sss)"
  by (induction sss) auto

lemma segs_locs_scattered:
  "iov_scattered xs \<Longrightarrow> segs_locs (type_segs buf xs from till t) = payload buf xs from (till - from)"
proof -
  assume sc: "iov_scattered xs"
  then have "elem_locs buf xs = (\<lambda>j. concat (map (\<lambda>e. loc_range
      (add_loc buf (j * iov_stride xs + iv_dis e)) (unat (iv_len e))) (iov_range xs)))"
    by (auto simp: elem_locs_def)
  with sc show ?thesis
    by (simp add: type_segs_def payload_def segs_locs_concat comp_def)
      (simp add: segs_locs_def seg_locs_def comp_def)
qed

lemma segs_locs_contiguous:
  "\<not> iov_scattered xs \<Longrightarrow> segs_locs (type_segs buf xs from till t) =
     loc_range (add_loc buf (uint (size_of_int from * iov_len xs))) (unat t)"
  by (simp add: type_segs_def segs_locs_def seg_locs_def)

lemma length_type_segs:
  "length (type_segs buf xs from till t) =
     (if iov_scattered xs then nat (till - from) * length (iov_range xs) else 1)"
  by (simp add: type_segs_def length_concat comp_def sum_list_triv)

lemma type_segs_exact:
  assumes wf: "wf_iovec xs" and n: "0 \<le> from" "0 \<le> n" "(from + n) * int (unat (iov_len xs)) < 2 ^ 64"
  shows "segs_locs (type_segs buf xs from (from + n) (size_of_int n * iov_len xs)) = payload buf xs from n"
proof (cases "iov_scattered xs")
  case False
  have "n * int (unat (iov_len xs)) < 2 ^ 64" "from * int (unat (iov_len xs)) < 2 ^ 64"
    using n mult_right_mono [of n "from + n" "int (unat (iov_len xs))"]
      mult_right_mono [of "from" "from + n" "int (unat (iov_len xs))"] by linarith+
  with False n show ?thesis
    by (simp add: segs_locs_contiguous payload_contiguous uint_size_mult [simplified] unat_size_mult)
qed (simp add: segs_locs_scattered)

lemma type_segs_take:
  assumes wf: "wf_iovec xs" and n: "0 \<le> from" "from \<le> till" "till * int (unat (iov_len xs)) < 2 ^ 64"
    and t: "unat t \<le> nat (till - from) * unat (iov_len xs)"
  shows "take (unat t) (segs_locs (type_segs buf xs from till t)) = take (unat t) (payload buf xs from (till - from))"
    and "unat t \<le> length (segs_locs (type_segs buf xs from till t))"
    and "set (segs_locs (type_segs buf xs from till t)) \<subseteq> set (payload buf xs from (till - from))"
proof -
  let ?S = "segs_locs (type_segs buf xs from till t)"
  have "take (unat t) ?S = take (unat t) (payload buf xs from (till - from)) \<and> unat t \<le> length ?S \<and>
    set ?S \<subseteq> set (payload buf xs from (till - from))"
  proof (cases "iov_scattered xs")
    case True
    with n t show ?thesis by (simp add: segs_locs_scattered length_payload [OF wf])
  next
    case False
    have "from * int (unat (iov_len xs)) < 2 ^ 64"
      using n mult_right_mono [of "from" till "int (unat (iov_len xs))"] by linarith
    with n have u: "uint (size_of_int from * iov_len xs) = from * int (unat (iov_len xs))"
      by (rule_tac uint_size_mult)
    have "?S = take (unat t) (payload buf xs from (till - from))"
      using False n t by (simp add: segs_locs_contiguous payload_contiguous u min_def)
    with t show ?thesis
      by (simp add: length_payload [OF wf] n) (metis set_take_subset)
  qed
  then show "take (unat t) ?S = take (unat t) (payload buf xs from (till - from))" "unat t \<le> length ?S"
    "set ?S \<subseteq> set (payload buf xs from (till - from))" by auto
qed

text \<open>The data bytes lie between the first and the last element, an extent apart.\<close>

lemma wf_iovec_stride:
  assumes "wf_iovec xs" "\<not> iov_scattered xs" shows "iov_stride xs = int (unat (iov_len xs))"
  using assms by (auto simp: wf_iovec_def iov_stride_def iov_contiguous_iff iov_scattered_def iov_len_def
      word_less_nat_alt sint_small)

lemma elem_locs_within:
  assumes wf: "wf_iovec xs" and l: "(sp, a) \<in> set (elem_locs buf xs j)"
  shows "sp = fst buf \<and> snd buf + j * iov_stride xs \<le> a \<and> a < snd buf + (j + 1) * iov_stride xs"
proof (cases "iov_scattered xs")
  case True
  with l obtain e where e: "e \<in> set (iov_range xs)"
      "(sp, a) \<in> set (loc_range (add_loc buf (j * iov_stride xs + iv_dis e)) (unat (iv_len e)))"
    by (auto simp: elem_locs_def)
  then have "0 \<le> iv_dis e" "iv_dis e + int (unat (iv_len e)) \<le> iov_stride xs"
    using wf_iovec_blocks(2) [OF wf True] by (auto simp: blocks_within_def)
  with e(2) show ?thesis by (auto simp: in_loc_range algebra_simps)
next
  case False
  with l show ?thesis
    by (auto simp: elem_locs_def in_loc_range wf_iovec_stride [OF wf] algebra_simps)
qed

lemma payload_within:
  assumes wf: "wf_iovec xs" and s: "0 \<le> iov_stride xs" and l: "(sp, a) \<in> set (payload buf xs from n)"
  shows "sp = fst buf \<and> snd buf + from * iov_stride xs \<le> a \<and> a < snd buf + (from + n) * iov_stride xs"
proof -
  from l obtain j where j: "from \<le> j" "j \<le> from + n - 1" "(sp, a) \<in> set (elem_locs buf xs j)"
    by (auto simp: payload_def)
  have "from * iov_stride xs \<le> j * iov_stride xs" "(j + 1) * iov_stride xs \<le> (from + n) * iov_stride xs"
    using j(1,2) s by (auto intro: mult_right_mono)
  with elem_locs_within [OF wf j(3)] show ?thesis by linarith
qed

end
