(* ===== verification/Pool_Props.thy ===== *)
theory Pool_Props
  imports Node_Pool Typed_Copy
begin

text \<open>
  Properties of the based pointers and of the pool of the shared segment.
\<close>

section \<open>Based pointers\<close>

text \<open>Position independence. A based pointer made in a process that has the segment mapped at
  \<open>base\<close> denotes, in a process that has it mapped at \<open>base'\<close>, the same byte of the segment; it is not
  the null based pointer unless it lies exactly 2^63 bytes from the base.\<close>
theorem based_ptr_round_trip:
  assumes "p \<noteq> 0" "p - base \<noteq> 9223372036854775808"
  shows "bp_to_addr base (bp_of_addr base p) = p \<and>
    bp_to_addr base' (bp_of_addr base p) - base' = p - base \<and> bp_bool (bp_of_addr base p)"
proof -
  have "(- 9223372036854775808 :: size_t) = 9223372036854775808" by code_simp
  with assms(2) have "p - base \<noteq> - 9223372036854775808" by metis
  then show ?thesis using assms by (simp add: bp_to_addr_def bp_bool_def bp_of_addr_def bp_null_def)
qed

lemma based_ptr_round_trip_witness:
  "bp_to_addr 4096 (bp_of_addr 4096 4112) = 4112 \<and> bp_to_addr 8192 (bp_of_addr 4096 4112) - 8192 = 16"
  using based_ptr_round_trip [of 4112 4096 8192] by simp

text \<open>The difference of based pointers is the number of elements between them when the first is not
  below the second, and for elements of two or more bytes it is never negative: a negative
  difference comes out as a huge positive number.\<close>
lemma bp_diff_sign:
  assumes "0 < k" "k < 2 ^ 63 div unat sz" "2 \<le> unat sz" "unat sz < 2 ^ 31"
  shows "bp_diff sz (bp_add sz b (int k)) b = int k \<and> 0 < bp_diff sz b (bp_add sz b (int k))"
proof -
  have kn: "int k * int (unat sz) < 2 ^ 63"
  proof -
    have "k * unat sz \<le> (2 ^ 63 div unat sz - 1) * unat sz" using assms by (intro mult_le_mono1) linarith
    also have "\<dots> < 2 ^ 63 div unat sz * unat sz" using assms by (simp add: diff_mult_distrib)
    also have "\<dots> \<le> 2 ^ 63" by simp
    finally show ?thesis by (metis of_nat_less_iff of_nat_mult of_nat_numeral of_nat_power)
  qed
  let ?d = "size_of_int (int k) * sz"
  have ud: "unat ?d = k * unat sz" using kn by (subst unat_size_mult) simp_all
  have d1: "unat (?d div sz) = k" using ud assms by (simp add: unat_div)
  have k63: "k < 2 ^ 63" using assms by (meson div_le_dividend less_le_trans)
  then have s1: "sint (?d div sz) = int k" using d1 by (subst sint_small) simp_all
  have "unat (- ?d) = 2 ^ 64 - k * unat sz"
  proof -
    have "?d \<noteq> 0" using ud assms by (metis mult_is_0 nat_less_le not_numeral_le_zero unat_0)
    then have "\<not> unat ?d \<le> 0" by (simp only: le_zero_eq unat_eq_0 not_False_eq_True)
    then show ?thesis using unat_sub_if' [of 0 ?d] ud by simp
  qed
  then have d2: "unat ((- ?d) div sz) = (2 ^ 64 - k * unat sz) div unat sz" by (simp add: unat_div)
  have lt: "(2 ^ 64 - k * unat sz) div unat sz < 2 ^ 63"
  proof -
    have "(2 ^ 64 - k * unat sz) div unat sz \<le> (2 ^ 64 - k * unat sz) div 2"
      using assms by (intro div_le_mono2) simp_all
    also have "0 < k * unat sz" using assms by simp
    then have "2 ^ 64 - k * unat sz < 2 ^ 63 * 2" by simp
    then have "(2 ^ 64 - k * unat sz) div 2 < 2 ^ 63" by (rule less_mult_imp_div_less)
    finally show ?thesis .
  qed
  have "k * unat sz < 2 ^ 63" using kn by (metis of_nat_less_iff of_nat_mult of_nat_numeral of_nat_power)
  then have "unat sz \<le> 2 ^ 64 - k * unat sz" using assms(4) by simp
  then have gt: "0 < (2 ^ 64 - k * unat sz) div unat sz" using assms by (simp add: div_greater_zero_iff)
  have s2: "sint ((- ?d) div sz) = int ((2 ^ 64 - k * unat sz) div unat sz)"
    using d2 lt by (subst sint_small) simp_all
  show ?thesis
    using s1 s2 gt by (simp add: bp_diff_def bp_add_def mult.commute)
qed

lemma bp_diff_sign_witness: "bp_diff 64 (BP 128) (BP 0) = 2 \<and> 0 < bp_diff 64 (BP 0) (BP 128)"
  using bp_diff_sign [of 2 64 "BP 0"] by (simp add: bp_add_def size_of_int_def)

section \<open>The pool\<close>

text \<open>C24: Memory safety of the pool over all runs. From the state its constructor builds on a segment
  that is mapped on a 16-byte boundary, whatever sequence of allocations, deallocations of live
  blocks and stores into live blocks the ranks perform, every live block is aligned to 16 bytes and
  inside the segment, and different live blocks do not overlap each other or a free block.\<close>
theorem pool_run_safe:
  assumes init: "16 dvd unat base" "0 < unat base" "unat base \<le> unat b" "unat b + 32 \<le> unat e"
      "unat e - unat base < 2 ^ 63"
    and run: "pool_step\<^sup>*\<^sup>* (pool_init base b e words, {}) (q, L)" and x: "x \<in> L"
  shows "16 dvd pos (fst x) \<and> pos (fst x) + snd x \<le> unat e - unat base \<and>
    (\<forall>y. y \<in> L \<union> free_blocks q \<and> y \<noteq> x \<longrightarrow> apart x y)"
proof -
  obtain lo hi where i: "pool_inv lo hi (pool_init base b e words) {}" "hi \<le> unat e - unat base"
    using pool_init_inv' [OF init, of words] by blast
  have inv: "pool_inv lo hi q L" using pool_steps_inv [OF run] i by simp
  then have "block_ok lo (pos (p_begin q)) x" using pool_inv_block [OF inv] x by blast
  moreover have "pos (p_begin q) \<le> hi" using inv by (auto simp: pool_inv_def)
  moreover have "all_apart (L \<union> free_blocks q)" by (rule pool_inv_apart [OF inv])
  ultimately show ?thesis using x i(2) unfolding all_apart_def block_ok_def by auto
qed

lemma demo_alloc: "\<exists>q. pool_alloc (pool_init 4096 4096 8192 (\<lambda>_. bp_null)) 48 = Ret (q, BP 0)"
proof -
  have "(case pool_alloc (pool_init 4096 4096 8192 (\<lambda>_. bp_null)) 48 of Ret (q, b) \<Rightarrow> Some b | _ \<Rightarrow> None) = Some (BP 0)"
    by code_simp
  then show ?thesis by (auto split: outcome.splits)
qed

lemma block_size_48: "block_size 48 = 48"
  by (simp add: block_size_def unat_pool_align sizeof_pointer_def max_def)

lemma pool_run_safe_witness:
  "\<exists>q. pool_step\<^sup>*\<^sup>* (pool_init 4096 4096 8192 (\<lambda>_. bp_null), {}) (q, {(BP 0, 48)}) \<and> pos (BP 0) + 48 \<le> 4096"
proof -
  obtain q where q: "pool_alloc (pool_init 4096 4096 8192 (\<lambda>_. bp_null)) 48 = Ret (q, BP 0)"
    using demo_alloc by blast
  have "pool_step (pool_init 4096 4096 8192 (\<lambda>_. bp_null), {}) (q, insert (BP 0, block_size 48) {})"
    by (rule pool_step.alloc [OF _ _ q]) simp_all
  then have run: "pool_step\<^sup>*\<^sup>* (pool_init 4096 4096 8192 (\<lambda>_. bp_null), {}) (q, {(BP 0, 48)})"
    by (simp add: block_size_48)
  then show ?thesis
    using pool_run_safe [OF _ _ _ _ _ run, of "(BP 0, 48)"] by auto
qed

text \<open>An allocation hands out a new block: at least the bytes asked for, overlapping no live block.\<close>
theorem pool_alloc_fresh:
  assumes inv: "pool_inv lo hi p L" and len: "len \<noteq> 0" "unat len + 15 < 2 ^ 64"
    and ret: "pool_alloc p len = Ret (q, b)"
  shows "unat len \<le> block_size len \<and> 16 dvd pos b \<and> lo \<le> pos b \<and> pos b + block_size len \<le> hi \<and>
    (\<forall>y. y \<in> L \<longrightarrow> apart (b, block_size len) y)"
proof -
  note a = pool_alloc_inv [OF inv len ret]
  have "block_ok lo (pos (p_begin q)) (b, block_size len)" using pool_inv_block [OF a(1)] by blast
  moreover have "pos (p_begin q) \<le> hi" using a(1) by (auto simp: pool_inv_def)
  moreover have "apart (b, block_size len) y" if "y \<in> L" for y
  proof -
    have "(b, block_size len) \<noteq> y" using that a(2) by auto
    then show ?thesis
      using pool_inv_apart [OF a(1), unfolded all_apart_def, THEN bspec, THEN bspec, of "(b, block_size len)" y] that
      by simp
  qed
  ultimately show ?thesis using block_size_props [OF len(2)] by (auto simp: block_ok_def)
qed

lemma pool_alloc_fresh_witness:
  "\<exists>q. pool_alloc (pool_init 4096 4096 8192 (\<lambda>_. bp_null)) 48 = Ret (q, BP 0) \<and> 48 \<le> block_size 48"
proof -
  obtain q where q: "pool_alloc (pool_init 4096 4096 8192 (\<lambda>_. bp_null)) 48 = Ret (q, BP 0)"
    using demo_alloc by blast
  obtain lo hi where "pool_inv lo hi (pool_init 4096 4096 8192 (\<lambda>_. bp_null)) {}"
    using pool_init_inv [of 4096 4096 8192 "\<lambda>_. bp_null"] by auto
  from q pool_alloc_fresh [OF this _ _ q] show ?thesis by auto
qed

text \<open>C25: Freed blocks are used again, last in first out: after \<^verbatim>\<open>dealloc(b, len)\<close> of a live block of at
  most \<^verbatim>\<open>max_dealloc_size\<close> bytes the next \<^verbatim>\<open>alloc(len)\<close> succeeds and returns \<^verbatim>\<open>b\<close>, and the pool is
  in the state it was in before.\<close>
theorem pool_reuse:
  assumes inv: "pool_inv lo hi p L" and len: "len \<noteq> 0" "unat len \<le> 64" and b: "(b, block_size len) \<in> L"
  shows "\<exists>q r. pool_dealloc p b len = Ret q \<and> pool_alloc q len = Ret (r, b) \<and> pool_inv lo hi r L \<and>
    p_first r = p_first p \<and> p_count r = p_count p \<and> p_space r = p_space p \<and> p_begin r = p_begin p"
proof -
  obtain q where q: "pool_dealloc p b len = Ret q" "pool_inv lo hi q (L - {(b, block_size len)})"
    using pool_dealloc_inv [OF inv len b] by blast
  obtain r where r: "pool_alloc q len = Ret (r, b)"
    using pool_alloc_after_dealloc [OF inv len b q(1)] by blast
  have "pool_inv lo hi r (insert (b, block_size len) (L - {(b, block_size len)}))"
    using pool_alloc_inv(1) [OF q(2) len(1) _ r] len(2) by simp
  then have ir: "pool_inv lo hi r L" using b by (simp add: insert_absorb)
  let ?i = "pool_list (pool_align (max sizeof_pointer len))"
  have i: "?i < list_size" and qp: "q = pool_push p ?i b"
    using len(1) q(1) by (auto simp: pool_dealloc_def Let_def not_le split: if_splits)
  have i4: "unat ?i < 4" using i by (simp add: pool_list_small)
  have len4: "length (p_count p) = 4" "length (p_first p) = 4" using inv by (auto simp: pool_inv_def)
  have "unat (p_count p ! unat ?i) < 2 ^ 63"
    using free_list_short [OF inv i4] by (simp add: free_list_def)
  then have "unat (p_count p ! unat ?i + 1) \<noteq> 0" by (simp add: unat_plus_if')
  then have ne: "\<not> pool_empty q ?i" using i4 len4 by (auto simp: qp pool_empty_def pool_push_def)
  then have "pool_pop q ?i = (r, b)" using r i len(1) by (simp add: pool_alloc_def Let_def)
  then have rq: "r = fst (pool_pop q ?i)" by simp
  have eq: "p_first r = p_first p \<and> p_count r = p_count p \<and> p_space r = p_space p \<and> p_begin r = p_begin p"
    unfolding rq qp using i4 len4 by (simp add: pool_pop_def pool_push_def)
  show ?thesis using q(1) r ir eq by blast
qed

lemma pool_reuse_witness:
  "\<exists>p q r. pool_dealloc p (BP 0) 48 = Ret q \<and> pool_alloc q 48 = Ret (r, BP 0) \<and> p_count r = p_count p"
proof -
  obtain p where p: "pool_alloc (pool_init 4096 4096 8192 (\<lambda>_. bp_null)) 48 = Ret (p, BP 0)"
    using demo_alloc by blast
  obtain lo hi where "pool_inv lo hi (pool_init 4096 4096 8192 (\<lambda>_. bp_null)) {}"
    using pool_init_inv [of 4096 4096 8192 "\<lambda>_. bp_null"] by auto
  then have "pool_inv lo hi p {(BP 0, block_size 48)}" using pool_alloc_inv(1) [OF _ _ _ p] by simp
  from pool_reuse [OF this, of 48 "BP 0"] show ?thesis by auto
qed

text \<open>The pool ends the program exactly when it must: an allocation exits with status 1 if and only if
  the size class has no free block and the rest of the segment is smaller than the block; otherwise it
  returns a block.\<close>
theorem pool_alloc_exhausted_iff:
  assumes "len \<noteq> 0"
  shows "(pool_alloc p len = Exit 1 \<longleftrightarrow>
      unat (p_space p) < block_size len \<and>
      \<not> (pool_list (pool_align (max sizeof_pointer len)) < list_size \<and>
         \<not> pool_empty p (pool_list (pool_align (max sizeof_pointer len))))) \<and>
    (pool_alloc p len = Exit 1 \<or> (\<exists>q b. pool_alloc p len = Ret (q, b)))"
  using pool_alloc_exit_iff [OF assms, of p] pool_alloc_total [OF assms, of p]
  by (metis outcome.distinct(1))

lemma pool_alloc_exhausted_iff_witness:
  "pool_alloc (pool_init 4096 4096 8192 (\<lambda>_. bp_null)) 4096 = Exit 1 \<or>
   (\<exists>q b. pool_alloc (pool_init 4096 4096 8192 (\<lambda>_. bp_null)) 4096 = Ret (q, b))"
  by (rule conjunct2 [OF pool_alloc_exhausted_iff]) simp

text \<open>The one request the size check misses: for the 15 largest sizes the rounding up wraps to 0, and
  the pool returns the current end of the used part as if it had reserved the memory, changing
  nothing, so that the next block overlaps it.\<close>
lemma pool_alloc_overflow:
  assumes "2 ^ 64 \<le> unat len + 15"
  shows "pool_alloc p len = Ret (p, p_begin p)"
proof -
  have l0: "len \<noteq> 0" using assms by auto
  have "max sizeof_pointer len = len"
    using assms by (simp add: max_def sizeof_pointer_def word_le_nat_alt)
  then have "unat (pool_align (max sizeof_pointer len)) = 0" using assms by (simp add: unat_pool_align)
  then have a: "pool_align (max sizeof_pointer len) = 0" by (simp add: unat_eq_0)
  have "\<not> pool_list 0 < list_size" by (simp add: pool_list_def size_consts word_less_nat_alt unat_div)
  then show ?thesis
    using l0 a by (cases "p_begin p") (simp add: pool_alloc_def Let_def bp_add_def size_of_int_def)
qed

lemma pool_alloc_overflow_witness:
  "pool_alloc (pool_init 4096 4096 8192 (\<lambda>_. bp_null)) 18446744073709551615 = Ret (pool_init 4096 4096 8192 (\<lambda>_. bp_null), BP 0)"
proof -
  have "p_begin (pool_init 4096 4096 8192 (\<lambda>_. bp_null)) = BP 0" by code_simp
  then show ?thesis
    using pool_alloc_overflow [of 18446744073709551615 "pool_init 4096 4096 8192 (\<lambda>_. bp_null)"] by simp
qed

end
