(* ===== verification/Datatypes.thy ===== *)
theory Datatypes
  imports Typed_Copy Node_Pool
begin

text \<open>
  Derived datatypes (\<^verbatim>\<open>MPI_Type_*\<close> and \<^verbatim>\<open>shared::commit\<close> of \<^verbatim>\<open>umpi.cc\<close>, \<^verbatim>\<open>struct umpi_datatype\<close>
  of \<^verbatim>\<open>umpi.hh\<close>) as one process sees them: its private arrays of layout entries by address, its
  \<^verbatim>\<open>umpi_datatype\<close> objects by address, and the arrays committed to the shared segment by based
  pointer. An \<^verbatim>\<open>MPI_Datatype\<close> is the address of an object, 0 the null pointer. The addresses that
  \<^verbatim>\<open>new\<close> returns are arguments (\<open>na\<close> for the array, \<open>nt\<close> for the object).

  Reading an object or array that does not exist is \<open>Undef\<close>; so is a negative count, for which
  the C++ code writes outside the array it allocates or throws out of the C interface.
\<close>

section \<open>State\<close>

record dtypes =
  t_init :: bool
  t_base :: addr
  t_maplen :: size_t
  t_heap :: "addr \<Rightarrow> iovecs option"
  t_types :: "addr \<Rightarrow> based_ptr option"
  t_shm :: "based_ptr \<Rightarrow> iovecs option"
  t_pool :: pool
  t_committed :: "based_ptr list"

definition dt_committed :: "dtypes \<Rightarrow> based_ptr \<Rightarrow> bool" where
  "dt_committed S b \<longleftrightarrow> t_base S \<le> bp_to_addr (t_base S) b \<and> bp_to_addr (t_base S) b < t_base S + t_maplen S"

text \<open>The array a based pointer of this process points to.\<close>

definition iov_at :: "dtypes \<Rightarrow> based_ptr \<Rightarrow> iovecs option" where
  "iov_at S b = (if dt_committed S b then t_shm S b else t_heap S (bp_to_addr (t_base S) b))"

definition type_layout :: "dtypes \<Rightarrow> addr \<Rightarrow> iovecs option" where
  "type_layout S h = (case t_types S h of None \<Rightarrow> None | Some b \<Rightarrow> iov_at S b)"

definition with_layout :: "dtypes \<Rightarrow> addr \<Rightarrow> (iovecs \<Rightarrow> 'a outcome) \<Rightarrow> 'a outcome" where
  "with_layout S h f = (case type_layout S h of None \<Rightarrow> Undef | Some xs \<Rightarrow> f xs)"

definition null_type :: "dtypes \<Rightarrow> addr \<Rightarrow> bool" where
  "null_type S h \<longleftrightarrow> h = 0 \<or> t_types S h = Some bp_null"

text \<open>\<^verbatim>\<open>*newtype = new umpi_datatype(iovec)\<close>.\<close>

definition new_type :: "dtypes \<Rightarrow> iovecs \<Rightarrow> addr \<Rightarrow> addr \<Rightarrow> dtypes \<times> addr \<times> int" where
  "new_type S xs na nt =
     (S\<lparr>t_heap := (t_heap S)(na := Some xs), t_types := (t_types S)(nt := Some (bp_of_addr (t_base S) na))\<rparr>,
      nt, MPI_SUCCESS)"

section \<open>Constructors\<close>

definition scattered_iov :: "size_t \<Rightarrow> int \<Rightarrow> size_t \<Rightarrow> iovecs \<Rightarrow> iovecs" where
  "scattered_iov n stride bytes es = iov_entry (id_val UMPI_ID_SCATTERED) n # iov_entry stride bytes # es"

definition contiguous_layout :: "int \<Rightarrow> iovecs \<Rightarrow> iovecs" where
  "contiguous_layout count xs =
     (if iov_contiguous xs
      then [iov_entry (id_val UMPI_ID_CONTIGUOUS) (size_of_int count * iov_len xs)]
      else
        let oldcount = iov_count xs;
            newcount = size_of_int count * oldcount
        in scattered_iov newcount (sint (size_of_int count * size_of_int (iov_stride xs)))
             (size_of_int count * iov_len xs)
             (concat (replicate (unat newcount div unat oldcount) (iov_range xs))))"

definition MPI_Type_contiguous ::
  "dtypes \<Rightarrow> int \<Rightarrow> addr \<Rightarrow> bool \<Rightarrow> addr \<Rightarrow> addr \<Rightarrow> (dtypes \<times> addr \<times> int) outcome" where
  "MPI_Type_contiguous S count oldtype newtype na nt =
     (if \<not> t_init S \<or> null_type S oldtype \<or> \<not> newtype then Ret (S, 0, MPI_FAIL)
      else with_layout S oldtype (\<lambda>xs.
        if iov_scattered xs \<and> count < 0 then Undef
        else Ret (new_type S (contiguous_layout count xs) na nt)))"

text \<open>The entries of \<^verbatim>\<open>hindexed\<close> and \<^verbatim>\<open>struct\<close>: displacement, block length, length of the block's type.\<close>

fun layout_loop :: "(int \<times> int \<times> size_t) list \<Rightarrow> int \<Rightarrow> size_t \<Rightarrow> iovecs \<Rightarrow> int \<times> size_t \<times> iovecs" where
  "layout_loop [] stride bytes es = (stride, bytes, rev es)"
| "layout_loop ((dis, n, w) # bs) stride bytes es =
     (let len = size_of_int n * w
      in layout_loop bs (max (sint (size_of_int dis + len)) stride) (bytes + len) (iov_entry dis len # es))"

definition block_layout :: "(int \<times> int \<times> size_t) list \<Rightarrow> iovecs" where
  "block_layout bs = (let (stride, bytes, es) = layout_loop bs 0 0 []
     in scattered_iov (of_nat (length bs)) stride bytes es)"

definition bad_block :: "int \<times> int \<Rightarrow> bool" where
  "bad_block b \<longleftrightarrow> fst b = 0 \<or> snd b < 0"

text \<open>The arrays are the first \<open>count\<close> elements of lists; \<open>None\<close> is a null pointer.\<close>

definition MPI_Type_create_hindexed ::
  "dtypes \<Rightarrow> int \<Rightarrow> int list option \<Rightarrow> int list option \<Rightarrow> addr \<Rightarrow> bool \<Rightarrow> addr \<Rightarrow> addr \<Rightarrow>
     (dtypes \<times> addr \<times> int) outcome" where
  "MPI_Type_create_hindexed S count lens diss oldtype newtype na nt =
     (case (lens, diss) of
        (Some ls, Some ds) \<Rightarrow>
          if \<not> t_init S \<or> count = 0 \<or> null_type S oldtype then Ret (S, 0, MPI_FAIL)
          else with_layout S oldtype (\<lambda>xs.
            if iov_scattered xs \<or> \<not> newtype then Ret (S, 0, MPI_FAIL)
            else if count < 0 then Undef
            else let n = nat count
              in if list_ex bad_block (zip (take n ls) (take n ds)) then Ret (S, 0, MPI_FAIL)
                 else Ret (new_type S (block_layout (map (\<lambda>(l, d). (d, l, iov_len xs)) (zip (take n ls) (take n ds)))) na nt))
      | _ \<Rightarrow> Ret (S, 0, MPI_FAIL))"

fun struct_blocks :: "dtypes \<Rightarrow> (int \<times> int \<times> addr) list \<Rightarrow> (int \<times> int \<times> size_t) list option outcome" where
  "struct_blocks S [] = Ret (Some [])"
| "struct_blocks S ((l, d, h) # bs) =
     (if l = 0 \<or> d < 0 then Ret None
      else with_layout S h (\<lambda>xs.
        if iov_scattered xs then Ret None
        else and_then (struct_blocks S bs)
               (\<lambda>r. Ret (case r of None \<Rightarrow> None | Some rs \<Rightarrow> Some ((d, l, iov_len xs) # rs)))))"

definition MPI_Type_create_struct ::
  "dtypes \<Rightarrow> int \<Rightarrow> int list option \<Rightarrow> int list option \<Rightarrow> addr list option \<Rightarrow> bool \<Rightarrow> addr \<Rightarrow> addr \<Rightarrow>
     (dtypes \<times> addr \<times> int) outcome" where
  "MPI_Type_create_struct S count lens diss types newtype na nt =
     (case (lens, diss, types) of
        (Some ls, Some ds, Some ts) \<Rightarrow>
          if \<not> t_init S \<or> count = 0 \<or> \<not> newtype then Ret (S, 0, MPI_FAIL)
          else if count < 0 then Undef
          else let n = nat count
            in and_then (struct_blocks S (zip (take n ls) (zip (take n ds) (take n ts))))
                 (\<lambda>r. case r of None \<Rightarrow> Ret (S, 0, MPI_FAIL)
                      | Some bs \<Rightarrow> Ret (new_type S (block_layout bs) na nt))
      | _ \<Rightarrow> Ret (S, 0, MPI_FAIL))"

definition resized_layout :: "int \<Rightarrow> iovecs \<Rightarrow> iovecs" where
  "resized_layout extent xs =
     (if iov_contiguous xs then scattered_iov 1 extent (iov_len xs) [iov_entry 0 (iov_len xs)]
      else (take (unat (iov_size xs)) xs)[1 := (xs ! 1)\<lparr>iv_dis := extent\<rparr>])"

definition MPI_Type_create_resized ::
  "dtypes \<Rightarrow> addr \<Rightarrow> int \<Rightarrow> int \<Rightarrow> bool \<Rightarrow> addr \<Rightarrow> addr \<Rightarrow> (dtypes \<times> addr \<times> int) outcome" where
  "MPI_Type_create_resized S oldtype lb extent newtype na nt =
     (if \<not> t_init S \<or> null_type S oldtype \<or> lb \<noteq> 0 then Ret (S, 0, MPI_FAIL)
      else with_layout S oldtype (\<lambda>xs.
        if extent < iov_stride xs \<or> \<not> newtype then Ret (S, 0, MPI_FAIL)
        else Ret (new_type S (resized_layout extent xs) na nt)))"

section \<open>Commit and free\<close>

definition sizeof_iovec :: size_t where "sizeof_iovec = 16"

text \<open>A node of the \<^verbatim>\<open>forward_list\<close> of committed layouts: a link and a based pointer.\<close>

definition sizeof_forward_node :: size_t where "sizeof_forward_node = 16"

text \<open>\<^verbatim>\<open>delete &(*iovec)\<close>: deleting what \<^verbatim>\<open>new\<close> has not returned is undefined.\<close>

definition delete_iov :: "dtypes \<Rightarrow> based_ptr \<Rightarrow> dtypes outcome" where
  "delete_iov S b =
     (let a = bp_to_addr (t_base S) b
      in if t_heap S a = None then Undef else Ret (S\<lparr>t_heap := (t_heap S)(a := None)\<rparr>))"

definition same_layout :: "dtypes \<Rightarrow> iovecs \<Rightarrow> based_ptr \<Rightarrow> bool" where
  "same_layout S xs e \<longleftrightarrow> (case t_shm S e of None \<Rightarrow> False | Some ys \<Rightarrow> iov_eq ys xs)"

definition commit :: "dtypes \<Rightarrow> based_ptr \<Rightarrow> (dtypes \<times> based_ptr) outcome" where
  "commit S b =
     (case iov_at S b of
        None \<Rightarrow> Undef
      | Some xs \<Rightarrow>
          (case find (same_layout S xs) (t_committed S) of
             Some e \<Rightarrow> and_then (delete_iov S b) (\<lambda>S'. Ret (S', e))
           | None \<Rightarrow>
               and_then (allocate sizeof_iovec (t_pool S) (iov_size xs)) (\<lambda>(p1, tmp).
               and_then (allocate sizeof_forward_node p1 1) (\<lambda>(p2, _).
               and_then (delete_iov (S\<lparr>t_pool := p2, t_shm := (t_shm S)(tmp := Some (take (unat (iov_size xs)) xs)),
                                       t_committed := tmp # t_committed S\<rparr>) b)
                 (\<lambda>S'. Ret (S', tmp))))))"

definition MPI_Type_commit :: "dtypes \<Rightarrow> addr \<Rightarrow> (dtypes \<times> int) outcome" where
  "MPI_Type_commit S h =
     (if \<not> t_init S \<or> null_type S h then Ret (S, MPI_FAIL)
      else case t_types S h of
        None \<Rightarrow> Undef
      | Some b \<Rightarrow>
          if dt_committed S b then Ret (S, MPI_SUCCESS)
          else and_then (commit S b) (\<lambda>(S', b'). Ret (S'\<lparr>t_types := (t_types S')(h := Some b')\<rparr>, MPI_SUCCESS)))"

text \<open>\<^verbatim>\<open>delete *datatype\<close> runs \<^verbatim>\<open>~umpi_datatype\<close>.\<close>

definition delete_type :: "dtypes \<Rightarrow> addr \<Rightarrow> dtypes outcome" where
  "delete_type S h =
     (if h = 0 then Ret S
      else case t_types S h of
        None \<Rightarrow> Undef
      | Some b \<Rightarrow>
          and_then (if dt_committed S b then Ret S else delete_iov S b)
            (\<lambda>S'. Ret (S'\<lparr>t_types := (t_types S')(h := None)\<rparr>)))"

text \<open>Returns the new value of \<^verbatim>\<open>*datatype\<close> too.\<close>

definition MPI_Type_free :: "dtypes \<Rightarrow> addr \<Rightarrow> (dtypes \<times> addr \<times> int) outcome" where
  "MPI_Type_free S h =
     (if \<not> t_init S then Ret (S, h, MPI_FAIL)
      else if h = 0 then Ret (S, 0, MPI_SUCCESS)
      else if null_type S h then Ret (S, h, MPI_FAIL)
      else with_layout S h (\<lambda>xs.
        if \<not> iov_derived xs then Ret (S, h, MPI_FAIL)
        else and_then (delete_type S h) (\<lambda>S'. Ret (S', 0, MPI_SUCCESS))))"

section \<open>Layouts the constructors build\<close>

lemma scattered_iov_simps [simp]:
  "iov_scattered (scattered_iov n st k es)" "\<not> iov_contiguous (scattered_iov n st k es)"
  "iov_stride (scattered_iov n st k es) = st" "iov_len (scattered_iov n st k es) = k"
  "iov_count (scattered_iov n st k es) = n" "iov_derived (scattered_iov n st k es)"
  by (simp_all add: scattered_iov_def iov_defs)

lemma wf_scattered_iov:
  assumes "length es < 2 ^ 60 - 2" "unat n = length es" "blocks_within st es" "unat k = blocks_len es" "blocks_len es < 2 ^ 63"
  shows "wf_iovec (scattered_iov n st k es)" "iov_range (scattered_iov n st k es) = es"
proof -
  show wf: "wf_iovec (scattered_iov n st k es)"
    using assms by (simp add: wf_iovec_def scattered_iov_def iov_id_def iov_entry_def)
  show "iov_range (scattered_iov n st k es) = es"
    unfolding wf_iovec_range [OF wf] by simp (simp add: scattered_iov_def)
qed

lemma blocks_len_simps [simp]:
  "blocks_len [] = 0" "blocks_len (e # es) = unat (iv_len e) + blocks_len es"
  "blocks_len (es @ fs) = blocks_len es + blocks_len fs"
  by (simp_all add: blocks_len_def)

lemma blocks_len_replicate [simp]: "blocks_len (concat (replicate n es)) = n * blocks_len es"
  by (induction n) simp_all

lemma scattered_length:
  "wf_iovec xs \<Longrightarrow> iov_scattered xs \<Longrightarrow> length (iov_range xs) < 2 ^ 60 \<and> unat (iov_count xs) = length (iov_range xs)"
  by (simp add: wf_iovec_count) (auto simp: wf_iovec_def wf_iovec_range iov_scattered_def)

lemma iov_entry_simps [simp]: "iv_dis (iov_entry d n) = d" "iv_len (iov_entry d n) = n"
  by (simp_all add: iov_entry_def)

text \<open>No overflow when \<open>count\<close> elements of a layout are put together.\<close>

definition count_fits :: "int \<Rightarrow> iovecs \<Rightarrow> bool" where
  "count_fits count xs \<longleftrightarrow> 0 \<le> count \<and> count * int (unat (iov_len xs)) < 2 ^ 63 \<and>
     (iov_scattered xs \<longrightarrow> nat count * length (iov_range xs) < 2 ^ 60 - 2 \<and>
        0 \<le> iov_stride xs \<and> count * iov_stride xs < 2 ^ 63)"

lemma size_of_int_mult: "size_of_int a * size_of_int b = size_of_int (a * b)"
  by (simp add: size_of_int_def)

lemma contiguous_layout_scattered:
  assumes wf: "wf_iovec xs" and sc: "iov_scattered xs" and c: "count_fits count xs"
  shows "contiguous_layout count xs =
    scattered_iov (of_nat (nat count * length (iov_range xs))) (count * iov_stride xs)
      (of_nat (nat count * unat (iov_len xs))) (concat (replicate (nat count) (iov_range xs)))"
proof -
  note l = scattered_length [OF wf sc]
  have c0: "0 \<le> count" using c by (simp add: count_fits_def)
  have "nat count * unat (iov_count xs) < 2 ^ 60 - 2" using l c sc by (simp add: count_fits_def)
  then have "int (nat count * unat (iov_count xs)) < int (2 ^ 64)" by (subst of_nat_less_iff) simp
  then have u: "unat (size_of_int count * iov_count xs) = nat count * length (iov_range xs)"
    using c0 l by (subst unat_size_mult) simp_all
  have "count * int (unat (iov_len xs)) < 2 ^ 64" using c by (simp add: count_fits_def)
  then have v: "unat (size_of_int count * iov_len xs) = nat count * unat (iov_len xs)"
    using c0 by (intro unat_size_mult)
  have "sint (size_of_int (count * iov_stride xs)) = count * iov_stride xs"
    using c c0 sc by (intro sint_size_of_int) (simp_all add: count_fits_def)
  moreover have "unat (size_of_int count * iov_count xs) div unat (iov_count xs) = nat count \<or> iov_range xs = []"
    using l u by (cases "iov_range xs = []") simp_all
  then have "concat (replicate (unat (size_of_int count * iov_count xs) div unat (iov_count xs)) (iov_range xs)) =
      concat (replicate (nat count) (iov_range xs))" by auto
  ultimately show ?thesis
    using sc by (simp add: contiguous_layout_def Let_def iov_contiguous_iff size_of_int_mult flip: u v)
qed

lemma concat_replicate_set: "set (concat (replicate n xs)) \<subseteq> set xs"
  by (induction n) auto

lemma wf_contiguous_layout:
  assumes wf: "wf_iovec xs" and c: "count_fits count xs" shows "wf_iovec (contiguous_layout count xs)"
proof (cases "iov_scattered xs")
  case False
  then have co: "iov_contiguous xs" by (simp add: iov_contiguous_iff)
  have "unat (size_of_int count * iov_len xs) = nat count * unat (iov_len xs)"
    using c by (intro unat_size_mult) (auto simp: count_fits_def)
  moreover have "int (nat count * unat (iov_len xs)) < 2 ^ 63" using c by (simp add: count_fits_def)
  then have "nat count * unat (iov_len xs) < 2 ^ 63" by (rule int_less_63)
  ultimately show ?thesis
    using co by (simp add: contiguous_layout_def wf_iovec_def iov_id_def word_less_nat_alt)
next
  case True
  note l = scattered_length [OF wf True]
  have len: "nat count * unat (iov_len xs) < 2 ^ 63"
  proof -
    have "int (nat count * unat (iov_len xs)) < 2 ^ 63" using c by (simp add: count_fits_def)
    then show ?thesis by (rule int_less_63)
  qed
  have n: "nat count * length (iov_range xs) < 2 ^ 60 - 2" using c True by (simp add: count_fits_def)
  have within: "blocks_within (count * iov_stride xs) (concat (replicate (nat count) (iov_range xs)))"
  proof (cases "count \<le> 0")
    case False
    have "iov_stride xs \<le> count * iov_stride xs"
      using False c True by (simp add: count_fits_def mult_le_cancel_right1)
    then show ?thesis
      using wf_iovec_blocks(2) [OF wf True] concat_replicate_set [of "nat count" "iov_range xs"]
      by (fastforce simp: blocks_within_def)
  qed (simp add: blocks_within_def)
  have u: "unat (of_nat k :: size_t) = k" if "k < 2 ^ 63" for k
    using that by (simp add: unat_of_nat)
  show ?thesis
    unfolding contiguous_layout_scattered [OF wf True c]
  proof (rule wf_scattered_iov(1))
    show "length (concat (replicate (nat count) (iov_range xs))) < 2 ^ 60 - 2"
      using n by (simp add: length_concat sum_list_replicate)
    show "unat (of_nat (nat count * length (iov_range xs)) :: size_t) = length (concat (replicate (nat count) (iov_range xs)))"
      using n by (subst u) (simp_all add: length_concat sum_list_replicate)
    show "unat (of_nat (nat count * unat (iov_len xs)) :: size_t) = blocks_len (concat (replicate (nat count) (iov_range xs)))"
      using len by (subst u) (simp_all add: wf_iovec_blocks(1) [OF wf True])
    show "blocks_len (concat (replicate (nat count) (iov_range xs))) < 2 ^ 63"
      using len by (simp add: wf_iovec_blocks(1) [OF wf True])
  qed (rule within)
qed

section \<open>Block lists\<close>

text \<open>Block lists in range: non-negative displacements, no overflow.\<close>

definition block_end :: "int \<times> int \<times> size_t \<Rightarrow> int" where
  "block_end b = (case b of (d, n, w) \<Rightarrow> d + n * int (unat w))"

definition blocks_fit :: "(int \<times> int \<times> size_t) list \<Rightarrow> bool" where
  "blocks_fit bs \<longleftrightarrow> length bs < 2 ^ 60 - 2 \<and>
     (\<forall>(d, n, w) \<in> set bs. 0 \<le> d \<and> 0 \<le> n) \<and> (\<forall>b \<in> set bs. block_end b < 2 ^ 63) \<and>
     sum_list (map (\<lambda>(d, n, w). nat n * unat w) bs) < 2 ^ 63"

definition block_iov :: "int \<times> int \<times> size_t \<Rightarrow> umpi_iovec" where
  "block_iov b = (case b of (d, n, w) \<Rightarrow> iov_entry d (size_of_int n * w))"

lemma layout_loop_spec:
  assumes "\<forall>(d, n, w) \<in> set bs. 0 \<le> d \<and> 0 \<le> n" "\<forall>b \<in> set bs. block_end b < 2 ^ 63"
  shows "layout_loop bs st k es =
    (fold max (map block_end bs) st, k + sum_list (map (iv_len \<circ> block_iov) bs), rev es @ map block_iov bs)"
  using assms
proof (induction bs arbitrary: st k es)
  case (Cons b bs)
  obtain d n w where b: "b = (d, n, w)" by (cases b)
  have nn: "0 \<le> d" "0 \<le> n" "d + n * int (unat w) < 2 ^ 63"
    using Cons.prems by (auto simp: b block_end_def)
  have "0 \<le> n * int (unat w)" using nn by simp
  then have d63: "d < 2 ^ 63" "n * int (unat w) < 2 ^ 63" using nn by linarith+
  have m: "uint (size_of_int n * w) = n * int (unat w)"
    by (rule uint_size_mult [OF nn(2)]) (use d63 in simp)
  have "size_of_int d + size_of_int n * w = size_of_int (d + n * int (unat w))"
    by (simp add: size_of_int_def)
  moreover have "sint (size_of_int (d + n * int (unat w))) = d + n * int (unat w)"
    using nn \<open>0 \<le> n * int (unat w)\<close> by (intro sint_size_of_int) linarith+
  ultimately have "sint (size_of_int d + size_of_int n * w) = block_end b" by (simp add: b block_end_def)
  then show ?case
    using Cons by (simp add: b Let_def block_iov_def max.commute add.assoc)
qed simp

definition blocks_stride :: "(int \<times> int \<times> size_t) list \<Rightarrow> int" where
  "blocks_stride bs = fold max (map block_end bs) 0"

lemma fold_max_ge1: "(st :: int) \<le> fold max xs st"
proof (induction xs arbitrary: st)
  case (Cons a xs)
  show ?case using Cons.IH [of "max a st"] by simp
qed simp

lemma fold_max_ge: "(x :: int) \<in> set xs \<Longrightarrow> x \<le> fold max xs st"
proof (induction xs arbitrary: st)
  case (Cons a xs)
  show ?case
  proof (cases "x = a")
    case True
    then show ?thesis using fold_max_ge1 [of "max a st" xs] by simp
  next
    case False
    then show ?thesis using Cons by simp
  qed
qed simp

lemma block_unat:
  "0 \<le> d \<Longrightarrow> 0 \<le> n \<Longrightarrow> block_end (d, n, w) < 2 ^ 63 \<Longrightarrow> unat (iv_len (block_iov (d, n, w))) = nat n * unat w"
proof -
  assume a: "0 \<le> d" "0 \<le> n" "block_end (d, n, w) < 2 ^ 63"
  then have "n * int (unat w) < 2 ^ 64" by (auto simp: block_end_def)
  with a(2) show ?thesis by (simp add: block_iov_def unat_size_mult)
qed

lemma block_unat': "blocks_fit bs \<Longrightarrow> b \<in> set bs \<Longrightarrow> unat (iv_len (block_iov b)) = (case b of (d, n, w) \<Rightarrow> nat n * unat w)"
  by (cases b) (auto simp: blocks_fit_def intro!: block_unat)

lemma blocks_len_block_iov:
  "blocks_fit bs \<Longrightarrow> blocks_len (map block_iov bs) = sum_list (map (\<lambda>(d, n, w). nat n * unat w) bs)"
  unfolding blocks_len_def by (simp add: comp_def block_unat' cong: map_cong)

lemma unat_sum_list:
  "sum_list (map unat ws) < 2 ^ 64 \<Longrightarrow> unat (sum_list ws :: size_t) = sum_list (map unat ws)"
proof (induction ws)
  case (Cons w ws)
  then have "unat w + unat (sum_list ws) < 2 ^ 64" by simp
  with Cons show ?case by (simp add: unat_plus_if')
qed simp

lemma block_layout_eq:
  assumes f: "blocks_fit bs"
  shows "block_layout bs = scattered_iov (of_nat (length bs)) (blocks_stride bs)
      (sum_list (map (iv_len \<circ> block_iov) bs)) (map block_iov bs)"
    and "wf_iovec (block_layout bs)" "iov_range (block_layout bs) = map block_iov bs"
    "iov_stride (block_layout bs) = blocks_stride bs"
    "unat (iov_len (block_layout bs)) = sum_list (map (\<lambda>(d, n, w). nat n * unat w) bs)"
proof -
  have pre: "\<forall>(d, n, w) \<in> set bs. 0 \<le> d \<and> 0 \<le> n" "\<forall>b \<in> set bs. block_end b < 2 ^ 63"
    using f by (auto simp: blocks_fit_def)
  show eq: "block_layout bs = scattered_iov (of_nat (length bs)) (blocks_stride bs)
      (sum_list (map (iv_len \<circ> block_iov) bs)) (map block_iov bs)"
    unfolding block_layout_def Let_def layout_loop_spec [OF pre] by (simp add: blocks_stride_def)
  have bl: "blocks_len (map block_iov bs) = sum_list (map (\<lambda>(d, n, w). nat n * unat w) bs)"
    by (rule blocks_len_block_iov [OF f])
  have sm: "sum_list (map (\<lambda>(d, n, w). nat n * unat w) bs) < 2 ^ 63" using f by (simp add: blocks_fit_def)
  have "sum_list (map unat (map (iv_len \<circ> block_iov) bs)) = blocks_len (map block_iov bs)"
    by (simp add: blocks_len_def comp_def)
  then have u: "unat (sum_list (map (iv_len \<circ> block_iov) bs)) = blocks_len (map block_iov bs)"
    using sm bl unat_sum_list [of "map (iv_len \<circ> block_iov) bs"] by simp
  have w: "blocks_within (blocks_stride bs) (map block_iov bs)"
    unfolding blocks_within_def
  proof
    fix e assume "e \<in> set (map block_iov bs)"
    then obtain d n w where e: "(d, n, w) \<in> set bs" "e = block_iov (d, n, w)" by auto
    have "0 \<le> d" "0 \<le> n" using pre(1) e(1) by auto
    moreover have "block_end (d, n, w) \<le> blocks_stride bs"
      unfolding blocks_stride_def using e(1) by (intro fold_max_ge) (auto intro: image_eqI)
    ultimately show "0 \<le> iv_dis e \<and> iv_dis e + int (unat (iv_len e)) \<le> blocks_stride bs"
      using block_unat' [OF f e(1)] by (simp add: e(2)) (simp add: block_iov_def block_end_def)
  qed
  have n: "unat (of_nat (length bs) :: size_t) = length bs"
    using f by (simp add: unat_of_nat blocks_fit_def)
  note wf = wf_scattered_iov [of "map block_iov bs" "of_nat (length bs)" "blocks_stride bs"
      "sum_list (map (iv_len \<circ> block_iov) bs)"]
  show "wf_iovec (block_layout bs)" "iov_range (block_layout bs) = map block_iov bs"
    unfolding eq using wf f n w u sm bl by (simp_all add: blocks_fit_def)
  show "iov_stride (block_layout bs) = blocks_stride bs"
    "unat (iov_len (block_layout bs)) = sum_list (map (\<lambda>(d, n, w). nat n * unat w) bs)"
    unfolding eq using u bl by simp_all
qed

lemma resized_layout_eq:
  assumes wf: "wf_iovec xs" and e: "iov_stride xs \<le> extent"
  shows "wf_iovec (resized_layout extent xs)" "iov_stride (resized_layout extent xs) = extent"
    "iov_len (resized_layout extent xs) = iov_len xs" "iov_scattered (resized_layout extent xs)"
    "iov_range (resized_layout extent xs) = (if iov_scattered xs then iov_range xs else [iov_entry 0 (iov_len xs)])"
proof -
  have "wf_iovec (resized_layout extent xs) \<and> iov_stride (resized_layout extent xs) = extent \<and>
    iov_len (resized_layout extent xs) = iov_len xs \<and> iov_scattered (resized_layout extent xs) \<and>
    iov_range (resized_layout extent xs) = (if iov_scattered xs then iov_range xs else [iov_entry 0 (iov_len xs)])"
  proof (cases "iov_scattered xs")
    case False
    then have co: "iov_contiguous xs" by (simp add: iov_contiguous_iff)
    have "blocks_within extent [iov_entry 0 (iov_len xs)]"
      using wf_iovec_stride [OF wf False] e by (simp add: blocks_within_def)
    then show ?thesis
      using co False wf_scattered_iov [of "[iov_entry 0 (iov_len xs)]" 1 extent "iov_len xs"] wf_iovec_len63 [OF wf]
      by (simp add: resized_layout_def)
  next
    case True
    let ?n = "iv_len (xs ! 0)" and ?k = "iv_len (xs ! 1)"
    have l: "length xs = unat ?n + 2" "length xs < 2 ^ 60" "iv_dis (xs ! 0) = id_val UMPI_ID_SCATTERED"
      using wf True by (auto simp: wf_iovec_def iov_scattered_def iov_id_def)
    have xs: "xs = xs ! 0 # xs ! 1 # iov_range xs"
      using l(1) True by (simp add: wf_iovec_range [OF wf] Cons_nth_drop_Suc numeral_2_eq_2)
    have h: "xs ! 0 = iov_entry (id_val UMPI_ID_SCATTERED) ?n" using l(3) by (cases "xs ! 0") (simp add: iov_entry_def)
    have "resized_layout extent xs = xs[1 := (xs ! 1)\<lparr>iv_dis := extent\<rparr>]"
      using True by (simp add: resized_layout_def iov_contiguous_iff wf_iovec_size [OF wf])
    also have "\<dots> = scattered_iov ?n extent ?k (iov_range xs)"
    proof -
      have "xs[1 := y] = xs ! 0 # y # iov_range xs" for y by (subst xs) simp
      moreover have "(xs ! 1)\<lparr>iv_dis := extent\<rparr> = iov_entry extent ?k"
        by (cases "xs ! 1") (simp add: iov_entry_def)
      ultimately show ?thesis unfolding scattered_iov_def h [symmetric] by simp
    qed
    finally have r: "resized_layout extent xs = scattered_iov ?n extent ?k (iov_range xs)" .
    have "blocks_within extent (iov_range xs)"
      using wf_iovec_blocks(2) [OF wf True] e by (auto simp: blocks_within_def)
    moreover have "?k = iov_len xs" using True by (simp add: iov_len_def iov_contiguous_iff)
    moreover have "unat ?n = length (iov_range xs)" "length (iov_range xs) < 2 ^ 60 - 2"
      using l True by (simp_all add: wf_iovec_range [OF wf])
    ultimately show ?thesis
      unfolding r using True wf_iovec_blocks(1) [OF wf True] wf_iovec_len63 [OF wf] wf_scattered_iov by simp
  qed
  then show "wf_iovec (resized_layout extent xs)" "iov_stride (resized_layout extent xs) = extent"
    "iov_len (resized_layout extent xs) = iov_len xs" "iov_scattered (resized_layout extent xs)"
    "iov_range (resized_layout extent xs) = (if iov_scattered xs then iov_range xs else [iov_entry 0 (iov_len xs)])"
    by auto
qed

end
