(* ===== verification/Type_Inv.thy ===== *)
theory Type_Inv
  imports Datatypes
begin

text \<open>
  The invariant of the datatypes of a process: every live datatype has a well-formed layout, a
  private array belongs to one datatype, committed arrays are live blocks of the pool (or part of
  \<^verbatim>\<open>struct shared\<close>) and never change. Every constructor, commit and free keeps it.
\<close>

section \<open>The invariant\<close>

definition outside :: "dtypes \<Rightarrow> addr \<Rightarrow> bool" where
  "outside S a \<longleftrightarrow> a \<noteq> 0 \<and> \<not> (t_base S \<le> a \<and> a < t_base S + t_maplen S) \<and> bp_bool (bp_of_addr (t_base S) a)"

definition segment_ok :: "nat \<Rightarrow> dtypes \<Rightarrow> bool" where
  "segment_ok hi S \<longleftrightarrow> t_base S \<noteq> 0 \<and> unat (t_base S) + unat (t_maplen S) < 2 ^ 64 \<and> hi \<le> unat (t_maplen S)"

definition shm_ok :: "nat \<Rightarrow> block set \<Rightarrow> dtypes \<Rightarrow> bool" where
  "shm_ok lo L S \<longleftrightarrow> (\<forall>e xs. t_shm S e = Some xs \<longrightarrow>
     wf_iovec xs \<and> dt_committed S e \<and> (pos e < lo \<or> (\<exists>n. (e, n) \<in> L)))"

definition heap_ok :: "dtypes \<Rightarrow> bool" where
  "heap_ok S \<longleftrightarrow> (\<forall>a xs. t_heap S a = Some xs \<longrightarrow> wf_iovec xs \<and> outside S a)"

definition types_ok :: "dtypes \<Rightarrow> bool" where
  "types_ok S \<longleftrightarrow> t_types S 0 = None \<and>
     (\<forall>h b. t_types S h = Some b \<and> b \<noteq> bp_null \<longrightarrow> iov_at S b \<noteq> None) \<and>
     (\<forall>h h' b. t_types S h = Some b \<and> t_types S h' = Some b \<and> b \<noteq> bp_null \<and> \<not> dt_committed S b \<longrightarrow> h = h')"

definition types_inv :: "nat \<Rightarrow> nat \<Rightarrow> block set \<Rightarrow> dtypes \<Rightarrow> bool" where
  "types_inv lo hi L S \<longleftrightarrow> pool_inv lo hi (t_pool S) L \<and> segment_ok hi S \<and> shm_ok lo L S \<and> heap_ok S \<and>
     types_ok S \<and> (\<forall>e \<in> set (t_committed S). t_shm S e \<noteq> None)"

lemma types_invD:
  assumes "types_inv lo hi L S"
  shows "pool_inv lo hi (t_pool S) L" "segment_ok hi S" "shm_ok lo L S" "heap_ok S" "types_ok S"
    "e \<in> set (t_committed S) \<Longrightarrow> t_shm S e \<noteq> None"
  using assms by (auto simp: types_inv_def)

lemma bp_of_addr_outside:
  "outside S a \<Longrightarrow> bp_to_addr (t_base S) (bp_of_addr (t_base S) a) = a"
  "outside S a \<Longrightarrow> \<not> dt_committed S (bp_of_addr (t_base S) a)" "outside S a \<Longrightarrow> bp_of_addr (t_base S) a \<noteq> bp_null"
  by (auto simp: outside_def bp_to_of_addr dt_committed_def bp_bool_def)

lemma committed_pos:
  assumes "segment_ok hi S" "pos b < unat (t_maplen S)" shows "dt_committed S b"
proof -
  have "unat (t_base S + off b) = unat (t_base S) + pos b" "unat (t_base S + t_maplen S) = unat (t_base S) + unat (t_maplen S)"
    using assms by (simp_all add: segment_ok_def unat_plus_if')
  with assms(2) show ?thesis by (simp add: dt_committed_def bp_to_addr_def word_le_nat_alt word_less_nat_alt)
qed

lemma layout_wf:
  assumes "types_inv lo hi L S" "iov_at S b = Some xs" shows "wf_iovec xs"
  using types_invD(3,4) [OF assms(1)] assms(2) by (auto simp: iov_at_def shm_ok_def heap_ok_def split: if_splits)

section \<open>New datatypes\<close>

definition new_ok :: "dtypes \<Rightarrow> addr \<Rightarrow> addr \<Rightarrow> bool" where
  "new_ok S na nt \<longleftrightarrow> outside S na \<and> t_heap S na = None \<and> nt \<noteq> 0 \<and> t_types S nt = None"

lemma dt_committed_cong:
  "t_base S' = t_base S \<Longrightarrow> t_maplen S' = t_maplen S \<Longrightarrow> dt_committed S' b = dt_committed S b"
  by (simp add: dt_committed_def)

lemma dt_committed_upd [simp]:
  "dt_committed (S\<lparr>t_heap := x\<rparr>) b = dt_committed S b" "dt_committed (S\<lparr>t_types := y\<rparr>) b = dt_committed S b"
  "dt_committed (S\<lparr>t_shm := z\<rparr>) b = dt_committed S b" "dt_committed (S\<lparr>t_pool := p\<rparr>) b = dt_committed S b"
  "dt_committed (S\<lparr>t_committed := c\<rparr>) b = dt_committed S b"
  by (simp_all add: dt_committed_def)

lemma outside_upd [simp]:
  "outside (S\<lparr>t_heap := x\<rparr>) a = outside S a" "outside (S\<lparr>t_types := y\<rparr>) a = outside S a"
  "outside (S\<lparr>t_shm := z\<rparr>) a = outside S a" "outside (S\<lparr>t_pool := p\<rparr>) a = outside S a"
  "outside (S\<lparr>t_committed := c\<rparr>) a = outside S a"
  by (simp_all add: outside_def)

lemma new_type_inv:
  assumes inv: "types_inv lo hi L S" and wf: "wf_iovec xs" and nw: "new_ok S na nt"
    and S': "new_type S xs na nt = (S', h, e)"
  shows "types_inv lo hi L S'" "type_layout S' nt = Some xs" "h = nt" "e = MPI_SUCCESS"
    "h' \<noteq> nt \<Longrightarrow> t_types S h' \<noteq> Some bp_null \<Longrightarrow> type_layout S' h' = type_layout S h'"
    "t_shm S' = t_shm S"
proof -
  let ?b = "bp_of_addr (t_base S) na"
  have out: "outside S na" using nw by (simp add: new_ok_def)
  note b = bp_of_addr_outside [OF out]
  have eq: "S' = S\<lparr>t_heap := (t_heap S)(na := Some xs), t_types := (t_types S)(nt := Some ?b)\<rparr>"
    and "h = nt" "e = MPI_SUCCESS" using S' by (auto simp: new_type_def)
  then show "h = nt" "e = MPI_SUCCESS" "t_shm S' = t_shm S" by simp_all
  have at: "iov_at S' x = (if \<not> dt_committed S x \<and> bp_to_addr (t_base S) x = na then Some xs else iov_at S x)" for x
    by (simp add: eq iov_at_def)
  show "type_layout S' nt = Some xs" proof -
    have "t_types S' nt = Some ?b" by (simp add: eq)
    then show ?thesis using b by (simp add: type_layout_def at)
  qed
  have old: "bp_to_addr (t_base S) x \<noteq> na \<or> dt_committed S x" if "iov_at S x \<noteq> None" for x
    using that nw by (auto simp: iov_at_def new_ok_def split: if_splits)
  show "type_layout S' h' = type_layout S h'" if g: "h' \<noteq> nt" "t_types S h' \<noteq> Some bp_null"
  proof (cases "t_types S h'")
    case (Some c)
    then have "iov_at S c \<noteq> None" using g types_invD(5) [OF inv] unfolding types_ok_def by blast
    then have "iov_at S' c = iov_at S c" using old [of c] by (auto simp: at)
    with Some g show ?thesis by (simp add: type_layout_def) (simp add: eq)
  qed (use g in \<open>simp add: type_layout_def eq\<close>)
  have "types_ok S'"
    unfolding types_ok_def
  proof (intro conjI allI impI)
    show "t_types S' 0 = None" using nw types_invD(5) [OF inv] by (simp add: eq new_ok_def types_ok_def)
    fix h b assume "t_types S' h = Some b \<and> b \<noteq> bp_null"
    then show "iov_at S' b \<noteq> None"
      using types_invD(5) [OF inv] b by (auto simp: at types_ok_def) (auto simp: eq split: if_splits)
  next
    fix h h' c
    assume a: "t_types S' h = Some c \<and> t_types S' h' = Some c \<and> c \<noteq> bp_null \<and> \<not> dt_committed S' c"
    have fresh: "t_types S h'' \<noteq> Some ?b" for h''
      using types_invD(5) [OF inv] old [of ?b] b by (auto simp: types_ok_def)
    have "c = ?b \<Longrightarrow> h = nt \<and> h' = nt" using a fresh by (auto simp: eq split: if_splits)
    moreover have "c \<noteq> ?b \<Longrightarrow> t_types S h = Some c \<and> t_types S h' = Some c"
      using a by (auto simp: eq split: if_splits)
    moreover have "\<not> dt_committed S c \<and> c \<noteq> bp_null" using a by (simp add: eq)
    ultimately show "h = h'"
      using types_invD(5) [OF inv] unfolding types_ok_def by (cases "c = ?b") blast+
  qed
  moreover have "heap_ok S'" using types_invD(4) [OF inv] wf out by (auto simp: heap_ok_def eq)
  moreover have "shm_ok lo L S'" using types_invD(3) [OF inv] by (simp add: shm_ok_def eq)
  ultimately show "types_inv lo hi L S'"
    using inv by (auto simp: types_inv_def segment_ok_def) (simp_all add: eq)
qed

section \<open>Commit\<close>

text \<open>The segment grows by a committed layout; a private array is given up; the handle moves over.\<close>

lemma moved_type_inv:
  assumes inv: "types_inv lo hi L S" and h: "t_types S h = Some b" "b \<noteq> bp_null" "\<not> dt_committed S b"
    and e: "t_shm S' e = Some xs" "wf_iovec xs" "dt_committed S e" "e \<noteq> bp_null"
    and S': "t_base S' = t_base S" "t_maplen S' = t_maplen S"
      "t_heap S' = (t_heap S)(bp_to_addr (t_base S) b := None)" "t_types S' = (t_types S)(h := Some e)"
      "\<And>x ys. t_shm S x = Some ys \<Longrightarrow> t_shm S' x = Some ys"
    and pool: "pool_inv lo hi (t_pool S') M" "shm_ok lo M S'" "\<forall>x \<in> set (t_committed S'). t_shm S' x \<noteq> None"
  shows "types_inv lo hi M S'" "type_layout S' h = Some xs"
    "h' \<noteq> h \<Longrightarrow> t_types S h' \<noteq> Some bp_null \<Longrightarrow> type_layout S' h' = type_layout S h'"
proof -
  have com: "dt_committed S' x = dt_committed S x" for x using S' by (simp add: dt_committed_def)
  have at: "iov_at S' x = (if dt_committed S x then t_shm S' x
      else if bp_to_addr (t_base S) x = bp_to_addr (t_base S) b then None else iov_at S x)" for x
    using S' com by (simp add: iov_at_def)
  have inj: "bp_to_addr (t_base S) x = bp_to_addr (t_base S) b \<Longrightarrow> x = b" for x
    by (cases x; cases b) (simp add: bp_to_addr_def)
  show "type_layout S' h = Some xs" using e S' by (simp add: type_layout_def at)
  have other: "iov_at S' c = iov_at S c" if "h' \<noteq> h" "t_types S h' = Some c" "c \<noteq> bp_null" for h' c
  proof (cases "dt_committed S c")
    case True
    have "iov_at S c \<noteq> None" using types_invD(5) [OF inv] that unfolding types_ok_def by blast
    then obtain ys where "t_shm S c = Some ys" using True by (auto simp: iov_at_def)
    then show ?thesis using True S'(5) by (simp add: at) (simp add: iov_at_def)
  next
    case False
    then have "c \<noteq> b" using that types_invD(5) [OF inv] h unfolding types_ok_def by blast
    with False show ?thesis using inj by (auto simp: at)
  qed
  then show "type_layout S' h' = type_layout S h'" if "h' \<noteq> h" "t_types S h' \<noteq> Some bp_null"
    using that S' by (auto simp: type_layout_def split: option.splits)
  have "types_ok S'"
    unfolding types_ok_def
  proof (intro conjI allI impI)
    have "t_types S 0 = None" using types_invD(5) [OF inv] by (simp add: types_ok_def)
    then show "t_types S' 0 = None" using h(1) S' by auto
    fix g c assume "t_types S' g = Some c \<and> c \<noteq> bp_null"
    then show "iov_at S' c \<noteq> None"
      using types_invD(5) [OF inv] e other [of g c] S'(4) by (cases "g = h") (auto simp: at types_ok_def)
  next
    fix g g' c
    assume a: "t_types S' g = Some c \<and> t_types S' g' = Some c \<and> c \<noteq> bp_null \<and> \<not> dt_committed S' c"
    then have "g \<noteq> h" "g' \<noteq> h" using e S' com by auto
    with a show "g = g'" using types_invD(5) [OF inv] S' com unfolding types_ok_def by auto
  qed
  moreover have "heap_ok S'"
    using types_invD(4) [OF inv] S' by (auto simp: heap_ok_def outside_def)
  ultimately show "types_inv lo hi M S'"
    using pool S' types_invD(2) [OF inv] by (auto simp: types_inv_def segment_ok_def)
qed

lemma heap_of_type:
  assumes "types_inv lo hi L S" "t_types S h = Some b" "b \<noteq> bp_null" "\<not> dt_committed S b"
  obtains xs where "t_heap S (bp_to_addr (t_base S) b) = Some xs" "iov_at S b = Some xs" "wf_iovec xs"
proof -
  have "iov_at S b \<noteq> None" using types_invD(5) [OF assms(1)] assms(2,3) unfolding types_ok_def by blast
  then obtain xs where "iov_at S b = Some xs" by blast
  moreover from this have "t_heap S (bp_to_addr (t_base S) b) = Some xs" using assms(4) by (simp add: iov_at_def)
  ultimately show thesis using that layout_wf [OF assms(1)] by blast
qed

lemma layout_bytes:
  assumes "wf_iovec xs"
  shows "unat (iov_size xs * sizeof_iovec) = 16 * length xs" "iov_size xs * sizeof_iovec \<noteq> 0"
    "unat (iov_size xs * sizeof_iovec) + 15 < 2 ^ 64"
proof -
  have l: "0 < length xs" "length xs < 2 ^ 60" using assms by (auto simp: wf_iovec_def split: if_splits)
  then show u: "unat (iov_size xs * sizeof_iovec) = 16 * length xs"
    using wf_iovec_size [OF assms] by (simp add: sizeof_iovec_def unat_mult_lem [THEN iffD1] mult.commute)
  show "unat (iov_size xs * sizeof_iovec) + 15 < 2 ^ 64" using l by (simp add: u)
  show "iov_size xs * sizeof_iovec \<noteq> 0" using u l by auto
qed

lemma block_null: "block_ok lo n (e, k) \<Longrightarrow> n < 2 ^ 63 \<Longrightarrow> e \<noteq> bp_null"
  by (auto simp: block_ok_def bp_null_def)

lemma commit_new_inv:
  assumes inv: "types_inv lo hi L S" and h: "t_types S h = Some b" "b \<noteq> bp_null" "\<not> dt_committed S b"
    and xs: "iov_at S b = Some xs" and nf: "find (same_layout S xs) (t_committed S) = None"
    and cm: "commit S b = Ret (S1, b')" and S': "S' = S1\<lparr>t_types := (t_types S1)(h := Some b')\<rparr>"
  obtains M where "types_inv lo hi M S'" "type_layout S' h = Some xs" "dt_committed S' b'" "b' \<in> set (t_committed S')"
    "\<forall>h'. h' \<noteq> h \<and> t_types S h' \<noteq> Some bp_null \<longrightarrow> type_layout S' h' = type_layout S h'"
    "\<forall>e ys. t_shm S e = Some ys \<longrightarrow> t_shm S' e = Some ys"
proof -
  have wf: "wf_iovec xs" by (rule layout_wf [OF inv xs])
  obtain zs where hp: "t_heap S (bp_to_addr (t_base S) b) = Some zs" by (rule heap_of_type [OF inv h]) blast
  from cm xs nf hp obtain p1 p2 nd where
      a1: "pool_alloc (t_pool S) (iov_size xs * sizeof_iovec) = Ret (p1, b')"
    and a2: "pool_alloc p1 (1 * sizeof_forward_node) = Ret (p2, nd)"
    and S1: "S1 = S\<lparr>t_pool := p2, t_shm := (t_shm S)(b' := Some (take (unat (iov_size xs)) xs)),
        t_committed := b' # t_committed S, t_heap := (t_heap S)(bp_to_addr (t_base S) b := None)\<rparr>"
    by (auto simp: commit_def and_then_Ret_iff allocate_def delete_iov_def Let_def split: if_splits)
  note lb = layout_bytes [OF wf]
  let ?n = "block_size (iov_size xs * sizeof_iovec)"
  note i1 = pool_alloc_inv [OF types_invD(1) [OF inv] lb(2,3) a1]
  have f: "1 * sizeof_forward_node \<noteq> 0" "unat (1 * sizeof_forward_node) + 15 < 2 ^ 64"
    by (simp_all add: sizeof_forward_node_def)
  note i2 = pool_alloc_inv(1) [OF i1(1) f a2]
  have bo: "block_ok lo (pos (p_begin p1)) (b', ?n)" using pool_inv_block [OF i1(1)] by blast
  have ph: "pos (p_begin p1) \<le> hi" "hi < 2 ^ 63" using i1(1) by (auto simp: pool_inv_def)
  have fresh: "t_shm S b' = None"
  proof (rule ccontr)
    assume "t_shm S b' \<noteq> None"
    then have "pos b' < lo \<or> (\<exists>n. (b', n) \<in> L)" using types_invD(3) [OF inv] by (auto simp: shm_ok_def)
    moreover have "lo \<le> pos b'" using bo by (simp add: block_ok_def)
    moreover have False if "(b', n) \<in> L" for n
    proof -
      have "n = ?n"
        by (rule all_apart_same_pos [OF pool_inv_apart [OF i1(1)], of b'])
          (use that bo pool_inv_positive [OF i1(1), of b' n] in \<open>auto simp: block_ok_def\<close>)
      with that i1(2) show False by simp
    qed
    ultimately show False by auto
  qed
  have com: "dt_committed S b'"
  proof (rule committed_pos [OF types_invD(2) [OF inv]])
    have "pos b' < pos (p_begin p1)" using bo by (simp add: block_ok_def)
    then show "pos b' < unat (t_maplen S)" using ph types_invD(2) [OF inv] by (simp add: segment_ok_def)
  qed
  have nn: "b' \<noteq> bp_null" using block_null [OF bo] ph by simp
  have sh: "t_shm S' = (t_shm S)(b' := Some xs)"
    by (simp add: S' S1 wf_iovec_size [OF wf])
  let ?M = "insert (nd, block_size (1 * sizeof_forward_node)) (insert (b', ?n) L)"
  have "shm_ok lo ?M S'"
    using types_invD(3) [OF inv] wf com unfolding shm_ok_def sh by (auto simp: S' S1)
  moreover have "\<forall>x \<in> set (t_committed S'). t_shm S' x \<noteq> None"
    using types_invD(6) [OF inv] unfolding sh by (auto simp: S' S1)
  moreover have "pool_inv lo hi (t_pool S') ?M" using i2 by (simp add: S' S1)
  moreover have "t_base S' = t_base S" "t_maplen S' = t_maplen S"
    "t_heap S' = (t_heap S)(bp_to_addr (t_base S) b := None)" "t_types S' = (t_types S)(h := Some b')"
    by (simp_all add: S' S1)
  moreover have "t_shm S' x = Some ys" if "t_shm S x = Some ys" for x ys
    using that fresh by (auto simp: sh)
  moreover have "t_shm S' b' = Some xs" by (simp add: sh)
  ultimately have mv: "types_inv lo hi ?M S'" "type_layout S' h = Some xs"
    "h' \<noteq> h \<Longrightarrow> t_types S h' \<noteq> Some bp_null \<Longrightarrow> type_layout S' h' = type_layout S h'" for h'
    by (blast intro: moved_type_inv [OF inv h _ wf com nn])+
  show thesis
    by (rule that [OF mv(1,2)]) (use com mv(3) fresh sh in \<open>auto simp: S' S1\<close>)
qed

lemma commit_old_inv:
  assumes inv: "types_inv lo hi L S" and h: "t_types S h = Some b" "b \<noteq> bp_null" "\<not> dt_committed S b"
    and xs: "iov_at S b = Some xs" and fd: "find (same_layout S xs) (t_committed S) = Some e"
  shows "\<exists>S1. commit S b = Ret (S1, e) \<and>
    (let S' = S1\<lparr>t_types := (t_types S1)(h := Some e)\<rparr>
     in types_inv lo hi L S' \<and> type_layout S' h = Some xs \<and> dt_committed S' e \<and> e \<in> set (t_committed S') \<and>
        t_pool S' = t_pool S \<and> t_shm S' = t_shm S \<and> t_committed S' = t_committed S \<and>
        (\<forall>h'. h' \<noteq> h \<and> t_types S h' \<noteq> Some bp_null \<longrightarrow> type_layout S' h' = type_layout S h'))"
proof -
  have e: "e \<in> set (t_committed S)" "same_layout S xs e" using fd by (auto simp: find_Some_iff)
  obtain zs where hp: "t_heap S (bp_to_addr (t_base S) b) = Some zs" by (rule heap_of_type [OF inv h]) blast
  obtain ys where ys: "t_shm S e = Some ys" "iov_eq ys xs" using e(2) by (auto simp: same_layout_def split: option.splits)
  have wf: "wf_iovec ys" "dt_committed S e" using types_invD(3) [OF inv] ys(1) by (auto simp: shm_ok_def)
  have eq: "ys = xs" using wf_iovec_eq [OF wf(1) layout_wf [OF inv xs]] ys(2) by simp
  have nn: "e \<noteq> bp_null"
  proof
    assume n: "e = bp_null"
    have "pos e < lo \<or> (\<exists>n. (e, n) \<in> L)" using types_invD(3) [OF inv] ys(1) by (auto simp: shm_ok_def)
    moreover have "lo < 2 ^ 63" using types_invD(1) [OF inv] by (auto simp: pool_inv_def)
    moreover have "pos e < 2 ^ 63" if "(e, n) \<in> L" for n
      using pool_inv_block [OF types_invD(1) [OF inv], of "(e, n)"] that types_invD(1) [OF inv]
      by (auto simp: block_ok_def pool_inv_def)
    ultimately have "pos e < 2 ^ 63" by auto
    with n show False by (simp add: bp_null_def)
  qed
  let ?S1 = "S\<lparr>t_heap := (t_heap S)(bp_to_addr (t_base S) b := None)\<rparr>"
  let ?S' = "?S1\<lparr>t_types := (t_types ?S1)(h := Some e)\<rparr>"
  have c: "commit S b = Ret (?S1, e)" using xs fd hp by (simp add: commit_def delete_iov_def Let_def)
  have sh: "shm_ok lo L ?S'" using types_invD(3) [OF inv] by (simp add: shm_ok_def)
  have "types_inv lo hi L ?S'" "type_layout ?S' h = Some xs"
    "\<forall>h'. h' \<noteq> h \<and> t_types S h' \<noteq> Some bp_null \<longrightarrow> type_layout ?S' h' = type_layout S h'"
    using moved_type_inv [OF inv h, of ?S' e xs L] ys eq wf nn sh types_invD(1,6) [OF inv] by auto
  then show ?thesis using c wf(2) e(1) by simp
qed

section \<open>The calls\<close>

text \<open>Freeing: a private array is deleted with its datatype, a committed one stays.\<close>

lemma delete_type_inv:
  assumes inv: "types_inv lo hi L S" and h: "t_types S h = Some b" "b \<noteq> bp_null"
  shows "\<exists>S'. delete_type S h = Ret S' \<and> types_inv lo hi L S' \<and> t_types S' h = None \<and> t_shm S' = t_shm S \<and>
    (\<forall>h'. h' \<noteq> h \<and> t_types S h' \<noteq> Some bp_null \<longrightarrow> type_layout S' h' = type_layout S h')"
proof -
  have h0: "h \<noteq> 0" using types_invD(5) [OF inv] h by (auto simp: types_ok_def)
  define H where "H = (if dt_committed S b then t_heap S else (t_heap S)(bp_to_addr (t_base S) b := None))"
  let ?S' = "S\<lparr>t_heap := H, t_types := (t_types S)(h := None)\<rparr>"
  have d: "delete_type S h = Ret ?S'"
  proof (cases "dt_committed S b")
    case True
    then show ?thesis using h h0 by (simp add: delete_type_def H_def)
  next
    case False
    obtain zs where "t_heap S (bp_to_addr (t_base S) b) = Some zs" by (rule heap_of_type [OF inv h False]) blast
    with False show ?thesis using h h0 by (simp add: delete_type_def H_def delete_iov_def Let_def)
  qed
  have inj: "bp_to_addr (t_base S) x = bp_to_addr (t_base S) b \<Longrightarrow> x = b" for x
    by (cases x; cases b) (simp add: bp_to_addr_def)
  have same: "iov_at ?S' c = iov_at S c" if "h' \<noteq> h" "t_types S h' = Some c" "c \<noteq> bp_null" for h' c
  proof -
    have "\<not> dt_committed S c \<Longrightarrow> c \<noteq> b" using that h types_invD(5) [OF inv] unfolding types_ok_def by blast
    then show ?thesis using inj by (auto simp: iov_at_def H_def)
  qed
  have sh: "shm_ok lo L ?S'" "heap_ok ?S'" "segment_ok hi ?S'"
    using types_invD(2,3,4) [OF inv] by (auto simp: shm_ok_def heap_ok_def segment_ok_def H_def)
  have "types_ok ?S'"
    unfolding types_ok_def
  proof (intro conjI allI impI)
    show "t_types ?S' 0 = None" using types_invD(5) [OF inv] by (simp add: types_ok_def)
    fix g c assume g: "t_types ?S' g = Some c \<and> c \<noteq> bp_null"
    then have "g \<noteq> h" "t_types S g = Some c" by (auto split: if_splits)
    then show "iov_at ?S' c \<noteq> None"
      using same [of g c] g types_invD(5) [OF inv] unfolding types_ok_def by auto
  next
    fix g g' c
    assume "t_types ?S' g = Some c \<and> t_types ?S' g' = Some c \<and> c \<noteq> bp_null \<and> \<not> dt_committed ?S' c"
    then show "g = g'" using types_invD(5) [OF inv] unfolding types_ok_def by (auto split: if_splits)
  qed
  then have "types_inv lo hi L ?S'" using inv sh by (simp add: types_inv_def)
  moreover have "type_layout ?S' h' = type_layout S h'" if "h' \<noteq> h" "t_types S h' \<noteq> Some bp_null" for h'
    using that same [of h'] by (auto simp: type_layout_def split: option.splits)
  ultimately show ?thesis using d by auto
qed

end
