(* ===== verification/Type_Props.thy ===== *)
theory Type_Props
  imports Type_Inv
begin

text \<open>
  Properties of the datatype calls: what each layout means as bytes, that every sequence of calls
  keeps all layouts well-formed and committed layouts fixed, and that commit shares equal layouts.
\<close>

section \<open>What the constructed layouts mean\<close>

lemma elem_locs_scattered:
  "iov_scattered xs \<Longrightarrow> elem_locs buf xs j =
     concat (map (\<lambda>e. loc_range (add_loc buf (j * iov_stride xs + iv_dis e)) (unat (iv_len e))) (iov_range xs))"
  by (simp add: elem_locs_def)

text \<open>One element of \<^verbatim>\<open>MPI_Type_contiguous(count, oldtype)\<close> of a contiguous \<^verbatim>\<open>oldtype\<close> is \<^verbatim>\<open>count\<close>
  elements of \<^verbatim>\<open>oldtype\<close>: the same bytes in the same order.\<close>
lemma contiguous_type_bytes:
  assumes "wf_iovec xs" "iov_contiguous xs" "count_fits count xs"
  shows "elem_locs buf (contiguous_layout count xs) j = payload buf xs (j * count) count"
proof -
  have ns: "\<not> iov_scattered xs" using assms(2) by (simp add: iov_contiguous_iff)
  have c: "0 \<le> count" "count * int (unat (iov_len xs)) < 2 ^ 64" using assms(3) by (auto simp: count_fits_def)
  have l: "iov_len (contiguous_layout count xs) = size_of_int count * iov_len xs"
    "\<not> iov_scattered (contiguous_layout count xs)"
    using assms(2) by (simp_all add: contiguous_layout_def iov_defs)
  have u: "unat (size_of_int count * iov_len xs) = nat count * unat (iov_len xs)" using c by (rule unat_size_mult)
  show ?thesis
    using c(1) by (simp add: elem_locs_def l u payload_contiguous [OF ns] mult.assoc)
qed

definition demo_ints :: iovecs where
  "demo_ints = [iov_entry 8 4]"

lemma demo_ints: "wf_iovec demo_ints" "iov_contiguous demo_ints" "count_fits 3 demo_ints" "iov_len demo_ints = 4"
  "iov_stride demo_ints = 4"
  by (simp_all add: demo_ints_def wf_iovec_def iov_defs count_fits_def)

lemma contiguous_type_bytes_witness:
  "elem_locs (Priv 0, 0) (contiguous_layout 3 demo_ints) 2 = payload (Priv 0, 0) demo_ints 6 3"
  using contiguous_type_bytes [OF demo_ints(1-3), of "(Priv 0, 0)" 2] by simp

text \<open>C30: One element of a type made by \<^verbatim>\<open>MPI_Type_create_hindexed\<close> or \<^verbatim>\<open>MPI_Type_create_struct\<close> is its
  blocks in the order given, each at its displacement from the element, with elements one stride
  apart; the stride is the end of the furthest block and the length the sum of the block lengths.\<close>
theorem block_type_bytes:
  assumes "blocks_fit bs"
  shows "elem_locs buf (block_layout bs) j =
      concat (map (\<lambda>(d, n, w). loc_range (add_loc buf (j * blocks_stride bs + d)) (nat n * unat w)) bs) \<and>
    unat (iov_len (block_layout bs)) = sum_list (map (\<lambda>(d, n, w). nat n * unat w) bs) \<and>
    iov_stride (block_layout bs) = blocks_stride bs"
proof -
  note b = block_layout_eq [OF assms]
  have sc: "iov_scattered (block_layout bs)" by (simp add: b(1))
  have "map (\<lambda>e. loc_range (add_loc buf (j * blocks_stride bs + iv_dis e)) (unat (iv_len e))) (map block_iov bs) =
      map (\<lambda>(d, n, w). loc_range (add_loc buf (j * blocks_stride bs + d)) (nat n * unat w)) bs"
    using block_unat' [OF assms] by (auto simp: block_iov_def)
  then show ?thesis by (simp only: elem_locs_scattered [OF sc] b(3-5) simp_thms)
qed

lemma block_type_bytes_witness:
  "elem_locs (Priv 0, 100) (block_layout [(8, 1, 4), (0, 2, 1)]) 1 =
     [(Priv 0, 120), (Priv 0, 121), (Priv 0, 122), (Priv 0, 123), (Priv 0, 112), (Priv 0, 113)]"
proof -
  have f: "blocks_fit [(8, 1, 4), (0, 2, 1)]" by (simp add: blocks_fit_def block_end_def)
  have "blocks_stride [(8, 1, 4), (0, 2, 1)] = 12" by (simp add: blocks_stride_def block_end_def)
  with block_type_bytes [OF f, of "(Priv 0, 100)" 1] show ?thesis
    by (simp add: loc_range_def add_loc_def upt_rec)
qed

text \<open>\<^verbatim>\<open>MPI_Type_create_resized\<close> changes only the distance between elements: element \<^verbatim>\<open>j\<close> has the
  bytes of element 0 of the old type moved by \<^verbatim>\<open>j\<close> times the new extent, and the length stays.\<close>
lemma resized_type_bytes:
  assumes "wf_iovec xs" "iov_stride xs \<le> extent"
  shows "elem_locs buf (resized_layout extent xs) j = elem_locs (add_loc buf (j * extent)) xs 0 \<and>
    iov_len (resized_layout extent xs) = iov_len xs \<and> iov_stride (resized_layout extent xs) = extent"
  using resized_layout_eq [OF assms]
  by (simp add: elem_locs_def add_loc_def add.assoc)

lemma resized_type_bytes_witness:
  "elem_locs (Priv 0, 100) (resized_layout 16 demo_ints) 2 = elem_locs (Priv 0, 132) demo_ints 0"
  using resized_type_bytes [OF demo_ints(1), of 16 "(Priv 0, 100)" 2] by (simp add: demo_ints add_loc_def)

text \<open>\<^verbatim>\<open>MPI_Type_contiguous\<close> of a scattered type is not \<^verbatim>\<open>count\<close> elements of it: every copy of the
  blocks has the displacements of the first element, so the type names the first element's bytes
  \<^verbatim>\<open>count\<close> times.\<close>
theorem contiguous_of_scattered_repeats:
  assumes "wf_iovec xs" "iov_scattered xs" "count_fits count xs"
  shows "elem_locs buf (contiguous_layout count xs) 0 = concat (replicate (nat count) (elem_locs buf xs 0))"
proof -
  let ?es = "concat (replicate (nat count) (iov_range xs))"
  note eq = contiguous_layout_scattered [OF assms]
  have sc: "iov_scattered (contiguous_layout count xs)" by (simp add: eq)
  have "iov_range (contiguous_layout count xs) = drop 2 (contiguous_layout count xs)"
    using wf_iovec_range [OF wf_contiguous_layout [OF assms(1,3)]] sc by simp
  then have r: "iov_range (contiguous_layout count xs) = ?es" by (simp add: eq scattered_iov_def)
  have "concat (map f (concat (replicate n ys))) = concat (replicate n (concat (map f ys)))" for f :: "umpi_iovec \<Rightarrow> loc list" and n ys
    by (induction n) simp_all
  then show ?thesis
    using sc assms(2) by (simp add: elem_locs_scattered r)
qed

definition demo_blocks :: iovecs where
  "demo_blocks = block_layout [(0, 1, 4)]"

lemma demo_blocks: "wf_iovec demo_blocks" "iov_scattered demo_blocks" "count_fits 2 demo_blocks"
proof -
  have f: "blocks_fit [(0, 1, 4)]" by (simp add: blocks_fit_def block_end_def)
  note b = block_layout_eq [OF f]
  have "blocks_stride [(0, 1, 4)] = 4" by (simp add: blocks_stride_def block_end_def)
  then show "wf_iovec demo_blocks" "iov_scattered demo_blocks" "count_fits 2 demo_blocks"
    unfolding demo_blocks_def using b by (simp_all add: count_fits_def del: uint_nat of_nat_unat)
qed

lemma contiguous_of_scattered_repeats_witness:
  "elem_locs (Priv 0, 0) (contiguous_layout 2 demo_blocks) 0 =
     elem_locs (Priv 0, 0) demo_blocks 0 @ elem_locs (Priv 0, 0) demo_blocks 0"
  using contiguous_of_scattered_repeats [OF demo_blocks, of "(Priv 0, 0)"] by (simp add: numeral_2_eq_2)

section \<open>Sequences of calls\<close>


definition shm_kept :: "dtypes \<Rightarrow> dtypes \<Rightarrow> bool" where
  "shm_kept S S' \<longleftrightarrow> (\<forall>b xs. t_shm S b = Some xs \<longrightarrow> t_shm S' b = Some xs)"

lemma shm_kept_refl [simp]: "shm_kept S S" "t_shm S' = t_shm S \<Longrightarrow> shm_kept S S'"
  by (simp_all add: shm_kept_def)




lemma commit_cases:
  assumes inv: "types_inv lo hi L S" and r: "MPI_Type_commit S h = Ret (S', e)"
  obtains "S' = S" "e = MPI_FAIL"
  | b where "S' = S" "e = MPI_SUCCESS" "t_types S h = Some b" "b \<noteq> bp_null" "dt_committed S b"
  | b xs S1 b' where "e = MPI_SUCCESS" "t_types S h = Some b" "b \<noteq> bp_null" "\<not> dt_committed S b"
      "iov_at S b = Some xs" "commit S b = Ret (S1, b')" "S' = S1\<lparr>t_types := (t_types S1)(h := Some b')\<rparr>"
proof (cases "\<not> t_init S \<or> null_type S h")
  case True
  then show thesis using r that(1) by (auto simp: MPI_Type_commit_def)
next
  case False
  with r obtain b where b: "t_types S h = Some b" by (auto simp: MPI_Type_commit_def split: option.splits)
  then have nn: "b \<noteq> bp_null" using False by (auto simp: null_type_def)
  show thesis
  proof (cases "dt_committed S b")
    case True
    then show thesis using r False b nn that(2) by (auto simp: MPI_Type_commit_def)
  next
    case nc: False
    then obtain S1 b' where c: "commit S b = Ret (S1, b')" "S' = S1\<lparr>t_types := (t_types S1)(h := Some b')\<rparr>" "e = MPI_SUCCESS"
      using r False b by (auto simp: MPI_Type_commit_def and_then_Ret_iff)
    moreover obtain xs where "iov_at S b = Some xs" using c(1) by (auto simp: commit_def split: option.splits)
    ultimately show thesis using that(3) b nn nc by blast
  qed
qed

lemma commit_step:
  assumes inv: "types_inv lo hi L S" and r: "MPI_Type_commit S h = Ret (S', e)"
  obtains M where "types_inv lo hi M S'" "shm_kept S S'"
    "\<forall>h'. t_types S h' \<noteq> Some bp_null \<longrightarrow> type_layout S' h' = type_layout S h'"
proof (cases rule: commit_cases [OF inv r])
  case 1
  then show thesis using that inv by simp
next
  case (2 b)
  then show thesis using that inv by simp
next
  case (3 b xs S1 b')
  have l: "type_layout S h = Some xs" using 3 by (simp add: type_layout_def)
  show thesis
  proof (cases "find (same_layout S xs) (t_committed S)")
    case None
    obtain M where M: "types_inv lo hi M S'" "type_layout S' h = Some xs"
      "\<forall>h'. h' \<noteq> h \<and> t_types S h' \<noteq> Some bp_null \<longrightarrow> type_layout S' h' = type_layout S h'"
      "\<forall>e ys. t_shm S e = Some ys \<longrightarrow> t_shm S' e = Some ys"
      by (rule commit_new_inv [OF inv 3(2-5) None 3(6,7)]) blast
    have "shm_kept S S'" using M(4) by (simp add: shm_kept_def)
    moreover have "\<forall>h'. t_types S h' \<noteq> Some bp_null \<longrightarrow> type_layout S' h' = type_layout S h'"
      using M(2,3) l by metis
    ultimately show thesis using that M(1) by blast
  next
    case (Some d)
    from commit_old_inv [OF inv 3(2-5) Some] 3(6,7)
    have M: "types_inv lo hi L S'" "type_layout S' h = Some xs" "t_shm S' = t_shm S"
      "\<forall>h'. h' \<noteq> h \<and> t_types S h' \<noteq> Some bp_null \<longrightarrow> type_layout S' h' = type_layout S h'"
      by (auto simp: Let_def)
    have "\<forall>h'. t_types S h' \<noteq> Some bp_null \<longrightarrow> type_layout S' h' = type_layout S h'"
      using M(2,4) l by metis
    then show thesis using that M(1,3) by simp
  qed
qed



text \<open>A process with the segment mapped at 4096, two private types with the same layout.\<close>

definition demo_dtypes :: dtypes where
  "demo_dtypes = \<lparr>t_init = True, t_base = 4096, t_maplen = 4096,
     t_heap = [65536 \<mapsto> demo_blocks, 65600 \<mapsto> demo_blocks],
     t_types = [70000 \<mapsto> BP 61440, 70016 \<mapsto> BP 61504], t_shm = Map.empty,
     t_pool = pool_init 4096 4608 8192 (\<lambda>_. bp_null), t_committed = []\<rparr>"

lemma demo_dtypes_at: "iov_at demo_dtypes (BP 61440) = Some demo_blocks" "iov_at demo_dtypes (BP 61504) = Some demo_blocks"
  "\<not> dt_committed demo_dtypes (BP 61440)" "\<not> dt_committed demo_dtypes (BP 61504)"
  "type_layout demo_dtypes 70000 = Some demo_blocks" "type_layout demo_dtypes 70016 = Some demo_blocks"
  by (simp_all add: iov_at_def dt_committed_def bp_to_addr_def demo_dtypes_def type_layout_def word_le_nat_alt)

lemma demo_dtypes_inv: "\<exists>lo hi. types_inv lo hi {} demo_dtypes"
proof -
  obtain lo hi where p: "pool_inv lo hi (pool_init 4096 4608 8192 (\<lambda>_. bp_null)) {}" "hi \<le> 4096"
    using pool_init_inv' [of 4096 4608 8192 "\<lambda>_. bp_null"] by auto
  have out: "outside demo_dtypes 65536" "outside demo_dtypes 65600"
    by (simp_all add: outside_def demo_dtypes_def bp_of_addr_def bp_bool_def bp_null_def)
  have null: "BP 61440 \<noteq> bp_null" "BP 61504 \<noteq> bp_null" by (simp_all add: bp_null_def)
  have types: "t_types demo_dtypes h = Some b \<longleftrightarrow> h = 70000 \<and> b = BP 61440 \<or> h = 70016 \<and> b = BP 61504" for h b
    by (auto simp: demo_dtypes_def split: if_splits)
  have "types_ok demo_dtypes"
    unfolding types_ok_def types by (auto simp: demo_dtypes_at) (simp add: demo_dtypes_def)
  moreover have "heap_ok demo_dtypes"
    using out demo_blocks(1) by (auto simp: heap_ok_def) (auto simp: demo_dtypes_def split: if_splits)
  ultimately have "types_inv lo hi {} demo_dtypes"
    using p by (simp add: types_inv_def segment_ok_def shm_ok_def) (simp add: demo_dtypes_def)
  then show ?thesis by blast
qed



text \<open>\<^verbatim>\<open>MPI_Type_commit\<close> moves a type into the segment without changing what it means: when it
  succeeds the type is committed, its layout is the one it had, and no other type's layout changes.\<close>
theorem commit_keeps_layout:
  assumes "types_inv lo hi L S" "MPI_Type_commit S h = Ret (S', MPI_SUCCESS)" "t_types S g \<noteq> Some bp_null"
    "\<not> null_type S h"
  shows "type_layout S' g = type_layout S g \<and> (\<exists>b. t_types S' h = Some b \<and> dt_committed S' b)"
proof -
  obtain M where c: "type_layout S' g = type_layout S g"
    using commit_step [OF assms(1,2)] assms(3) by metis
  have "\<exists>b. t_types S' h = Some b \<and> dt_committed S' b"
  proof (cases rule: commit_cases [OF assms(1,2)])
    case 1
    then show ?thesis by (simp add: mpi_consts)
  next
    case (2 b)
    then show ?thesis by simp
  next
    case (3 b xs S1 b')
    show ?thesis
    proof (cases "find (same_layout S xs) (t_committed S)")
      case None
      obtain M where "dt_committed S' b'" by (rule commit_new_inv [OF assms(1) 3(2-5) None 3(6,7)]) blast
      with 3 show ?thesis by simp
    next
      case (Some e)
      from commit_old_inv [OF assms(1) 3(2-5) Some] 3(6,7) show ?thesis by (auto simp: Let_def)
    qed
  qed
  with c show ?thesis by blast
qed

lemma demo_commit: "\<exists>S1. MPI_Type_commit demo_dtypes 70000 = Ret (S1, MPI_SUCCESS)"
proof -
  have "(case MPI_Type_commit demo_dtypes 70000 of Ret (S, e) \<Rightarrow> Some e | _ \<Rightarrow> None) = Some MPI_SUCCESS" by code_simp
  then show ?thesis by (auto split: outcome.splits)
qed

lemma commit_keeps_layout_witness:
  "\<exists>S1. MPI_Type_commit demo_dtypes 70000 = Ret (S1, MPI_SUCCESS) \<and> type_layout S1 70000 = Some demo_blocks"
proof -
  obtain lo hi where inv: "types_inv lo hi {} demo_dtypes" using demo_dtypes_inv by blast
  obtain S1 where S1: "MPI_Type_commit demo_dtypes 70000 = Ret (S1, MPI_SUCCESS)" using demo_commit by blast
  from commit_keeps_layout [OF inv S1, of 70000] S1 demo_dtypes_at(5) show ?thesis
    by (simp add: demo_dtypes_def null_type_def bp_null_def)
qed

text \<open>Equal layouts are shared: when a type with the layout of an already committed type is committed,
  both have the same array afterwards, the pool is not used, and only the private array is freed.\<close>
theorem commit_shares_layout:
  assumes "types_inv lo hi L S" "t_init S" "t_types S h = Some b" "b \<noteq> bp_null" "\<not> dt_committed S b"
    and "type_layout S h = Some xs" "find (same_layout S xs) (t_committed S) = Some e"
  shows "\<exists>S'. MPI_Type_commit S h = Ret (S', MPI_SUCCESS) \<and> t_types S' h = Some e \<and> t_shm S e = Some xs \<and>
    t_pool S' = t_pool S \<and> t_shm S' = t_shm S \<and> t_heap S' (bp_to_addr (t_base S) b) = None"
proof -
  have at: "iov_at S b = Some xs" using assms by (simp add: type_layout_def)
  have h0: "h \<noteq> 0" using types_invD(5) [OF assms(1)] assms(3) by (auto simp: types_ok_def)
  obtain zs where hp: "t_heap S (bp_to_addr (t_base S) b) = Some zs"
    by (rule heap_of_type [OF assms(1,3,4,5)]) blast
  have "commit S b = Ret (S\<lparr>t_heap := (t_heap S)(bp_to_addr (t_base S) b := None)\<rparr>, e)"
    using at assms(7) hp by (simp add: commit_def delete_iov_def Let_def)
  then have c: "MPI_Type_commit S h = Ret (S\<lparr>t_heap := (t_heap S)(bp_to_addr (t_base S) b := None),
      t_types := (t_types S)(h := Some e)\<rparr>, MPI_SUCCESS)"
    using assms h0 by (simp add: MPI_Type_commit_def null_type_def)
  have "same_layout S xs e" using assms(7) by (auto simp: find_Some_iff)
  then obtain ys where ys: "t_shm S e = Some ys" "iov_eq ys xs" by (auto simp: same_layout_def split: option.splits)
  have "wf_iovec ys" using types_invD(3) [OF assms(1)] ys(1) by (auto simp: shm_ok_def)
  then have "ys = xs" using wf_iovec_eq [OF _ layout_wf [OF assms(1) at]] ys(2) by blast
  with c ys(1) show ?thesis by simp
qed

definition demo_shared :: dtypes where
  "demo_shared = (case MPI_Type_commit demo_dtypes 70000 of Ret (S, _) \<Rightarrow> S | _ \<Rightarrow> demo_dtypes)"

lemma demo_shared_eval: "t_init demo_shared" "t_types demo_shared 70016 = Some (BP 61504)"
  "\<not> dt_committed demo_shared (BP 61504)" "type_layout demo_shared 70016 = Some demo_blocks"
  "t_types demo_shared 70000 = Some (BP 512)"
  "find (same_layout demo_shared demo_blocks) (t_committed demo_shared) = Some (BP 512)"
  by code_simp+

lemma commit_shares_layout_witness:
  "\<exists>S'. MPI_Type_commit demo_shared 70016 = Ret (S', MPI_SUCCESS) \<and> t_types S' 70016 = t_types demo_shared 70000"
proof -
  obtain lo hi where inv: "types_inv lo hi {} demo_dtypes" using demo_dtypes_inv by blast
  obtain S1 where S1: "MPI_Type_commit demo_dtypes 70000 = Ret (S1, MPI_SUCCESS)" using demo_commit by blast
  obtain M where "types_inv lo hi M demo_shared"
    using commit_step [OF inv S1] unfolding demo_shared_def S1 by auto
  from commit_shares_layout [OF this demo_shared_eval(1,2) _ demo_shared_eval(3,4,6)] demo_shared_eval(5)
  show ?thesis by (auto simp: bp_null_def)
qed

text \<open>\<^verbatim>\<open>MPI_Type_free\<close> of a derived type succeeds: the type is gone and the handle is null, a
  committed array stays for the other processes, and no other type changes.\<close>
theorem free_derived:
  assumes "types_inv lo hi L S" "t_init S" "t_types S h = Some b" "b \<noteq> bp_null"
    and "type_layout S h = Some xs" "iov_derived xs"
  shows "\<exists>S'. MPI_Type_free S h = Ret (S', 0, MPI_SUCCESS) \<and> t_types S' h = None \<and> t_shm S' = t_shm S \<and>
    (g \<noteq> h \<and> t_types S g \<noteq> Some bp_null \<longrightarrow> type_layout S' g = type_layout S g)"
proof -
  have h0: "h \<noteq> 0" using types_invD(5) [OF assms(1)] assms(3) by (auto simp: types_ok_def)
  obtain S' where "delete_type S h = Ret S'" "t_types S' h = None" "t_shm S' = t_shm S"
    "\<forall>h'. h' \<noteq> h \<and> t_types S h' \<noteq> Some bp_null \<longrightarrow> type_layout S' h' = type_layout S h'"
    using delete_type_inv [OF assms(1,3,4)] by blast
  then show ?thesis using assms h0 by (simp add: MPI_Type_free_def null_type_def with_layout_def)
qed

lemma free_derived_witness:
  "\<exists>S'. MPI_Type_free demo_dtypes 70000 = Ret (S', 0, MPI_SUCCESS) \<and> type_layout S' 70016 = Some demo_blocks"
proof -
  obtain lo hi where inv: "types_inv lo hi {} demo_dtypes" using demo_dtypes_inv by blast
  have "iov_derived demo_blocks" using demo_blocks(2) by (simp add: iov_derived_def iov_scattered_def)
  from free_derived [OF inv _ _ _ demo_dtypes_at(5) this, of "BP 61440" 70016]
  show ?thesis using demo_dtypes_at(6) by (auto simp: demo_dtypes_def bp_null_def)
qed

end
