(* ===== verification/Requests.thy ===== *)
theory Requests
  imports Node_Pool Typed_Copy
begin

text \<open>
  Requests (\<^verbatim>\<open>struct cookie\<close>) and the per-rank mailboxes (\<^verbatim>\<open>class process\<close>) of \<^verbatim>\<open>umpi.hh\<close>
  and \<^verbatim>\<open>umpi.cc\<close>: creating, matching, transferring, completing and recycling a request.

  A cookie is a node of one of the lists; its identity is the based pointer of the node,
  \<open>w_cookies\<close> gives its contents. A process pointer is the rank of the process. The array
  a cookie's \<^verbatim>\<open>iovec_\<close> points to is committed, hence never changed or freed, and stands in the
  cookie itself. Each member function that takes the mutex of a process is one atomic step;
  a process blocked in \<^verbatim>\<open>cond_.wait\<close> has \<open>pr_asleep\<close> set, and \<^verbatim>\<open>notify_one\<close> clears it.
\<close>

section \<open>State\<close>

type_synonym cid = based_ptr

record cookie =
  c_owner :: nat
  c_buf :: int
  c_iovec :: iovecs
  c_size :: int
  c_count :: int
  c_tag :: int
  c_src :: int
  c_err :: int
  c_used :: int
  c_busy :: int

datatype waiting_for = not_waiting | waiting_for_incoming | waiting_for_any_cookie | waiting_for_cookie

record process =
  pr_pid :: int
  pr_free :: "cid list"
  pr_inbox :: "cid list"
  pr_outbox :: "cid list"
  pr_pending :: "cid list"
  pr_waiting :: "cid option"
  pr_waiting_for :: waiting_for
  pr_asleep :: bool

record world =
  w_size :: nat
  w_pool :: pool
  w_cookies :: "cid \<Rightarrow> cookie"
  w_procs :: "nat \<Rightarrow> process"
  w_mem :: mem

definition new_process :: "int \<Rightarrow> process" where
  "new_process pid = \<lparr>pr_pid = pid, pr_free = [], pr_inbox = [], pr_outbox = [], pr_pending = [],
     pr_waiting = None, pr_waiting_for = not_waiting, pr_asleep = False\<rparr>"

definition upd_proc :: "nat \<Rightarrow> (process \<Rightarrow> process) \<Rightarrow> world \<Rightarrow> world" where
  "upd_proc r f w = w\<lparr>w_procs := (w_procs w)(r := f (w_procs w r))\<rparr>"

definition upd_cookie :: "cid \<Rightarrow> (cookie \<Rightarrow> cookie) \<Rightarrow> world \<Rightarrow> world" where
  "upd_cookie c f w = w\<lparr>w_cookies := (w_cookies w)(c := f (w_cookies w c))\<rparr>"

text \<open>\<^verbatim>\<open>static int UMPI_OUTSTANDING_REQUESTS_PER_PROCESS\<close>, set by \<^verbatim>\<open>calc_mmap_len\<close>.\<close>

definition outstanding_requests :: "world \<Rightarrow> nat" where
  "outstanding_requests w = 2 * w_size w"

section \<open>Cookies\<close>

definition mk_cookie :: "nat \<Rightarrow> int \<Rightarrow> iovecs \<Rightarrow> int \<Rightarrow> int \<Rightarrow> int \<Rightarrow> int \<Rightarrow> int \<Rightarrow> cookie" where
  "mk_cookie owner buf iovec sz count source tag num =
     \<lparr>c_owner = owner, c_buf = buf, c_iovec = iovec, c_size = sz, c_count = count,
      c_tag = to_i16 tag, c_src = to_i16 source, c_err = 0, c_used = 1, c_busy = to_i16 num\<rparr>"

definition cookie_join :: "cid \<Rightarrow> world \<Rightarrow> world" where
  "cookie_join c = upd_cookie c (\<lambda>k. k\<lparr>c_used := to_i16 (c_used k + 1)\<rparr>)"

definition recv_match :: "cookie \<Rightarrow> int \<Rightarrow> int \<Rightarrow> bool" where
  "recv_match k source tag \<longleftrightarrow>
     (c_tag k = tag \<or> (tag = MPI_ANY_TAG \<and> 0 \<le> c_tag k)) \<and> (c_src k = source \<or> source = MPI_ANY_SOURCE)"

definition send_match :: "cookie \<Rightarrow> int \<Rightarrow> int \<Rightarrow> bool" where
  "send_match k source tag \<longleftrightarrow>
     (c_tag k = tag \<or> c_tag k = MPI_ANY_TAG) \<and> (c_src k = source \<or> c_src k = MPI_ANY_SOURCE)"

section \<open>Members of process\<close>

text \<open>
  \<^verbatim>\<open>create_request\<close> of process \<open>r\<close>, without the insertion at the back of the box, which the
  callers write: the node comes from the free list of \<open>r\<close> or from the pool.
\<close>

definition create_request :: "nat \<Rightarrow> cookie \<Rightarrow> world \<Rightarrow> (world \<times> cid) outcome" where
  "create_request r k w =
     (case pr_free (w_procs w r) of
        [] \<Rightarrow> and_then (node_get (w_pool w))
                (\<lambda>(p, c). Ret (upd_cookie c (\<lambda>_. k) (w\<lparr>w_pool := p\<rparr>), c))
      | c # cs \<Rightarrow> Ret (upd_cookie c (\<lambda>_. k) (upd_proc r (\<lambda>p. p\<lparr>pr_free := cs\<rparr>) w), c))"

text \<open>The loop of \<^verbatim>\<open>finalize\<close>: unused cookies go from the pending list to the front of the free list.\<close>

fun reclaim :: "(cid \<Rightarrow> cookie) \<Rightarrow> cid list \<Rightarrow> cid list \<Rightarrow> cid list \<times> cid list" where
  "reclaim ck [] free = ([], free)"
| "reclaim ck (c # cs) free =
     (if c_used (ck c) = 0 then reclaim ck cs (c # free)
      else let (pending, free') = reclaim ck cs free in (c # pending, free'))"

definition finalize :: "nat \<Rightarrow> cid \<Rightarrow> world \<Rightarrow> world outcome" where
  "finalize r c w =
     (let w1 = upd_cookie c (\<lambda>k. k\<lparr>c_used := to_i16 (c_used k - 1)\<rparr>) w;
          (pending, free) = reclaim (w_cookies w1) (pr_pending (w_procs w1 r)) (pr_free (w_procs w1 r));
          trigger = outstanding_requests w;
          remaining = trigger div 2
      in if trigger < length free
         then and_then (put_all node_put (w_pool w1) (drop remaining free))
                (\<lambda>p. Ret (upd_proc r (\<lambda>pr. pr\<lparr>pr_pending := pending, pr_free := take remaining free\<rparr>)
                       (w1\<lparr>w_pool := p\<rparr>)))
         else Ret (upd_proc r (\<lambda>pr. pr\<lparr>pr_pending := pending, pr_free := free\<rparr>) w1))"

definition notify_done :: "cid \<Rightarrow> int \<Rightarrow> world \<Rightarrow> world" where
  "notify_done c err w =
     (let r = c_owner (w_cookies w c);
          w1 = upd_cookie c (\<lambda>k. k\<lparr>c_err := (if c_err k \<noteq> 0 then c_err k else to_i16 err),
                                    c_busy := to_i16 (c_busy k - 1)\<rparr>) w
      in if c_busy (w_cookies w1 c) = 0 \<and> pr_waiting_for (w_procs w1 r) = waiting_for_cookie \<and>
            pr_waiting (w_procs w1 r) = Some c
         then upd_proc r (\<lambda>p. p\<lparr>pr_asleep := False\<rparr>) w1
         else w1)"

section \<open>Transfers\<close>

text \<open>
  \<^verbatim>\<open>write_to_owner\<close>: the local segments are the source, the owner's buffer the destination.
  A division by the length of a type of zero bytes is undefined.
\<close>

definition write_to_owner ::
  "vm \<Rightarrow> cid \<Rightarrow> loc \<Rightarrow> iovecs \<Rightarrow> int \<Rightarrow> int \<Rightarrow> int \<Rightarrow> world \<Rightarrow> (world \<times> int) outcome" where
  "write_to_owner writev c buf iovec count seek skip w =
     (let k = w_cookies w c;
          total_bytes = size_of_int count * iov_len iovec
      in if size_of_int (c_size k) * iov_len (c_iovec k) < size_of_int seek * iov_len (c_iovec k) + total_bytes
         then Ret (notify_done c MPI_FAIL w, MPI_FAIL)
         else if \<not> size_of_int (c_count k) * iov_len (c_iovec k) < total_bytes \<and> iov_len (c_iovec k) = 0
         then Undef
         else
           let w1 = upd_cookie c (\<lambda>k. k\<lparr>c_count :=
                  (if size_of_int (c_count k) * iov_len (c_iovec k) < total_bytes then c_count k
                   else to_i32 (uint (total_bytes div iov_len (c_iovec k))))\<rparr>) w;
               local_iov = type_segs buf iovec skip (skip + count) total_bytes;
               remote_iov = type_segs (Priv (c_owner k), c_buf k) (c_iovec k) seek (c_size k) total_bytes;
               (m, n) = writev (w_mem w1) local_iov remote_iov;
               err = (if sint total_bytes \<noteq> n then MPI_FAIL else MPI_SUCCESS)
           in Ret (notify_done c err (w1\<lparr>w_mem := m\<rparr>), err))"

definition read_from_owner ::
  "vm \<Rightarrow> cid \<Rightarrow> loc \<Rightarrow> iovecs \<Rightarrow> int \<Rightarrow> int \<Rightarrow> int \<Rightarrow> int \<Rightarrow> world \<Rightarrow> (world \<times> int) outcome" where
  "read_from_owner readv c buf iovec sz count0 seek skip w =
     (let k = w_cookies w c
      in if count0 = 0 \<and> iov_len iovec = 0 then Undef
         else
           let count = (if count0 \<noteq> 0 then count0
                  else to_i32 (uint ((size_of_int (c_size k - skip) * iov_len (c_iovec k)) div iov_len iovec)));
               total_bytes = size_of_int count * iov_len iovec
           in if size_of_int (c_size k) * iov_len (c_iovec k) < size_of_int skip * iov_len (c_iovec k) + total_bytes \<or>
                 size_of_int sz * iov_len iovec < size_of_int seek * iov_len iovec + total_bytes
              then Ret (notify_done c MPI_FAIL w, MPI_FAIL)
              else
                let local_iov = type_segs buf iovec seek (seek + count) total_bytes;
                    remote_iov = type_segs (Priv (c_owner k), c_buf k) (c_iovec k) skip (c_size k) total_bytes;
                    (m, n) = readv (w_mem w) remote_iov local_iov;
                    err = (if sint total_bytes \<noteq> n then MPI_FAIL else MPI_SUCCESS)
                in Ret (notify_done c err (w\<lparr>w_mem := m\<rparr>), err))"

section \<open>Posting a receive or a send\<close>

text \<open>
  The part under the mutex and the transfer that follows it are separate steps: between
  them other ranks may run. \<open>recv_post\<close> and \<open>send_post\<close> are the locked parts; they
  return the cookie and whether it was matched (a transfer is to follow).
\<close>

definition recv_post ::
  "nat \<Rightarrow> int \<Rightarrow> int \<Rightarrow> iovecs \<Rightarrow> int \<Rightarrow> int \<Rightarrow> world \<Rightarrow> (world \<times> cid \<times> bool) outcome" where
  "recv_post self buf count iovec source tag w =
     (case find (\<lambda>c. recv_match (w_cookies w c) source tag) (pr_inbox (w_procs w self)) of
        Some c \<Rightarrow>
          Ret (cookie_join c (upd_proc self (\<lambda>p. p\<lparr>pr_inbox := remove1 c (pr_inbox p),
                 pr_pending := c # pr_pending p\<rparr>) w), c, True)
      | None \<Rightarrow>
          and_then (create_request self (mk_cookie self buf iovec count count source tag 1) w)
            (\<lambda>(w1, c). Ret (upd_proc self (\<lambda>p. p\<lparr>pr_outbox := pr_outbox p @ [c]\<rparr>) w1, c, False)))"

definition recv_request ::
  "vm \<Rightarrow> nat \<Rightarrow> int \<Rightarrow> int \<Rightarrow> iovecs \<Rightarrow> int \<Rightarrow> int \<Rightarrow> world \<Rightarrow> (world \<times> int \<times> cid) outcome" where
  "recv_request readv self buf count iovec source tag w =
     and_then (recv_post self buf count iovec source tag w)
       (\<lambda>(w1, c, matched).
          if matched
          then and_then (read_from_owner readv c (Priv self, buf) iovec count 0 0 0 w1)
                 (\<lambda>(w2, err). Ret (w2, err, c))
          else Ret (w1, MPI_SUCCESS, c))"

definition send_post ::
  "nat \<Rightarrow> nat \<Rightarrow> int \<Rightarrow> int \<Rightarrow> iovecs \<Rightarrow> int \<Rightarrow> world \<Rightarrow> (world \<times> cid \<times> bool) outcome" where
  "send_post self dest buf count iovec tag w =
     (case find (\<lambda>c. send_match (w_cookies w c) (int self) tag) (pr_outbox (w_procs w dest)) of
        Some c \<Rightarrow>
          Ret (cookie_join c (upd_cookie c (\<lambda>k. k\<lparr>c_src := to_i16 (int self), c_tag := to_i16 tag\<rparr>)
                 (upd_proc dest (\<lambda>p. p\<lparr>pr_outbox := remove1 c (pr_outbox p),
                    pr_pending := c # pr_pending p\<rparr>) w)), c, True)
      | None \<Rightarrow>
          and_then (create_request dest (mk_cookie self buf iovec count count (int self) tag 1) w)
            (\<lambda>(w1, c). Ret (upd_proc dest (\<lambda>p. p\<lparr>pr_inbox := pr_inbox p @ [c],
                 pr_asleep := (pr_asleep p \<and> pr_waiting_for p \<noteq> waiting_for_incoming)\<rparr>) w1, c, False)))"

definition send_request ::
  "vm \<Rightarrow> nat \<Rightarrow> nat \<Rightarrow> int \<Rightarrow> int \<Rightarrow> iovecs \<Rightarrow> int \<Rightarrow> world \<Rightarrow> (world \<times> int \<times> cid) outcome" where
  "send_request writev self dest buf count iovec tag w =
     and_then (send_post self dest buf count iovec tag w)
       (\<lambda>(w1, c, matched).
          if matched
          then and_then (write_to_owner writev c (Priv self, buf) iovec count 0 0 w1)
                 (\<lambda>(w2, err). Ret (w2, err, c))
          else Ret (w1, MPI_SUCCESS, c))"

definition move_to_pending :: "nat \<Rightarrow> cid \<Rightarrow> world \<Rightarrow> world" where
  "move_to_pending r c = upd_proc r (\<lambda>p. p\<lparr>pr_pending := c # pr_pending p\<rparr>)"

section \<open>Waiting\<close>

text \<open>
  Each function is the part of a wait loop from one wake-up to the next \<^verbatim>\<open>cond_.wait\<close>: it
  either falls asleep (\<open>None\<close>) or returns. \<open>wait_cookie\<close> first registers what the process
  waits for; after a wake-up the same test is made again.
\<close>

definition wait_cookie :: "nat \<Rightarrow> cid \<Rightarrow> world \<Rightarrow> world \<times> unit option" where
  "wait_cookie self c w =
     (let w1 = upd_proc self (\<lambda>p. p\<lparr>pr_waiting := Some c, pr_waiting_for := waiting_for_cookie\<rparr>) w
      in if c_busy (w_cookies w1 c) \<noteq> 0 then (upd_proc self (\<lambda>p. p\<lparr>pr_asleep := True\<rparr>) w1, None)
         else (upd_proc self (\<lambda>p. p\<lparr>pr_waiting := None, pr_waiting_for := not_waiting\<rparr>) w1, Some ()))"

fun first_ready :: "(cid \<Rightarrow> cookie) \<Rightarrow> nat \<Rightarrow> cid option list \<Rightarrow> nat option" where
  "first_ready ck i [] = None"
| "first_ready ck i (r # rs) =
     (case r of
        None \<Rightarrow> first_ready ck (Suc i) rs
      | Some c \<Rightarrow> if c_busy (ck c) \<noteq> 0 then first_ready ck (Suc i) rs else Some i)"

definition wait_any_cookie :: "nat \<Rightarrow> cid option list \<Rightarrow> world \<Rightarrow> world \<times> nat option" where
  "wait_any_cookie self reqs w =
     (let w1 = upd_proc self (\<lambda>p. p\<lparr>pr_waiting_for := waiting_for_any_cookie\<rparr>) w
      in case first_ready (w_cookies w1) 0 reqs of
           None \<Rightarrow> (upd_proc self (\<lambda>p. p\<lparr>pr_asleep := True\<rparr>) w1, None)
         | Some i \<Rightarrow> (upd_proc self (\<lambda>p. p\<lparr>pr_waiting_for := not_waiting\<rparr>) w1, Some i))"

text \<open>
  \<^verbatim>\<open>wait_any(source, tag)\<close> keeps its place in the inbox while it sleeps; the entries it has
  passed neither change nor leave (only the process itself takes entries out), so the test
  after a wake-up is again the search for the first match.
\<close>

definition wait_incoming :: "nat \<Rightarrow> int \<Rightarrow> int \<Rightarrow> world \<Rightarrow> world \<times> cid option" where
  "wait_incoming self source tag w =
     (let w1 = upd_proc self (\<lambda>p. p\<lparr>pr_waiting_for := waiting_for_incoming\<rparr>) w
      in case find (\<lambda>c. recv_match (w_cookies w1 c) source tag) (pr_inbox (w_procs w1 self)) of
           None \<Rightarrow> (upd_proc self (\<lambda>p. p\<lparr>pr_asleep := True\<rparr>) w1, None)
         | Some c \<Rightarrow> (upd_proc self (\<lambda>p. p\<lparr>pr_waiting_for := not_waiting\<rparr>) w1, Some c))"

definition find_any :: "nat \<Rightarrow> int \<Rightarrow> int \<Rightarrow> world \<Rightarrow> cid option" where
  "find_any self source tag w =
     find (\<lambda>c. recv_match (w_cookies w c) source tag) (pr_inbox (w_procs w self))"

definition is_owner :: "nat \<Rightarrow> cid \<Rightarrow> world \<Rightarrow> bool" where
  "is_owner self c w \<longleftrightarrow> self = c_owner (w_cookies w c)"

definition cookie_leave :: "cid \<Rightarrow> world \<Rightarrow> world outcome" where
  "cookie_leave c w = finalize (c_owner (w_cookies w c)) c w"

end
