(* ===== verification/Locks.thy ===== *)
theory Locks
  imports Umpi_Prelude
begin

text \<open>
  \<^verbatim>\<open>ipc.hh\<close>: process-shared mutexes, condition variables and barriers, with the behaviour POSIX documents
  for the pthread calls they wrap. A step relation for processes that run sections under one mutex,
  instruction by instruction, and the proof that every such run is one of whole sections: what the
  other theories assume when they take a section as one step.
\<close>

section \<open>Mutex, condition variable, barrier\<close>

record mutex =
  mx_owner :: "nat option"

text \<open>\<open>None\<close>: the caller waits.\<close>

definition mutex_lock :: "nat \<Rightarrow> mutex \<Rightarrow> mutex option" where
  "mutex_lock r mx = (if mx_owner mx = None then Some (mx\<lparr>mx_owner := Some r\<rparr>) else None)"

definition mutex_unlock :: "mutex \<Rightarrow> mutex" where
  "mutex_unlock mx = mx\<lparr>mx_owner := None\<rparr>"

record condition_variable =
  cv_waiting :: "nat list"

definition notify_one :: "condition_variable \<Rightarrow> condition_variable" where
  "notify_one cv = cv\<lparr>cv_waiting := tl (cv_waiting cv)\<rparr>"

definition notify_all :: "condition_variable \<Rightarrow> condition_variable" where
  "notify_all cv = cv\<lparr>cv_waiting := []\<rparr>"

text \<open>\<^verbatim>\<open>wait\<close> up to the sleep: the mutex is released and the caller waits, in one step.\<close>

definition cond_wait :: "nat \<Rightarrow> mutex \<Rightarrow> condition_variable \<Rightarrow> mutex \<times> condition_variable" where
  "cond_wait r mx cv = (mutex_unlock mx, cv\<lparr>cv_waiting := cv_waiting cv @ [r]\<rparr>)"

text \<open>A barrier for \<open>br_count\<close> ranks, and the ranks that wait in it.\<close>

record barrier =
  br_count :: int
  br_inside :: "nat list"

definition barrier_arrive :: "nat \<Rightarrow> barrier \<Rightarrow> barrier" where
  "barrier_arrive r b =
     (if int (length (br_inside b)) + 1 = br_count b then b\<lparr>br_inside := []\<rparr>
      else b\<lparr>br_inside := r # br_inside b\<rparr>)"

definition barrier_released :: "nat \<Rightarrow> barrier \<Rightarrow> bool" where
  "barrier_released r b \<longleftrightarrow> r \<notin> set (br_inside b)"

text \<open>The constructors, on the results of the three pthread calls each makes.\<close>

definition mutex_init :: "int \<Rightarrow> int \<Rightarrow> int \<Rightarrow> mutex outcome" where
  "mutex_init attr_init setpshared init =
     (if attr_init \<noteq> 0 then Exit 1 else if setpshared \<noteq> 0 then Exit 1 else if init \<noteq> 0 then Exit 1
      else Ret \<lparr>mx_owner = None\<rparr>)"

definition condition_variable_init :: "int \<Rightarrow> int \<Rightarrow> int \<Rightarrow> condition_variable outcome" where
  "condition_variable_init attr_init setpshared init =
     (if attr_init \<noteq> 0 then Exit 1 else if setpshared \<noteq> 0 then Exit 1 else if init \<noteq> 0 then Exit 1
      else Ret \<lparr>cv_waiting = []\<rparr>)"

definition barrier_init :: "int \<Rightarrow> int \<Rightarrow> int \<Rightarrow> int \<Rightarrow> barrier outcome" where
  "barrier_init n attr_init setpshared init =
     (if attr_init \<noteq> 0 then Exit 1 else if setpshared \<noteq> 0 then Exit 1 else if init \<noteq> 0 then Exit 1
      else Ret \<lparr>br_count = n, br_inside = []\<rparr>)"

section \<open>Sections, instruction by instruction\<close>

text \<open>
  A section is a list of instructions on the data the mutex protects. \<open>Wait_while b\<close> is
  \<^verbatim>\<open>while (b) cond.wait(mutex)\<close>, \<open>Notify_if b\<close> is \<^verbatim>\<open>if (b) cond.notify_one()\<close>; \<open>Running cs\<close> has the mutex, \<open>Sleeping cs\<close> will go on with \<open>cs\<close>.
\<close>

datatype 'd instr = Do "'d \<Rightarrow> 'd" | Wait_while "'d \<Rightarrow> bool" | Notify_if "'d \<Rightarrow> bool"

datatype 'd phase = Outside | Running "'d instr list" | Sleeping "'d instr list"

record 'd monitor =
  mo_data :: 'd
  mo_mutex :: mutex
  mo_cond :: condition_variable
  mo_phase :: "nat \<Rightarrow> 'd phase"

definition mo_set :: "nat \<Rightarrow> 'd \<Rightarrow> mutex \<Rightarrow> condition_variable \<Rightarrow> 'd phase \<Rightarrow> 'd monitor \<Rightarrow> 'd monitor" where
  "mo_set r d mx cv p m = \<lparr>mo_data = d, mo_mutex = mx, mo_cond = cv, mo_phase = (mo_phase m)(r := p)\<rparr>"

inductive monitor_step :: "(nat \<Rightarrow> 'd instr list set) \<Rightarrow> 'd monitor \<Rightarrow> 'd monitor \<Rightarrow> bool" for prog where
  acquire: "mo_phase m r = Outside \<Longrightarrow> cs \<in> prog r \<Longrightarrow> mutex_lock r (mo_mutex m) = Some mx \<Longrightarrow>
    monitor_step prog m (mo_set r (mo_data m) mx (mo_cond m) (Running cs) m)"
| execute: "mo_phase m r = Running (Do f # cs) \<Longrightarrow>
    monitor_step prog m (mo_set r (f (mo_data m)) (mo_mutex m) (mo_cond m) (Running cs) m)"
| notify: "mo_phase m r = Running (Notify_if b # cs) \<Longrightarrow>
    monitor_step prog m (mo_set r (mo_data m) (mo_mutex m) (if b (mo_data m) then notify_one (mo_cond m) else mo_cond m)
      (Running cs) m)"
| pass: "mo_phase m r = Running (Wait_while b # cs) \<Longrightarrow> \<not> b (mo_data m) \<Longrightarrow>
    monitor_step prog m (mo_set r (mo_data m) (mo_mutex m) (mo_cond m) (Running cs) m)"
| sleep: "mo_phase m r = Running (Wait_while b # cs) \<Longrightarrow> b (mo_data m) \<Longrightarrow>
    cond_wait r (mo_mutex m) (mo_cond m) = (mx, cv) \<Longrightarrow>
    monitor_step prog m (mo_set r (mo_data m) mx cv (Sleeping (Wait_while b # cs)) m)"
| spurious: "mo_phase m r = Sleeping cs \<Longrightarrow>
    monitor_step prog m (mo_set r (mo_data m) (mo_mutex m) (mo_cond m\<lparr>cv_waiting := removeAll r (cv_waiting (mo_cond m))\<rparr>)
      (Sleeping cs) m)"
| wake: "mo_phase m r = Sleeping cs \<Longrightarrow> r \<notin> set (cv_waiting (mo_cond m)) \<Longrightarrow> mutex_lock r (mo_mutex m) = Some mx \<Longrightarrow>
    monitor_step prog m (mo_set r (mo_data m) mx (mo_cond m) (Running cs) m)"
| release: "mo_phase m r = Running [] \<Longrightarrow>
    monitor_step prog m (mo_set r (mo_data m) (mutex_unlock (mo_mutex m)) (mo_cond m) Outside m)"

text \<open>The whole section, up to its end or to the next sleep.\<close>

fun run_section :: "'d instr list \<Rightarrow> 'd \<Rightarrow> 'd \<times> 'd instr list option" where
  "run_section [] d = (d, None)"
| "run_section (Do f # cs) d = run_section cs (f d)"
| "run_section (Notify_if b # cs) d = run_section cs d"
| "run_section (Wait_while b # cs) d = (if b d then (d, Some (Wait_while b # cs)) else run_section cs d)"

text \<open>The same processes with sections as single steps.\<close>

record 'd atomic =
  at_data :: 'd
  at_asleep :: "nat \<Rightarrow> 'd instr list option"

inductive atomic_step :: "(nat \<Rightarrow> 'd instr list set) \<Rightarrow> 'd atomic \<Rightarrow> 'd atomic \<Rightarrow> bool" for prog where
  whole: "at_asleep a r = None \<and> cs \<in> prog r \<or> at_asleep a r = Some cs \<Longrightarrow> run_section cs (at_data a) = (d, rest) \<Longrightarrow>
    atomic_step prog a \<lparr>at_data = d, at_asleep = (at_asleep a)(r := rest)\<rparr>"

section \<open>Every run is one of whole sections\<close>

text \<open>What the running process is going to do counts as done.\<close>

definition after_phase :: "'d \<Rightarrow> 'd phase \<Rightarrow> 'd instr list option" where
  "after_phase d p = (case p of Outside \<Rightarrow> None | Running cs \<Rightarrow> snd (run_section cs d) | Sleeping cs \<Rightarrow> Some cs)"

definition mo_abs :: "'d monitor \<Rightarrow> 'd atomic" where
  "mo_abs m =
     \<lparr>at_data = (case mx_owner (mo_mutex m) of
          None \<Rightarrow> mo_data m
        | Some r \<Rightarrow> (case mo_phase m r of Running cs \<Rightarrow> fst (run_section cs (mo_data m)) | _ \<Rightarrow> mo_data m)),
      at_asleep = (\<lambda>r. after_phase (mo_data m) (mo_phase m r))\<rparr>"

definition exclusive :: "'d monitor \<Rightarrow> bool" where
  "exclusive m \<longleftrightarrow> (\<forall>r. (\<exists>cs. mo_phase m r = Running cs) \<longleftrightarrow> mx_owner (mo_mutex m) = Some r)"

lemmas mo_defs = mo_set_def mutex_lock_def mutex_unlock_def cond_wait_def

lemma exclusive_set:
  assumes "exclusive m"
    and "if \<exists>cs. p = Running cs then mx_owner mx = Some r \<and> (mx_owner (mo_mutex m) = None \<or> mx_owner (mo_mutex m) = Some r)
      else mx_owner mx = None \<and> mx_owner (mo_mutex m) = Some r \<or>
        mx_owner mx = mx_owner (mo_mutex m) \<and> mx_owner (mo_mutex m) \<noteq> Some r"
  shows "exclusive (mo_set r d mx cv p m)"
  unfolding exclusive_def
proof
  fix x
  have old: "(\<exists>cs. mo_phase m x = Running cs) \<longleftrightarrow> mx_owner (mo_mutex m) = Some x" using assms(1) by (simp add: exclusive_def)
  show "(\<exists>cs. mo_phase (mo_set r d mx cv p m) x = Running cs) \<longleftrightarrow> mx_owner (mo_mutex (mo_set r d mx cv p m)) = Some x"
  proof (cases "x = r")
    case True
    then show ?thesis using assms(2) by (auto simp: mo_set_def split: if_splits)
  next
    case False
    then have "(\<exists>cs. mo_phase (mo_set r d mx cv p m) x = Running cs) \<longleftrightarrow> mx_owner (mo_mutex m) = Some x"
      using old by (simp add: mo_set_def)
    also have "\<dots> \<longleftrightarrow> mx_owner mx = Some x" using False assms(2) by (auto split: if_splits)
    finally show ?thesis by (simp add: mo_set_def)
  qed
qed

lemma running_owner: "exclusive m \<Longrightarrow> mo_phase m r = Running cs \<Longrightarrow> mx_owner (mo_mutex m) = Some r"
  by (auto simp: exclusive_def)

lemma not_running: "exclusive m \<Longrightarrow> mo_phase m r = Outside \<or> mo_phase m r = Sleeping cs \<Longrightarrow> mx_owner (mo_mutex m) \<noteq> Some r"
  by (metis exclusive_def phase.distinct(1,5))

lemma monitor_exclusive:
  assumes "monitor_step prog m m'" "exclusive m"
  shows "exclusive m'"
  using assms
proof (induction rule: monitor_step.induct)
  case (spurious m r cs)
  then show ?case using not_running [of m r cs] by (intro exclusive_set) simp_all
qed (auto intro!: exclusive_set dest: running_owner simp: mutex_lock_def mutex_unlock_def cond_wait_def split: if_splits)

lemma abs_stutter:
  assumes ex: "exclusive m" and r: "mo_phase m r = Running cs" "run_section cs (mo_data m) = run_section cs' d"
    and m': "mo_data m' = d" "mx_owner (mo_mutex m') = Some r" "mo_phase m' = (mo_phase m)(r := Running cs')"
  shows "mo_abs m' = mo_abs m"
proof -
  have own: "mx_owner (mo_mutex m) = Some r" using ex r(1) by (auto simp: exclusive_def)
  have "after_phase d (mo_phase m' x) = after_phase (mo_data m) (mo_phase m x)" for x
  proof (cases "x = r")
    case False
    then have "\<nexists>cs. mo_phase m x = Running cs" using ex own by (auto simp: exclusive_def)
    then show ?thesis using False m'(3) by (cases "mo_phase m x") (auto simp: after_phase_def)
  qed (use r m'(3) in \<open>simp add: after_phase_def\<close>)
  then show ?thesis using own r m' by (simp add: mo_abs_def)
qed

lemma others_after:
  assumes "exclusive m" "mx_owner (mo_mutex m) = Some r \<or> mx_owner (mo_mutex m) = None" "x \<noteq> r"
  shows "after_phase d (mo_phase m x) = after_phase (mo_data m) (mo_phase m x)"
proof -
  have "\<nexists>cs. mo_phase m x = Running cs" using assms by (auto simp: exclusive_def)
  then show ?thesis by (cases "mo_phase m x") (auto simp: after_phase_def)
qed

lemma enter_atomic:
  assumes ex: "exclusive m" and r: "mo_phase m r = Outside \<and> cs \<in> prog r \<or> mo_phase m r = Sleeping cs"
    and lk: "mutex_lock r (mo_mutex m) = Some mx"
  shows "atomic_step prog (mo_abs m) (mo_abs (mo_set r (mo_data m) mx cv (Running cs) m))"
proof -
  have free: "mx_owner (mo_mutex m) = None" "mx_owner mx = Some r" using lk by (auto simp: mutex_lock_def split: if_splits)
  obtain d rest where run: "run_section cs (mo_data m) = (d, rest)" by (meson surj_pair)
  have a: "at_data (mo_abs m) = mo_data m" "at_asleep (mo_abs m) = (\<lambda>r. after_phase (mo_data m) (mo_phase m r))"
    using free by (simp_all add: mo_abs_def)
  have "mo_abs (mo_set r (mo_data m) mx cv (Running cs) m) = \<lparr>at_data = d, at_asleep = (at_asleep (mo_abs m))(r := rest)\<rparr>"
    using free run by (simp add: mo_abs_def mo_set_def after_phase_def fun_eq_iff)
  moreover have "at_asleep (mo_abs m) r = None \<and> cs \<in> prog r \<or> at_asleep (mo_abs m) r = Some cs"
    using r by (auto simp: a after_phase_def)
  ultimately show ?thesis using run by (simp add: atomic_step.whole a(1))
qed

lemma leave_stutter:
  assumes ex: "exclusive m" and r: "mo_phase m r = Running cs" and rest: "run_section cs (mo_data m) = (mo_data m, after_phase (mo_data m) p)"
    and p: "\<nexists>cs. p = Running cs"
  shows "mo_abs (mo_set r (mo_data m) (mutex_unlock (mo_mutex m)) cv p m) = mo_abs m"
proof -
  have "mx_owner (mo_mutex m) = Some r" by (rule running_owner [OF ex r])
  then show ?thesis using r rest by (simp add: mo_abs_def mo_set_def mutex_unlock_def fun_eq_iff after_phase_def)
qed

section \<open>A concrete process\<close>

definition demo_monitor :: "nat monitor" where
  "demo_monitor = \<lparr>mo_data = 0, mo_mutex = \<lparr>mx_owner = None\<rparr>, mo_cond = \<lparr>cv_waiting = []\<rparr>, mo_phase = (\<lambda>_. Outside)\<rparr>"

definition demo_prog :: "nat \<Rightarrow> nat instr list set" where
  "demo_prog r = {[Do Suc, Wait_while (\<lambda>d. d < 2), Notify_if (\<lambda>d. True)]}"

text \<open>C19: What happens under one mutex is one step. Processes run sections of code under a mutex instruction by
  instruction, with \<^verbatim>\<open>cond.wait\<close> in loops, \<^verbatim>\<open>notify_one\<close> and spurious wake-ups, in any interleaving.
  With the section of the process that has the mutex counted as done, each of their steps is either
  one whole section, from taking the mutex to its release or the next sleep, or no step at all; and no
  two processes are in a section at once.\<close>

theorem sections_are_atomic:
  assumes "exclusive m" "monitor_step prog m m'"
  shows "exclusive m' \<and> (mo_abs m' = mo_abs m \<or> atomic_step prog (mo_abs m) (mo_abs m'))"
proof
  show "exclusive m'" by (rule monitor_exclusive [OF assms(2,1)])
  show "mo_abs m' = mo_abs m \<or> atomic_step prog (mo_abs m) (mo_abs m')"
    using assms(2)
  proof cases
    case (acquire r cs mx)
    then show ?thesis using enter_atomic [OF assms(1), of r cs prog mx] by simp
  next
    case (execute r f cs)
    have "mo_abs m' = mo_abs m"
      by (rule abs_stutter [OF assms(1) execute(2)]) (simp_all add: execute(1) mo_set_def running_owner [OF assms(1) execute(2)])
    then show ?thesis by blast
  next
    case (notify r b cs)
    have "mo_abs m' = mo_abs m"
      by (rule abs_stutter [OF assms(1) notify(2)]) (simp_all add: notify(1) mo_set_def running_owner [OF assms(1) notify(2)])
    then show ?thesis by blast
  next
    case (pass r b cs)
    have "mo_abs m' = mo_abs m"
      by (rule abs_stutter [OF assms(1) pass(2)])
        (simp_all add: pass(1,3) mo_set_def running_owner [OF assms(1) pass(2)])
    then show ?thesis by blast
  next
    case (sleep r b cs mx cv)
    then show ?thesis using leave_stutter [OF assms(1) sleep(2)] by (simp add: cond_wait_def after_phase_def)
  next
    case (spurious r cs)
    then have "mo_abs m' = mo_abs m" by (simp add: mo_abs_def mo_set_def fun_eq_iff split: option.split phase.split)
    then show ?thesis by blast
  next
    case (wake r cs mx)
    then show ?thesis using enter_atomic [OF assms(1), of r cs prog mx] by simp
  next
    case (release r)
    then show ?thesis using leave_stutter [OF assms(1) release(2)] by (simp add: after_phase_def)
  qed
qed

text \<open>Rank 3 takes the mutex: in the atomic run it is asleep already, with the data changed.\<close>

lemma sections_are_atomic_witness:
  "exclusive (mo_set 3 0 \<lparr>mx_owner = Some 3\<rparr> \<lparr>cv_waiting = []\<rparr> (Running [Do Suc, Wait_while (\<lambda>d. d < 2), Notify_if (\<lambda>d. True)])
     demo_monitor)"
proof -
  have ex: "exclusive demo_monitor" by (simp add: exclusive_def demo_monitor_def)
  have "monitor_step demo_prog demo_monitor (mo_set 3 (mo_data demo_monitor) \<lparr>mx_owner = Some 3\<rparr> (mo_cond demo_monitor)
      (Running [Do Suc, Wait_while (\<lambda>d. d < 2), Notify_if (\<lambda>d. True)]) demo_monitor)"
    by (rule monitor_step.acquire) (simp_all add: demo_monitor_def demo_prog_def mutex_lock_def)
  from sections_are_atomic [OF ex this] show ?thesis by (simp add: demo_monitor_def)
qed

end
