(* ===== verification/Env.thy ===== *)
theory Env
  imports Requests Locks
begin

text \<open>
  The life of the library in one process (\<^verbatim>\<open>struct umpi\<close>, \<^verbatim>\<open>MPI_Init\<close> to \<^verbatim>\<open>MPI_Finalize\<close> and the
  calls that only read the environment, \<^verbatim>\<open>umpi.cc\<close>) and the construction of the shared segment
  (\<^verbatim>\<open>struct shared\<close> and \<^verbatim>\<open>calc_mmap_len\<close>, \<^verbatim>\<open>umpi.hh\<close>).

  What the operating system answers is the record \<open>os\<close>. The sizes of \<^verbatim>\<open>struct shared\<close> and
  \<^verbatim>\<open>class process\<close> depend on the pthread and list types of the platform and are arguments. A call
  that ends in \<^verbatim>\<open>barrier.wait()\<close> is split there: the first part arrives at the barrier, the
  second runs when the barrier has released the rank.
\<close>

section \<open>State\<close>

datatype comm = MPI_COMM_NULL | MPI_COMM_WORLD | MPI_COMM_SELF

record umpi =
  u_rank :: nat
  u_size :: int
  u_name :: string
  u_name_len :: int
  u_ticket :: "32 word"

text \<open>The statics of one process.\<close>

record lib =
  l_umpi :: "umpi option"
  l_addr :: addr
  l_len :: size_t
  l_outstanding :: int

text \<open>The segment: \<open>s_built\<close> are the ranks whose \<^verbatim>\<open>process\<close> object has been constructed.\<close>

record segment =
  s_world :: world
  s_barrier :: barrier
  s_procs :: based_ptr
  s_displs :: "based_ptr list"
  s_built :: "nat list"

record os =
  os_host :: "string option"
  os_getenv :: "string \<Rightarrow> string option"
  os_open :: int
  os_mmap :: addr
  os_close :: int
  os_munmap :: int
  os_pid :: int
  os_page :: size_t

definition MAP_FAILED :: addr where "MAP_FAILED = - 1"

section \<open>Decimal numbers\<close>

fun show_nat :: "nat \<Rightarrow> string" where
  "show_nat n = (if n < 10 then [char_of (48 + n)] else show_nat (n div 10) @ [char_of (48 + n mod 10)])"

declare show_nat.simps [simp del]

definition show_int :: "int \<Rightarrow> string" where
  "show_int n = (if n < 0 then CHR ''-'' # show_nat (nat (- n)) else show_nat (nat n))"

definition digit :: "char \<Rightarrow> nat option" where
  "digit c = (let k = of_char c :: nat in if 48 \<le> k \<and> k < 58 then Some (k - 48) else None)"

fun atoi_digits :: "int \<Rightarrow> string \<Rightarrow> int" where
  "atoi_digits acc [] = acc"
| "atoi_digits acc (c # cs) = (case digit c of None \<Rightarrow> acc | Some d \<Rightarrow> atoi_digits (10 * acc + int d) cs)"

definition is_space :: "char \<Rightarrow> bool" where
  "is_space c \<longleftrightarrow> (let k = of_char c :: nat in k = 32 \<or> 9 \<le> k \<and> k \<le> 13)"

definition atoi :: "string \<Rightarrow> int" where
  "atoi s = (case dropWhile is_space s of
     [] \<Rightarrow> 0
   | c # cs \<Rightarrow> if c = CHR ''-'' then - atoi_digits 0 cs
              else if c = CHR ''+'' then atoi_digits 0 cs else atoi_digits 0 (c # cs))"

section \<open>The segment\<close>

type_synonym sizes = "size_t \<times> size_t"

definition UMPI_POOL_RESERVE_LEN :: size_t where "UMPI_POOL_RESERVE_LEN = 1024 * 1024"
definition UMPI_OUTSTANDING_COLLECTIVE_OPERATIONS :: nat where "UMPI_OUTSTANDING_COLLECTIVE_OPERATIONS = 16"

text \<open>Returns the new value of \<^verbatim>\<open>UMPI_OUTSTANDING_REQUESTS_PER_PROCESS\<close> too.\<close>

definition calc_mmap_len :: "int \<Rightarrow> size_t \<Rightarrow> sizes \<Rightarrow> int \<Rightarrow> int \<times> size_t" where
  "calc_mmap_len outstanding page_size szs n =
     (let out = (if outstanding = 0 then 2 * n else outstanding);
          header_len = fst szs + snd szs * size_of_int n;
          cookie_len = sizeof_cookie + 2 * sizeof_pointer;
          pool_len = UMPI_POOL_RESERVE_LEN + cookie_len * size_of_int out * size_of_int n
      in (out, (header_len + pool_len + (page_size - 1)) AND NOT (page_size - 1)))"

primrec alloc_displs :: "nat \<Rightarrow> int \<Rightarrow> pool \<Rightarrow> (pool \<times> based_ptr list) outcome" where
  "alloc_displs 0 n p = Ret (p, [])"
| "alloc_displs (Suc k) n p =
     and_then (allocate 4 p (size_of_int n)) (\<lambda>(p1, b).
       and_then (alloc_displs k n p1) (\<lambda>(p2, bs). Ret (p2, b # bs)))"

text \<open>\<^verbatim>\<open>new (mmap_addr) shared(size, begin, end)\<close> on zeroed memory; \<open>m\<close> is the memory outside it.\<close>

definition new_shared :: "sizes \<Rightarrow> int \<Rightarrow> addr \<Rightarrow> size_t \<Rightarrow> mem \<Rightarrow> segment outcome" where
  "new_shared szs n base len m =
     (let p0 = pool_init base (base + fst szs) (base + len) (\<lambda>_. BP 0)
      in and_then (allocate (snd szs) p0 (size_of_int n)) (\<lambda>(p1, procs).
         and_then (alloc_displs UMPI_OUTSTANDING_COLLECTIVE_OPERATIONS n p1) (\<lambda>(p2, displs).
         Ret \<lparr>s_world = \<lparr>w_size = nat n, w_pool = p2, w_cookies = \<lambda>_. mk_cookie 0 0 [] 0 0 0 0 0,
                w_procs = \<lambda>_. new_process 0, w_mem = \<lambda>l. if fst l = Shm then 0 else m l\<rparr>,
              s_barrier = \<lparr>br_count = n, br_inside = []\<rparr>, s_procs = procs, s_displs = displs, s_built = []\<rparr>)))"

text \<open>\<^verbatim>\<open>shared::init\<close>: the mailbox of a rank is constructed in place; the predefined types are \<open>predefined\<close>.\<close>

definition shared_init :: "nat \<Rightarrow> int \<Rightarrow> segment \<Rightarrow> segment" where
  "shared_init r pid s = s\<lparr>s_world := upd_proc r (\<lambda>_. new_process pid) (s_world s), s_built := r # s_built s\<rparr>"

definition find_rank :: "int \<Rightarrow> world \<Rightarrow> int" where
  "find_rank pid w = (case find (\<lambda>i. pr_pid (w_procs w i) = pid) [0..<w_size w] of Some i \<Rightarrow> int i | None \<Rightarrow> -1)"

section \<open>Init and Finalize\<close>

text \<open>The constructor of \<^verbatim>\<open>umpi\<close> up to the arrival at the barrier.\<close>

definition MPI_MAX_PROCESSOR_NAME :: nat where "MPI_MAX_PROCESSOR_NAME = 256"

definition umpi_enter :: "int \<Rightarrow> nat \<Rightarrow> string \<Rightarrow> int \<Rightarrow> segment \<Rightarrow> segment \<times> umpi" where
  "umpi_enter n r host pid s =
     (let name = host @ '':'' @ show_int pid; s1 = shared_init r pid s
      in (s1\<lparr>s_barrier := barrier_arrive r (s_barrier s1)\<rparr>,
          \<lparr>u_rank = r, u_size = n, u_name = take (MPI_MAX_PROCESSOR_NAME - 1) name,
           u_name_len = int (length name), u_ticket = 0\<rparr>))"

datatype init = Init_returns int | Init_waits umpi

definition MPI_Init :: "os \<Rightarrow> sizes \<Rightarrow> lib \<Rightarrow> segment \<Rightarrow> (lib \<times> segment \<times> init) outcome" where
  "MPI_Init e szs l s =
     (if l_umpi l \<noteq> None then Ret (l, s, Init_returns MPI_FAIL)
      else case os_host e of
        None \<Rightarrow> Ret (l, s, Init_returns MPI_FAIL)
      | Some host \<Rightarrow>
          (case os_getenv e ''UMPI_MMAP'' of
             Some name \<Rightarrow>
               (case (os_getenv e ''UMPI_SIZE'', os_getenv e ''UMPI_RANK'') of
                  (Some sz, Some rk) \<Rightarrow>
                    if os_open e = -1 then Ret (l, s, Init_returns MPI_FAIL)
                    else let n = atoi sz; (out, len) = calc_mmap_len (l_outstanding l) (os_page e) szs n;
                             l1 = l\<lparr>l_len := len, l_addr := os_mmap e, l_outstanding := out\<rparr>
                      in if os_mmap e = MAP_FAILED \<or> os_close e = -1 then Ret (l1, s, Init_returns MPI_FAIL)
                         else if atoi rk < 0 \<or> n \<le> atoi rk then Undef
                         else let (s1, u) = umpi_enter n (nat (atoi rk)) host (os_pid e) s
                           in Ret (if barrier_released (nat (atoi rk)) (s_barrier s1)
                                then (l1\<lparr>l_umpi := Some u\<rparr>, s1, Init_returns MPI_SUCCESS)
                                else (l1, s1, Init_waits u))
                | _ \<Rightarrow> Undef)
           | None \<Rightarrow>
               let (out, len) = calc_mmap_len (l_outstanding l) (os_page e) szs 1;
                   l1 = l\<lparr>l_len := len, l_addr := os_mmap e, l_outstanding := out\<rparr>
               in if os_mmap e = MAP_FAILED then Ret (l1, s, Init_returns MPI_FAIL)
                  else and_then (new_shared szs 1 (os_mmap e) len (w_mem (s_world s))) (\<lambda>s1.
                    let (s2, u1) = umpi_enter 1 0 host (os_pid e) s1;
                        (s3, u2) = umpi_enter 1 0 host (os_pid e) s2
                    in Ret (l1\<lparr>l_umpi := Some u2\<rparr>, s3, Init_returns MPI_SUCCESS))))"

text \<open>\<^verbatim>\<open>MPI_Init\<close> after the barrier.\<close>

definition MPI_Init_released :: "umpi \<Rightarrow> lib \<Rightarrow> lib \<times> int" where
  "MPI_Init_released u l = (l\<lparr>l_umpi := Some u\<rparr>, MPI_SUCCESS)"

text \<open>\<open>None\<close>: the call waits in the barrier it has arrived at.\<close>

definition MPI_Barrier :: "umpi option \<Rightarrow> comm \<Rightarrow> segment \<Rightarrow> segment \<times> int option" where
  "MPI_Barrier up comm s =
     (case up of
        None \<Rightarrow> (s, Some MPI_FAIL)
      | Some u \<Rightarrow>
          if comm \<noteq> MPI_COMM_WORLD then (s, Some MPI_FAIL)
          else let s1 = s\<lparr>s_barrier := barrier_arrive (u_rank u) (s_barrier s)\<rparr>
            in (s1, if barrier_released (u_rank u) (s_barrier s1) then Some MPI_SUCCESS else None))"

text \<open>\<^verbatim>\<open>MPI_Finalize\<close> up to the barrier in \<^verbatim>\<open>~umpi\<close>, and after it.\<close>

definition MPI_Finalize :: "lib \<Rightarrow> segment \<Rightarrow> segment \<times> int option" where
  "MPI_Finalize l s =
     (case l_umpi l of
        None \<Rightarrow> (s, Some MPI_FAIL)
      | Some u \<Rightarrow> (s\<lparr>s_barrier := barrier_arrive (u_rank u) (s_barrier s)\<rparr>, None))"

definition MPI_Finalize_released :: "os \<Rightarrow> lib \<Rightarrow> lib \<times> int" where
  "MPI_Finalize_released e l =
     (l\<lparr>l_umpi := None\<rparr>, if os_munmap e \<noteq> 0 then MPI_FAIL else MPI_SUCCESS)"

section \<open>Inquiry\<close>

definition MPI_Initialized :: "lib \<Rightarrow> bool \<times> int" where
  "MPI_Initialized l = (l_umpi l \<noteq> None, MPI_SUCCESS)"

definition MPI_Finalized :: "lib \<Rightarrow> bool \<times> int" where
  "MPI_Finalized l = (l_umpi l = None, MPI_SUCCESS)"

definition MPI_Get_address :: "addr \<Rightarrow> int \<times> int" where
  "MPI_Get_address location = (sint location, MPI_SUCCESS)"

text \<open>Seconds of the monotonic clock; \<open>now\<close> is what \<^verbatim>\<open>clock_gettime\<close> stores, \<open>of_long\<close>, \<open>add\<close> and \<open>over\<close> are
  the conversion to \<^verbatim>\<open>double\<close> and its arithmetic.\<close>

definition MPI_Wtime :: "(int \<Rightarrow> 'd) \<Rightarrow> ('d \<Rightarrow> 'd \<Rightarrow> 'd) \<Rightarrow> ('d \<Rightarrow> 'd \<Rightarrow> 'd) \<Rightarrow> int \<times> int \<Rightarrow> 'd" where
  "MPI_Wtime of_long add over now =
     (let (tv_sec, tv_nsec) = now in add (of_long tv_sec) (over (of_long tv_nsec) (of_long 1000000000)))"

definition MPI_Abort :: "comm \<Rightarrow> int \<Rightarrow> int outcome" where
  "MPI_Abort comm errorcode = (if comm \<noteq> MPI_COMM_WORLD then Ret MPI_FAIL else Exit errorcode)"

text \<open>What is written through the pointer arguments; a \<open>bool\<close> argument says that the pointer is not null.\<close>

definition MPI_Get_processor_name :: "umpi option \<Rightarrow> bool \<Rightarrow> bool \<Rightarrow> ((string \<times> int) option \<times> int) outcome" where
  "MPI_Get_processor_name up name resultlen =
     (case up of
        None \<Rightarrow> Ret (None, MPI_FAIL)
      | Some u \<Rightarrow>
          if \<not> name \<or> \<not> resultlen then Ret (None, MPI_FAIL)
          else if int MPI_MAX_PROCESSOR_NAME < u_name_len u + 1 then Undef
          else Ret (Some (u_name u, u_name_len u), MPI_SUCCESS))"

definition MPI_Comm_rank :: "umpi option \<Rightarrow> comm \<Rightarrow> bool \<Rightarrow> int option \<times> int" where
  "MPI_Comm_rank up comm rank =
     (case up of
        None \<Rightarrow> (None, MPI_FAIL)
      | Some u \<Rightarrow> if \<not> rank \<or> comm \<noteq> MPI_COMM_WORLD then (None, MPI_FAIL) else (Some (int (u_rank u)), MPI_SUCCESS))"

definition MPI_Comm_size :: "umpi option \<Rightarrow> comm \<Rightarrow> bool \<Rightarrow> int option \<times> int" where
  "MPI_Comm_size up comm sz =
     (case up of
        None \<Rightarrow> (None, MPI_FAIL)
      | Some u \<Rightarrow> if \<not> sz \<or> comm \<noteq> MPI_COMM_WORLD then (None, MPI_FAIL) else (Some (u_size u), MPI_SUCCESS))"

definition MPI_Comm_dup :: "comm \<Rightarrow> bool \<Rightarrow> comm option \<times> int" where
  "MPI_Comm_dup comm newcomm =
     (if comm = MPI_COMM_NULL \<or> comm \<noteq> MPI_COMM_SELF \<or> comm \<noteq> MPI_COMM_WORLD then (None, MPI_ERR_COMM)
      else if \<not> newcomm then (None, MPI_ERR_ARG)
      else (Some comm, MPI_SUCCESS))"

definition MPI_Comm_free :: "comm option \<Rightarrow> comm option \<times> int" where
  "MPI_Comm_free comm =
     (case comm of
        None \<Rightarrow> (None, MPI_ERR_ARG)
      | Some c \<Rightarrow>
          if c = MPI_COMM_NULL \<or> c \<noteq> MPI_COMM_SELF \<or> c \<noteq> MPI_COMM_WORLD then (Some c, MPI_ERR_COMM)
          else (Some MPI_COMM_NULL, MPI_SUCCESS))"

end
