(* ===== verification/Api.thy ===== *)
theory Api
  imports Env Requests
begin

text \<open>
  The point-to-point calls of \<^verbatim>\<open>mpi.h\<close> (\<^verbatim>\<open>umpi.cc\<close>), written over the members of \<^verbatim>\<open>process\<close> and
  \<^verbatim>\<open>cookie\<close>. The state is the world of \<^verbatim>\<open>Requests\<close> and the \<^verbatim>\<open>umpi\<close> pointer of the calling process
  (\<open>None\<close> before \<^verbatim>\<open>MPI_Init\<close>). A datatype argument is the layout it stands for, \<open>None\<close> a null
  pointer; a buffer is its address, 0 the null pointer; a \<^verbatim>\<open>MPI_Request\<close> is a cookie or \<open>None\<close>.

  What is written through a pointer argument is part of the result. A call that falls asleep in
  \<^verbatim>\<open>cond_.wait\<close> gives \<open>Asleep\<close>; when the rank has been woken the call goes on with
  \<open>wait_for_request\<close> on the same request (for \<open>MPI_Probe\<close> and \<open>MPI_Waitany\<close>: with the same call,
  which repeats the test).
\<close>

record status =
  st_source :: int
  st_tag :: int
  st_error :: int
  st_len :: size_t

datatype 'a progress = Done 'a | Asleep "cid option"

fun done_with :: "('a \<Rightarrow> 'b) \<Rightarrow> 'a progress \<Rightarrow> 'b progress" where
  "done_with f (Done x) = Done (f x)"
| "done_with f (Asleep c) = Asleep c"

section \<open>Starting a transfer\<close>

definition MPI_Irecv ::
  "vm \<Rightarrow> umpi option \<Rightarrow> int \<Rightarrow> int \<Rightarrow> iovecs option \<Rightarrow> int \<Rightarrow> int \<Rightarrow> comm \<Rightarrow> bool \<Rightarrow> world \<Rightarrow>
     (world \<times> int \<times> cid option) outcome" where
  "MPI_Irecv readv up buf count datatype source tag comm request w =
     (case (up, datatype) of
        (Some u, Some ty) \<Rightarrow>
          if buf = 0 \<and> count \<noteq> 0 \<or> source < MPI_ANY_SOURCE \<or> u_size u \<le> source \<or> tag < MPI_ANY_TAG \<or>
             comm \<noteq> MPI_COMM_WORLD \<or> \<not> request
          then Ret (w, MPI_FAIL, None)
          else and_then (recv_request readv (u_rank u) buf count ty source tag w)
                 (\<lambda>(w', err, c). Ret (w', err, Some c))
      | _ \<Rightarrow> Ret (w, MPI_FAIL, None))"

definition MPI_Issend ::
  "vm \<Rightarrow> umpi option \<Rightarrow> int \<Rightarrow> int \<Rightarrow> iovecs option \<Rightarrow> int \<Rightarrow> int \<Rightarrow> comm \<Rightarrow> bool \<Rightarrow> world \<Rightarrow>
     (world \<times> int \<times> cid option) outcome" where
  "MPI_Issend writev up buf count datatype dest tag comm request w =
     (case (up, datatype) of
        (Some u, Some ty) \<Rightarrow>
          if buf = 0 \<and> count \<noteq> 0 \<or> dest < 0 \<or> u_size u \<le> dest \<or> tag < 0 \<or>
             comm \<noteq> MPI_COMM_WORLD \<or> \<not> request
          then Ret (w, MPI_FAIL, None)
          else and_then (send_request writev (u_rank u) (nat dest) buf count ty tag w)
                 (\<lambda>(w', err, c). Ret (w', err, Some c))
      | _ \<Rightarrow> Ret (w, MPI_FAIL, None))"

definition MPI_Isend ::
  "vm \<Rightarrow> umpi option \<Rightarrow> int \<Rightarrow> int \<Rightarrow> iovecs option \<Rightarrow> int \<Rightarrow> int \<Rightarrow> comm \<Rightarrow> bool \<Rightarrow> world \<Rightarrow>
     (world \<times> int \<times> cid option) outcome" where
  "MPI_Isend = MPI_Issend"

section \<open>Status\<close>

definition get_status :: "status option \<Rightarrow> cookie \<Rightarrow> status option \<times> int" where
  "get_status st k =
     (map_option (\<lambda>s. s\<lparr>st_source := c_src k, st_tag := c_tag k,
        st_len := size_of_int (c_count k) * iov_len (c_iovec k)\<rparr>) st, c_err k)"

definition empty_status :: "status option \<Rightarrow> status option \<times> int" where
  "empty_status st =
     (map_option (\<lambda>s. \<lparr>st_source = MPI_ANY_SOURCE, st_tag = MPI_ANY_TAG, st_error = MPI_SUCCESS,
        st_len = 0\<rparr>) st, MPI_SUCCESS)"

definition MPI_Get_count ::
  "umpi option \<Rightarrow> status option \<Rightarrow> iovecs option \<Rightarrow> bool \<Rightarrow> (int option \<times> int) outcome" where
  "MPI_Get_count up st datatype count =
     (case (up, st, datatype) of
        (Some u, Some s, Some ty) \<Rightarrow>
          if \<not> count then Ret (None, MPI_FAIL)
          else if iov_len ty = 0 then Undef
          else Ret (Some (to_i32 (uint (st_len s div iov_len ty))), MPI_SUCCESS)
      | _ \<Rightarrow> Ret (None, MPI_FAIL))"

section \<open>Completing a request\<close>

text \<open>\<^verbatim>\<open>get_status\<close> and \<^verbatim>\<open>leave\<close>, which every completing call ends with.\<close>

definition complete :: "cid \<Rightarrow> status option \<Rightarrow> world \<Rightarrow> (world \<times> status option \<times> int) outcome" where
  "complete c st w =
     (let (st', err) = get_status st (w_cookies w c)
      in and_then (cookie_leave c w) (\<lambda>w'. Ret (w', st', err)))"

text \<open>\<^verbatim>\<open>cookie::wait\<close> by rank \<open>self\<close>: only the owner waits.\<close>

definition cookie_wait :: "nat \<Rightarrow> cid \<Rightarrow> world \<Rightarrow> world \<times> unit option" where
  "cookie_wait self c w = (if is_owner self c w then wait_cookie self c w else (w, Some ()))"

definition wait_for_request ::
  "nat \<Rightarrow> cid \<Rightarrow> status option \<Rightarrow> world \<Rightarrow> (world \<times> (status option \<times> int) progress) outcome" where
  "wait_for_request self c st w =
     (case cookie_wait self c w of
        (w1, None) \<Rightarrow> Ret (w1, Asleep (Some c))
      | (w1, Some _) \<Rightarrow> and_then (complete c st w1) (\<lambda>(w2, st', err). Ret (w2, Done (st', err))))"

text \<open>\<open>request\<close> is the pointer: \<open>None\<close> null, \<open>Some r\<close> with \<open>r\<close> the request it points to.
  The second result is the request afterwards.\<close>

definition MPI_Wait ::
  "umpi option \<Rightarrow> cid option option \<Rightarrow> status option \<Rightarrow> world \<Rightarrow>
     (world \<times> cid option option \<times> (status option \<times> int) progress) outcome" where
  "MPI_Wait up request st w =
     (case up of
        None \<Rightarrow> Ret (w, request, Done (st, MPI_FAIL))
      | Some u \<Rightarrow>
          (case request of
             Some (Some c) \<Rightarrow> and_then (wait_for_request (u_rank u) c st w) (\<lambda>(w', p). Ret (w', Some None, p))
           | _ \<Rightarrow> Ret (w, request, Done (empty_status st))))"

text \<open>The value of \<^verbatim>\<open>*flag\<close>, \<open>None\<close> when it is not written, comes before the status.\<close>

definition MPI_Test ::
  "umpi option \<Rightarrow> cid option option \<Rightarrow> bool \<Rightarrow> status option \<Rightarrow> world \<Rightarrow>
     (world \<times> cid option option \<times> bool option \<times> status option \<times> int) outcome" where
  "MPI_Test up request flag st w =
     (case up of
        None \<Rightarrow> Ret (w, request, None, st, MPI_FAIL)
      | Some u \<Rightarrow>
          if \<not> flag then Ret (w, request, None, st, MPI_FAIL)
          else case request of
            Some (Some c) \<Rightarrow>
              if c_busy (w_cookies w c) \<noteq> 0 then Ret (w, request, Some False, st, MPI_SUCCESS)
              else and_then (complete c st w) (\<lambda>(w', st', err). Ret (w', Some None, Some True, st', err))
          | _ \<Rightarrow> let (st', err) = empty_status st in Ret (w, request, None, st', err))"

text \<open>
  The first loop of \<^verbatim>\<open>MPI_Waitany\<close>: \<open>Inl i\<close> when request \<open>i\<close> belongs to another rank, else the
  values of \<^verbatim>\<open>begin\<close> and \<^verbatim>\<open>end\<close>.
\<close>

fun waitany_scan :: "(cid \<Rightarrow> bool) \<Rightarrow> nat \<Rightarrow> nat \<Rightarrow> nat \<Rightarrow> cid option list \<Rightarrow> nat + nat \<times> nat" where
  "waitany_scan own i b e [] = Inr (b, e)"
| "waitany_scan own i b e (None # rs) = waitany_scan own (Suc i) b e rs"
| "waitany_scan own i b e (Some c # rs) =
     (if \<not> own c then Inl i else waitany_scan own (Suc i) (min b i) (Suc i) rs)"

definition waitany_end ::
  "nat \<Rightarrow> cid option list \<Rightarrow> status option \<Rightarrow> world \<Rightarrow>
     (world \<times> cid option list \<times> (int option \<times> status option \<times> int) progress) outcome" where
  "waitany_end i reqs st w =
     (case reqs ! i of
        None \<Rightarrow> Undef
      | Some c \<Rightarrow> and_then (complete c st w)
          (\<lambda>(w', st', err). Ret (w', reqs[i := None], Done (Some (int i), st', err))))"

definition MPI_Waitany ::
  "umpi option \<Rightarrow> int \<Rightarrow> cid option list option \<Rightarrow> bool \<Rightarrow> status option \<Rightarrow> world \<Rightarrow>
     (world \<times> cid option list \<times> (int option \<times> status option \<times> int) progress) outcome" where
  "MPI_Waitany up count requests index st w =
     (let reqs = (case requests of None \<Rightarrow> [] | Some rs \<Rightarrow> rs)
      in case up of
           None \<Rightarrow> Ret (w, reqs, Done (None, st, MPI_FAIL))
         | Some u \<Rightarrow>
             if count \<noteq> 0 \<and> requests = None \<or> \<not> index then Ret (w, reqs, Done (None, st, MPI_FAIL))
             else if int (length reqs) < count then Undef
             else case waitany_scan (\<lambda>c. is_owner (u_rank u) c w) 0 (nat count) 0 (take (nat count) reqs) of
               Inl i \<Rightarrow> waitany_end i reqs st w
             | Inr (b, e) \<Rightarrow>
                 if e = 0
                 then let (st', err) = empty_status st in Ret (w, reqs, Done (Some MPI_UNDEFINED, st', err))
                 else case wait_any_cookie (u_rank u) (take (e - b) (drop b reqs)) w of
                   (w1, None) \<Rightarrow> Ret (w1, reqs, Asleep None)
                 | (w1, Some i) \<Rightarrow> waitany_end i reqs st w1)"

text \<open>The two loops of \<^verbatim>\<open>MPI_Waitall\<close>. When one wait falls asleep, its request is already null in the array.\<close>

fun waitall_statuses ::
  "umpi option \<Rightarrow> (cid option \<times> status) list \<Rightarrow> world \<Rightarrow> (world \<times> (cid option \<times> status) list \<times> int progress) outcome" where
  "waitall_statuses up [] w = Ret (w, [], Done MPI_SUCCESS)"
| "waitall_statuses up ((r, s) # rs) w =
     and_then (MPI_Wait up (Some r) (Some s) w) (\<lambda>(w1, r', p).
       case (r', p) of
         (Some r1, Done (Some s1, err)) \<Rightarrow>
           if err \<noteq> 0 then Ret (w1, (r1, s1\<lparr>st_error := err\<rparr>) # rs, Done MPI_ERR_IN_STATUS)
           else and_then (waitall_statuses up rs w1)
                  (\<lambda>(w2, rs', q). Ret (w2, (r1, s1\<lparr>st_error := err\<rparr>) # rs', q))
       | (Some r1, Asleep c) \<Rightarrow> Ret (w1, (r1, s) # rs, Asleep c)
       | _ \<Rightarrow> Undef)"

fun waitall_ignore ::
  "umpi option \<Rightarrow> cid option list \<Rightarrow> world \<Rightarrow> (world \<times> cid option list \<times> int progress) outcome" where
  "waitall_ignore up [] w = Ret (w, [], Done MPI_SUCCESS)"
| "waitall_ignore up (r # rs) w =
     and_then (MPI_Wait up (Some r) None w) (\<lambda>(w1, r', p).
       case (r', p) of
         (Some r1, Done (st, err)) \<Rightarrow>
           if err \<noteq> 0 then Ret (w1, r1 # rs, Done err)
           else and_then (waitall_ignore up rs w1) (\<lambda>(w2, rs', q). Ret (w2, r1 # rs', q))
       | (Some r1, Asleep c) \<Rightarrow> Ret (w1, r1 # rs, Asleep c)
       | _ \<Rightarrow> Undef)"

definition MPI_Waitall ::
  "umpi option \<Rightarrow> cid option list \<Rightarrow> status list option \<Rightarrow> world \<Rightarrow>
     (world \<times> cid option list \<times> status list option \<times> int progress) outcome" where
  "MPI_Waitall up reqs statuses w =
     (case statuses of
        None \<Rightarrow> and_then (waitall_ignore up reqs w) (\<lambda>(w', rs, p). Ret (w', rs, None, p))
      | Some ss \<Rightarrow>
          if length ss < length reqs then Undef
          else and_then (waitall_statuses up (zip reqs ss) w)
                 (\<lambda>(w', rs, p). Ret (w', map fst rs, Some (map snd rs), p)))"

section \<open>Probing\<close>

definition MPI_Probe ::
  "umpi option \<Rightarrow> int \<Rightarrow> int \<Rightarrow> comm \<Rightarrow> status option \<Rightarrow> world \<Rightarrow> world \<times> (status option \<times> int) progress" where
  "MPI_Probe up source tag comm st w =
     (case up of
        None \<Rightarrow> (w, Done (st, MPI_FAIL))
      | Some u \<Rightarrow>
          if source < MPI_ANY_SOURCE \<or> u_size u \<le> source \<or> tag < MPI_ANY_TAG \<or> comm \<noteq> MPI_COMM_WORLD \<or> st = None
          then (w, Done (st, MPI_FAIL))
          else case wait_incoming (u_rank u) source tag w of
            (w', None) \<Rightarrow> (w', Asleep None)
          | (w', Some c) \<Rightarrow> (w', Done (get_status st (w_cookies w' c))))"

definition MPI_Iprobe ::
  "umpi option \<Rightarrow> int \<Rightarrow> int \<Rightarrow> comm \<Rightarrow> bool \<Rightarrow> status option \<Rightarrow> world \<Rightarrow> bool option \<times> status option \<times> int" where
  "MPI_Iprobe up source tag comm flag st w =
     (case up of
        None \<Rightarrow> (None, st, MPI_FAIL)
      | Some u \<Rightarrow>
          if source < MPI_ANY_SOURCE \<or> u_size u \<le> source \<or> tag < MPI_ANY_TAG \<or> comm \<noteq> MPI_COMM_WORLD \<or>
             \<not> flag \<or> st = None
          then (None, st, MPI_FAIL)
          else case find_any (u_rank u) source tag w of
            None \<Rightarrow> (Some False, st, MPI_SUCCESS)
          | Some c \<Rightarrow> let (st', err) = get_status st (w_cookies w c) in (Some True, st', err))"

section \<open>Blocking calls\<close>

text \<open>The request is a local variable of the caller.\<close>

definition wait_local ::
  "umpi option \<Rightarrow> status option \<Rightarrow> (world \<times> int \<times> cid option) outcome \<Rightarrow>
     (world \<times> (status option \<times> int) progress) outcome" where
  "wait_local up st started =
     and_then started (\<lambda>(w, ret, request).
       if ret \<noteq> 0 then Ret (w, Done (st, ret))
       else and_then (MPI_Wait up (Some request) st w) (\<lambda>(w', _, p). Ret (w', p)))"

definition MPI_Recv ::
  "vm \<Rightarrow> umpi option \<Rightarrow> int \<Rightarrow> int \<Rightarrow> iovecs option \<Rightarrow> int \<Rightarrow> int \<Rightarrow> comm \<Rightarrow> status option \<Rightarrow> world \<Rightarrow>
     (world \<times> (status option \<times> int) progress) outcome" where
  "MPI_Recv readv up buf count datatype source tag comm st w =
     wait_local up st (MPI_Irecv readv up buf count datatype source tag comm True w)"

definition MPI_Ssend ::
  "vm \<Rightarrow> umpi option \<Rightarrow> int \<Rightarrow> int \<Rightarrow> iovecs option \<Rightarrow> int \<Rightarrow> int \<Rightarrow> comm \<Rightarrow> world \<Rightarrow>
     (world \<times> (status option \<times> int) progress) outcome" where
  "MPI_Ssend writev up buf count datatype dest tag comm w =
     wait_local up None (MPI_Issend writev up buf count datatype dest tag comm True w)"

definition MPI_Send ::
  "vm \<Rightarrow> umpi option \<Rightarrow> int \<Rightarrow> int \<Rightarrow> iovecs option \<Rightarrow> int \<Rightarrow> int \<Rightarrow> comm \<Rightarrow> world \<Rightarrow>
     (world \<times> (status option \<times> int) progress) outcome" where
  "MPI_Send = MPI_Ssend"

end
