(* ===== verification/Delivery.thy ===== *)
theory Delivery
  imports Requests
begin

text \<open>
  What a transfer does to memory: \<^verbatim>\<open>umpi_copy\<close>, \<^verbatim>\<open>write_to_owner\<close> and \<^verbatim>\<open>read_from_owner\<close> move
  exactly the data bytes of the typed buffers and touch nothing else; then the delivery of a
  message in both orders of posting, and which request a post is matched with.
\<close>

section \<open>Typed buffers\<close>

text \<open>
  \<open>n\<close> elements from element \<open>from\<close> on, with a layout the constructors produce, no overflow in the
  byte count and at most \<^verbatim>\<open>IOV_MAX\<close> segments; a contiguous buffer is one segment.
\<close>

definition typed_buf :: "iovecs \<Rightarrow> int \<Rightarrow> int \<Rightarrow> bool" where
  "typed_buf xs from n \<longleftrightarrow> wf_iovec xs \<and> 0 \<le> from \<and> 0 \<le> n \<and>
     (from + n) * int (unat (iov_len xs)) < 2 ^ 63 \<and> (iov_scattered xs \<longrightarrow> nat n * length (iov_range xs) \<le> 1024)"

definition separate :: "loc list \<Rightarrow> loc list \<Rightarrow> bool" where
  "separate S D \<longleftrightarrow> distinct D \<and> set S \<inter> set D = {}"

definition bytes_of :: "iovecs \<Rightarrow> int \<Rightarrow> nat" where
  "bytes_of xs n = nat n * unat (iov_len xs)"

text \<open>The memory after the bytes at \<open>S\<close> have been written to the first locations of \<open>D\<close>.\<close>

definition moved :: "mem \<Rightarrow> loc list \<Rightarrow> loc list \<Rightarrow> mem" where
  "moved m S D = write_locs m (take (length S) D) (map m S)"

lemma moved_read:
  "separate S D \<Longrightarrow> length S \<le> length D \<Longrightarrow> map (moved m S D) (take (length S) D) = map m S"
  by (simp add: moved_def separate_def write_locs_read)

lemma moved_other: "l \<notin> set (take (length S) D) \<Longrightarrow> moved m S D l = m l"
  by (simp add: moved_def write_locs_other)

lemma mult_le_suffix:
  "0 \<le> from \<Longrightarrow> 0 \<le> (n :: int) \<Longrightarrow> (from + n) * int k < b \<Longrightarrow> n * int k < b \<and> from * int k < b"
  by (smt (verit) mult_right_mono of_nat_0_le_iff)

lemma typed_bufD:
  assumes "typed_buf xs from n"
  shows "wf_iovec xs" "0 \<le> from" "0 \<le> n" "(from + n) * int (unat (iov_len xs)) < 2 ^ 64"
    "unat (size_of_int n * iov_len xs) = bytes_of xs n" "int (bytes_of xs n) < 2 ^ 63"
    "unat (size_of_int from * iov_len xs) = bytes_of xs from" "int (bytes_of xs from) < 2 ^ 63"
    "sint (size_of_int n * iov_len xs) = int (bytes_of xs n)"
    "int (bytes_of xs n) = n * int (unat (iov_len xs))"
    "uint (size_of_int from * iov_len xs) = from * int (unat (iov_len xs))"
proof -
  show t: "wf_iovec xs" "0 \<le> from" "0 \<le> n" "(from + n) * int (unat (iov_len xs)) < 2 ^ 64"
    using assms by (auto simp: typed_buf_def)
  have b: "n * int (unat (iov_len xs)) < 2 ^ 63" "from * int (unat (iov_len xs)) < 2 ^ 63"
    using assms mult_le_suffix [of "from" n "unat (iov_len xs)" "2 ^ 63"] by (auto simp: typed_buf_def)
  show i: "int (bytes_of xs n) = n * int (unat (iov_len xs))" using t by (simp add: bytes_of_def)
  with b show l: "int (bytes_of xs n) < 2 ^ 63" by simp
  show u: "unat (size_of_int n * iov_len xs) = bytes_of xs n"
    using t b by (simp add: unat_size_mult bytes_of_def)
  show "unat (size_of_int from * iov_len xs) = bytes_of xs from" "int (bytes_of xs from) < 2 ^ 63"
    using t b by (simp_all add: unat_size_mult bytes_of_def)
  show "sint (size_of_int n * iov_len xs) = int (bytes_of xs n)"
    using u l by (simp add: sint_small)
  show "uint (size_of_int from * iov_len xs) = from * int (unat (iov_len xs))"
    by (rule uint_size_mult [OF t(2)]) (use b in simp)
qed

lemma length_payload_bytes: "wf_iovec xs \<Longrightarrow> 0 \<le> n \<Longrightarrow> length (payload buf xs from n) = bytes_of xs n"
  by (simp add: length_payload bytes_of_def)

section \<open>The kernel call on the segments of two typed buffers\<close>

lemma vm_typed:
  assumes vm: "vm_ok vm" and r: "typed_buf ri rs rc" and w: "typed_buf wi ws wc"
    and room: "bytes_of ri rc \<le> bytes_of wi wc"
    and sep: "separate (payload rb ri rs rc) (payload wb wi ws wc)"
    and t: "t = size_of_int rc * iov_len ri"
  shows "vm m (type_segs rb ri rs (rs + rc) t) (type_segs wb wi ws (ws + wc) t) =
    (moved m (payload rb ri rs rc) (payload wb wi ws wc), int (bytes_of ri rc))"
proof -
  note r' = typed_bufD [OF r] and w' = typed_bufD [OF w]
  let ?n = "bytes_of ri rc" and ?S = "payload rb ri rs rc" and ?D = "payload wb wi ws wc"
  let ?D' = "segs_locs (type_segs wb wi ws (ws + wc) t)"
  have S: "segs_locs (type_segs rb ri rs (rs + rc) t) = ?S"
    unfolding t by (rule type_segs_exact [OF r'(1-4)])
  have lS: "length ?S = ?n" using r' by (simp add: length_payload_bytes)
  have ut: "unat t = ?n" using r'(5) t by simp
  have "unat t \<le> nat (ws + wc - ws) * unat (iov_len wi)" using room by (simp add: ut bytes_of_def)
  note D = type_segs_take [OF w'(1,2) _ w'(4) this, of wb, unfolded ut]
  have D1: "take ?n ?D' = take ?n ?D" "?n \<le> length ?D'" "set ?D' \<subseteq> set ?D"
    using D w'(3) by simp_all
  have dist: "distinct ?D'"
  proof (cases "iov_scattered wi")
    case True
    then show ?thesis using sep by (simp add: segs_locs_scattered separate_def)
  qed (simp add: segs_locs_contiguous)
  have seg: "length (type_segs rb ri rs (rs + rc) t) \<le> 1024" "length (type_segs wb wi ws (ws + wc) t) \<le> 1024"
    using r w by (auto simp: length_type_segs typed_buf_def)
  have disj: "set (segs_locs (type_segs rb ri rs (rs + rc) t)) \<inter> set ?D' = {}"
    using sep D1(3) by (auto simp: S separate_def)
  have mn: "min (length (segs_locs (type_segs rb ri rs (rs + rc) t))) (length ?D') = ?n"
    using D1(2) lS by (simp add: S)
  show ?thesis
    using vm seg dist disj mn lS unfolding vm_ok_def
    by (simp add: Let_def S D1(1) moved_def)
qed

text \<open>The same with the source at least as long as the destination.\<close>

lemma vm_typed_read:
  assumes vm: "vm_ok vm" and r: "typed_buf ri rs rc" and w: "typed_buf wi ws wc"
    and room: "bytes_of wi wc \<le> bytes_of ri rc"
    and sep: "separate (payload rb ri rs rc) (payload wb wi ws wc)"
    and t: "t = size_of_int wc * iov_len wi"
  shows "vm m (type_segs rb ri rs (rs + rc) t) (type_segs wb wi ws (ws + wc) t) =
    (moved m (take (bytes_of wi wc) (payload rb ri rs rc)) (payload wb wi ws wc), int (bytes_of wi wc))"
proof -
  note r' = typed_bufD [OF r] and w' = typed_bufD [OF w]
  let ?n = "bytes_of wi wc" and ?S = "payload rb ri rs rc" and ?D = "payload wb wi ws wc"
  let ?S' = "segs_locs (type_segs rb ri rs (rs + rc) t)"
  have D: "segs_locs (type_segs wb wi ws (ws + wc) t) = ?D"
    unfolding t by (rule type_segs_exact [OF w'(1-4)])
  have lD: "length ?D = ?n" "length ?S = bytes_of ri rc" using r' w' by (simp_all add: length_payload_bytes)
  have ut: "unat t = ?n" using w'(5) t by simp
  have "unat t \<le> nat (rs + rc - rs) * unat (iov_len ri)" using room by (simp add: ut bytes_of_def)
  note S = type_segs_take [OF r'(1,2) _ r'(4) this, of rb, unfolded ut]
  have S1: "take ?n ?S' = take ?n ?S" "?n \<le> length ?S'" "set ?S' \<subseteq> set ?S"
    using S r'(3) by simp_all
  have seg: "length (type_segs rb ri rs (rs + rc) t) \<le> 1024" "length (type_segs wb wi ws (ws + wc) t) \<le> 1024"
    using r w by (auto simp: length_type_segs typed_buf_def)
  have disj: "distinct ?D \<and> set ?S' \<inter> set ?D = {}" using sep S1(3) by (auto simp: separate_def)
  have mn: "min (length ?S') (length ?D) = ?n" using S1(2) lD by simp
  show ?thesis
    using vm seg disj mn lD room unfolding vm_ok_def
    by (simp add: Let_def D S1(1) moved_def)
qed

section \<open>Copies inside one process\<close>

lemma umpi_copy_eq:
  assumes vm: "vm_ok vm" and r: "typed_buf ri rs rc" and w: "typed_buf wi ws wc"
    and room: "bytes_of ri rc \<le> bytes_of wi wc"
    and sep: "separate (payload rb ri rs rc) (payload wb wi ws wc)"
  shows "umpi_copy vm m rb ri rc rs wb wi wc ws =
    (moved m (payload rb ri rs rc) (payload wb wi ws wc), of_nat (bytes_of ri rc))"
proof -
  note r' = typed_bufD [OF r] and w' = typed_bufD [OF w]
  let ?t = "size_of_int rc * iov_len ri"
  have t: "?t = of_nat (bytes_of ri rc)" by (simp flip: r'(5))
  have le: "\<not> size_of_int wc * iov_len wi < ?t"
    using room r'(5) w'(5) by (simp add: word_less_nat_alt)
  show ?thesis
  proof (cases "iov_contiguous ri \<and> iov_contiguous wi")
    case True
    then have c: "\<not> iov_scattered ri" "\<not> iov_scattered wi" by (simp_all add: iov_contiguous_iff)
    have "memcpy m (add_loc wb (ws * int (unat (iov_len wi)))) (add_loc rb (rs * int (unat (iov_len ri))))
        (bytes_of ri rc) = moved m (payload rb ri rs rc) (payload wb wi ws wc)"
      using room r'(3) w'(3)
      by (simp add: memcpy_def moved_def payload_contiguous c bytes_of_def min_absorb1)
    with True le show ?thesis
      by (simp add: umpi_copy_def Let_def r'(5) r'(11) w'(11) del: uint_nat of_nat_unat) (simp add: t)
  next
    case False
    with le vm_typed [OF vm r w room sep refl, of m] show ?thesis
      by (auto simp: umpi_copy_def Let_def r'(9)) (simp_all add: t)
  qed
qed

section \<open>Transfers between processes\<close>

abbreviation owner_payload :: "cookie \<Rightarrow> int \<Rightarrow> loc list" where
  "owner_payload k from \<equiv> payload (Priv (c_owner k), c_buf k) (c_iovec k) from (c_size k - from)"

definition owner_buf :: "cookie \<Rightarrow> int \<Rightarrow> bool" where
  "owner_buf k from \<longleftrightarrow> typed_buf (c_iovec k) from (c_size k - from) \<and> iov_len (c_iovec k) \<noteq> 0"

lemma size_mult_split:
  assumes "typed_buf xs from n"
  shows "unat (size_of_int (from + n) * iov_len xs) = bytes_of xs from + bytes_of xs n"
proof -
  note t = typed_bufD [OF assms]
  have "unat (size_of_int (from + n) * iov_len xs) = nat (from + n) * unat (iov_len xs)"
    using t by (intro unat_size_mult) auto
  then show ?thesis using t(2,3) by (simp add: bytes_of_def nat_add_distrib distrib_right)
qed

lemma room_cond:
  assumes o': "typed_buf xs from n" and t: "unat t < 2 ^ 63"
  shows "size_of_int (from + n) * iov_len xs < size_of_int from * iov_len xs + t \<longleftrightarrow> bytes_of xs n < unat t"
proof -
  note b = typed_bufD [OF o']
  have "bytes_of xs from < 2 ^ 63" using b(8) by simp
  with t have "unat (size_of_int from * iov_len xs + t) = bytes_of xs from + unat t"
    using b(7) by (simp add: unat_plus_if')
  then show ?thesis by (simp add: word_less_nat_alt size_mult_split [OF o'])
qed

lemma uint_div_bytes: "unat t = n \<Longrightarrow> uint (t div l) = int (n div unat l)" for t l :: size_t
  by (drule sym) (simp add: uint_div_distrib zdiv_int)

lemma write_to_owner_too_small:
  assumes "typed_buf iovec skip count" "owner_buf (w_cookies w c) seek"
    and "bytes_of (c_iovec (w_cookies w c)) (c_size (w_cookies w c) - seek) < bytes_of iovec count"
  shows "write_to_owner writev c buf iovec count seek skip w = Ret (notify_done c MPI_FAIL w, MPI_FAIL)"
proof -
  let ?k = "w_cookies w c"
  note b = typed_bufD [OF assms(1)]
  have "unat (size_of_int count * iov_len iovec) < 2 ^ 63" using b(5,6) by simp
  from room_cond [OF _ this, of "c_iovec ?k" seek "c_size ?k - seek"] assms(2,3) b(5)
  have "size_of_int (c_size ?k) * iov_len (c_iovec ?k) <
      size_of_int seek * iov_len (c_iovec ?k) + size_of_int count * iov_len iovec"
    by (simp add: owner_buf_def)
  then show ?thesis by (simp add: write_to_owner_def Let_def)
qed

lemma write_to_owner_eq:
  fixes w c defines "k \<equiv> w_cookies w c"
  assumes vm: "vm_ok writev" and l: "typed_buf iovec skip count" and o': "owner_buf k seek"
    and room: "bytes_of iovec count \<le> bytes_of (c_iovec k) (c_size k - seek)"
    and sep: "separate (payload buf iovec skip count) (owner_payload k seek)"
    and cnt: "0 \<le> c_count k" "c_count k \<le> c_size k" "c_count k < 2 ^ 31"
  shows "write_to_owner writev c buf iovec count seek skip w =
    Ret (notify_done c MPI_SUCCESS
      ((upd_cookie c (\<lambda>x. x\<lparr>c_count := min (c_count x) (int (bytes_of iovec count div unat (iov_len (c_iovec k))))\<rparr>) w)
         \<lparr>w_mem := moved (w_mem w) (payload buf iovec skip count) (owner_payload k seek)\<rparr>), MPI_SUCCESS)"
proof -
  let ?L = "unat (iov_len (c_iovec k))" and ?t = "size_of_int count * iov_len iovec" and ?n = "bytes_of iovec count"
  note b = typed_bufD [OF l]
  have ob: "typed_buf (c_iovec k) seek (c_size k - seek)" and L: "0 < ?L"
    using o' by (auto simp: owner_buf_def unat_gt_0)
  note ob' = typed_bufD [OF ob]
  have t: "unat ?t < 2 ^ 63" using b(5,6) by simp
  have nosmall: "\<not> size_of_int (c_size k) * iov_len (c_iovec k) < size_of_int seek * iov_len (c_iovec k) + ?t"
    using room_cond [OF ob t] room b(5) by simp
  have "c_count k * int ?L \<le> c_size k * int ?L" using cnt(2) by (simp add: mult_right_mono)
  then have "c_count k * int ?L < 2 ^ 64" using ob'(4) by simp
  then have uc: "unat (size_of_int (c_count k) * iov_len (c_iovec k)) = nat (c_count k) * ?L"
    using cnt(1) by (intro unat_size_mult)
  have newcount: "(if size_of_int (c_count k) * iov_len (c_iovec k) < ?t then c_count k
      else to_i32 (uint (?t div iov_len (c_iovec k)))) = min (c_count k) (int (?n div ?L))"
  proof (cases "nat (c_count k) * ?L < ?n")
    case True
    then have "nat (c_count k) \<le> ?n div ?L" using L by (simp add: less_eq_div_iff_mult_less_eq)
    with True uc b(5) cnt(1) show ?thesis by (simp add: word_less_nat_alt min_def nat_le_iff)
  next
    case False
    then have "?n div ?L \<le> nat (c_count k) * ?L div ?L" by (intro div_le_mono) simp
    then have q: "?n div ?L \<le> nat (c_count k)" using L by simp
    have "uint (?t div iov_len (c_iovec k)) = int (?n div ?L)"
      using b(5) by (rule uint_div_bytes)
    moreover have "to_i32 (int (?n div ?L)) = int (?n div ?L)"
      using q cnt by (intro to_i32_id) (simp_all add: le_nat_iff)
    moreover have "int (?n div ?L) \<le> c_count k" using q cnt(1) by (simp add: le_nat_iff)
    ultimately show ?thesis using False uc b(5) by (simp add: word_less_nat_alt min_def)
  qed
  have segs: "writev (w_mem w) (type_segs buf iovec skip (skip + count) ?t)
      (type_segs (Priv (c_owner k), c_buf k) (c_iovec k) seek (c_size k) ?t) =
      (moved (w_mem w) (payload buf iovec skip count) (owner_payload k seek), int ?n)"
    using vm_typed [OF vm l ob room sep refl] by simp
  show ?thesis
    using nosmall L newcount segs b(9)
    unfolding write_to_owner_def k_def Let_def
    by (simp add: unat_gt_0 upd_cookie_def)
qed

text \<open>
  Reading: \<open>cnt\<close> is the number of elements asked for, or as many whole elements as the owner's
  data has when the caller passes 0.
\<close>

definition read_count :: "cookie \<Rightarrow> iovecs \<Rightarrow> int \<Rightarrow> int \<Rightarrow> int" where
  "read_count k iovec count0 skip =
     (if count0 \<noteq> 0 then count0
      else int (bytes_of (c_iovec k) (c_size k - skip) div unat (iov_len iovec)))"

lemma read_count_eq:
  assumes o': "owner_buf k skip" and fits: "read_count k iovec count0 skip < 2 ^ 31"
  shows "(if count0 \<noteq> 0 then count0
      else to_i32 (uint ((size_of_int (c_size k - skip) * iov_len (c_iovec k)) div iov_len iovec))) =
    read_count k iovec count0 skip"
proof -
  let ?t = "size_of_int (c_size k - skip) * iov_len (c_iovec k)"
  have "unat ?t = bytes_of (c_iovec k) (c_size k - skip)"
    using o' typed_bufD(5) unfolding owner_buf_def by blast
  then have "uint (?t div iov_len iovec) = int (bytes_of (c_iovec k) (c_size k - skip) div unat (iov_len iovec))"
    by (rule uint_div_bytes)
  note u = this
  show ?thesis
  proof (cases "count0 = 0")
    case True
    with fits have "int (bytes_of (c_iovec k) (c_size k - skip) div unat (iov_len iovec)) < 2147483648"
      by (simp add: read_count_def)
    then have "to_i32 (int (bytes_of (c_iovec k) (c_size k - skip) div unat (iov_len iovec))) =
        int (bytes_of (c_iovec k) (c_size k - skip) div unat (iov_len iovec))"
      by (intro to_i32_id) linarith+
    with True show ?thesis unfolding u read_count_def by simp
  qed (simp add: read_count_def)
qed

lemma read_from_owner_cond:
  fixes w c defines "k \<equiv> w_cookies w c"
  assumes o': "owner_buf k skip" and l: "typed_buf iovec seek (sz - seek)" and L: "iov_len iovec \<noteq> 0"
    and cnt: "read_count k iovec count0 skip = n" "n < 2 ^ 31" "typed_buf iovec seek n"
  shows "read_from_owner readv c buf iovec sz count0 seek skip w =
    (if bytes_of (c_iovec k) (c_size k - skip) < bytes_of iovec n \<or> sz - seek < n
     then Ret (notify_done c MPI_FAIL w, MPI_FAIL)
     else let t = size_of_int n * iov_len iovec;
              (m, v) = readv (w_mem w) (type_segs (Priv (c_owner k), c_buf k) (c_iovec k) skip (c_size k) t)
                 (type_segs buf iovec seek (seek + n) t);
              err = (if int (bytes_of iovec n) \<noteq> v then MPI_FAIL else MPI_SUCCESS)
          in Ret (notify_done c err (w\<lparr>w_mem := m\<rparr>), err))"
proof -
  let ?t = "size_of_int n * iov_len iovec"
  note b = typed_bufD [OF cnt(3)] and lb = typed_bufD [OF l]
  have ob: "typed_buf (c_iovec k) skip (c_size k - skip)" using o' by (simp add: owner_buf_def)
  have t: "unat ?t < 2 ^ 63" using b(5,6) by simp
  have c1: "size_of_int (c_size k) * iov_len (c_iovec k) < size_of_int skip * iov_len (c_iovec k) + ?t \<longleftrightarrow>
      bytes_of (c_iovec k) (c_size k - skip) < bytes_of iovec n"
    using room_cond [OF ob t] b(5) by simp
  have "0 < unat (iov_len iovec)" using L by (simp add: unat_gt_0)
  then have "bytes_of iovec (sz - seek) < bytes_of iovec n \<longleftrightarrow> nat (sz - seek) < nat n"
    by (simp add: bytes_of_def)
  then have c2: "size_of_int sz * iov_len iovec < size_of_int seek * iov_len iovec + ?t \<longleftrightarrow> sz - seek < n"
    using room_cond [OF l t] b(3,5) lb(3) by auto
  have cn: "(if count0 \<noteq> 0 then count0
      else to_i32 (uint ((size_of_int (c_size k - skip) * iov_len (c_iovec k)) div iov_len iovec))) = n"
    using read_count_eq [OF o'] cnt(1,2) by simp
  have "\<not> (count0 = 0 \<and> iov_len iovec = 0)" using L by simp
  then show ?thesis
    unfolding read_from_owner_def Let_def k_def [symmetric] cn c1 c2 b(9) by (simp only: if_False)
qed

lemma read_from_owner_eq:
  fixes w c defines "k \<equiv> w_cookies w c"
  assumes vm: "vm_ok readv" and o': "owner_buf k skip" and l: "typed_buf iovec seek (sz - seek)"
    and L: "iov_len iovec \<noteq> 0"
    and cnt: "read_count k iovec count0 skip = n" "n < 2 ^ 31" "typed_buf iovec seek n" "n \<le> sz - seek"
    and room: "bytes_of iovec n \<le> bytes_of (c_iovec k) (c_size k - skip)"
    and sep: "separate (owner_payload k skip) (payload buf iovec seek n)"
  shows "read_from_owner readv c buf iovec sz count0 seek skip w =
    Ret (notify_done c MPI_SUCCESS (w\<lparr>w_mem := moved (w_mem w)
       (take (bytes_of iovec n) (owner_payload k skip)) (payload buf iovec seek n)\<rparr>), MPI_SUCCESS)"
proof -
  have "typed_buf (c_iovec k) skip (c_size k - skip)" using o' by (simp add: owner_buf_def)
  note v = vm_typed_read [OF vm this cnt(3) room sep refl, of "w_mem w", simplified]
  show ?thesis
    using read_from_owner_cond [OF o' [unfolded k_def] l L cnt(1-3) [unfolded k_def], of readv buf] room cnt(4) v
    unfolding k_def by (simp add: Let_def)
qed

end
