(* ===== verification/P2P_Machine.thy ===== *)
theory P2P_Machine
  imports Requests "HOL-Library.Multiset"
begin

text \<open>
  All ranks running point-to-point calls on the shared world: a step relation whose steps are
  the critical sections and the transfers of \<^verbatim>\<open>Requests\<close>, in any interleaving. A rank's
  position inside the library is its \<open>pc\<close>; \<open>m_handles\<close> is the list of the requests it
  holds (the \<^verbatim>\<open>MPI_Request\<close> values it has been given and has not completed).

  The invariants: every node is in exactly one box and is a live block of the pool, \<^verbatim>\<open>used_\<close>
  counts the handles, \<^verbatim>\<open>busy_\<close> counts the transfers to come, and a rank sleeps only while
  what it waits for has not happened.
\<close>

section \<open>The machine\<close>

datatype pc =
    Idle
  | Reading cid int iovecs int
  | Writing cid int iovecs int
  | Waiting cid
  | Probing int int
  | Leaving cid

record machine =
  m_world :: world
  m_pc :: "nat \<Rightarrow> pc"
  m_handles :: "nat \<Rightarrow> cid list"

definition set_rank :: "nat \<Rightarrow> world \<Rightarrow> pc \<Rightarrow> cid list \<Rightarrow> machine \<Rightarrow> machine" where
  "set_rank r w p hs m =
     m\<lparr>m_world := w, m_pc := (m_pc m)(r := p), m_handles := (m_handles m)(r := hs)\<rparr>"

abbreviation msize :: "machine \<Rightarrow> nat" where
  "msize m \<equiv> w_size (m_world m)"

text \<open>One step of rank \<open>r\<close>. \<open>writev\<close> and \<open>readv\<close> are the kernel calls, unconstrained.\<close>

inductive p2p_step :: "vm \<Rightarrow> vm \<Rightarrow> machine \<Rightarrow> machine \<Rightarrow> bool" for writev readv where
  irecv: "r < msize m \<Longrightarrow> m_pc m r = Idle \<Longrightarrow>
    recv_post r buf cnt iovec source tag (m_world m) = Ret (w, c, matched) \<Longrightarrow>
    p2p_step writev readv m
      (set_rank r w (if matched then Reading c buf iovec cnt else Idle) (c # m_handles m r) m)"
| isend: "r < msize m \<Longrightarrow> dest < msize m \<Longrightarrow> m_pc m r = Idle \<Longrightarrow>
    send_post r dest buf cnt iovec tag (m_world m) = Ret (w, c, matched) \<Longrightarrow>
    p2p_step writev readv m
      (set_rank r w (if matched then Writing c buf iovec cnt else Idle) (c # m_handles m r) m)"
| do_read: "r < msize m \<Longrightarrow> m_pc m r = Reading c buf iovec cnt \<Longrightarrow>
    read_from_owner readv c (Priv r, buf) iovec cnt 0 0 0 (m_world m) = Ret (w, err) \<Longrightarrow>
    p2p_step writev readv m (set_rank r w Idle (m_handles m r) m)"
| do_write: "r < msize m \<Longrightarrow> m_pc m r = Writing c buf iovec cnt \<Longrightarrow>
    write_to_owner writev c (Priv r, buf) iovec cnt 0 0 (m_world m) = Ret (w, err) \<Longrightarrow>
    p2p_step writev readv m (set_rank r w Idle (m_handles m r) m)"
| wait_other: "r < msize m \<Longrightarrow> m_pc m r = Idle \<Longrightarrow> c \<in> set (m_handles m r) \<Longrightarrow>
    \<not> is_owner r c (m_world m) \<Longrightarrow>
    p2p_step writev readv m (set_rank r (m_world m) (Leaving c) (m_handles m r) m)"
| do_wait: "r < msize m \<Longrightarrow> m_pc m r = Idle \<and> c \<in> set (m_handles m r) \<and> is_owner r c (m_world m) \<or>
      m_pc m r = Waiting c \<and> \<not> pr_asleep (w_procs (m_world m) r) \<Longrightarrow>
    wait_cookie r c (m_world m) = (w, res) \<Longrightarrow>
    p2p_step writev readv m
      (set_rank r w (if res = None then Waiting c else Leaving c) (m_handles m r) m)"
| do_test: "r < msize m \<Longrightarrow> m_pc m r = Idle \<Longrightarrow> c \<in> set (m_handles m r) \<Longrightarrow>
    c_busy (w_cookies (m_world m) c) = 0 \<Longrightarrow>
    p2p_step writev readv m (set_rank r (m_world m) (Leaving c) (m_handles m r) m)"
| do_leave: "r < msize m \<Longrightarrow> m_pc m r = Leaving c \<Longrightarrow> cookie_leave c (m_world m) = Ret w \<Longrightarrow>
    p2p_step writev readv m (set_rank r w Idle (remove1 c (m_handles m r)) m)"
| do_probe: "r < msize m \<Longrightarrow> m_pc m r = Idle \<or>
      m_pc m r = Probing source tag \<and> \<not> pr_asleep (w_procs (m_world m) r) \<Longrightarrow>
    wait_incoming r source tag (m_world m) = (w, res) \<Longrightarrow>
    p2p_step writev readv m
      (set_rank r w (if res = None then Probing source tag else Idle) (m_handles m r) m)"
| spurious: "r < msize m \<Longrightarrow> pr_asleep (w_procs (m_world m) r) \<Longrightarrow>
    p2p_step writev readv m
      (m\<lparr>m_world := upd_proc r (\<lambda>p. p\<lparr>pr_asleep := False\<rparr>) (m_world m)\<rparr>)"

definition initial :: "machine \<Rightarrow> bool" where
  "initial m \<longleftrightarrow> (\<forall>r. \<exists>pid. w_procs (m_world m) r = new_process pid) \<and>
     (\<forall>r. m_pc m r = Idle) \<and> (\<forall>r. m_handles m r = []) \<and> node_inv (w_pool (m_world m)) {}"

inductive p2p_reachable :: "vm \<Rightarrow> vm \<Rightarrow> machine \<Rightarrow> bool" for writev readv where
  start: "initial m \<Longrightarrow> p2p_reachable writev readv m"
| step: "p2p_reachable writev readv m \<Longrightarrow> p2p_step writev readv m m' \<Longrightarrow> p2p_reachable writev readv m'"

section \<open>Boxes as multisets\<close>

definition psum :: "(process \<Rightarrow> cid multiset) \<Rightarrow> world \<Rightarrow> cid multiset" where
  "psum f w = (\<Sum>r < w_size w. f (w_procs w r))"

definition unmatched_of :: "process \<Rightarrow> cid multiset" where
  "unmatched_of p = mset (pr_inbox p) + mset (pr_outbox p)"

definition pending_of :: "process \<Rightarrow> cid multiset" where
  "pending_of p = mset (pr_pending p)"

definition free_of :: "process \<Rightarrow> cid multiset" where
  "free_of p = mset (pr_free p)"

definition places :: "world \<Rightarrow> cid multiset" where
  "places w = psum free_of w + (psum unmatched_of w + psum pending_of w)"

lemma upd_proc_simps [simp]:
  "w_procs (upd_proc r f w) = (w_procs w)(r := f (w_procs w r))"
  "w_cookies (upd_proc r f w) = w_cookies w" "w_pool (upd_proc r f w) = w_pool w"
  "w_size (upd_proc r f w) = w_size w" "w_mem (upd_proc r f w) = w_mem w"
  by (simp_all add: upd_proc_def)

lemma upd_cookie_simps [simp]:
  "w_cookies (upd_cookie c g w) = (w_cookies w)(c := g (w_cookies w c))"
  "w_procs (upd_cookie c g w) = w_procs w" "w_pool (upd_cookie c g w) = w_pool w"
  "w_size (upd_cookie c g w) = w_size w" "w_mem (upd_cookie c g w) = w_mem w"
  by (simp_all add: upd_cookie_def)

lemma psum_cong:
  "w_size w' = w_size w \<Longrightarrow> (\<And>r. r < w_size w \<Longrightarrow> f (w_procs w' r) = f (w_procs w r)) \<Longrightarrow>
   psum f w' = psum f w"
  by (simp add: psum_def)

lemma sum_upd:
  fixes g :: "'a \<Rightarrow> 'b :: cancel_comm_monoid_add" and s n :: nat
  assumes "s < n"
  shows "(\<Sum>r < n. g ((F(s := x)) r)) + g (F s) = (\<Sum>r < n. g (F r)) + g x"
proof -
  have rm: "(\<Sum>r < n. G r) = G s + (\<Sum>r \<in> {..<n} - {s}. G r)" for G :: "nat \<Rightarrow> 'b"
    using assms by (intro sum.remove) auto
  have "(\<Sum>r \<in> {..<n} - {s}. g ((F(s := x)) r)) = (\<Sum>r \<in> {..<n} - {s}. g (F r))"
    by (intro sum.cong) auto
  then show ?thesis
    unfolding rm [of "\<lambda>r. g ((F(s := x)) r)"] rm [of "\<lambda>r. g (F r)"] by (simp add: ac_simps)
qed

lemma psum_upd:
  assumes "r < w_size w" "w_size w' = w_size w" "w_procs w' = (w_procs w)(r := p)"
  shows "psum f w' + f (w_procs w r) = psum f w + f p"
  unfolding psum_def assms(2,3) by (rule sum_upd [OF assms(1)])

lemma in_psum: "c \<in># psum f w \<longleftrightarrow> (\<exists>r < w_size w. c \<in># f (w_procs w r))"
  by (auto simp: psum_def set_mset_sum)

end
