(* ===== verification/P2P_Inv.thy ===== *)
theory P2P_Inv
  imports P2P_Machine
begin

text \<open>
  The invariant of the point-to-point machine: one lemma per kind of step (a request is
  created, matched, transferred, waited for, given up), then preservation by every step.
\<close>

section \<open>Counting\<close>

fun transfers :: "pc \<Rightarrow> cid \<Rightarrow> nat" where
  "transfers (Reading c _ _ _) x = (if x = c then 1 else 0)"
| "transfers (Writing c _ _ _) x = (if x = c then 1 else 0)"
| "transfers _ x = 0"

definition handle_count :: "machine \<Rightarrow> cid \<Rightarrow> nat" where
  "handle_count m c = (\<Sum>r < msize m. count_list (m_handles m r) c)"

definition transfer_count :: "machine \<Rightarrow> cid \<Rightarrow> nat" where
  "transfer_count m c = (\<Sum>r < msize m. transfers (m_pc m r) c)"

abbreviation unmatched :: "world \<Rightarrow> cid multiset" where "unmatched \<equiv> psum unmatched_of"
abbreviation pending :: "world \<Rightarrow> cid multiset" where "pending \<equiv> psum pending_of"
abbreviation cookie_of :: "machine \<Rightarrow> cid \<Rightarrow> cookie" where "cookie_of m \<equiv> w_cookies (m_world m)"

lemma set_rank_simps [simp]:
  "m_world (set_rank r w p hs m) = w" "m_pc (set_rank r w p hs m) = (m_pc m)(r := p)"
  "m_handles (set_rank r w p hs m) = (m_handles m)(r := hs)"
  by (simp_all add: set_rank_def)

lemma handle_count_set_rank:
  assumes "r < msize m" "w_size w = msize m"
  shows "handle_count (set_rank r w p hs m) c + count_list (m_handles m r) c =
    handle_count m c + count_list hs c"
  using sum_upd [OF assms(1), of "\<lambda>xs. count_list xs c" "m_handles m" hs] assms(2)
  by (simp add: handle_count_def)

lemma transfer_count_set_rank:
  assumes "r < msize m" "w_size w = msize m"
  shows "transfer_count (set_rank r w p hs m) c + transfers (m_pc m r) c =
    transfer_count m c + transfers p c"
  using sum_upd [OF assms(1), of "\<lambda>q. transfers q c" "m_pc m" p] assms(2)
  by (simp add: transfer_count_def)

lemma handle_count_ge: "r < msize m \<Longrightarrow> count_list (m_handles m r) c \<le> handle_count m c"
  unfolding handle_count_def by (rule member_le_sum) auto

lemma transfer_count_ge: "r < msize m \<Longrightarrow> transfers (m_pc m r) c \<le> transfer_count m c"
  unfolding transfer_count_def by (rule member_le_sum) auto

lemma count_list_pos: "x \<in> set xs \<longleftrightarrow> 0 < count_list xs x"
  by (metis count_list_0_iff gr0I less_irrefl)

lemma count_list_remove1: "count_list (remove1 x xs) y = count_list xs y - (if x = y then 1 else 0)"
  by (induction xs) auto

section \<open>The invariant\<close>

text \<open>\<open>box_inv w B\<close>: the same with \<open>B\<close> the requests in the boxes of slots and in the local lists of running calls.\<close>

definition inv_nodes :: "world \<Rightarrow> bool" where
  "inv_nodes w \<longleftrightarrow> (\<forall>c. count (places w) c \<le> 1) \<and> node_inv (w_pool w) (set_mset (places w))"

definition box_inv :: "world \<Rightarrow> cid multiset \<Rightarrow> bool" where
  "box_inv w B \<longleftrightarrow> (\<forall>c. count (places w + B) c \<le> 1) \<and> node_inv (w_pool w) (set_mset (places w + B))"

lemma box_inv_empty: "box_inv w {#} \<longleftrightarrow> inv_nodes w"
  by (simp add: box_inv_def inv_nodes_def)

definition cookie_ok :: "machine \<Rightarrow> cid \<Rightarrow> bool" where
  "cookie_ok m c \<longleftrightarrow>
     (if c \<in># unmatched (m_world m)
      then c_used (cookie_of m c) = 1 \<and> c_busy (cookie_of m c) = 1 \<and> c_owner (cookie_of m c) < msize m \<and>
        c \<in> set (m_handles m (c_owner (cookie_of m c))) \<and> handle_count m c = 1 \<and> transfer_count m c = 0
      else if c \<in># pending (m_world m)
      then c_used (cookie_of m c) = int (handle_count m c) \<and> handle_count m c \<le> 2 \<and>
        c_busy (cookie_of m c) = int (transfer_count m c) \<and> transfer_count m c \<le> 1 \<and>
        c_owner (cookie_of m c) < msize m
      else handle_count m c = 0 \<and> transfer_count m c = 0)"

definition pc_ok :: "machine \<Rightarrow> nat \<Rightarrow> bool" where
  "pc_ok m r \<longleftrightarrow>
     (case m_pc m r of
        Idle \<Rightarrow> True
      | Reading c _ _ _ \<Rightarrow> c \<in> set (m_handles m r)
      | Writing c _ _ _ \<Rightarrow> c \<in> set (m_handles m r)
      | Waiting c \<Rightarrow> c \<in> set (m_handles m r) \<and> c_owner (cookie_of m c) = r \<and>
          pr_waiting (w_procs (m_world m) r) = Some c \<and>
          pr_waiting_for (w_procs (m_world m) r) = waiting_for_cookie
      | Probing _ _ \<Rightarrow> pr_waiting_for (w_procs (m_world m) r) = waiting_for_incoming
      | Leaving c \<Rightarrow> c \<in> set (m_handles m r) \<and> c \<in># pending (m_world m))"

definition sleep_ok :: "machine \<Rightarrow> nat \<Rightarrow> bool" where
  "sleep_ok m r \<longleftrightarrow> pr_asleep (w_procs (m_world m) r) \<longrightarrow>
     (case m_pc m r of
        Waiting c \<Rightarrow> c_busy (cookie_of m c) \<noteq> 0
      | Probing s t \<Rightarrow> find_any r s t (m_world m) = None
      | _ \<Rightarrow> False)"

definition p2p_inv :: "machine \<Rightarrow> bool" where
  "p2p_inv m \<longleftrightarrow> inv_nodes (m_world m) \<and> (\<forall>c. cookie_ok m c) \<and>
     (\<forall>r < msize m. pc_ok m r) \<and> (\<forall>r < msize m. sleep_ok m r)"

lemma inv_nodes_exclusive:
  assumes "inv_nodes w"
  shows "c \<in># unmatched w \<Longrightarrow> c \<notin># pending w" "c \<in># psum free_of w \<Longrightarrow> c \<notin># unmatched w"
    "c \<in># psum free_of w \<Longrightarrow> c \<notin># pending w"
proof -
  have "count (psum free_of w) c + (count (unmatched w) c + count (pending w) c) \<le> 1"
    using assms by (simp add: inv_nodes_def places_def)
  then show "c \<in># unmatched w \<Longrightarrow> c \<notin># pending w" "c \<in># psum free_of w \<Longrightarrow> c \<notin># unmatched w"
    "c \<in># psum free_of w \<Longrightarrow> c \<notin># pending w"
    by (auto simp: count_greater_zero_iff [symmetric] simp del: count_greater_zero_iff)
qed

lemma p2p_invD:
  assumes "p2p_inv m"
  shows "inv_nodes (m_world m)" "cookie_ok m c" "r < msize m \<Longrightarrow> pc_ok m r" "r < msize m \<Longrightarrow> sleep_ok m r"
  using assms by (auto simp: p2p_inv_def)

lemma handle_in_play:
  assumes "p2p_inv m" "r < msize m" "c \<in> set (m_handles m r)"
  shows "c \<in># unmatched (m_world m) \<or> c \<in># pending (m_world m)" "0 < handle_count m c"
proof -
  show "0 < handle_count m c"
    using assms(3) handle_count_ge [OF assms(2), of c] by (simp add: count_list_pos)
  then show "c \<in># unmatched (m_world m) \<or> c \<in># pending (m_world m)"
    using p2p_invD(2) [OF assms(1), of c] by (auto simp: cookie_ok_def split: if_splits)
qed

section \<open>Effects on the boxes\<close>

lemma transfer_has_handle:
  assumes "p2p_inv m" "0 < transfer_count m c" shows "0 < handle_count m c"
proof -
  from assms(2) obtain r where r: "r < msize m" "0 < transfers (m_pc m r) c"
    unfolding transfer_count_def by (metis gr0I lessThan_iff sum.neutral less_irrefl)
  then have "c \<in> set (m_handles m r)"
    using p2p_invD(3) [OF assms(1) r(1)] by (cases "m_pc m r") (auto simp: pc_ok_def split: if_splits)
  then show ?thesis by (rule handle_in_play(2) [OF assms(1) r(1)])
qed

lemma psum_match:
  assumes "r < w_size w" "w_size w' = w_size w" "w_procs w' = (w_procs w)(r := p)"
    "unmatched_of (w_procs w r) = add_mset c (unmatched_of p)"
    "pending_of p = add_mset c (pending_of (w_procs w r))" "free_of p = free_of (w_procs w r)"
    "w_pool w' = w_pool w"
  shows "unmatched w = add_mset c (unmatched w')" "pending w' = add_mset c (pending w)"
    "inv_nodes w' \<longleftrightarrow> inv_nodes w"
proof -
  note u = psum_upd [OF assms(1-3)]
  show un: "unmatched w = add_mset c (unmatched w')" using u [of unmatched_of] assms(4) by simp
  show pe: "pending w' = add_mset c (pending w)" using u [of pending_of] assms(5) by simp
  have "psum free_of w' = psum free_of w" using u [of free_of] assms(6) by simp
  then have "places w' = places w" using un pe by (simp add: places_def)
  then show "inv_nodes w' \<longleftrightarrow> inv_nodes w" using assms(7) by (simp add: inv_nodes_def)
qed

lemma create_request_effect:
  assumes inv: "inv_nodes w" and r: "r < w_size w" and cr: "create_request r k w = Ret (w1, c)"
  obtains fs where
    "w_size w1 = w_size w" "w_mem w1 = w_mem w" "w_cookies w1 = (w_cookies w)(c := k)"
    "c \<notin># unmatched w" "c \<notin># pending w"
    "w_procs w1 = (w_procs w)(r := (w_procs w r)\<lparr>pr_free := fs\<rparr>)"
    "\<And>(w2 :: world) p. w_size w2 = w_size w \<Longrightarrow> w_pool w2 = w_pool w1 \<Longrightarrow> w_procs w2 = (w_procs w)(r := p) \<Longrightarrow>
       free_of p = mset fs \<Longrightarrow> pending_of p = pending_of (w_procs w r) \<Longrightarrow>
       unmatched_of p = add_mset c (unmatched_of (w_procs w r)) \<Longrightarrow>
       inv_nodes w2 \<and> unmatched w2 = add_mset c (unmatched w) \<and> pending w2 = pending w"
proof (cases "pr_free (w_procs w r)")
  case Nil
  with cr obtain q where q: "node_get (w_pool w) = Ret (q, c)" "w1 = upd_cookie c (\<lambda>_. k) (w\<lparr>w_pool := q\<rparr>)"
    by (auto simp: create_request_def and_then_Ret_iff)
  have ni: "node_inv (w_pool w) (set_mset (places w))" using inv by (simp add: inv_nodes_def)
  have fresh: "c \<notin># places w" by (rule nodes.get_fresh [OF ni q(1)])
  show thesis
  proof (rule that [of "[]"])
    fix w2 :: world and p
    assume a: "w_size w2 = w_size w" "w_pool w2 = w_pool w1" "w_procs w2 = (w_procs w)(r := p)"
      "free_of p = mset []" "pending_of p = pending_of (w_procs w r)"
      "unmatched_of p = add_mset c (unmatched_of (w_procs w r))"
    note u = psum_upd [OF r a(1,3)]
    have un: "unmatched w2 = add_mset c (unmatched w)" using u [of unmatched_of] a(6) by simp
    have pe: "pending w2 = pending w" using u [of pending_of] a(5) by simp
    have "free_of (w_procs w r) = {#}" using Nil by (simp add: free_of_def)
    then have "psum free_of w2 = psum free_of w" using u [of free_of] a(4) by simp
    then have pl: "places w2 = add_mset c (places w)" using un pe by (simp add: places_def)
    have "node_inv q (insert c (set_mset (places w)))" by (rule nodes.get_inv [OF ni q(1)])
    then have "inv_nodes w2"
      using inv fresh pl a(2) q(2) by (auto simp: inv_nodes_def not_in_iff)
    with un pe show "inv_nodes w2 \<and> unmatched w2 = add_mset c (unmatched w) \<and> pending w2 = pending w" by simp
  qed (use q Nil fresh in \<open>auto simp: places_def fun_eq_iff\<close>)
next
  case (Cons d cs)
  with cr have q: "d = c" "w1 = upd_cookie c (\<lambda>_. k) (upd_proc r (\<lambda>p. p\<lparr>pr_free := cs\<rparr>) w)"
    by (auto simp: create_request_def)
  have "c \<in># psum free_of w" using r Cons q(1) by (auto simp: in_psum free_of_def)
  note ex = inv_nodes_exclusive(2,3) [OF inv this]
  show thesis
  proof (rule that [of cs])
    fix w2 :: world and p
    assume a: "w_size w2 = w_size w" "w_pool w2 = w_pool w1" "w_procs w2 = (w_procs w)(r := p)"
      "free_of p = mset cs" "pending_of p = pending_of (w_procs w r)"
      "unmatched_of p = add_mset c (unmatched_of (w_procs w r))"
    note u = psum_upd [OF r a(1,3)]
    have un: "unmatched w2 = add_mset c (unmatched w)" using u [of unmatched_of] a(6) by simp
    have pe: "pending w2 = pending w" using u [of pending_of] a(5) by simp
    have "free_of (w_procs w r) = add_mset c (mset cs)" using Cons q(1) by (simp add: free_of_def)
    then have "psum free_of w = add_mset c (psum free_of w2)" using u [of free_of] a(4) by simp
    then have pl: "places w2 = places w" using un pe by (simp add: places_def)
    then have "inv_nodes w2" using inv a(2) q(2) by (simp add: inv_nodes_def)
    with un pe show "inv_nodes w2 \<and> unmatched w2 = add_mset c (unmatched w) \<and> pending w2 = pending w" by simp
  qed (use q ex in auto)
qed

lemma reclaim_mset:
  "reclaim ck ps fs = (ps', fs') \<Longrightarrow> mset ps' + mset fs' = mset ps + mset fs"
  by (induction ck ps fs arbitrary: ps' fs' rule: reclaim.induct) (auto split: if_splits prod.splits)

lemma reclaim_pending:
  "fst (reclaim ck ps fs) = filter (\<lambda>c. c_used (ck c) \<noteq> 0) ps"
  by (induction ck ps fs rule: reclaim.induct) (auto split: prod.splits)

lemma reclaim_free:
  "snd (reclaim ck ps fs) = rev (filter (\<lambda>c. c_used (ck c) = 0) ps) @ fs"
  by (induction ck ps fs rule: reclaim.induct) (auto split: prod.splits)

lemma unmatched_unique:
  assumes inv: "inv_nodes w" and r: "r < w_size w" "c \<in># unmatched_of (w_procs w r)"
  shows "count (unmatched_of (w_procs w r)) c = 1"
    and "s < w_size w \<Longrightarrow> s \<noteq> r \<Longrightarrow> c \<notin># unmatched_of (w_procs w s)"
proof -
  let ?f = "\<lambda>r. count (unmatched_of (w_procs w r)) c"
  have le: "(\<Sum>r < w_size w. ?f r) \<le> 1"
  proof -
    have "count (places w) c \<le> 1" using inv by (simp add: inv_nodes_def)
    then have "count (unmatched w) c \<le> 1" by (simp add: places_def)
    then show ?thesis by (simp add: psum_def count_sum)
  qed
  have pos: "0 < ?f r" using r(2) by simp
  have "?f r \<le> (\<Sum>r < w_size w. ?f r)" using r(1) by (intro member_le_sum) auto
  with le pos show "?f r = 1" by linarith
  assume s: "s < w_size w" "s \<noteq> r"
  have "(\<Sum>r < w_size w. ?f r) = ?f r + (\<Sum>r \<in> {..<w_size w} - {r}. ?f r)"
    using r(1) by (intro sum.remove) auto
  moreover have "?f s \<le> (\<Sum>r \<in> {..<w_size w} - {r}. ?f r)"
    using s by (intro member_le_sum) auto
  ultimately have "?f s = 0" using le pos by linarith
  then show "c \<notin># unmatched_of (w_procs w s)" by (simp add: not_in_iff)
qed

section \<open>Frames for the other ranks\<close>

text \<open>What a step of one rank leaves alone for the others.\<close>

lemma pc_ok_frame:
  assumes "pc_ok m s" "m_pc m' s = m_pc m s" "m_handles m' s = m_handles m s"
    "\<And>c. c \<in> set (m_handles m s) \<Longrightarrow> c_owner (cookie_of m' c) = c_owner (cookie_of m c)"
    "pr_waiting (w_procs (m_world m') s) = pr_waiting (w_procs (m_world m) s)"
    "pr_waiting_for (w_procs (m_world m') s) = pr_waiting_for (w_procs (m_world m) s)"
    "\<And>c. c \<in> set (m_handles m s) \<Longrightarrow> c \<in># pending (m_world m) \<Longrightarrow> c \<in># pending (m_world m')"
  shows "pc_ok m' s"
  using assms by (cases "m_pc m s") (auto simp: pc_ok_def)

lemma sleep_ok_frame:
  assumes "sleep_ok m s" "m_pc m' s = m_pc m s"
    "pr_asleep (w_procs (m_world m') s) \<Longrightarrow> pr_asleep (w_procs (m_world m) s)"
    "\<And>c. pr_asleep (w_procs (m_world m') s) \<Longrightarrow> m_pc m s = Waiting c \<Longrightarrow>
       c_busy (cookie_of m c) \<noteq> 0 \<Longrightarrow> c_busy (cookie_of m' c) \<noteq> 0"
    "\<And>a b. pr_asleep (w_procs (m_world m') s) \<Longrightarrow> m_pc m s = Probing a b \<Longrightarrow>
       find_any s a b (m_world m) = None \<Longrightarrow> find_any s a b (m_world m') = None"
  shows "sleep_ok m' s"
  using assms by (cases "m_pc m s") (auto simp: sleep_ok_def)

lemma awake_ok: "\<not> pr_asleep (w_procs (m_world m) s) \<Longrightarrow> sleep_ok m s"
  by (simp add: sleep_ok_def)

lemma idle_awake: "p2p_inv m \<Longrightarrow> r < msize m \<Longrightarrow> m_pc m r = Idle \<Longrightarrow> \<not> pr_asleep (w_procs (m_world m) r)"
  using p2p_invD(4) [of m r] by (auto simp: sleep_ok_def)

lemma find_any_cong:
  assumes "pr_inbox (w_procs w' s) = pr_inbox (w_procs w s)"
    "\<And>c. c \<in> set (pr_inbox (w_procs w s)) \<Longrightarrow> w_cookies w' c = w_cookies w c"
  shows "find_any s a b w' = find_any s a b w"
  unfolding find_any_def assms(1) by (rule find_cong) (auto simp: assms(2))

section \<open>A request is matched\<close>

lemma match_cookie_ok:
  assumes inv: "p2p_inv m" and r: "r < msize m" "m_pc m r = Idle"
    and w': "w_size w' = msize m" "unmatched (m_world m) = add_mset c (unmatched w')"
      "pending w' = add_mset c (pending (m_world m))" "inv_nodes w'"
    and ck: "w_cookies w' = (cookie_of m)(c := k')" "c_used k' = 2" "c_busy k' = 1"
      "c_owner k' = c_owner (cookie_of m c)"
    and p: "\<And>x. transfers p x = (if x = c then 1 else 0)"
  shows "cookie_ok (set_rank r w' p (c # m_handles m r) m) x"
proof -
  let ?m = "set_rank r w' p (c # m_handles m r) m"
  have H: "handle_count ?m x = handle_count m x + (if x = c then 1 else 0)"
    using handle_count_set_rank [OF r(1) w'(1), of p "c # m_handles m r" x] by auto
  have T: "transfer_count ?m x = transfer_count m x + (if x = c then 1 else 0)"
    using transfer_count_set_rank [OF r(1) w'(1), of p "c # m_handles m r" x] r(2) p by simp
  note ok = p2p_invD(2) [OF inv, of x]
  show ?thesis
  proof (cases "x = c")
    case True
    have un: "c \<in># unmatched (m_world m)" using w'(2) by simp
    have "c \<in># pending w'" using w'(3) by simp
    then have "c \<notin># unmatched w'" using inv_nodes_exclusive(1) [OF w'(4), of c] by blast
    with True ok un ck w' H T show ?thesis by (simp add: cookie_ok_def)
  next
    case False
    with ok w' ck H T show ?thesis by (auto simp: cookie_ok_def)
  qed
qed

lemma match_step_inv:
  assumes inv: "p2p_inv m" and r: "r < msize m" "m_pc m r = Idle"
    and w': "w_size w' = msize m" "unmatched (m_world m) = add_mset c (unmatched w')"
      "pending w' = add_mset c (pending (m_world m))" "inv_nodes w'"
    and ck: "w_cookies w' = (cookie_of m)(c := k')" "c_used k' = 2" "c_busy k' = 1"
      "c_owner k' = c_owner (cookie_of m c)"
    and p: "p = Reading c b i n \<or> p = Writing c b i n"
    and procs: "\<And>s. pr_waiting (w_procs w' s) = pr_waiting (w_procs (m_world m) s) \<and>
      pr_waiting_for (w_procs w' s) = pr_waiting_for (w_procs (m_world m) s) \<and>
      pr_asleep (w_procs w' s) = pr_asleep (w_procs (m_world m) s)"
    and inbox: "\<And>s. s < msize m \<Longrightarrow> s \<noteq> r \<Longrightarrow>
      c \<notin> set (pr_inbox (w_procs (m_world m) s)) \<and> pr_inbox (w_procs w' s) = pr_inbox (w_procs (m_world m) s)"
  shows "p2p_inv (set_rank r w' p (c # m_handles m r) m)"
proof -
  let ?m = "set_rank r w' p (c # m_handles m r) m"
  have tr: "transfers p x = (if x = c then 1 else 0)" for x using p by auto
  have own: "c_owner (cookie_of ?m x) = c_owner (cookie_of m x)" for x using ck by simp
  have "pc_ok ?m s \<and> sleep_ok ?m s" if s: "s < msize m" for s
  proof (cases "s = r")
    case True
    have "\<not> pr_asleep (w_procs w' r)" using idle_awake [OF inv r] procs [of r] by simp
    then have "sleep_ok ?m r" by (intro awake_ok) simp
    moreover have "pc_ok ?m r" using p by (auto simp: pc_ok_def)
    ultimately show ?thesis using True by simp
  next
    case False
    have "pc_ok ?m s"
      by (rule pc_ok_frame [OF p2p_invD(3) [OF inv s]]) (use False procs [of s] own w'(3) in auto)
    moreover have "sleep_ok ?m s"
    proof (rule sleep_ok_frame [OF p2p_invD(4) [OF inv s]])
      fix a b assume "find_any s a b (m_world m) = None"
      moreover have "find_any s a b w' = find_any s a b (m_world m)"
        using inbox [OF s False] ck(1) by (intro find_any_cong) auto
      ultimately show "find_any s a b (m_world ?m) = None" by simp
    qed (use False procs [of s] ck in auto)
    ultimately show ?thesis by simp
  qed
  moreover have "msize ?m = msize m" using w'(1) by simp
  ultimately show ?thesis
    using match_cookie_ok [OF inv r w' ck tr] w'(4) unfolding p2p_inv_def by auto
qed

section \<open>A request is created\<close>

lemma create_step_inv:
  assumes inv: "p2p_inv m" and r: "r < msize m" "m_pc m r = Idle"
    and w': "w_size w' = msize m" "unmatched w' = add_mset c (unmatched (m_world m))"
      "pending w' = pending (m_world m)" "inv_nodes w'"
    and fresh: "c \<notin># unmatched (m_world m)" "c \<notin># pending (m_world m)"
    and ck: "w_cookies w' = (cookie_of m)(c := k)" "c_used k = 1" "c_busy k = 1" "c_owner k = r"
    and procs: "\<And>s. s < msize m \<Longrightarrow> pr_waiting (w_procs w' s) = pr_waiting (w_procs (m_world m) s) \<and>
      pr_waiting_for (w_procs w' s) = pr_waiting_for (w_procs (m_world m) s)"
    and asleep: "\<And>s. s < msize m \<Longrightarrow> pr_asleep (w_procs w' s) \<Longrightarrow> pr_asleep (w_procs (m_world m) s) \<and>
      (pr_waiting_for (w_procs (m_world m) s) = waiting_for_incoming \<longrightarrow>
       pr_inbox (w_procs w' s) = pr_inbox (w_procs (m_world m) s))"
  shows "p2p_inv (set_rank r w' Idle (c # m_handles m r) m)"
proof -
  let ?m = "set_rank r w' Idle (c # m_handles m r) m"
  have H: "handle_count ?m x = handle_count m x + (if x = c then 1 else 0)" for x
    using handle_count_set_rank [OF r(1) w'(1), of Idle "c # m_handles m r" x] by auto
  have T: "transfer_count ?m x = transfer_count m x" for x
    using transfer_count_set_rank [OF r(1) w'(1), of Idle "c # m_handles m r" x] r(2) by simp
  have c0: "handle_count m c = 0" "transfer_count m c = 0"
    using p2p_invD(2) [OF inv, of c] fresh by (auto simp: cookie_ok_def)
  have nh: "c \<notin> set (m_handles m s)" if "s < msize m" for s
    using handle_in_play(1) [OF inv that, of c] fresh by blast
  have cok: "cookie_ok ?m x" for x
  proof (cases "x = c")
    case True
    with w' ck r(1) c0 H T show ?thesis by (simp add: cookie_ok_def)
  next
    case False
    with p2p_invD(2) [OF inv, of x] w' ck H T show ?thesis by (auto simp: cookie_ok_def)
  qed
  have "pc_ok ?m s \<and> sleep_ok ?m s" if s: "s < msize m" for s
  proof (cases "s = r")
    case True
    have "\<not> pr_asleep (w_procs w' r)" using idle_awake [OF inv r] asleep [OF r(1)] by blast
    then show ?thesis using True by (auto simp: pc_ok_def intro: awake_ok)
  next
    case False
    have "pc_ok ?m s"
      by (rule pc_ok_frame [OF p2p_invD(3) [OF inv s]]) (use False procs [OF s] ck nh [OF s] w'(3) in auto)
    moreover have "sleep_ok ?m s"
    proof (rule sleep_ok_frame [OF p2p_invD(4) [OF inv s]])
      fix a b
      assume a: "pr_asleep (w_procs (m_world ?m) s)" "m_pc m s = Probing a b" "find_any s a b (m_world m) = None"
      have "pr_waiting_for (w_procs (m_world m) s) = waiting_for_incoming"
        using p2p_invD(3) [OF inv s] a(2) by (simp add: pc_ok_def)
      with a(1) asleep [OF s] have ib: "pr_inbox (w_procs w' s) = pr_inbox (w_procs (m_world m) s)" by simp
      have "c \<notin> set (pr_inbox (w_procs (m_world m) s))"
        using fresh(1) s by (auto simp: in_psum unmatched_of_def)
      with ib ck(1) have "find_any s a b w' = find_any s a b (m_world m)"
        by (intro find_any_cong) auto
      with a(3) show "find_any s a b (m_world ?m) = None" by simp
    next
      fix d assume "m_pc m s = Waiting d" "c_busy (cookie_of m d) \<noteq> 0"
      then show "c_busy (cookie_of ?m d) \<noteq> 0" using ck by simp
    qed (use False asleep [OF s] in auto)
    ultimately show ?thesis by simp
  qed
  then show ?thesis using cok w'(1,4) unfolding p2p_inv_def by auto
qed

section \<open>A transfer ends\<close>

lemma done_step_inv:
  assumes inv: "p2p_inv m" and r: "r < msize m" "m_pc m r = p" "p = Reading c b i n \<or> p = Writing c b i n"
    and w': "w_size w' = msize m" "w_pool w' = w_pool (m_world m)"
    and ck: "w_cookies w' = (cookie_of m)(c := k')" "c_used k' = c_used (cookie_of m c)"
      "c_owner k' = c_owner (cookie_of m c)" "c_busy k' = to_i16 (c_busy (cookie_of m c) - 1)"
    and procs: "\<And>s. \<exists>a. w_procs w' s = (w_procs (m_world m) s)\<lparr>pr_asleep := a\<rparr> \<and>
      (a \<longrightarrow> pr_asleep (w_procs (m_world m) s) \<and> \<not> (s = c_owner (cookie_of m c) \<and> c_busy k' = 0 \<and>
         pr_waiting_for (w_procs (m_world m) s) = waiting_for_cookie \<and>
         pr_waiting (w_procs (m_world m) s) = Some c))"
  shows "p2p_inv (set_rank r w' Idle (m_handles m r) m)"
proof -
  let ?m = "set_rank r w' Idle (m_handles m r) m"
  have tr: "transfers (m_pc m r) x = (if x = c then 1 else 0)" for x using r by auto
  have box: "psum f w' = psum f (m_world m)"
    if "\<And>p a. f (p\<lparr>pr_asleep := a\<rparr>) = f p" for f
    using procs that by (intro psum_cong [OF w'(1)]) (metis (no_types))
  have boxes: "unmatched w' = unmatched (m_world m)" "pending w' = pending (m_world m)"
    "psum free_of w' = psum free_of (m_world m)"
    by (rule box; simp add: unmatched_of_def pending_of_def free_of_def)+
  then have nodes: "inv_nodes w'"
    using p2p_invD(1) [OF inv] w'(2) by (simp add: inv_nodes_def places_def)
  have H: "handle_count ?m x = handle_count m x" for x
    using handle_count_set_rank [OF r(1) w'(1), of Idle "m_handles m r" x] by auto
  have T: "transfer_count ?m x + (if x = c then 1 else 0) = transfer_count m x" for x
    using transfer_count_set_rank [OF r(1) w'(1), of Idle "m_handles m r" x] tr by simp
  have "0 < transfer_count m c" using T [of c] by simp
  with p2p_invD(2) [OF inv, of c] have cp: "c \<notin># unmatched (m_world m)" "c \<in># pending (m_world m)"
    "c_busy (cookie_of m c) = int (transfer_count m c)" "transfer_count m c = 1"
    by (auto simp: cookie_ok_def split: if_splits)
  then have busy: "c_busy k' = 0" using ck(4) by (simp add: to_i16_id)
  have cok: "cookie_ok ?m x" for x
    using p2p_invD(2) [OF inv, of x] cp boxes ck busy H [of x] T [of x] w'(1)
    by (cases "x = c") (auto simp: cookie_ok_def)
  have "pc_ok ?m s \<and> sleep_ok ?m s" if s: "s < msize m" for s
  proof -
    obtain a where a: "w_procs w' s = (w_procs (m_world m) s)\<lparr>pr_asleep := a\<rparr>"
      "a \<Longrightarrow> pr_asleep (w_procs (m_world m) s)"
      "a \<Longrightarrow> \<not> (s = c_owner (cookie_of m c) \<and> pr_waiting_for (w_procs (m_world m) s) = waiting_for_cookie \<and>
         pr_waiting (w_procs (m_world m) s) = Some c)"
      using procs [of s] busy by blast
    show ?thesis
    proof (cases "s = r")
      case True
      have "\<not> pr_asleep (w_procs (m_world m) r)"
        using p2p_invD(4) [OF inv r(1)] r by (auto simp: sleep_ok_def)
      with a True have "sleep_ok ?m s" by (intro awake_ok) auto
      with True show ?thesis by (simp add: pc_ok_def)
    next
      case False
      have "pc_ok ?m s"
        by (rule pc_ok_frame [OF p2p_invD(3) [OF inv s]]) (use False a ck boxes in auto)
      moreover have "sleep_ok ?m s"
      proof (rule sleep_ok_frame [OF p2p_invD(4) [OF inv s]])
        fix x y assume "find_any s x y (m_world m) = None"
        moreover have "c \<notin> set (pr_inbox (w_procs (m_world m) s))"
          using cp(1) s by (auto simp: in_psum unmatched_of_def)
        then have "find_any s x y w' = find_any s x y (m_world m)"
          using a(1) ck(1) by (intro find_any_cong) auto
        ultimately show "find_any s x y (m_world ?m) = None" by simp
      next
        fix d assume d: "pr_asleep (w_procs (m_world ?m) s)" "m_pc m s = Waiting d" "c_busy (cookie_of m d) \<noteq> 0"
        then have "d \<noteq> c" using p2p_invD(3) [OF inv s] a by (auto simp: pc_ok_def)
        with d(3) ck(1) show "c_busy (cookie_of ?m d) \<noteq> 0" by simp
      qed (use False a in auto)
      ultimately show ?thesis by simp
    qed
  qed
  then show ?thesis using cok nodes w'(1) unfolding p2p_inv_def by auto
qed

section \<open>A rank waits, probes or wakes up\<close>

lemma local_step_inv:
  assumes inv: "p2p_inv m" and r: "r < msize m" "\<And>x. transfers (m_pc m r) x = 0" "\<And>x. transfers p x = 0"
    and w': "w_size w' = msize m" "w_pool w' = w_pool (m_world m)" "w_cookies w' = cookie_of m"
      "w_procs w' = (w_procs (m_world m))(r := q)"
    and q: "pr_free q = pr_free (w_procs (m_world m) r)" "pr_inbox q = pr_inbox (w_procs (m_world m) r)"
      "pr_outbox q = pr_outbox (w_procs (m_world m) r)" "pr_pending q = pr_pending (w_procs (m_world m) r)"
    and own: "pc_ok (set_rank r w' p (m_handles m r) m) r" "sleep_ok (set_rank r w' p (m_handles m r) m) r"
  shows "p2p_inv (set_rank r w' p (m_handles m r) m)"
proof -
  let ?m = "set_rank r w' p (m_handles m r) m"
  have boxes: "unmatched w' = unmatched (m_world m)" "pending w' = pending (m_world m)"
    "psum free_of w' = psum free_of (m_world m)"
    using w' q by (auto intro!: psum_cong simp: unmatched_of_def pending_of_def free_of_def)
  then have nodes: "inv_nodes w'"
    using p2p_invD(1) [OF inv] w'(2) by (simp add: inv_nodes_def places_def)
  have H: "handle_count ?m x = handle_count m x" for x
    using handle_count_set_rank [OF r(1) w'(1), of p "m_handles m r" x] by auto
  have T: "transfer_count ?m x = transfer_count m x" for x
    using transfer_count_set_rank [OF r(1) w'(1), of p "m_handles m r" x] r by simp
  have cok: "cookie_ok ?m x" for x
    using p2p_invD(2) [OF inv, of x] boxes w' H [of x] T [of x] by (auto simp: cookie_ok_def)
  have "pc_ok ?m s \<and> sleep_ok ?m s" if s: "s < msize m" for s
  proof (cases "s = r")
    case True
    then show ?thesis using own by simp
  next
    case False
    have "pc_ok ?m s"
      by (rule pc_ok_frame [OF p2p_invD(3) [OF inv s]]) (use False w' boxes in auto)
    moreover have "sleep_ok ?m s"
    proof (rule sleep_ok_frame [OF p2p_invD(4) [OF inv s]])
      fix x y assume "find_any s x y (m_world m) = None"
      moreover have "find_any s x y w' = find_any s x y (m_world m)"
        using w' False by (intro find_any_cong) auto
      ultimately show "find_any s x y (m_world ?m) = None" by simp
    qed (use False w' in auto)
    ultimately show ?thesis by simp
  qed
  then show ?thesis using cok nodes w'(1) unfolding p2p_inv_def by auto
qed

section \<open>A request is given up\<close>

lemma finalize_effect:
  assumes inv: "box_inv w B" and r: "r < w_size w" and fin: "finalize r c w = Ret w'"
  defines "k \<equiv> (w_cookies w c)\<lparr>c_used := to_i16 (c_used (w_cookies w c) - 1)\<rparr>"
  defines "unused \<equiv> \<lambda>x. c_used (((w_cookies w)(c := k)) x) = 0"
  shows "w_size w' = w_size w" "w_mem w' = w_mem w" "w_cookies w' = (w_cookies w)(c := k)" "box_inv w' B"
    "unmatched w' = unmatched w"
    "pending w = pending w' + mset (filter unused (pr_pending (w_procs w r)))"
    "\<exists>fs. w_procs w' = (w_procs w)(r := (w_procs w r)\<lparr>pr_pending :=
       filter (\<lambda>x. \<not> unused x) (pr_pending (w_procs w r)), pr_free := fs\<rparr>)"
proof -
  let ?p = "w_procs w r"
  obtain ps fs where rc: "reclaim ((w_cookies w)(c := k)) (pr_pending ?p) (pr_free ?p) = (ps, fs)"
    by (meson surj_pair)
  have ps: "ps = filter (\<lambda>x. \<not> unused x) (pr_pending ?p)"
    using reclaim_pending [of "(w_cookies w)(c := k)" "pr_pending ?p" "pr_free ?p"] rc
    by (simp add: unused_def)
  have ms: "mset ps + mset fs = mset (pr_pending ?p) + mset (pr_free ?p)" by (rule reclaim_mset [OF rc])
  let ?rem = "outstanding_requests w div 2"
  define keep where "keep = (if outstanding_requests w < length fs then take ?rem fs else fs)"
  define lose where "lose = (if outstanding_requests w < length fs then drop ?rem fs else [])"
  have fs: "mset fs = mset keep + mset lose" by (simp add: keep_def lose_def flip: mset_append)
  have "\<exists>q. put_all node_put (w_pool w) lose = Ret q \<and>
      w' = upd_proc r (\<lambda>pr. pr\<lparr>pr_pending := ps, pr_free := keep\<rparr>) (upd_cookie c (\<lambda>_. k) w\<lparr>w_pool := q\<rparr>)"
    using fin rc
    by (auto simp: finalize_def Let_def k_def keep_def lose_def and_then_Ret_iff upd_cookie_def upd_proc_def
        split: if_splits)
  then obtain q where q: "put_all node_put (w_pool w) lose = Ret q"
    "w' = upd_proc r (\<lambda>pr. pr\<lparr>pr_pending := ps, pr_free := keep\<rparr>) (upd_cookie c (\<lambda>_. k) w\<lparr>w_pool := q\<rparr>)"
    by blast
  show sz: "w_size w' = w_size w" "w_mem w' = w_mem w" "w_cookies w' = (w_cookies w)(c := k)"
    by (simp_all add: q(2))
  have pr: "w_procs w' = (w_procs w)(r := ?p\<lparr>pr_pending := ps, pr_free := keep\<rparr>)" by (simp add: q(2))
  then show "\<exists>fs. w_procs w' = (w_procs w)(r := (w_procs w r)\<lparr>pr_pending :=
       filter (\<lambda>x. \<not> unused x) (pr_pending (w_procs w r)), pr_free := fs\<rparr>)"
    using ps by blast
  note u = psum_upd [OF r sz(1) pr]
  show un: "unmatched w' = unmatched w" using u [of unmatched_of] by (simp add: unmatched_of_def)
  define U where "U = mset (filter unused (pr_pending ?p))"
  have part: "mset (pr_pending ?p) = mset ps + U"
    unfolding ps U_def by (simp add: multiset_partition [symmetric] add.commute)
  have "pending w' + (mset ps + U) = pending w + mset ps"
    using u [of pending_of] by (simp add: pending_of_def part)
  then have pe: "pending w = pending w' + U" by (simp add: ac_simps)
  then show "pending w = pending w' + mset (filter unused (pr_pending ?p))" by (simp only: U_def)
  have fr: "psum free_of w' + mset (pr_free ?p) = psum free_of w + mset keep"
    using u [of free_of] by (simp add: free_of_def)
  have "mset ps + (mset keep + mset lose) = mset ps + (U + mset (pr_free ?p))"
    using ms unfolding part fs by (simp only: ac_simps)
  then have kl: "mset keep + mset lose = U + mset (pr_free ?p)" by (rule add_left_imp_eq)
  have pl: "places w = places w' + mset lose"
  proof (rule multiset_eqI)
    fix x
    have "count (psum free_of w') x + count (mset (pr_free ?p)) x = count (psum free_of w) x + count (mset keep) x"
      "count (mset keep) x + count (mset lose) x = count U x + count (mset (pr_free ?p)) x"
      using arg_cong [OF fr, of "\<lambda>M. count M x"] arg_cong [OF kl, of "\<lambda>M. count M x"] by simp_all
    then show "count (places w) x = count (places w' + mset lose) x"
      unfolding places_def un pe count_union by linarith
  qed
  have ni: "node_inv (w_pool w) (set_mset (places w + B))" and c1: "\<And>x. count (places w + B) x \<le> 1"
    using inv unfolding box_inv_def by blast+
  have c2: "count (places w' + B) x + count (mset lose) x \<le> 1" for x
    using c1 [of x] by (simp add: pl)
  have in1: "count (mset lose) x = 1 \<and> count (places w' + B) x = 0" if "x \<in> set lose" for x
  proof -
    have "0 < count (mset lose) x" using that by simp
    with c2 [of x] show ?thesis by linarith
  qed
  have lose1: "count (mset lose) x = (if x \<in> set lose then 1 else 0)" "x \<in> set lose \<Longrightarrow> x \<notin># places w' + B" for x
    using in1 [of x] unfolding not_in_iff by auto
  have "distinct lose" unfolding distinct_count_atmost_1 using lose1(1) by blast
  moreover have "set lose \<subseteq> set_mset (places w + B)" by (auto simp: pl)
  ultimately obtain q' where "put_all node_put (w_pool w) lose = Ret q'"
      "node_inv q' (set_mset (places w + B) - set lose)"
    using nodes.put_all_inv [OF ni] by blast
  moreover have "set_mset (places w + B) - set lose = set_mset (places w' + B)" using lose1(2) by (auto simp: pl)
  ultimately have "node_inv (w_pool w') (set_mset (places w' + B))" using q by simp
  moreover have "count (places w' + B) x \<le> 1" for x using c1 [of x] by (simp add: pl)
  ultimately show "box_inv w' B" unfolding box_inv_def by blast
qed

lemma finalize_total:
  assumes inv: "box_inv w B" and r: "r < w_size w"
  shows "\<exists>w'. finalize r c w = Ret w'"
proof -
  let ?p = "w_procs w r"
  let ?ck = "w_cookies (upd_cookie c (\<lambda>k. k\<lparr>c_used := to_i16 (c_used k - 1)\<rparr>) w)"
  obtain ps fs where rc: "reclaim ?ck (pr_pending ?p) (pr_free ?p) = (ps, fs)" by (meson surj_pair)
  have "mset fs \<subseteq># mset (pr_pending ?p) + mset (pr_free ?p)"
    using reclaim_mset [OF rc] by (metis mset_subset_eq_add_right)
  also have "\<dots> \<subseteq># places w"
  proof -
    have "f ?p \<subseteq># psum f w" for f :: "process \<Rightarrow> cid multiset"
      using r unfolding psum_def by (metis finite_lessThan lessThan_iff mset_subset_eq_add_left sum.remove)
    then have "free_of ?p \<subseteq># psum free_of w" "pending_of ?p \<subseteq># pending w" by auto
    then have "pending_of ?p + free_of ?p \<subseteq># pending w + psum free_of w" by (rule subset_mset.add_mono [rotated])
    also have "\<dots> \<subseteq># places w" by (simp add: places_def ac_simps)
    finally show ?thesis by (simp add: pending_of_def free_of_def)
  qed
  finally have sub: "mset fs \<subseteq># places w" .
  have "count (mset fs) x \<le> 1" for x
    using mset_subset_eq_count [OF sub, of x] inv unfolding box_inv_def count_union by (meson le_trans trans_le_add1)
  then have d: "distinct fs"
    unfolding distinct_count_atmost_1
    by (metis One_nat_def count_eq_zero_iff le_Suc_eq le_zero_eq set_mset_mset)
  let ?lose = "drop (outstanding_requests w div 2) fs"
  have "set ?lose \<subseteq> set_mset (places w + B)"
    using set_drop_subset [of _ fs] set_mset_mono [OF sub] by auto
  then obtain q where "put_all node_put (w_pool w) ?lose = Ret q"
    using nodes.put_all_inv [of "w_pool w" "set_mset (places w + B)" ?lose] d inv unfolding box_inv_def
    by (metis distinct_drop)
  then show ?thesis using rc by (auto simp: finalize_def Let_def)
qed

lemma handle_count_remove:
  assumes "r < msize m" "w_size w = msize m" "c \<in> set (m_handles m r)"
  shows "handle_count m x = handle_count (set_rank r w p (remove1 c (m_handles m r)) m) x + (if x = c then 1 else 0)"
  using handle_count_set_rank [OF assms(1,2), of p "remove1 c (m_handles m r)" x] assms(3)
  by (auto simp: count_list_remove1 count_list_pos)

lemma leave_step_inv:
  assumes inv: "p2p_inv m" and r: "r < msize m" "m_pc m r = Leaving c"
    and lv: "cookie_leave c (m_world m) = Ret w'"
  shows "p2p_inv (set_rank r w' Idle (remove1 c (m_handles m r)) m)"
proof -
  let ?w = "m_world m" and ?m = "set_rank r w' Idle (remove1 c (m_handles m r)) m"
  have c: "c \<in> set (m_handles m r)" "c \<in># pending ?w"
    using p2p_invD(3) [OF inv r(1)] r(2) by (auto simp: pc_ok_def)
  have nu: "c \<notin># unmatched ?w" using inv_nodes_exclusive(1) [OF p2p_invD(1) [OF inv]] c(2) by blast
  with p2p_invD(2) [OF inv, of c] c have ck: "c_used (cookie_of m c) = int (handle_count m c)"
    "handle_count m c \<le> 2" "c_owner (cookie_of m c) < msize m"
    by (auto simp: cookie_ok_def)
  define o' where "o' = c_owner (cookie_of m c)"
  define k where "k = (cookie_of m c)\<lparr>c_used := to_i16 (c_used (cookie_of m c) - 1)\<rparr>"
  define unused where "unused = (\<lambda>x. c_used (((cookie_of m)(c := k)) x) = 0)"
  have fin: "finalize o' c ?w = Ret w'" using lv by (simp add: cookie_leave_def o'_def)
  note f = finalize_effect [OF p2p_invD(1) [OF inv, folded box_inv_empty] ck(3) [folded o'_def] fin, folded k_def, folded unused_def, unfolded box_inv_empty]
  obtain fs where pr: "w_procs w' = (w_procs ?w)(o' := (w_procs ?w o')\<lparr>pr_pending :=
       filter (\<lambda>x. \<not> unused x) (pr_pending (w_procs ?w o')), pr_free := fs\<rparr>)"
    using f(7) unfolding unused_def by blast
  have H: "handle_count m x = handle_count ?m x + (if x = c then 1 else 0)" for x
    by (rule handle_count_remove [OF r(1) f(1) c(1)])
  have T: "transfer_count ?m x = transfer_count m x" for x
    using transfer_count_set_rank [OF r(1) f(1), of Idle _ x] r(2) by simp
  have used: "c_used (w_cookies w' c) = int (handle_count ?m c)"
    using f(3) ck(1,2) H [of c] by (simp add: k_def to_i16_id)
  have gone: "handle_count ?m x = 0" if x: "x \<in># pending ?w" "x \<notin># pending w'" for x
  proof -
    have "x \<in># mset (filter unused (pr_pending (w_procs ?w o')))" using x f(6) by auto
    then have "unused x" by simp
    moreover have "c_used (cookie_of m x) = int (handle_count m x)"
      using p2p_invD(2) [OF inv, of x] x(1) inv_nodes_exclusive(1) [OF p2p_invD(1) [OF inv], of x]
      by (auto simp: cookie_ok_def split: if_splits)
    ultimately show ?thesis using used f(3) H [of x] by (cases "x = c") (auto simp: unused_def)
  qed
  have tgone: "transfer_count m x = 0" if "handle_count ?m x = 0" for x
  proof (rule ccontr)
    assume "transfer_count m x \<noteq> 0"
    then obtain s where s: "s < msize m" "0 < transfers (m_pc m s) x"
      unfolding transfer_count_def by (metis gr0I lessThan_iff sum.neutral)
    then have sr: "s \<noteq> r" using r(2) by auto
    have "x \<in> set (m_handles m s)"
      using p2p_invD(3) [OF inv s(1)] s(2) by (cases "m_pc m s") (auto simp: pc_ok_def split: if_splits)
    then have "0 < count_list (m_handles ?m s) x" using sr by (simp add: count_list_pos)
    also have "\<dots> \<le> handle_count ?m x" using s(1) f(1) by (intro handle_count_ge) simp
    finally show False using that by simp
  qed
  have sub: "x \<in># pending w' \<Longrightarrow> x \<in># pending ?w" for x using f(6) by simp
  have cok: "cookie_ok ?m x" for x
  proof (cases "x \<in># unmatched ?w")
    case True
    then have "x \<noteq> c" using nu by auto
    with True p2p_invD(2) [OF inv, of x] f H [of x] T [of x] show ?thesis
      by (auto simp: cookie_ok_def in_set_remove1)
  next
    case nun: False
    show ?thesis
    proof (cases "x \<in># pending w'")
      case True
      with nun p2p_invD(2) [OF inv, of x] sub [OF True] f H [of x] T [of x] used ck
      show ?thesis by (cases "x = c") (auto simp: cookie_ok_def k_def)
    next
      case False
      have "handle_count ?m x = 0"
      proof (cases "x \<in># pending ?w")
        case True
        with False show ?thesis by (intro gone)
      next
        case np: False
        then show ?thesis using nun p2p_invD(2) [OF inv, of x] H [of x] by (auto simp: cookie_ok_def)
      qed
      with False nun f(5) T [of x] tgone [of x] show ?thesis by (simp add: cookie_ok_def)
    qed
  qed
  have same: "pr_waiting (w_procs w' s) = pr_waiting (w_procs ?w s)"
    "pr_waiting_for (w_procs w' s) = pr_waiting_for (w_procs ?w s)"
    "pr_asleep (w_procs w' s) = pr_asleep (w_procs ?w s)" "pr_inbox (w_procs w' s) = pr_inbox (w_procs ?w s)" for s
    using pr by auto
  have "pc_ok ?m s \<and> sleep_ok ?m s" if s: "s < msize m" for s
  proof (cases "s = r")
    case True
    have "\<not> pr_asleep (w_procs ?w r)" using p2p_invD(4) [OF inv r(1)] r(2) by (auto simp: sleep_ok_def)
    then have "sleep_ok ?m r" using same by (intro awake_ok) simp
    with True show ?thesis by (simp add: pc_ok_def)
  next
    case False
    have "pc_ok ?m s"
    proof (rule pc_ok_frame [OF p2p_invD(3) [OF inv s]])
      fix d assume d: "d \<in> set (m_handles m s)" "d \<in># pending ?w"
      have "0 < count_list (m_handles ?m s) d" using d(1) False by (simp add: count_list_pos)
      also have "\<dots> \<le> handle_count ?m d" using s f(1) by (intro handle_count_ge) simp
      finally show "d \<in># pending (m_world ?m)" using gone [of d] d(2) by auto
    qed (use False same f(3) in \<open>auto simp: k_def\<close>)
    moreover have "sleep_ok ?m s"
    proof (rule sleep_ok_frame [OF p2p_invD(4) [OF inv s]])
      fix x y assume "find_any s x y ?w = None"
      moreover have "c \<notin> set (pr_inbox (w_procs ?w s))"
        using nu s by (auto simp: in_psum unmatched_of_def)
      then have "find_any s x y w' = find_any s x y ?w"
        using same f(3) by (intro find_any_cong) auto
      ultimately show "find_any s x y (m_world ?m) = None" by simp
    qed (use False same f(3) in \<open>auto simp: k_def\<close>)
    ultimately show ?thesis by simp
  qed
  then show ?thesis using cok f(1,4) unfolding p2p_inv_def by auto
qed

end
