(* ===== verification/P2P_Safety.thy ===== *)
theory P2P_Safety
  imports P2P_Inv
begin

text \<open>
  Every step of the point-to-point machine keeps the invariant of \<^verbatim>\<open>P2P_Inv\<close>; what this
  means for every reachable state of every interleaving: no use of a request after it has been
  given back, exact reference counts, no lost wake-up for a waiting or probing rank.
\<close>

section \<open>Preservation, step by step\<close>

lemma find_in: "find P xs = Some x \<Longrightarrow> x \<in> set xs \<and> P x"
  by (auto simp: find_Some_iff)

lemma recv_post_inv:
  assumes inv: "p2p_inv m" and r: "r < msize m" "m_pc m r = Idle"
    and st: "recv_post r buf cnt iovec source tag (m_world m) = Ret (w, c, matched)"
  shows "p2p_inv (set_rank r w (if matched then Reading c buf iovec cnt else Idle) (c # m_handles m r) m)"
proof (cases matched)
  case True
  let ?W = "m_world m"
  let ?q = "(w_procs ?W r)\<lparr>pr_inbox := remove1 c (pr_inbox (w_procs ?W r)), pr_pending := c # pr_pending (w_procs ?W r)\<rparr>"
  from st True have w: "w = cookie_join c (upd_proc r (\<lambda>p. p\<lparr>pr_inbox := remove1 c (pr_inbox p),
                 pr_pending := c # pr_pending p\<rparr>) ?W)" and c: "c \<in> set (pr_inbox (w_procs ?W r))"
    by (auto simp: recv_post_def and_then_Ret_iff split: option.splits dest: find_in)
  have p: "w_size w = w_size ?W" "w_pool w = w_pool ?W" "w_procs w = (w_procs ?W)(r := ?q)"
    "w_cookies w = (cookie_of m)(c := (cookie_of m c)\<lparr>c_used := to_i16 (c_used (cookie_of m c) + 1)\<rparr>)"
    by (simp_all add: w cookie_join_def)
  have cu: "c \<in># unmatched_of (w_procs ?W r)" using c by (simp add: unmatched_of_def)
  have un: "c \<in># unmatched ?W" using cu r(1) by (auto simp: in_psum)
  have k: "c_used (cookie_of m c) = 1" "c_busy (cookie_of m c) = 1"
    using p2p_invD(2) [OF inv, of c] un by (auto simp: cookie_ok_def)
  have others: "c \<notin> set (pr_inbox (w_procs ?W s))" if "s < msize m" "s \<noteq> r" for s
    using unmatched_unique(2) [OF p2p_invD(1) [OF inv] r(1) cu that] by (simp add: unmatched_of_def)
  have eff: "unmatched ?W = add_mset c (unmatched w)" "pending w = add_mset c (pending ?W)" "inv_nodes w = inv_nodes ?W"
    by (rule psum_match [OF r(1) p(1,3)]; use c p in \<open>simp add: unmatched_of_def pending_of_def free_of_def\<close>)+
  have "p2p_inv (set_rank r w (Reading c buf iovec cnt) (c # m_handles m r) m)"
  proof (rule match_step_inv [OF inv r p(1) eff(1,2) _ p(4), where b = buf and i = iovec and n = cnt])
    show "inv_nodes w" using eff(3) p2p_invD(1) [OF inv] by simp
  qed (use k p others in \<open>auto simp: to_i16_id\<close>)
  with True show ?thesis by simp
next
  case False
  let ?W = "m_world m"
  let ?k = "mk_cookie r buf iovec cnt cnt source tag 1"
  from st False obtain w1 where cr: "create_request r ?k ?W = Ret (w1, c)"
    and w: "w = upd_proc r (\<lambda>p. p\<lparr>pr_outbox := pr_outbox p @ [c]\<rparr>) w1"
    by (auto simp: recv_post_def and_then_Ret_iff split: option.splits)
  obtain fs where e: "w_size w1 = w_size ?W" "w_cookies w1 = (cookie_of m)(c := ?k)"
    "c \<notin># unmatched ?W" "c \<notin># pending ?W"
    "w_procs w1 = (w_procs ?W)(r := (w_procs ?W r)\<lparr>pr_free := fs\<rparr>)"
    "\<And>(w2 :: world) p. w_size w2 = w_size ?W \<Longrightarrow> w_pool w2 = w_pool w1 \<Longrightarrow> w_procs w2 = (w_procs ?W)(r := p) \<Longrightarrow>
       free_of p = mset fs \<Longrightarrow> pending_of p = pending_of (w_procs ?W r) \<Longrightarrow>
       unmatched_of p = add_mset c (unmatched_of (w_procs ?W r)) \<Longrightarrow>
       inv_nodes w2 \<and> unmatched w2 = add_mset c (unmatched ?W) \<and> pending w2 = pending ?W"
    by (rule create_request_effect [OF p2p_invD(1) [OF inv] r(1) cr]) blast
  let ?q = "(w_procs ?W r)\<lparr>pr_free := fs, pr_outbox := pr_outbox (w_procs ?W r) @ [c]\<rparr>"
  have pr: "w_procs w = (w_procs ?W)(r := ?q)" using e(5) by (simp add: w)
  have sz: "w_size w = msize m" "w_cookies w = (cookie_of m)(c := ?k)" using e(1,2) by (simp_all add: w)
  have eff: "inv_nodes w \<and> unmatched w = add_mset c (unmatched ?W) \<and> pending w = pending ?W"
    by (rule e(6) [OF _ _ pr]) (use e(1) in \<open>auto simp: w unmatched_of_def pending_of_def free_of_def\<close>)
  have "p2p_inv (set_rank r w Idle (c # m_handles m r) m)"
    by (rule create_step_inv [OF inv r, where k = ?k])
      (use e(3,4) eff pr sz in \<open>auto simp: mk_cookie_def to_i16_id\<close>)
  with False show ?thesis by simp
qed

lemma send_post_inv:
  assumes inv: "p2p_inv m" and r: "r < msize m" "m_pc m r = Idle" and d: "dest < msize m"
    and st: "send_post r dest buf cnt iovec tag (m_world m) = Ret (w, c, matched)"
  shows "p2p_inv (set_rank r w (if matched then Writing c buf iovec cnt else Idle) (c # m_handles m r) m)"
proof (cases matched)
  case True
  let ?W = "m_world m"
  let ?q = "(w_procs ?W dest)\<lparr>pr_outbox := remove1 c (pr_outbox (w_procs ?W dest)),
     pr_pending := c # pr_pending (w_procs ?W dest)\<rparr>"
  let ?k = "(cookie_of m c)\<lparr>c_src := to_i16 (int r), c_tag := to_i16 tag,
     c_used := to_i16 (c_used (cookie_of m c) + 1)\<rparr>"
  from st True have w: "w = cookie_join c (upd_cookie c (\<lambda>k. k\<lparr>c_src := to_i16 (int r), c_tag := to_i16 tag\<rparr>)
     (upd_proc dest (\<lambda>p. p\<lparr>pr_outbox := remove1 c (pr_outbox p), pr_pending := c # pr_pending p\<rparr>) ?W))"
    and c: "c \<in> set (pr_outbox (w_procs ?W dest))"
    by (auto simp: send_post_def and_then_Ret_iff split: option.splits dest: find_in)
  have p: "w_size w = w_size ?W" "w_pool w = w_pool ?W" "w_procs w = (w_procs ?W)(dest := ?q)"
    "w_cookies w = (cookie_of m)(c := ?k)"
    by (simp_all add: w cookie_join_def)
  have cu: "c \<in># unmatched_of (w_procs ?W dest)" using c by (simp add: unmatched_of_def)
  have un: "c \<in># unmatched ?W" using cu d by (auto simp: in_psum)
  have k: "c_used (cookie_of m c) = 1" "c_busy (cookie_of m c) = 1"
    using p2p_invD(2) [OF inv, of c] un by (auto simp: cookie_ok_def)
  have inb: "c \<notin> set (pr_inbox (w_procs ?W s))" if "s < msize m" for s
  proof (cases "s = dest")
    case True
    have "count (unmatched_of (w_procs ?W dest)) c = 1"
      by (rule unmatched_unique(1) [OF p2p_invD(1) [OF inv] d cu])
    moreover have "c \<in># mset (pr_outbox (w_procs ?W dest))" using c by simp
    then have "0 < count (mset (pr_outbox (w_procs ?W dest))) c" by (simp only: count_greater_zero_iff)
    ultimately have "count (mset (pr_inbox (w_procs ?W dest))) c = 0"
      unfolding unmatched_of_def count_union by linarith
    then show ?thesis using True by (simp only: count_eq_zero_iff set_mset_mset not_False_eq_True)
  next
    case False
    then show ?thesis
      using unmatched_unique(2) [OF p2p_invD(1) [OF inv] d cu that] by (simp add: unmatched_of_def)
  qed
  have eff: "unmatched ?W = add_mset c (unmatched w)" "pending w = add_mset c (pending ?W)" "inv_nodes w = inv_nodes ?W"
    by (rule psum_match [OF d p(1,3)]; use c p in \<open>simp add: unmatched_of_def pending_of_def free_of_def\<close>)+
  have "p2p_inv (set_rank r w (Writing c buf iovec cnt) (c # m_handles m r) m)"
  proof (rule match_step_inv [OF inv r p(1) eff(1,2) _ p(4), where b = buf and i = iovec and n = cnt])
    show "inv_nodes w" using eff(3) p2p_invD(1) [OF inv] by simp
  qed (use k p inb in \<open>auto simp: to_i16_id\<close>)
  with True show ?thesis by simp
next
  case False
  let ?W = "m_world m"
  let ?k = "mk_cookie r buf iovec cnt cnt (int r) tag 1"
  from st False obtain w1 where cr: "create_request dest ?k ?W = Ret (w1, c)"
    and w: "w = upd_proc dest (\<lambda>p. p\<lparr>pr_inbox := pr_inbox p @ [c],
                 pr_asleep := (pr_asleep p \<and> pr_waiting_for p \<noteq> waiting_for_incoming)\<rparr>) w1"
    by (auto simp: send_post_def and_then_Ret_iff split: option.splits)
  obtain fs where e: "w_size w1 = w_size ?W" "w_cookies w1 = (cookie_of m)(c := ?k)"
    "c \<notin># unmatched ?W" "c \<notin># pending ?W"
    "w_procs w1 = (w_procs ?W)(dest := (w_procs ?W dest)\<lparr>pr_free := fs\<rparr>)"
    "\<And>(w2 :: world) p. w_size w2 = w_size ?W \<Longrightarrow> w_pool w2 = w_pool w1 \<Longrightarrow> w_procs w2 = (w_procs ?W)(dest := p) \<Longrightarrow>
       free_of p = mset fs \<Longrightarrow> pending_of p = pending_of (w_procs ?W dest) \<Longrightarrow>
       unmatched_of p = add_mset c (unmatched_of (w_procs ?W dest)) \<Longrightarrow>
       inv_nodes w2 \<and> unmatched w2 = add_mset c (unmatched ?W) \<and> pending w2 = pending ?W"
    by (rule create_request_effect [OF p2p_invD(1) [OF inv] d cr]) blast
  let ?p = "w_procs ?W dest"
  let ?q = "?p\<lparr>pr_free := fs, pr_inbox := pr_inbox ?p @ [c],
     pr_asleep := (pr_asleep ?p \<and> pr_waiting_for ?p \<noteq> waiting_for_incoming)\<rparr>"
  have pr: "w_procs w = (w_procs ?W)(dest := ?q)" using e(5) by (simp add: w)
  have sz: "w_size w = msize m" "w_cookies w = (cookie_of m)(c := ?k)" using e(1,2) by (simp_all add: w)
  have eff: "inv_nodes w \<and> unmatched w = add_mset c (unmatched ?W) \<and> pending w = pending ?W"
    by (rule e(6) [OF _ _ pr]) (use e(1) in \<open>auto simp: w unmatched_of_def pending_of_def free_of_def\<close>)
  have "p2p_inv (set_rank r w Idle (c # m_handles m r) m)"
    by (rule create_step_inv [OF inv r, where k = ?k])
      (use e(3,4) eff pr sz in \<open>auto simp: mk_cookie_def to_i16_id split: if_splits\<close>)
  with False show ?thesis by simp
qed

section \<open>A transfer ends in the completion of its request\<close>

lemma notify_done_effect:
  fixes c :: cid and w :: world
  defines "k \<equiv> w_cookies w c"
  shows "w_size (notify_done c err w) = w_size w" "w_pool (notify_done c err w) = w_pool w"
    "w_mem (notify_done c err w) = w_mem w"
    "w_cookies (notify_done c err w) = (w_cookies w)(c := k\<lparr>c_err := (if c_err k \<noteq> 0 then c_err k else to_i16 err),
       c_busy := to_i16 (c_busy k - 1)\<rparr>)"
  by (simp_all add: notify_done_def k_def Let_def)

lemma notify_done_procs:
  fixes c :: cid and w :: world
  defines "k \<equiv> w_cookies w c"
  shows "\<exists>a. w_procs (notify_done c err w) s = (w_procs w s)\<lparr>pr_asleep := a\<rparr> \<and>
      (a \<longrightarrow> pr_asleep (w_procs w s) \<and> \<not> (s = c_owner k \<and> to_i16 (c_busy k - 1) = 0 \<and>
         pr_waiting_for (w_procs w s) = waiting_for_cookie \<and> pr_waiting (w_procs w s) = Some c))"
proof -
  let ?wake = "to_i16 (c_busy k - 1) = 0 \<and> pr_waiting_for (w_procs w (c_owner k)) = waiting_for_cookie \<and>
    pr_waiting (w_procs w (c_owner k)) = Some c"
  let ?a = "if ?wake \<and> s = c_owner k then False else pr_asleep (w_procs w s)"
  have "w_procs (notify_done c err w) s = (w_procs w s)\<lparr>pr_asleep := ?a\<rparr>"
    by (simp add: notify_done_def k_def Let_def)
  then show ?thesis by (intro exI [of _ ?a]) auto
qed

text \<open>What a transfer of request \<open>c\<close> changes besides the memory: \<^verbatim>\<open>count_\<close>, then completion.\<close>

definition transfer_done :: "cid \<Rightarrow> world \<Rightarrow> world \<Rightarrow> bool" where
  "transfer_done c w w' \<longleftrightarrow> w_size w' = w_size w \<and> w_pool w' = w_pool w \<and>
     (\<exists>k'. w_cookies w' = (w_cookies w)(c := k') \<and> c_used k' = c_used (w_cookies w c) \<and>
        c_owner k' = c_owner (w_cookies w c) \<and> c_busy k' = to_i16 (c_busy (w_cookies w c) - 1)) \<and>
     (\<forall>s. \<exists>a. w_procs w' s = (w_procs w s)\<lparr>pr_asleep := a\<rparr> \<and>
        (a \<longrightarrow> pr_asleep (w_procs w s) \<and>
           \<not> (s = c_owner (w_cookies w c) \<and> to_i16 (c_busy (w_cookies w c) - 1) = 0 \<and>
              pr_waiting_for (w_procs w s) = waiting_for_cookie \<and> pr_waiting (w_procs w s) = Some c)))"

lemma transfer_doneI:
  assumes "w_size w0 = w_size w" "w_pool w0 = w_pool w" "w_procs w0 = w_procs w"
    "w_cookies w0 = (w_cookies w)(c := (w_cookies w c)\<lparr>c_count := n\<rparr>)"
  shows "transfer_done c w (notify_done c err w0)"
  using notify_done_procs [of c err w0] assms
  unfolding transfer_done_def notify_done_effect by auto

lemma read_from_owner_done:
  assumes "read_from_owner readv c buf iovec sz count0 seek skip w = Ret (w', err)"
  shows "transfer_done c w w'"
  using assms transfer_doneI [of _ w c "c_count (w_cookies w c)"]
  by (auto simp: read_from_owner_def Let_def split: if_splits prod.splits)

lemma write_to_owner_done:
  assumes "write_to_owner writev c buf iovec cnt seek skip w = Ret (w', err)"
  shows "transfer_done c w w'"
  using assms transfer_doneI [of _ w c] transfer_doneI [of _ w c "c_count (w_cookies w c)"]
  by (auto simp: write_to_owner_def Let_def upd_cookie_def split: if_splits prod.splits)

lemma transfer_inv:
  assumes inv: "p2p_inv m" and r: "r < msize m" "m_pc m r = Reading c b i n \<or> m_pc m r = Writing c b i n"
    and dn: "transfer_done c (m_world m) w'"
  shows "p2p_inv (set_rank r w' Idle (m_handles m r) m)"
proof -
  obtain k' where k': "w_cookies w' = (cookie_of m)(c := k')" "c_used k' = c_used (cookie_of m c)"
    "c_owner k' = c_owner (cookie_of m c)" "c_busy k' = to_i16 (c_busy (cookie_of m c) - 1)"
    using dn unfolding transfer_done_def by blast
  show ?thesis
    by (rule done_step_inv [OF inv r(1) refl r(2) _ _ k']) (use dn k' in \<open>simp_all add: transfer_done_def\<close>)
qed

section \<open>Waiting and probing\<close>

lemma unmatched_owner:
  assumes inv: "p2p_inv m" and c: "c \<in># unmatched (m_world m)" and r: "r < msize m" "c \<in> set (m_handles m r)"
  shows "c_owner (cookie_of m c) = r"
proof (rule ccontr)
  let ?o = "c_owner (cookie_of m c)"
  assume ne: "?o \<noteq> r"
  have o': "?o < msize m" "c \<in> set (m_handles m ?o)" "handle_count m c = 1"
    using p2p_invD(2) [OF inv, of c] c by (auto simp: cookie_ok_def)
  have "0 < count_list (m_handles m r) c" "0 < count_list (m_handles m ?o) c"
    using r o' by (simp_all add: count_list_pos)
  moreover have "handle_count m c = count_list (m_handles m r) c + (\<Sum>s \<in> {..<msize m} - {r}. count_list (m_handles m s) c)"
    unfolding handle_count_def using r(1) by (intro sum.remove) auto
  moreover have "count_list (m_handles m ?o) c \<le> (\<Sum>s \<in> {..<msize m} - {r}. count_list (m_handles m s) c)"
    using o'(1) ne by (intro member_le_sum) auto
  ultimately show False using o'(3) by linarith
qed

lemma idle_pending:
  assumes "p2p_inv m" "r < msize m" "c \<in> set (m_handles m r)" "c_busy (cookie_of m c) = 0"
  shows "c \<in># pending (m_world m)"
  using handle_in_play(1) [OF assms(1-3)] p2p_invD(2) [OF assms(1), of c] assms(4)
  by (auto simp: cookie_ok_def)

lemma leaving_inv:
  assumes inv: "p2p_inv m" and r: "r < msize m" "\<And>x. transfers (m_pc m r) x = 0"
    "\<not> pr_asleep (w_procs (m_world m) r)" "c \<in> set (m_handles m r)" "c \<in># pending (m_world m)"
  shows "p2p_inv (set_rank r (m_world m) (Leaving c) (m_handles m r) m)"
  by (rule local_step_inv [OF inv r(1,2), where q = "w_procs (m_world m) r"])
    (use r in \<open>auto simp: pc_ok_def intro: awake_ok\<close>)

lemma wait_cookie_inv:
  assumes inv: "p2p_inv m" and r: "r < msize m" "\<And>x. transfers (m_pc m r) x = 0"
    and c: "c \<in> set (m_handles m r)" "c_owner (cookie_of m c) = r" and nsl: "\<not> pr_asleep (w_procs (m_world m) r)"
    and st: "wait_cookie r c (m_world m) = (w, res)"
  shows "p2p_inv (set_rank r w (if res = None then Waiting c else Leaving c) (m_handles m r) m)"
proof (cases "c_busy (cookie_of m c) = 0")
  case True
  let ?q = "(w_procs (m_world m) r)\<lparr>pr_waiting := None, pr_waiting_for := not_waiting\<rparr>"
  have w: "w_size w = msize m" "w_pool w = w_pool (m_world m)" "w_cookies w = cookie_of m"
    "w_procs w = (w_procs (m_world m))(r := ?q)" "res = Some ()" "pending w = pending (m_world m)"
    using st True by (auto simp: wait_cookie_def Let_def pending_of_def intro!: psum_cong)
  have "p2p_inv (set_rank r w (Leaving c) (m_handles m r) m)"
    by (rule local_step_inv [OF inv r _ w(1-4)])
      (use w c r nsl idle_pending [OF inv r(1) c(1) True] in \<open>auto simp: pc_ok_def intro: awake_ok\<close>)
  with w(5) show ?thesis by simp
next
  case False
  let ?q = "(w_procs (m_world m) r)\<lparr>pr_waiting := Some c, pr_waiting_for := waiting_for_cookie, pr_asleep := True\<rparr>"
  have w: "w_size w = msize m" "w_pool w = w_pool (m_world m)" "w_cookies w = cookie_of m"
    "w_procs w = (w_procs (m_world m))(r := ?q)" "res = None"
    using st False by (auto simp: wait_cookie_def Let_def)
  have "p2p_inv (set_rank r w (Waiting c) (m_handles m r) m)"
    by (rule local_step_inv [OF inv r _ w(1-4)])
      (use w c r False in \<open>auto simp: pc_ok_def sleep_ok_def\<close>)
  with w(5) show ?thesis by simp
qed

lemma probe_inv:
  assumes inv: "p2p_inv m" and r: "r < msize m" "\<And>x. transfers (m_pc m r) x = 0"
    "\<not> pr_asleep (w_procs (m_world m) r)"
    and st: "wait_incoming r source tag (m_world m) = (w, res)"
  shows "p2p_inv (set_rank r w (if res = None then Probing source tag else Idle) (m_handles m r) m)"
proof (cases "find_any r source tag (m_world m)")
  case (Some c)
  let ?q = "(w_procs (m_world m) r)\<lparr>pr_waiting_for := not_waiting\<rparr>"
  have w: "w_size w = msize m" "w_pool w = w_pool (m_world m)" "w_cookies w = cookie_of m"
    "w_procs w = (w_procs (m_world m))(r := ?q)" "res = Some c"
    using st Some by (auto simp: wait_incoming_def find_any_def Let_def)
  have "p2p_inv (set_rank r w Idle (m_handles m r) m)"
    by (rule local_step_inv [OF inv r(1,2) _ w(1-4)]) (use w r in \<open>auto simp: pc_ok_def intro: awake_ok\<close>)
  with w(5) show ?thesis by simp
next
  case None
  let ?q = "(w_procs (m_world m) r)\<lparr>pr_waiting_for := waiting_for_incoming, pr_asleep := True\<rparr>"
  have w: "w_size w = msize m" "w_pool w = w_pool (m_world m)" "w_cookies w = cookie_of m"
    "w_procs w = (w_procs (m_world m))(r := ?q)" "res = None"
    using st None by (auto simp: wait_incoming_def find_any_def Let_def)
  have "find_any r source tag w = find_any r source tag (m_world m)"
    using w by (intro find_any_cong) auto
  then have "p2p_inv (set_rank r w (Probing source tag) (m_handles m r) m)"
    by (intro local_step_inv [OF inv r(1,2) _ w(1-4)]) (use w r None in \<open>auto simp: pc_ok_def sleep_ok_def\<close>)
  with w(5) show ?thesis by simp
qed

lemma wake_inv:
  assumes inv: "p2p_inv m" and r: "r < msize m" "pr_asleep (w_procs (m_world m) r)"
  shows "p2p_inv (m\<lparr>m_world := upd_proc r (\<lambda>p. p\<lparr>pr_asleep := False\<rparr>) (m_world m)\<rparr>)"
proof -
  let ?w = "upd_proc r (\<lambda>p. p\<lparr>pr_asleep := False\<rparr>) (m_world m)"
  have eq: "m\<lparr>m_world := ?w\<rparr> = set_rank r ?w (m_pc m r) (m_handles m r) m" by (simp add: set_rank_def)
  have nt: "transfers (m_pc m r) x = 0" for x
    using p2p_invD(4) [OF inv r(1)] r(2) by (auto simp: sleep_ok_def split: pc.splits)
  have pe: "pending ?w = pending (m_world m)" by (intro psum_cong) (auto simp: pending_of_def)
  have "pc_ok (set_rank r ?w (m_pc m r) (m_handles m r) m) r"
    by (rule pc_ok_frame [OF p2p_invD(3) [OF inv r(1)]]) (simp_all add: pe)
  then show ?thesis
    unfolding eq
    by (intro local_step_inv [OF inv r(1) nt nt, where q = "(w_procs (m_world m) r)\<lparr>pr_asleep := False\<rparr>"])
      (auto intro: awake_ok)
qed

section \<open>All steps, all reachable states\<close>

lemma p2p_step_inv: "p2p_step writev readv m m' \<Longrightarrow> p2p_inv m \<Longrightarrow> p2p_inv m'"
proof (induction rule: p2p_step.induct)
  case (irecv r m buf cnt iovec source tag w c matched)
  then show ?case by (intro recv_post_inv) auto
next
  case (isend r m dest buf cnt iovec tag w c matched)
  then show ?case by (intro send_post_inv) auto
next
  case (do_read r m c buf iovec cnt w err)
  then show ?case by (intro transfer_inv [OF _ _ _ read_from_owner_done]) auto
next
  case (do_write r m c buf iovec cnt w err)
  then show ?case by (intro transfer_inv [OF _ _ _ write_to_owner_done]) auto
next
  case (wait_other r m c)
  then have "c \<in># pending (m_world m)"
    using unmatched_owner [of m c r] handle_in_play(1) [of m r c] by (auto simp: is_owner_def)
  with wait_other idle_awake [of m r] show ?case by (intro leaving_inv) auto
next
  case (do_wait r m c w res)
  then have "c \<in> set (m_handles m r)" "c_owner (cookie_of m c) = r" "\<not> pr_asleep (w_procs (m_world m) r)"
    "\<And>x. transfers (m_pc m r) x = 0"
    using idle_awake [of m r] p2p_invD(3) [of m r] by (auto simp: is_owner_def pc_ok_def)
  with do_wait show ?case by (intro wait_cookie_inv) auto
next
  case (do_test r m c)
  with idle_awake [of m r] idle_pending [of m r c] show ?case by (intro leaving_inv) auto
next
  case (do_leave r m c w)
  then show ?case by (intro leave_step_inv) auto
next
  case (do_probe r m source tag w res)
  with idle_awake [of m r] have "\<not> pr_asleep (w_procs (m_world m) r)" "\<And>x. transfers (m_pc m r) x = 0" by auto
  with do_probe show ?case by (intro probe_inv) auto
next
  case (spurious r m)
  then show ?case by (intro wake_inv)
qed

lemma initial_inv: "initial m \<Longrightarrow> p2p_inv m"
proof -
  assume i: "initial m"
  have p: "\<exists>pid. w_procs (m_world m) r = new_process pid" for r using i by (simp add: initial_def)
  have e: "unmatched_of (w_procs (m_world m) r) = {#}" "pending_of (w_procs (m_world m) r) = {#}"
    "free_of (w_procs (m_world m) r) = {#}" "\<not> pr_asleep (w_procs (m_world m) r)" for r
    using p [of r] by (auto simp: new_process_def unmatched_of_def pending_of_def free_of_def)
  then have "psum unmatched_of (m_world m) = {#}" "psum pending_of (m_world m) = {#}" "psum free_of (m_world m) = {#}"
    by (simp_all add: psum_def)
  with i e show "p2p_inv m"
    by (auto simp: p2p_inv_def inv_nodes_def places_def initial_def cookie_ok_def pc_ok_def
        handle_count_def transfer_count_def intro: awake_ok)
qed

lemma reachable_inv: "p2p_reachable writev readv m \<Longrightarrow> p2p_inv m"
  by (induction rule: p2p_reachable.induct) (auto intro: initial_inv p2p_step_inv)

end
