(* ===== verification/P2P_Props.thy ===== *)
theory P2P_Props
  imports P2P_Safety
begin

text \<open>
  What the invariant of the point-to-point machine says of the program, and a concrete run
  of two ranks on a small segment.
\<close>

section \<open>A concrete run\<close>

definition demo_pool :: pool where
  "demo_pool = pool_init 4096 4096 8192 (\<lambda>_. bp_null)"

definition demo_world :: world where
  "demo_world = \<lparr>w_size = 2, w_pool = demo_pool,
     w_cookies = (\<lambda>_. mk_cookie 0 0 [] 0 0 0 0 0),
     w_procs = (\<lambda>r. new_process (int r)), w_mem = (\<lambda>_. 0)\<rparr>"

definition demo_start :: machine where
  "demo_start = \<lparr>m_world = demo_world, m_pc = (\<lambda>_. Idle), m_handles = (\<lambda>_. [])\<rparr>"

lemma demo_initial: "initial demo_start"
proof -
  have "\<exists>lo hi. pool_inv lo hi demo_pool {}"
    unfolding demo_pool_def by (rule pool_init_inv) simp_all
  then have "node_inv demo_pool {}" by (auto simp: node_inv_def)
  then show ?thesis by (auto simp: initial_def demo_start_def demo_world_def)
qed

text \<open>
  Rank 1 posts a send to rank 0 and sleeps in \<^verbatim>\<open>MPI_Wait\<close>; rank 0 posts the receive, which
  matches; rank 0 reads the payload, which wakes rank 1; rank 1 returns from \<^verbatim>\<open>MPI_Wait\<close>.
\<close>

definition demo_type :: iovecs where
  "demo_type = [iov_entry 8 4]"

definition demo_w1 :: world where
  "demo_w1 = (case send_post 1 0 1000 1 demo_type 7 demo_world of Ret (w, _) \<Rightarrow> w | _ \<Rightarrow> demo_world)"

definition demo_w2 :: world where
  "demo_w2 = fst (wait_cookie 1 (BP 0) demo_w1)"

definition demo_w3 :: world where
  "demo_w3 = (case recv_post 0 2000 1 demo_type MPI_ANY_SOURCE 7 demo_w2 of Ret (w, _) \<Rightarrow> w | _ \<Rightarrow> demo_w2)"

definition demo_w4 :: world where
  "demo_w4 = (case read_from_owner vm_copy (BP 0) (Priv 0, 2000) demo_type 1 0 0 0 demo_w3 of
     Ret (w, _) \<Rightarrow> w | _ \<Rightarrow> demo_w3)"

definition demo_w5 :: world where
  "demo_w5 = fst (wait_cookie 1 (BP 0) demo_w4)"

definition demo_m1 :: machine where "demo_m1 = set_rank 1 demo_w1 Idle [BP 0] demo_start"
definition demo_m2 :: machine where "demo_m2 = set_rank 1 demo_w2 (Waiting (BP 0)) [BP 0] demo_m1"
definition demo_m3 :: machine where
  "demo_m3 = set_rank 0 demo_w3 (Reading (BP 0) 2000 demo_type 1) [BP 0] demo_m2"
definition demo_m4 :: machine where "demo_m4 = set_rank 0 demo_w4 Idle [BP 0] demo_m3"
definition demo_m5 :: machine where "demo_m5 = set_rank 1 demo_w5 (Leaving (BP 0)) [BP 0] demo_m4"

lemmas demo_defs = demo_m1_def demo_m2_def demo_m3_def demo_m4_def demo_m5_def demo_start_def

lemma demo_post: "send_post 1 0 1000 1 demo_type 7 demo_world = Ret (demo_w1, BP 0, False)"
proof -
  have "(case send_post 1 0 1000 1 demo_type 7 demo_world of Ret (w, c, b) \<Rightarrow> Some (c, b) | _ \<Rightarrow> None) =
      Some (BP 0, False)" by code_simp
  then show ?thesis unfolding demo_w1_def by (auto split: outcome.splits)
qed

lemma demo_wait: "wait_cookie 1 (BP 0) demo_w1 = (demo_w2, None)"
proof -
  have "snd (wait_cookie 1 (BP 0) demo_w1) = None" by code_simp
  then show ?thesis unfolding demo_w2_def by (simp add: prod_eq_iff)
qed

lemma demo_recv: "recv_post 0 2000 1 demo_type MPI_ANY_SOURCE 7 demo_w2 = Ret (demo_w3, BP 0, True)"
proof -
  have "(case recv_post 0 2000 1 demo_type MPI_ANY_SOURCE 7 demo_w2 of Ret (w, c, b) \<Rightarrow> Some (c, b) | _ \<Rightarrow> None) =
      Some (BP 0, True)" by code_simp
  then show ?thesis unfolding demo_w3_def by (auto split: outcome.splits)
qed

lemma demo_read: "read_from_owner vm_copy (BP 0) (Priv 0, 2000) demo_type 1 0 0 0 demo_w3 = Ret (demo_w4, 0)"
proof -
  have "(case read_from_owner vm_copy (BP 0) (Priv 0, 2000) demo_type 1 0 0 0 demo_w3 of
      Ret (w, e) \<Rightarrow> Some e | _ \<Rightarrow> None) = Some 0" by code_simp
  then show ?thesis unfolding demo_w4_def by (auto split: outcome.splits)
qed

lemma demo_woken: "wait_cookie 1 (BP 0) demo_w4 = (demo_w5, Some ())"
proof -
  have "snd (wait_cookie 1 (BP 0) demo_w4) = Some ()" by code_simp
  then show ?thesis unfolding demo_w5_def by (simp add: prod_eq_iff)
qed

lemma demo_size: "w_size demo_w1 = 2" "w_size demo_w2 = 2" "w_size demo_w3 = 2" "w_size demo_w4 = 2"
  by code_simp+

lemma demo_owner: "is_owner 1 (BP 0) demo_w1" "\<not> pr_asleep (w_procs demo_w4 1)" "pr_asleep (w_procs demo_w2 1)"
  by code_simp+

lemma demo_reach1: "p2p_reachable vm_copy vm_copy demo_m1"
proof -
  have "p2p_step vm_copy vm_copy demo_start
      (set_rank 1 demo_w1 (if False then Writing (BP 0) 1000 demo_type 1 else Idle) (BP 0 # m_handles demo_start 1) demo_start)"
    by (rule p2p_step.isend [where dest = 0 and tag = 7])
      (use demo_post in \<open>simp_all add: demo_start_def demo_world_def\<close>)
  then show ?thesis
    using p2p_reachable.start [OF demo_initial] unfolding demo_m1_def
    by (auto simp: demo_start_def intro: p2p_reachable.step)
qed

lemma demo_reach2: "p2p_reachable vm_copy vm_copy demo_m2"
proof -
  have "p2p_step vm_copy vm_copy demo_m1
      (set_rank 1 demo_w2 (if (None :: unit option) = None then Waiting (BP 0) else Leaving (BP 0)) (m_handles demo_m1 1) demo_m1)"
    by (rule p2p_step.do_wait)
      (use demo_wait demo_owner demo_size in \<open>simp_all add: demo_m1_def demo_start_def demo_world_def\<close>)
  with demo_reach1 show ?thesis
    unfolding demo_m2_def by (auto simp: demo_m1_def intro: p2p_reachable.step)
qed

lemma demo_reach3: "p2p_reachable vm_copy vm_copy demo_m3"
proof -
  have "p2p_step vm_copy vm_copy demo_m2
      (set_rank 0 demo_w3 (if True then Reading (BP 0) 2000 demo_type 1 else Idle) (BP 0 # m_handles demo_m2 0) demo_m2)"
    by (rule p2p_step.irecv [where source = MPI_ANY_SOURCE and tag = 7])
      (use demo_recv demo_size in \<open>simp_all add: demo_m2_def demo_m1_def demo_start_def\<close>)
  with demo_reach2 show ?thesis
    unfolding demo_m3_def by (auto simp: demo_m2_def demo_m1_def demo_start_def intro: p2p_reachable.step)
qed

lemma demo_reach4: "p2p_reachable vm_copy vm_copy demo_m4"
proof -
  have "p2p_step vm_copy vm_copy demo_m3 (set_rank 0 demo_w4 Idle (m_handles demo_m3 0) demo_m3)"
    by (rule p2p_step.do_read) (use demo_read demo_size in \<open>simp_all add: demo_m3_def\<close>)
  with demo_reach3 show ?thesis
    unfolding demo_m4_def by (auto simp: demo_m3_def intro: p2p_reachable.step)
qed

lemma demo_reach5: "p2p_reachable vm_copy vm_copy demo_m5"
proof -
  have "p2p_step vm_copy vm_copy demo_m4
      (set_rank 1 demo_w5 (if Some () = None then Waiting (BP 0) else Leaving (BP 0)) (m_handles demo_m4 1) demo_m4)"
    by (rule p2p_step.do_wait)
      (use demo_woken demo_owner demo_size in \<open>simp_all add: demo_m4_def demo_m3_def demo_m2_def\<close>)
  with demo_reach4 show ?thesis
    unfolding demo_m5_def by (auto simp: demo_m4_def demo_m3_def demo_m2_def intro: p2p_reachable.step)
qed

text \<open>Another run: rank 0 probes for tag 9 when only a message with tag 7 has come in.\<close>

definition demo_probing :: machine where
  "demo_probing = set_rank 0 (fst (wait_incoming 0 1 9 demo_w1)) (Probing 1 9) [] demo_m1"

lemma demo_probe_sleeps:
  "snd (wait_incoming 0 1 9 demo_w1) = None" "pr_asleep (w_procs (fst (wait_incoming 0 1 9 demo_w1)) 0)"
  "w_size (fst (wait_incoming 0 1 9 demo_w1)) = 2"
  by code_simp+

lemma demo_reach_probing: "p2p_reachable vm_copy vm_copy demo_probing"
proof -
  have w: "wait_incoming 0 1 9 demo_w1 = (fst (wait_incoming 0 1 9 demo_w1), None)"
    using demo_probe_sleeps(1) by (simp add: prod_eq_iff)
  have "p2p_step vm_copy vm_copy demo_m1
      (set_rank 0 (fst (wait_incoming 0 1 9 demo_w1)) (if (None :: cid option) = None then Probing 1 9 else Idle) (m_handles demo_m1 0) demo_m1)"
    by (rule p2p_step.do_probe) (use w demo_size in \<open>simp_all add: demo_m1_def demo_start_def\<close>)
  with demo_reach1 show ?thesis
    unfolding demo_probing_def by (auto simp: demo_m1_def demo_start_def intro: p2p_reachable.step)
qed

section \<open>What holds in every reachable state\<close>

lemma handle_places:
  assumes inv: "p2p_inv m" and r: "r < msize m" "c \<in> set (m_handles m r)"
  shows "count (places (m_world m)) c = 1"
proof -
  have "c \<in># places (m_world m)" using handle_in_play(1) [OF inv r] by (auto simp: places_def)
  then have "0 < count (places (m_world m)) c" by simp
  moreover have "count (places (m_world m)) c \<le> 1"
    using p2p_invD(1) [OF inv] by (simp add: inv_nodes_def)
  ultimately show ?thesis by linarith
qed

lemma handle_not_free:
  assumes inv: "p2p_inv m" and r: "r < msize m" "c \<in> set (m_handles m r)" and s: "s < msize m"
  shows "c \<notin> set (pr_free (w_procs (m_world m) s))"
proof
  assume "c \<in> set (pr_free (w_procs (m_world m) s))"
  then have "c \<in># psum free_of (m_world m)" using s by (auto simp: in_psum free_of_def)
  then show False
    using inv_nodes_exclusive(2,3) [OF p2p_invD(1) [OF inv]] handle_in_play(1) [OF inv r] by blast
qed

text \<open>C1: No use after free. In every state reachable by any interleaving of posts, transfers, waits,
  tests, probes and spurious wake-ups, a request a rank still holds is in exactly one of the boxes
  (an inbox, outbox or pending list of one process), on no free list, and its node is a live block
  of the shared pool.\<close>
theorem p2p_no_use_after_free:
  assumes "p2p_reachable writev readv m" "r < msize m" "c \<in> set (m_handles m r)"
  shows "count (unmatched (m_world m)) c + count (pending (m_world m)) c = 1 \<and>
    (\<forall>s < msize m. c \<notin> set (pr_free (w_procs (m_world m) s))) \<and>
    (\<exists>live. c \<in> live \<and> node_inv (w_pool (m_world m)) live)"
proof -
  have inv: "p2p_inv m" by (rule reachable_inv [OF assms(1)])
  have "c \<notin># psum free_of (m_world m)"
    using inv_nodes_exclusive(2,3) [OF p2p_invD(1) [OF inv]] handle_in_play(1) [OF inv assms(2,3)] by blast
  then have "count (psum free_of (m_world m)) c = 0" by (simp add: not_in_iff)
  with handle_places [OF inv assms(2,3)]
  have one: "count (unmatched (m_world m)) c + count (pending (m_world m)) c = 1" by (simp add: places_def)
  have "c \<in># places (m_world m)" using handle_in_play(1) [OF inv assms(2,3)] by (auto simp: places_def)
  then show ?thesis
    using one handle_not_free [OF inv assms(2,3)] p2p_invD(1) [OF inv] unfolding inv_nodes_def by blast
qed

lemma p2p_no_use_after_free_witness:
  "count (unmatched (m_world demo_m1)) (BP 0) + count (pending (m_world demo_m1)) (BP 0) = 1"
  using p2p_no_use_after_free [OF demo_reach1, of 1 "BP 0"] demo_size by (simp add: demo_m1_def)

text \<open>C21: The two counters of a request are exact in every reachable state: \<^verbatim>\<open>used_\<close> is the number of
  handles (at most two, so its 16 bits never overflow), and \<^verbatim>\<open>busy_\<close> is one while the request is
  unmatched and afterwards the number of ranks that still have to transfer for it, at most one;
  only its creator holds an unmatched request.\<close>
theorem p2p_counts_exact:
  assumes "p2p_reachable writev readv m" "r < msize m" "c \<in> set (m_handles m r)"
  shows "c_used (cookie_of m c) = int (handle_count m c) \<and> handle_count m c \<le> 2 \<and> transfer_count m c \<le> 1 \<and>
    (if c \<in># unmatched (m_world m)
     then c_busy (cookie_of m c) = 1 \<and> handle_count m c = 1 \<and> c_owner (cookie_of m c) = r
     else c_busy (cookie_of m c) = int (transfer_count m c))"
proof -
  have inv: "p2p_inv m" by (rule reachable_inv [OF assms(1)])
  then show ?thesis
    using p2p_invD(2) [OF inv, of c] handle_in_play(1) [OF inv assms(2,3)] unmatched_owner [OF inv _ assms(2,3)]
    by (auto simp: cookie_ok_def split: if_splits)
qed

lemma p2p_counts_exact_witness:
  "c_used (cookie_of demo_m3 (BP 0)) = 2 \<and> transfer_count demo_m3 (BP 0) \<le> 1"
proof -
  have r: "0 < msize demo_m3" "BP 0 \<in> set (m_handles demo_m3 0)"
    using demo_size by (simp_all add: demo_m3_def)
  have "handle_count demo_m3 (BP 0) = 2"
    using demo_size by (simp add: handle_count_def demo_m3_def demo_m2_def demo_m1_def numeral_2_eq_2)
  then show ?thesis
    using p2p_counts_exact [OF demo_reach3 r] by simp
qed

text \<open>C18: No lost wake-up in \<^verbatim>\<open>MPI_Wait\<close>. A rank asleep in \<^verbatim>\<open>wait_cookie\<close> still has something to wait
  for: its request is unmatched, or another rank is in the middle of the transfer that will
  notify it.\<close>
theorem p2p_sleeper_has_waker:
  assumes "p2p_reachable writev readv m" "r < msize m" "m_pc m r = Waiting c"
    "pr_asleep (w_procs (m_world m) r)"
  shows "c \<in># unmatched (m_world m) \<or>
    (\<exists>s < msize m. s \<noteq> r \<and> (\<exists>b i n. m_pc m s = Reading c b i n \<or> m_pc m s = Writing c b i n))"
proof (cases "c \<in># unmatched (m_world m)")
  case nu: False
  have inv: "p2p_inv m" by (rule reachable_inv [OF assms(1)])
  have h: "c \<in> set (m_handles m r)" and busy: "c_busy (cookie_of m c) \<noteq> 0"
    using p2p_invD(3,4) [OF inv assms(2)] assms(3,4) by (auto simp: pc_ok_def sleep_ok_def)
  have "0 < transfer_count m c"
    using p2p_invD(2) [OF inv, of c] handle_in_play(1) [OF inv assms(2) h] nu busy by (auto simp: cookie_ok_def)
  then obtain s where s: "s < msize m" "0 < transfers (m_pc m s) c"
    unfolding transfer_count_def by (metis gr0I lessThan_iff sum.neutral less_irrefl)
  then have "s \<noteq> r" using assms(3) by auto
  with s show ?thesis by (cases "m_pc m s") (auto split: if_splits)
qed simp

lemma p2p_sleeper_has_waker_witness:
  "pr_asleep (w_procs (m_world demo_m2) 1) \<and>
   (BP 0 \<in># unmatched (m_world demo_m2) \<or>
    (\<exists>s < 2. s \<noteq> 1 \<and> (\<exists>b i n. m_pc demo_m2 s = Reading (BP 0) b i n \<or> m_pc demo_m2 s = Writing (BP 0) b i n)))"
  using p2p_sleeper_has_waker [OF demo_reach2, of 1 "BP 0"] demo_size demo_owner by (simp add: demo_m2_def)

text \<open>C23: No lost wake-up in \<^verbatim>\<open>MPI_Probe\<close>: while a rank sleeps in \<^verbatim>\<open>wait_any(source, tag)\<close>, no message in
  its inbox matches.\<close>
theorem p2p_prober_has_nothing:
  assumes "p2p_reachable writev readv m" "r < msize m" "m_pc m r = Probing source tag"
    "pr_asleep (w_procs (m_world m) r)"
  shows "\<forall>c \<in> set (pr_inbox (w_procs (m_world m) r)). \<not> recv_match (cookie_of m c) source tag"
  using p2p_invD(4) [OF reachable_inv [OF assms(1)] assms(2)] assms(3,4)
  by (auto simp: sleep_ok_def find_any_def find_None_iff)

lemma p2p_prober_has_nothing_witness:
  "pr_inbox (w_procs (m_world demo_probing) 0) = [BP 0] \<and> pr_asleep (w_procs (m_world demo_probing) 0) \<and>
   \<not> recv_match (cookie_of demo_probing (BP 0)) 1 9"
proof -
  have "pr_inbox (w_procs (m_world demo_probing) 0) = [BP 0]" by code_simp
  then show ?thesis
    using p2p_prober_has_nothing [OF demo_reach_probing, of 0 1 9] demo_size demo_probe_sleeps
    by (simp add: demo_probing_def)
qed

text \<open>C22: Giving up a completed request never fails: for a rank about to leave, \<^verbatim>\<open>finalize\<close> (which
  may hand half of the owner's free list back to the pool) runs without error, whatever the other
  ranks do.\<close>
theorem p2p_leave_total:
  assumes "p2p_reachable writev readv m" "r < msize m" "m_pc m r = Leaving c"
  shows "\<exists>w. cookie_leave c (m_world m) = Ret w \<and>
    p2p_reachable writev readv (set_rank r w Idle (remove1 c (m_handles m r)) m)"
proof -
  have inv: "p2p_inv m" by (rule reachable_inv [OF assms(1)])
  have c: "c \<in> set (m_handles m r)" "c \<in># pending (m_world m)"
    using p2p_invD(3) [OF inv assms(2)] assms(3) by (auto simp: pc_ok_def)
  then have o': "c_owner (cookie_of m c) < msize m"
    using p2p_invD(2) [OF inv, of c] by (auto simp: cookie_ok_def split: if_splits)
  obtain w where "finalize (c_owner (cookie_of m c)) c (m_world m) = Ret w"
    using finalize_total [OF p2p_invD(1) [OF inv, folded box_inv_empty] o'] by blast
  then have "cookie_leave c (m_world m) = Ret w" by (simp add: cookie_leave_def)
  with assms show ?thesis by (blast intro: p2p_reachable.step p2p_step.do_leave)
qed

lemma p2p_leave_total_witness: "\<exists>w. cookie_leave (BP 0) (m_world demo_m5) = Ret w"
  using p2p_leave_total [OF demo_reach5, of 1 "BP 0"] demo_size
  by (auto simp: demo_m5_def demo_w5_def wait_cookie_def Let_def)

end
