(* ===== verification/Messages.thy ===== *)
theory Messages
  imports Delivery P2P_Props "HOL-Library.Sublist"
begin

text \<open>
  Point-to-point messages end to end: a send and a receive that match deliver the data in
  either order of posting, a receive takes the first matching message, errors leave the
  buffers alone, and no transfer writes outside the receiving buffer.
\<close>

section \<open>Posting\<close>

text \<open>What posting an unmatched request establishes in a state that satisfies the invariant.\<close>

lemma recv_post_unmatched:
  assumes inv: "p2p_inv m" and r: "r < msize m"
    and st: "recv_post r buf n iovec source tag (m_world m) = Ret (w, c, False)"
  shows "w_cookies w = (cookie_of m)(c := mk_cookie r buf iovec n n source tag 1)"
    "pr_outbox (w_procs w r) = pr_outbox (w_procs (m_world m) r) @ [c]"
    "w_mem w = w_mem (m_world m)"
    "\<forall>s < msize m. c \<notin> set (pr_inbox (w_procs (m_world m) s)) \<and> c \<notin> set (pr_outbox (w_procs (m_world m) s))"
    "find (\<lambda>c. recv_match (cookie_of m c) source tag) (pr_inbox (w_procs (m_world m) r)) = None"
proof -
  let ?W = "m_world m" and ?k = "mk_cookie r buf iovec n n source tag 1"
  from st obtain w1 where cr: "create_request r ?k ?W = Ret (w1, c)"
    and w: "w = upd_proc r (\<lambda>p. p\<lparr>pr_outbox := pr_outbox p @ [c]\<rparr>) w1"
    and nf: "find (\<lambda>c. recv_match (cookie_of m c) source tag) (pr_inbox (w_procs ?W r)) = None"
    by (auto simp: recv_post_def and_then_Ret_iff split: option.splits)
  show "find (\<lambda>c. recv_match (cookie_of m c) source tag) (pr_inbox (w_procs ?W r)) = None" by (rule nf)
  obtain fs where e: "w_mem w1 = w_mem ?W" "w_cookies w1 = (cookie_of m)(c := ?k)" "c \<notin># unmatched ?W"
    "w_procs w1 = (w_procs ?W)(r := (w_procs ?W r)\<lparr>pr_free := fs\<rparr>)"
    by (rule create_request_effect [OF p2p_invD(1) [OF inv] r cr]) blast
  show "w_cookies w = (cookie_of m)(c := ?k)" "w_mem w = w_mem ?W"
    "pr_outbox (w_procs w r) = pr_outbox (w_procs ?W r) @ [c]"
    using e by (simp_all add: w)
  show "\<forall>s < msize m. c \<notin> set (pr_inbox (w_procs ?W s)) \<and> c \<notin> set (pr_outbox (w_procs ?W s))"
    using e(3) by (auto simp: in_psum unmatched_of_def)
qed

lemma send_post_unmatched:
  assumes inv: "p2p_inv m" and d: "dest < msize m"
    and st: "send_post r dest buf n iovec tag (m_world m) = Ret (w, c, False)"
  shows "w_cookies w = (cookie_of m)(c := mk_cookie r buf iovec n n (int r) tag 1)"
    "pr_inbox (w_procs w dest) = pr_inbox (w_procs (m_world m) dest) @ [c]"
    "w_mem w = w_mem (m_world m)"
    "\<forall>s < msize m. c \<notin> set (pr_inbox (w_procs (m_world m) s)) \<and> c \<notin> set (pr_outbox (w_procs (m_world m) s))"
    "find (\<lambda>c. send_match (cookie_of m c) (int r) tag) (pr_outbox (w_procs (m_world m) dest)) = None"
proof -
  let ?W = "m_world m" and ?k = "mk_cookie r buf iovec n n (int r) tag 1"
  from st obtain w1 where cr: "create_request dest ?k ?W = Ret (w1, c)"
    and w: "w = upd_proc dest (\<lambda>p. p\<lparr>pr_inbox := pr_inbox p @ [c],
                 pr_asleep := (pr_asleep p \<and> pr_waiting_for p \<noteq> waiting_for_incoming)\<rparr>) w1"
    and nf: "find (\<lambda>c. send_match (cookie_of m c) (int r) tag) (pr_outbox (w_procs ?W dest)) = None"
    by (auto simp: send_post_def and_then_Ret_iff split: option.splits)
  show "find (\<lambda>c. send_match (cookie_of m c) (int r) tag) (pr_outbox (w_procs ?W dest)) = None" by (rule nf)
  obtain fs where e: "w_mem w1 = w_mem ?W" "w_cookies w1 = (cookie_of m)(c := ?k)" "c \<notin># unmatched ?W"
    "w_procs w1 = (w_procs ?W)(dest := (w_procs ?W dest)\<lparr>pr_free := fs\<rparr>)"
    by (rule create_request_effect [OF p2p_invD(1) [OF inv] d cr]) blast
  show "w_cookies w = (cookie_of m)(c := ?k)" "w_mem w = w_mem ?W"
    "pr_inbox (w_procs w dest) = pr_inbox (w_procs ?W dest) @ [c]"
    using e by (simp_all add: w)
  show "\<forall>s < msize m. c \<notin> set (pr_inbox (w_procs ?W s)) \<and> c \<notin> set (pr_outbox (w_procs ?W s))"
    using e(3) by (auto simp: in_psum unmatched_of_def)
qed

lemma find_append_None: "find P xs = None \<Longrightarrow> find P (xs @ ys) = find P ys"
  by (induction xs) auto

section \<open>Delivery\<close>

text \<open>
  The two buffers of a message of \<open>n\<close> elements sent, with room for \<open>k\<close> elements received: layouts
  and sizes in range, the message fits and is a whole number of elements of the receive type, no
  shared location.
\<close>

definition received :: "iovecs \<Rightarrow> int \<Rightarrow> iovecs \<Rightarrow> int" where
  "received sty n rty = int (bytes_of sty n div unat (iov_len rty))"

definition message_bufs :: "nat \<Rightarrow> int \<Rightarrow> int \<Rightarrow> iovecs \<Rightarrow> nat \<Rightarrow> int \<Rightarrow> int \<Rightarrow> iovecs \<Rightarrow> bool" where
  "message_bufs s sbuf n sty r rbuf k rty \<longleftrightarrow>
     typed_buf sty 0 n \<and> typed_buf rty 0 k \<and> iov_len sty \<noteq> 0 \<and> iov_len rty \<noteq> 0 \<and>
     unat (iov_len rty) dvd bytes_of sty n \<and> received sty n rty \<le> k \<and> k < 2 ^ 31 \<and>
     separate (payload (Priv s, sbuf) sty 0 n) (payload (Priv r, rbuf) rty 0 k)"

lemma message_bufsD:
  assumes "message_bufs s sbuf n sty r rbuf k rty"
  defines "j \<equiv> received sty n rty" and "S \<equiv> payload (Priv s, sbuf) sty 0 n"
    and "D \<equiv> payload (Priv r, rbuf) rty 0 (received sty n rty)"
  shows "typed_buf sty 0 n" "typed_buf rty 0 k" "iov_len sty \<noteq> 0" "iov_len rty \<noteq> 0"
    "0 \<le> j" "j \<le> k" "k < 2 ^ 31" "typed_buf rty 0 j" "bytes_of rty j = bytes_of sty n" "separate S D"
    "D = take (bytes_of sty n) (payload (Priv r, rbuf) rty 0 k)" "length S = bytes_of sty n"
    "length D = bytes_of sty n" "separate S (payload (Priv r, rbuf) rty 0 k)" "bytes_of sty n \<le> bytes_of rty k"
proof -
  let ?P = "payload (Priv r, rbuf) rty 0 k"
  show b: "typed_buf sty 0 n" "typed_buf rty 0 k" "iov_len sty \<noteq> 0" "iov_len rty \<noteq> 0" "j \<le> k" "k < 2 ^ 31"
    "separate S ?P"
    using assms by (auto simp: message_bufs_def)
  have dv: "unat (iov_len rty) dvd bytes_of sty n" using assms by (simp add: message_bufs_def)
  show j: "0 \<le> j" by (simp add: j_def received_def)
  show by': "bytes_of rty j = bytes_of sty n" using dv by (simp add: j_def received_def bytes_of_def [of rty])
  have "j * int (unat (iov_len rty)) \<le> k * int (unat (iov_len rty))" "nat j \<le> nat k"
    using b(5) by (auto intro: mult_right_mono)
  moreover from this(2) have "nat j * length (iov_range rty) \<le> nat k * length (iov_range rty)"
    by (rule mult_le_mono1)
  then have "iov_scattered rty \<longrightarrow> nat j * length (iov_range rty) \<le> 1024"
    using b(2) unfolding typed_buf_def by linarith
  ultimately show tj: "typed_buf rty 0 j" using b(2) j by (auto simp: typed_buf_def)
  have "?P = D @ payload (Priv r, rbuf) rty j (k - j)"
    using payload_append [OF j, of "k - j" "(Priv r, rbuf)" rty 0] b(5) by (simp add: D_def j_def)
  moreover show lD: "length D = bytes_of sty n"
    using typed_bufD [OF tj] by' by (simp add: D_def length_payload_bytes j_def)
  ultimately show pre: "D = take (bytes_of sty n) ?P" by simp
  have "set D \<subseteq> set ?P" unfolding pre by (rule set_take_subset)
  with b(7) pre show "separate S D" by (auto simp: separate_def)
  show "length S = bytes_of sty n" using typed_bufD [OF b(1)] by (simp add: S_def length_payload_bytes)
  have "length ?P = bytes_of rty k" using typed_bufD [OF b(2)] by (simp add: length_payload_bytes)
  with lD pre show "bytes_of sty n \<le> bytes_of rty k" by simp
qed

lemma send_first_delivers:
  assumes re: "p2p_reachable writev readv m" and r: "r < msize m"
    and post: "send_post s r sbuf n sty tag (m_world m) = Ret (w1, c, False)"
    and rng: "0 \<le> tag" "tag < 32768" "int s < 32768"
    and first: "find (\<lambda>c. recv_match (cookie_of m c) source tag') (pr_inbox (w_procs (m_world m) r)) = None"
    and env: "tag' = tag \<or> tag' = MPI_ANY_TAG" "source = int s \<or> source = MPI_ANY_SOURCE"
    and vm: "vm_ok readv" and bufs: "message_bufs s sbuf n sty r rbuf k rty"
  shows "\<exists>wr w2. recv_post r rbuf k rty source tag' w1 = Ret (wr, c, True) \<and>
    read_from_owner readv c (Priv r, rbuf) rty k 0 0 0 wr = Ret (w2, MPI_SUCCESS) \<and>
    map (w_mem w2) (payload (Priv r, rbuf) rty 0 (received sty n rty)) =
      map (w_mem (m_world m)) (payload (Priv s, sbuf) sty 0 n) \<and>
    (\<forall>l. l \<notin> set (payload (Priv r, rbuf) rty 0 (received sty n rty)) \<longrightarrow> w_mem w2 l = w_mem (m_world m) l) \<and>
    c_busy (w_cookies w2 c) = 0 \<and> c_err (w_cookies w2 c) = 0 \<and> c_src (w_cookies w2 c) = int s \<and>
    c_tag (w_cookies w2 c) = tag \<and> c_count (w_cookies w2 c) = n \<and> c_iovec (w_cookies w2 c) = sty"
proof -
  note u = send_post_unmatched [OF reachable_inv [OF re] r post]
  let ?k = "mk_cookie s sbuf sty n n (int s) tag 1" and ?j = "received sty n rty"
  let ?S = "payload (Priv s, sbuf) sty 0 n" and ?D = "payload (Priv r, rbuf) rty 0 ?j"
  have k: "c_tag ?k = tag" "c_src ?k = int s" using rng by (simp_all add: mk_cookie_def to_i16_id)
  have "find (\<lambda>c. recv_match (w_cookies w1 c) source tag') (pr_inbox (w_procs (m_world m) r)) = None"
    using first u(1,4) r by (auto simp: find_None_iff)
  then have fnd: "find (\<lambda>c. recv_match (w_cookies w1 c) source tag') (pr_inbox (w_procs w1 r)) = Some c"
    using u(1,2) env k rng(1) by (simp add: find_append_None recv_match_def) (auto simp: mpi_consts)
  define w2 where "w2 = cookie_join c (upd_proc r (\<lambda>p. p\<lparr>pr_inbox := remove1 c (pr_inbox p),
                 pr_pending := c # pr_pending p\<rparr>) w1)"
  have rp: "recv_post r rbuf k rty source tag' w1 = Ret (w2, c, True)"
    using fnd by (simp add: recv_post_def w2_def)
  have w2: "w_mem w2 = w_mem (m_world m)" "w_cookies w2 c = ?k\<lparr>c_used := 2\<rparr>"
    using u(1,3) by (simp_all add: w2_def cookie_join_def mk_cookie_def to_i16_id)
  note b = message_bufsD [OF bufs]
  have cnt: "read_count (w_cookies w2 c) rty 0 0 = ?j"
    using w2(2) by (simp add: read_count_def mk_cookie_def received_def)
  have "read_from_owner readv c (Priv r, rbuf) rty k 0 0 0 w2 =
      Ret (notify_done c MPI_SUCCESS (w2\<lparr>w_mem := moved (w_mem w2) (take (bytes_of rty ?j) ?S) ?D\<rparr>), MPI_SUCCESS)"
    using read_from_owner_eq [OF vm, of w2 c 0 rty 0 k 0 ?j "(Priv r, rbuf)"] b cnt w2(2)
    by (simp add: owner_buf_def mk_cookie_def)
  then have rd: "read_from_owner readv c (Priv r, rbuf) rty k 0 0 0 w2 =
      Ret (notify_done c MPI_SUCCESS (w2\<lparr>w_mem := moved (w_mem (m_world m)) ?S ?D\<rparr>), MPI_SUCCESS)"
    using b w2(1) by simp
  have "map (moved (w_mem (m_world m)) ?S ?D) ?D = map (w_mem (m_world m)) ?S"
    using moved_read [OF b(10), of "w_mem (m_world m)"] b by simp
  moreover have "moved (w_mem (m_world m)) ?S ?D l = w_mem (m_world m) l" if "l \<notin> set ?D" for l
    using that b by (intro moved_other) simp
  ultimately show ?thesis
    unfolding rp using rd w2(2) k by (auto simp: notify_done_effect mk_cookie_def to_i16_id mpi_consts)
qed

text \<open>C2: Delivery when the send is posted first. A receive whose envelope matches, when no earlier
  message in the receiver's inbox does, succeeds; the data bytes of the receive buffer are then those
  of the send buffer, in the order of the types, every other location is unchanged, and the sender's
  request is complete without error.\<close>
theorem deliver_send_first:
  assumes re: "p2p_reachable writev readv m" and r: "r < msize m"
    and post: "send_post s r sbuf n sty tag (m_world m) = Ret (w1, c, False)"
    and rng: "0 \<le> tag" "tag < 32768" "int s < 32768"
    and first: "find (\<lambda>c. recv_match (cookie_of m c) source tag') (pr_inbox (w_procs (m_world m) r)) = None"
    and env: "tag' = tag \<or> tag' = MPI_ANY_TAG" "source = int s \<or> source = MPI_ANY_SOURCE"
    and vm: "vm_ok readv" and bufs: "message_bufs s sbuf n sty r rbuf k rty"
  shows "\<exists>w2. recv_request readv r rbuf k rty source tag' w1 = Ret (w2, MPI_SUCCESS, c) \<and>
    map (w_mem w2) (payload (Priv r, rbuf) rty 0 (received sty n rty)) =
      map (w_mem (m_world m)) (payload (Priv s, sbuf) sty 0 n) \<and>
    (\<forall>l. l \<notin> set (payload (Priv r, rbuf) rty 0 (received sty n rty)) \<longrightarrow> w_mem w2 l = w_mem (m_world m) l) \<and>
    c_busy (w_cookies w2 c) = 0 \<and> c_err (w_cookies w2 c) = 0"
  using send_first_delivers [OF assms] by (auto simp: recv_request_def)

lemma demo_bufs: "message_bufs 1 1000 1 demo_type 0 2000 1 demo_type"
proof -
  have "payload (Priv 1, 1000) demo_type 0 1 = [(Priv 1, 1000), (Priv 1, 1001), (Priv 1, 1002), (Priv 1, 1003)]"
    "payload (Priv 0, 2000) demo_type 0 1 = [(Priv 0, 2000), (Priv 0, 2001), (Priv 0, 2002), (Priv 0, 2003)]"
    by code_simp+
  then show ?thesis
    by (simp add: message_bufs_def typed_buf_def separate_def bytes_of_def received_def demo_type_def
        wf_iovec_def iov_defs)
qed

lemma deliver_send_first_witness:
  "\<exists>w2. recv_request vm_copy 0 2000 1 demo_type MPI_ANY_SOURCE 7 demo_w1 = Ret (w2, MPI_SUCCESS, BP 0) \<and>
     c_busy (w_cookies w2 (BP 0)) = 0"
  using deliver_send_first [OF p2p_reachable.start [OF demo_initial, of vm_copy vm_copy], of 0 1 1000 1 demo_type 7
      demo_w1 "BP 0" MPI_ANY_SOURCE 7 2000 1 demo_type]
    demo_post demo_bufs vm_ok_copy
  by (auto simp: demo_start_def demo_world_def new_process_def)

text \<open>C3: Delivery when the receive is posted first. A send whose envelope the posted receive accepts,
  when no receive posted earlier does, succeeds; the data bytes arrive, every other location is
  unchanged, and the receiver's request is complete without error and holds the sender's rank, the tag
  and the number of elements received.\<close>
theorem deliver_recv_first:
  assumes re: "p2p_reachable writev readv m" and r: "r < msize m"
    and post: "recv_post r rbuf k rty source tag' (m_world m) = Ret (w1, c, False)"
    and rng: "0 \<le> tag" "tag < 32768" "int s < 32768"
    and first: "find (\<lambda>c. send_match (cookie_of m c) (int s) tag) (pr_outbox (w_procs (m_world m) r)) = None"
    and env: "tag' = tag \<or> tag' = MPI_ANY_TAG" "source = int s \<or> source = MPI_ANY_SOURCE"
    and vm: "vm_ok writev" and bufs: "message_bufs s sbuf n sty r rbuf k rty"
  shows "\<exists>w2. send_request writev s r sbuf n sty tag w1 = Ret (w2, MPI_SUCCESS, c) \<and>
    map (w_mem w2) (payload (Priv r, rbuf) rty 0 (received sty n rty)) =
      map (w_mem (m_world m)) (payload (Priv s, sbuf) sty 0 n) \<and>
    (\<forall>l. l \<notin> set (payload (Priv r, rbuf) rty 0 (received sty n rty)) \<longrightarrow> w_mem w2 l = w_mem (m_world m) l) \<and>
    c_busy (w_cookies w2 c) = 0 \<and> c_err (w_cookies w2 c) = 0 \<and> c_src (w_cookies w2 c) = int s \<and>
    c_tag (w_cookies w2 c) = tag \<and> c_count (w_cookies w2 c) = received sty n rty"
proof -
  note u = recv_post_unmatched [OF reachable_inv [OF re] r post]
  let ?k = "mk_cookie r rbuf rty k k source tag' 1" and ?j = "received sty n rty"
  let ?S = "payload (Priv s, sbuf) sty 0 n" and ?P = "payload (Priv r, rbuf) rty 0 k"
  let ?D = "payload (Priv r, rbuf) rty 0 ?j"
  have k: "c_tag ?k = tag'" "c_src ?k = source" using rng env by (auto simp: mk_cookie_def to_i16_id mpi_consts)
  have "find (\<lambda>c. send_match (w_cookies w1 c) (int s) tag) (pr_outbox (w_procs (m_world m) r)) = None"
    using first u(1,4) r by (auto simp: find_None_iff)
  then have fnd: "find (\<lambda>c. send_match (w_cookies w1 c) (int s) tag) (pr_outbox (w_procs w1 r)) = Some c"
    using u(1,2) env k by (auto simp: find_append_None send_match_def)
  define w2 where "w2 = cookie_join c (upd_cookie c (\<lambda>k. k\<lparr>c_src := to_i16 (int s), c_tag := to_i16 tag\<rparr>)
     (upd_proc r (\<lambda>p. p\<lparr>pr_outbox := remove1 c (pr_outbox p), pr_pending := c # pr_pending p\<rparr>) w1))"
  have sp: "send_post s r sbuf n sty tag w1 = Ret (w2, c, True)"
    using fnd by (simp add: send_post_def w2_def)
  have w2: "w_mem w2 = w_mem (m_world m)" "w_cookies w2 c = ?k\<lparr>c_used := 2, c_src := int s, c_tag := tag\<rparr>"
    using u(1,3) rng by (simp_all add: w2_def cookie_join_def mk_cookie_def to_i16_id)
  note b = message_bufsD [OF bufs]
  have wr: "write_to_owner writev c (Priv s, sbuf) sty n 0 0 w2 =
    Ret (notify_done c MPI_SUCCESS ((upd_cookie c (\<lambda>k. k\<lparr>c_count := min (c_count k) ?j\<rparr>) w2)
         \<lparr>w_mem := moved (w_mem (m_world m)) ?S ?P\<rparr>), MPI_SUCCESS)"
    using write_to_owner_eq [OF vm b(1), of w2 c 0 "(Priv s, sbuf)"] b w2
    by (simp add: owner_buf_def mk_cookie_def received_def)
  then have sr: "send_request writev s r sbuf n sty tag w1 =
    Ret (notify_done c MPI_SUCCESS ((upd_cookie c (\<lambda>k. k\<lparr>c_count := min (c_count k) ?j\<rparr>) w2)
         \<lparr>w_mem := moved (w_mem (m_world m)) ?S ?P\<rparr>), MPI_SUCCESS, c)"
    by (simp add: send_request_def sp)
  have le: "length ?S \<le> length ?P"
    using b(12,15) typed_bufD [OF b(2)] by (simp add: length_payload_bytes)
  have "map (moved (w_mem (m_world m)) ?S ?P) ?D = map (w_mem (m_world m)) ?S"
    using moved_read [OF b(14) le, of "w_mem (m_world m)"] b(11,12) by simp
  moreover have "moved (w_mem (m_world m)) ?S ?P l = w_mem (m_world m) l" if "l \<notin> set ?D" for l
    using that b(11,12) by (intro moved_other) simp
  ultimately show ?thesis
    unfolding sr using w2(2) b(6) by (auto simp: notify_done_effect mk_cookie_def to_i16_id mpi_consts)
qed

lemma demo_recv_first: "\<exists>w. recv_post 0 2000 1 demo_type MPI_ANY_SOURCE 7 demo_world = Ret (w, BP 0, False)"
proof -
  have "(case recv_post 0 2000 1 demo_type MPI_ANY_SOURCE 7 demo_world of Ret (w, c, b) \<Rightarrow> Some (c, b) | _ \<Rightarrow> None) =
      Some (BP 0, False)" by code_simp
  then show ?thesis by (auto split: outcome.splits)
qed

lemma deliver_recv_first_witness:
  "\<exists>w1 w2. send_request vm_copy 1 0 1000 1 demo_type 7 w1 = Ret (w2, MPI_SUCCESS, BP 0) \<and>
     c_src (w_cookies w2 (BP 0)) = 1 \<and> c_busy (w_cookies w2 (BP 0)) = 0"
proof -
  obtain w1 where "recv_post 0 2000 1 demo_type MPI_ANY_SOURCE 7 (m_world demo_start) = Ret (w1, BP 0, False)"
    using demo_recv_first by (auto simp: demo_start_def)
  from deliver_recv_first [OF p2p_reachable.start [OF demo_initial, of vm_copy vm_copy] _ this, of 7 1 1000 1 demo_type]
  show ?thesis
    using demo_bufs vm_ok_copy by (auto simp: demo_start_def demo_world_def new_process_def)
qed

section \<open>Order\<close>

text \<open>\<open>x\<close> stands before \<open>y\<close> in a box.\<close>

definition before :: "'a list \<Rightarrow> 'a \<Rightarrow> 'a \<Rightarrow> bool" where
  "before xs x y \<longleftrightarrow> subseq [x, y] xs"

lemma beforeD: "before xs x y \<Longrightarrow> \<exists>as bs. xs = as @ x # bs \<and> y \<in> set bs"
  unfolding before_def by (drule list_emb_ConsD) (auto simp: subseq_singleton_left)

lemma find_until: "find P (as @ x # bs) = Some y \<Longrightarrow> P x \<Longrightarrow> y \<in> set as \<or> y = x"
  by (induction as) (auto split: if_splits)

lemma before_find:
  assumes "find P xs = Some y" "before xs x y" "distinct xs" shows "\<not> P x"
proof
  assume "P x"
  obtain as bs where b: "xs = as @ x # bs" "y \<in> set bs" using beforeD [OF assms(2)] by blast
  have "y \<in> set as \<or> y = x" using find_until [of P as x bs y] assms(1) b \<open>P x\<close> by simp
  then show False using assms(3) b by auto
qed

lemma distinct_inbox:
  assumes inv: "p2p_inv m" and r: "r < msize m"
  shows "distinct (pr_inbox (w_procs (m_world m) r))"
  unfolding distinct_count_atmost_1
proof
  fix c
  show "count (mset (pr_inbox (w_procs (m_world m) r))) c = (if c \<in> set (pr_inbox (w_procs (m_world m) r)) then 1 else 0)"
  proof (cases "c \<in> set (pr_inbox (w_procs (m_world m) r))")
    case True
    then have u: "c \<in># unmatched_of (w_procs (m_world m) r)" by (simp add: unmatched_of_def)
    have "0 < count (mset (pr_inbox (w_procs (m_world m) r))) c"
      using True by (simp only: count_greater_zero_iff set_mset_mset)
    moreover have "count (mset (pr_inbox (w_procs (m_world m) r))) c \<le> 1"
      using unmatched_unique(1) [OF p2p_invD(1) [OF inv] r u] unfolding unmatched_of_def count_union by linarith
    ultimately show ?thesis using True by (simp only: if_True)
  qed simp
qed

text \<open>C26: Messages do not overtake: a receive never takes a message while an earlier one with the same
  source and tag is still in the inbox.\<close>
theorem recv_not_overtaking:
  assumes "p2p_reachable writev readv m" "r < msize m"
    and "recv_post r buf n iovec source tag (m_world m) = Ret (w, c, True)"
    and "before (pr_inbox (w_procs (m_world m) r)) d c"
  shows "\<not> (c_src (cookie_of m d) = c_src (cookie_of m c) \<and> c_tag (cookie_of m d) = c_tag (cookie_of m c))"
proof -
  let ?P = "\<lambda>c. recv_match (cookie_of m c) source tag"
  have f: "find ?P (pr_inbox (w_procs (m_world m) r)) = Some c"
    using assms(3) by (auto simp: recv_post_def and_then_Ret_iff split: option.splits)
  have "\<not> ?P d" by (rule before_find [OF f assms(4) distinct_inbox [OF reachable_inv [OF assms(1)] assms(2)]])
  moreover have "?P c" using f by (auto simp: find_Some_iff)
  ultimately show ?thesis by (auto simp: recv_match_def)
qed

text \<open>Two messages of rank 1 in the inbox of rank 0; a receive takes the second.\<close>

definition demo_two :: machine where
  "demo_two = set_rank 1 (case send_post 1 0 1000 1 demo_type 9 demo_w1 of Ret (w, _) \<Rightarrow> w | _ \<Rightarrow> demo_w1)
     Idle [BP 64, BP 0] demo_m1"

lemma demo_two_posts:
  "\<exists>w. send_post 1 0 1000 1 demo_type 9 demo_w1 = Ret (w, BP 64, False)"
  "\<exists>w. recv_post 0 2000 1 demo_type 1 9 (m_world demo_two) = Ret (w, BP 64, True)"
  "pr_inbox (w_procs (m_world demo_two) 0) = [BP 0, BP 64]" "msize demo_two = 2"
proof -
  have "(case send_post 1 0 1000 1 demo_type 9 demo_w1 of Ret (w, c, b) \<Rightarrow> Some (c, b) | _ \<Rightarrow> None) =
      Some (BP 64, False)" by code_simp
  then show "\<exists>w. send_post 1 0 1000 1 demo_type 9 demo_w1 = Ret (w, BP 64, False)" by (auto split: outcome.splits)
  have "(case recv_post 0 2000 1 demo_type 1 9 (m_world demo_two) of Ret (w, c, b) \<Rightarrow> Some (c, b) | _ \<Rightarrow> None) =
      Some (BP 64, True)" by code_simp
  then show "\<exists>w. recv_post 0 2000 1 demo_type 1 9 (m_world demo_two) = Ret (w, BP 64, True)"
    by (auto split: outcome.splits)
  show "pr_inbox (w_procs (m_world demo_two) 0) = [BP 0, BP 64]" "msize demo_two = 2" by code_simp+
qed

lemma demo_step_two: "p2p_step vm_copy vm_copy demo_m1 demo_two"
proof -
  obtain w where w: "send_post 1 0 1000 1 demo_type 9 demo_w1 = Ret (w, BP 64, False)"
    using demo_two_posts(1) by blast
  have "p2p_step vm_copy vm_copy demo_m1
      (set_rank 1 w (if False then Writing (BP 64) 1000 demo_type 1 else Idle) (BP 64 # m_handles demo_m1 1) demo_m1)"
    by (rule p2p_step.isend [where dest = 0 and tag = 9])
      (use w demo_size in \<open>simp_all add: demo_m1_def demo_start_def\<close>)
  then show ?thesis unfolding demo_two_def w by (simp add: demo_m1_def)
qed

lemmas demo_reach_two = p2p_reachable.step [OF demo_reach1 demo_step_two]

lemma recv_not_overtaking_witness:
  "\<not> (c_src (cookie_of demo_two (BP 0)) = c_src (cookie_of demo_two (BP 64)) \<and>
      c_tag (cookie_of demo_two (BP 0)) = c_tag (cookie_of demo_two (BP 64)))"
proof -
  have "before (pr_inbox (w_procs (m_world demo_two) 0)) (BP 0) (BP 64)"
    unfolding demo_two_posts(3) before_def by simp
  then show ?thesis
    using recv_not_overtaking [OF demo_reach_two, of 0 2000 1 demo_type 1 9 _ "BP 64" "BP 0"] demo_two_posts by auto
qed

text \<open>What a step can do to an inbox: nothing, take one message out, or append one.\<close>

lemma create_request_inbox:
  "create_request q k w = Ret (w', c) \<Longrightarrow> pr_inbox (w_procs w' r) = pr_inbox (w_procs w r)"
  by (auto simp: create_request_def and_then_Ret_iff split: list.splits)

lemma finalize_inbox: "finalize q c w = Ret w' \<Longrightarrow> pr_inbox (w_procs w' r) = pr_inbox (w_procs w r)"
  by (auto simp: finalize_def Let_def and_then_Ret_iff split: prod.splits if_splits)

lemma transfer_inbox: "transfer_done c w w' \<Longrightarrow> pr_inbox (w_procs w' r) = pr_inbox (w_procs w r)"
  unfolding transfer_done_def by (metis process.select_convs(3) process.surjective process.update_convs(8))

lemma p2p_step_inbox:
  assumes "p2p_step writev readv m m'"
  shows "pr_inbox (w_procs (m_world m') r) = pr_inbox (w_procs (m_world m) r) \<or>
    (\<exists>c. pr_inbox (w_procs (m_world m') r) = remove1 c (pr_inbox (w_procs (m_world m) r))) \<or>
    (\<exists>c. pr_inbox (w_procs (m_world m') r) = pr_inbox (w_procs (m_world m) r) @ [c])"
  using assms
proof cases
  case (do_leave s c w)
  then show ?thesis by (simp add: cookie_leave_def finalize_inbox)
next
  case (do_read s c buf iovec cnt w err)
  then show ?thesis using transfer_inbox [OF read_from_owner_done] by simp
next
  case (do_write s c buf iovec cnt w err)
  then show ?thesis using transfer_inbox [OF write_to_owner_done] by simp
next
  case (irecv s buf cnt iovec source tag w c matched)
  then show ?thesis
    by (auto simp: recv_post_def and_then_Ret_iff cookie_join_def create_request_inbox split: option.splits)
next
  case (isend s dest buf cnt iovec tag w c matched)
  then show ?thesis
    by (auto simp: send_post_def and_then_Ret_iff cookie_join_def create_request_inbox split: option.splits)
qed (auto simp: wait_cookie_def wait_incoming_def Let_def split: if_splits option.splits)

lemma subseq_remove1: "subseq (remove1 c xs) xs"
  by (induction xs) auto

lemma before_remove1: "before (remove1 c xs) x y \<Longrightarrow> before xs x y"
  unfolding before_def by (rule subseq_order.trans [OF _ subseq_remove1])

lemma before_snoc: "before (xs @ [e]) x y \<Longrightarrow> before xs x y \<or> y = e"
proof -
  assume bf: "before (xs @ [e]) x y"
  obtain as bs where b: "xs @ [e] = as @ x # bs" "y \<in> set bs" using beforeD [OF bf] by (elim exE conjE)
  then obtain cs where cs: "bs = cs @ [e]" "xs = as @ x # cs"
    by (cases bs rule: rev_cases) auto
  show ?thesis
  proof (cases "y = e")
    case False
    with b cs have "subseq [x, y] (x # cs)" by (simp add: subseq_singleton_left)
    then have "subseq [x, y] (as @ x # cs)" by (rule list_emb_append2)
    then show ?thesis by (simp add: before_def cs(2))
  qed simp
qed

text \<open>C27: The order of an inbox is the order of arrival: whatever step a rank takes, two messages that
  are in an inbox before and after it keep their order.\<close>
theorem inbox_keeps_order:
  assumes "p2p_step writev readv m m'" "before (pr_inbox (w_procs (m_world m') r)) c d"
  shows "before (pr_inbox (w_procs (m_world m) r)) c d \<or>
    pr_inbox (w_procs (m_world m') r) = pr_inbox (w_procs (m_world m) r) @ [d]"
  using p2p_step_inbox [OF assms(1), of r]
proof (elim disjE exE)
  fix e assume "pr_inbox (w_procs (m_world m') r) = remove1 e (pr_inbox (w_procs (m_world m) r))"
  then show ?thesis using assms(2) before_remove1 by metis
next
  fix e assume "pr_inbox (w_procs (m_world m') r) = pr_inbox (w_procs (m_world m) r) @ [e]"
  then show ?thesis using assms(2) before_snoc by metis
qed (use assms(2) in simp)

lemma inbox_keeps_order_witness:
  "before (pr_inbox (w_procs (m_world demo_m1) 0)) (BP 0) (BP 64) \<or>
   pr_inbox (w_procs (m_world demo_two) 0) = pr_inbox (w_procs (m_world demo_m1) 0) @ [BP 64]"
  by (rule inbox_keeps_order [OF demo_step_two]) (simp add: demo_two_posts(3) before_def)

section \<open>Errors and bounds\<close>

text \<open>A message longer than the receive buffer leaves memory alone when the receiver reads it: the
  receive returns \<^verbatim>\<open>MPI_FAIL\<close> and the sender's request is completed with that error, whatever the
  kernel does.\<close>
theorem read_too_long:
  assumes k: "k = w_cookies w c" "owner_buf k 0" "c_err k = 0" "c_busy k = 1"
    and "typed_buf iovec 0 sz" "iov_len iovec \<noteq> 0"
    and n: "received (c_iovec k) (c_size k) iovec = n" "n < 2 ^ 31" "typed_buf iovec 0 n" "sz < n"
  shows "\<exists>w'. read_from_owner readv c buf iovec sz 0 0 0 w = Ret (w', MPI_FAIL) \<and> w_mem w' = w_mem w \<and>
    c_err (w_cookies w' c) = MPI_FAIL \<and> c_busy (w_cookies w' c) = 0"
proof -
  have rc: "read_count k iovec 0 0 = n" using n(1) by (simp add: read_count_def received_def)
  have "read_from_owner readv c buf iovec sz 0 0 0 w = Ret (notify_done c MPI_FAIL w, MPI_FAIL)"
    using read_from_owner_cond [of w c 0 iovec 0 sz 0 n readv buf] assms rc by simp
  then show ?thesis using k by (simp add: notify_done_effect to_i16_id mpi_consts)
qed

text \<open>The same when the sender writes into a posted receive: the send returns \<^verbatim>\<open>MPI_FAIL\<close>, the
  receiver's request is completed with that error, and its buffer is untouched.\<close>
theorem write_too_long:
  assumes k: "k = w_cookies w c" "owner_buf k 0" "c_err k = 0" "c_busy k = 1"
    and "typed_buf iovec 0 n" "bytes_of (c_iovec k) (c_size k) < bytes_of iovec n"
  shows "\<exists>w'. write_to_owner writev c buf iovec n 0 0 w = Ret (w', MPI_FAIL) \<and> w_mem w' = w_mem w \<and>
    c_err (w_cookies w' c) = MPI_FAIL \<and> c_busy (w_cookies w' c) = 0"
proof -
  have "write_to_owner writev c buf iovec n 0 0 w = Ret (notify_done c MPI_FAIL w, MPI_FAIL)"
    using assms by (intro write_to_owner_too_small) simp_all
  then show ?thesis using k by (simp add: notify_done_effect to_i16_id mpi_consts)
qed

text \<open>A request of rank 0 for 4 bytes, and a layout of 8 bytes.\<close>

definition demo_request :: world where
  "demo_request = upd_cookie (BP 0) (\<lambda>_. mk_cookie 0 2000 demo_type 1 1 1 7 1) demo_world"

definition demo_long :: iovecs where
  "demo_long = [iov_entry 10 8]"

lemma demo_request_ok: "owner_buf (w_cookies demo_request (BP 0)) 0" "typed_buf demo_long 0 1"
  by (simp_all add: owner_buf_def typed_buf_def demo_request_def mk_cookie_def demo_type_def demo_long_def
      wf_iovec_def iov_defs)

lemma read_too_long_witness:
  "\<exists>w'. read_from_owner vm_copy (BP 0) (Priv 1, 3000) demo_type 0 0 0 0 demo_request = Ret (w', MPI_FAIL) \<and>
     w_mem w' = w_mem demo_request"
proof -
  have "typed_buf demo_type 0 0" "typed_buf demo_type 0 1" "iov_len demo_type \<noteq> 0"
    "received (c_iovec (w_cookies demo_request (BP 0))) (c_size (w_cookies demo_request (BP 0))) demo_type = 1"
    by (simp_all add: typed_buf_def demo_request_def mk_cookie_def demo_type_def wf_iovec_def iov_defs
        received_def bytes_of_def)
  then show ?thesis
    using read_too_long [OF refl demo_request_ok(1), of demo_type 0 1 vm_copy "(Priv 1, 3000)"]
    by (auto simp: demo_request_def mk_cookie_def to_i16_id)
qed

lemma write_too_long_witness:
  "\<exists>w'. write_to_owner vm_copy (BP 0) (Priv 1, 3000) demo_long 1 0 0 demo_request = Ret (w', MPI_FAIL) \<and>
     w_mem w' = w_mem demo_request"
proof -
  have "bytes_of (c_iovec (w_cookies demo_request (BP 0))) (c_size (w_cookies demo_request (BP 0))) < bytes_of demo_long 1"
    by (simp add: demo_request_def mk_cookie_def demo_type_def demo_long_def iov_defs bytes_of_def)
  then show ?thesis
    using write_too_long [OF refl demo_request_ok(1) _ _ demo_request_ok(2), of vm_copy "(Priv 1, 3000)"]
    by (auto simp: demo_request_def mk_cookie_def to_i16_id)
qed

lemma vm_frameD: "vm_frame vm \<Longrightarrow> vm m src dst = (m', v) \<Longrightarrow> l \<notin> set (segs_locs dst) \<Longrightarrow> m' l = m l"
  unfolding vm_frame_def by (metis fst_conv)

text \<open>C28: A transfer never writes outside the buffer it is for, even when the kernel call stops halfway:
  with a kernel of which only is assumed that it changes no byte outside the segments it is given,
  \<^verbatim>\<open>write_to_owner\<close> changes only data bytes of the owner's buffer from element \<open>seek\<close> on.\<close>
theorem write_confined:
  assumes vm: "vm_frame vm" and k: "k = w_cookies w c" "owner_buf k seek"
    and wr: "write_to_owner vm c buf iovec n seek skip w = Ret (w', e)" and t: "typed_buf iovec skip n"
    and l: "l \<notin> set (owner_payload k seek)"
  shows "w_mem w' l = w_mem w l"
proof (cases "bytes_of (c_iovec k) (c_size k - seek) < bytes_of iovec n")
  case True
  then show ?thesis
    using wr write_to_owner_too_small [OF t, of w c seek vm buf] k by (auto simp: notify_done_effect)
next
  case False
  let ?t = "size_of_int n * iov_len iovec"
  let ?segs = "type_segs (Priv (c_owner k), c_buf k) (c_iovec k) seek (c_size k) ?t"
  have "typed_buf (c_iovec k) seek (c_size k - seek)" using k by (simp add: owner_buf_def)
  note ob = typed_bufD [OF this]
  have "unat ?t \<le> nat (c_size k - seek) * unat (iov_len (c_iovec k))"
    using False typed_bufD(5) [OF t] by (simp add: bytes_of_def)
  then have "set (segs_locs ?segs) \<subseteq> set (owner_payload k seek)"
    using type_segs_take(3) [OF ob(1,2), of "c_size k" ?t] ob(3,4) by simp
  with l have "l \<notin> set (segs_locs ?segs)" by blast
  with wr show ?thesis
    by (auto simp: write_to_owner_def Let_def k(1) notify_done_effect split: if_splits prod.splits
        dest: vm_frameD [OF vm])
qed

text \<open>Likewise \<^verbatim>\<open>read_from_owner\<close> changes only data bytes of the elements it reads into.\<close>
theorem read_confined:
  assumes vm: "vm_frame vm" and k: "k = w_cookies w c" "owner_buf k skip"
    and rd: "read_from_owner vm c buf iovec sz cnt seek skip w = Ret (w', e)"
    and t: "typed_buf iovec seek (sz - seek)" "typed_buf iovec seek n" "iov_len iovec \<noteq> 0"
    and n: "read_count k iovec cnt skip = n" "n < 2 ^ 31" and l: "l \<notin> set (payload buf iovec seek n)"
  shows "w_mem w' l = w_mem w l"
proof -
  have "segs_locs (type_segs buf iovec seek (seek + n) (size_of_int n * iov_len iovec)) = payload buf iovec seek n"
    by (rule type_segs_exact [OF typed_bufD(1-4) [OF t(2)]])
  with rd l show ?thesis
    using read_from_owner_cond [OF k(2) [unfolded k(1)] t(1,3) n(1) [unfolded k(1)] n(2) t(2), of vm buf]
    by (auto simp: Let_def notify_done_effect split: if_splits prod.splits dest: vm_frameD [OF vm])
qed

text \<open>A kernel that copies nothing and reports an error.\<close>

definition vm_broken :: vm where
  "vm_broken m src dst = (m, -1)"

lemma vm_broken_frame: "vm_frame vm_broken"
  by (simp add: vm_frame_def vm_broken_def)

lemma demo_transfers:
  "\<exists>w'. write_to_owner vm_broken (BP 0) (Priv 1, 1000) demo_type 1 0 0 demo_request = Ret (w', MPI_FAIL)"
  "\<exists>w'. read_from_owner vm_broken (BP 0) (Priv 1, 3000) demo_type 1 0 0 0 demo_request = Ret (w', MPI_FAIL)"
proof -
  have "(case write_to_owner vm_broken (BP 0) (Priv 1, 1000) demo_type 1 0 0 demo_request of
      Ret (w, e) \<Rightarrow> Some e | _ \<Rightarrow> None) = Some MPI_FAIL"
    "(case read_from_owner vm_broken (BP 0) (Priv 1, 3000) demo_type 1 0 0 0 demo_request of
      Ret (w, e) \<Rightarrow> Some e | _ \<Rightarrow> None) = Some MPI_FAIL" by code_simp+
  then show "\<exists>w'. write_to_owner vm_broken (BP 0) (Priv 1, 1000) demo_type 1 0 0 demo_request = Ret (w', MPI_FAIL)"
    "\<exists>w'. read_from_owner vm_broken (BP 0) (Priv 1, 3000) demo_type 1 0 0 0 demo_request = Ret (w', MPI_FAIL)"
    by (auto split: outcome.splits)
qed

lemma demo_typed: "typed_buf demo_type 0 1" "iov_len demo_type \<noteq> 0"
  by (simp_all add: typed_buf_def demo_type_def wf_iovec_def iov_defs)

lemma write_confined_witness:
  "\<exists>w'. write_to_owner vm_broken (BP 0) (Priv 1, 1000) demo_type 1 0 0 demo_request = Ret (w', MPI_FAIL) \<and>
     w_mem w' (Priv 0, 2004) = w_mem demo_request (Priv 0, 2004)"
proof -
  obtain w' where w': "write_to_owner vm_broken (BP 0) (Priv 1, 1000) demo_type 1 0 0 demo_request = Ret (w', MPI_FAIL)"
    using demo_transfers(1) by blast
  have "(Priv 0, 2004) \<notin> set (owner_payload (w_cookies demo_request (BP 0)) 0)" by code_simp
  from w' write_confined [OF vm_broken_frame refl demo_request_ok(1) w' demo_typed(1) this] show ?thesis by blast
qed

lemma read_confined_witness:
  "\<exists>w'. read_from_owner vm_broken (BP 0) (Priv 1, 3000) demo_type 1 0 0 0 demo_request = Ret (w', MPI_FAIL) \<and>
     w_mem w' (Priv 1, 3004) = w_mem demo_request (Priv 1, 3004)"
proof -
  obtain w' where w': "read_from_owner vm_broken (BP 0) (Priv 1, 3000) demo_type 1 0 0 0 demo_request = Ret (w', MPI_FAIL)"
    using demo_transfers(2) by blast
  have "(Priv 1, 3004) \<notin> set (payload (Priv 1, 3000) demo_type 0 1)"
    "read_count (w_cookies demo_request (BP 0)) demo_type 0 0 = 1" by code_simp+
  from w' read_confined [OF vm_broken_frame refl demo_request_ok(1) w', of 1] this demo_typed show ?thesis by auto
qed

text \<open>Where tags leave 16 bits: a receive posted for tag 65535 is stored with tag -1 and accepts a
  message with any tag, while one posted for tag 32768 is never matched by a send with that tag.\<close>
theorem large_tags_misfire:
  "send_match (mk_cookie r buf iovec n n s 65535 1) (to_i16 s) tag \<and>
   \<not> send_match (mk_cookie r buf iovec n n s 32768 1) source 32768"
proof -
  have "to_i16 65535 = -1" "to_i16 32768 = -32768" by code_simp+
  then show ?thesis by (simp add: send_match_def mk_cookie_def mpi_consts)
qed

end
