(* ===== verification/Api_Props.thy ===== *)
theory Api_Props
  imports Api Messages
begin

text \<open>
  The point-to-point calls end to end: a message sent with \<^verbatim>\<open>MPI_Isend\<close> and taken with \<^verbatim>\<open>MPI_Recv\<close>
  up to both completions, \<^verbatim>\<open>MPI_Probe\<close> followed by the receive, which request \<^verbatim>\<open>MPI_Waitany\<close> picks,
  and what a failed receive leaves behind.
\<close>

section \<open>Completing\<close>

lemma cookie_leave_effect:
  assumes "cookie_leave c w = Ret w'"
  shows "w_mem w' = w_mem w" "w_size w' = w_size w"
    "w_cookies w' = (w_cookies w)(c := (w_cookies w c)\<lparr>c_used := to_i16 (c_used (w_cookies w c) - 1)\<rparr>)"
  using assms by (auto simp: cookie_leave_def finalize_def Let_def and_then_Ret_iff split: prod.splits if_splits)

lemma set_rank_again: "set_rank r w p hs (set_rank r w' p' hs' m) = set_rank r w p hs m"
  by (simp add: set_rank_def)

text \<open>A rank that leaves a completed request ends in a state that satisfies the invariant again.\<close>

lemma leave_now:
  assumes inv: "p2p_inv (set_rank r w (Leaving c) (m_handles m r) m)" and r: "r < msize m" "w_size w = msize m"
  shows "\<exists>w'. cookie_leave c w = Ret w' \<and> p2p_inv (set_rank r w' Idle (remove1 c (m_handles m r)) m)"
proof -
  let ?m = "set_rank r w (Leaving c) (m_handles m r) m"
  have s: "r < msize ?m" "m_pc ?m r = Leaving c" "m_world ?m = w" using r by simp_all
  have c: "c \<in> set (m_handles ?m r)" "c \<in># pending (m_world ?m)"
    using p2p_invD(3) [OF inv s(1)] s(2) by (auto simp: pc_ok_def)
  then have o': "c_owner (cookie_of ?m c) < msize ?m"
    using p2p_invD(2) [OF inv, of c] by (auto simp: cookie_ok_def split: if_splits)
  obtain w' where "finalize (c_owner (cookie_of ?m c)) c (m_world ?m) = Ret w'"
    using finalize_total [OF p2p_invD(1) [OF inv, folded box_inv_empty] o'] by blast
  then have lv: "cookie_leave c (m_world ?m) = Ret w'" by (simp add: cookie_leave_def)
  from leave_step_inv [OF inv s(1,2) lv] lv show ?thesis by (auto simp: set_rank_again)
qed

text \<open>\<^verbatim>\<open>MPI_Wait\<close> on a request whose transfer is done returns at once.\<close>

lemma wait_completed:
  assumes inv: "p2p_inv m" and r: "r < msize m" "m_pc m r = Idle" "c \<in> set (m_handles m r)"
    and busy: "c_busy (cookie_of m c) = 0"
  shows "\<exists>w'. wait_for_request r c st (m_world m) = Ret (w', Done (get_status st (cookie_of m c))) \<and>
    w_mem w' = w_mem (m_world m) \<and> w_size w' = msize m \<and>
    w_cookies w' = (cookie_of m)(c := (cookie_of m c)\<lparr>c_used := to_i16 (c_used (cookie_of m c) - 1)\<rparr>) \<and>
    p2p_inv (set_rank r w' Idle (remove1 c (m_handles m r)) m)"
proof -
  have nsl: "\<not> pr_asleep (w_procs (m_world m) r)" by (rule idle_awake [OF inv r(1,2)])
  have tr: "transfers (m_pc m r) x = 0" for x using r(2) by simp
  obtain w1 where w1: "cookie_wait r c (m_world m) = (w1, Some ())" "w_mem w1 = w_mem (m_world m)"
    "w_cookies w1 = cookie_of m" "w_size w1 = msize m" "p2p_inv (set_rank r w1 (Leaving c) (m_handles m r) m)"
  proof (cases "is_owner r c (m_world m)")
    case True
    then obtain w res where w: "wait_cookie r c (m_world m) = (w, res)" by fastforce
    have e: "res = Some ()" "w_mem w = w_mem (m_world m)" "w_cookies w = cookie_of m" "w_size w = msize m"
      using w busy by (auto simp: wait_cookie_def Let_def)
    have "p2p_inv (set_rank r w (Leaving c) (m_handles m r) m)"
      using wait_cookie_inv [OF inv r(1) tr r(3) _ nsl w] True e(1) by (simp add: is_owner_def)
    with w e True that show ?thesis by (simp add: cookie_wait_def)
  next
    case False
    have "p2p_inv (set_rank r (m_world m) (Leaving c) (m_handles m r) m)"
      by (rule leaving_inv [OF inv r(1) tr nsl r(3) idle_pending [OF inv r(1,3) busy]])
    with False that show ?thesis by (simp add: cookie_wait_def)
  qed
  obtain w' where w': "cookie_leave c w1 = Ret w'" "p2p_inv (set_rank r w' Idle (remove1 c (m_handles m r)) m)"
    using leave_now [OF w1(5) r(1) w1(4)] by blast
  obtain st' err where gs: "get_status st (cookie_of m c) = (st', err)" by fastforce
  have "wait_for_request r c st (m_world m) = Ret (w', Done (st', err))"
    using w1(1,3) w'(1) gs by (simp add: wait_for_request_def complete_def)
  then show ?thesis
    using w'(2) gs cookie_leave_effect [OF w'(1)] w1(2-4) by simp
qed

lemma MPI_Wait_completed:
  assumes "p2p_inv m" "r < msize m" "m_pc m r = Idle" "c \<in> set (m_handles m r)"
    and "c_busy (cookie_of m c) = 0" "u_rank u = r"
  shows "\<exists>w'. MPI_Wait (Some u) (Some (Some c)) st (m_world m) =
      Ret (w', Some None, Done (get_status st (cookie_of m c))) \<and>
    w_mem w' = w_mem (m_world m) \<and> w_size w' = msize m \<and>
    w_cookies w' = (cookie_of m)(c := (cookie_of m c)\<lparr>c_used := to_i16 (c_used (cookie_of m c) - 1)\<rparr>) \<and>
    p2p_inv (set_rank r w' Idle (remove1 c (m_handles m r)) m)"
  using wait_completed [OF assms(1-5), of st] assms(6) by (auto simp: MPI_Wait_def)

section \<open>A message from end to end\<close>

lemma create_request_size: "create_request r k w = Ret (w', c) \<Longrightarrow> w_size w' = w_size w"
  by (auto simp: create_request_def and_then_Ret_iff split: list.splits)

lemma post_sizes:
  "recv_post r buf n iovec source tag w = Ret (w', c, b) \<Longrightarrow> w_size w' = w_size w"
  "send_post s r buf n iovec tag w = Ret (w', c, b) \<Longrightarrow> w_size w' = w_size w"
  by (auto simp: recv_post_def send_post_def and_then_Ret_iff cookie_join_def split: option.splits
      dest: create_request_size)

lemma get_count_received:
  assumes b: "message_bufs s sbuf n sty r rbuf k rty"
    and st: "st_len st = size_of_int n * iov_len sty"
  shows "MPI_Get_count (Some u) (Some st) (Some rty) True = Ret (Some (received sty n rty), MPI_SUCCESS)"
proof -
  note d = message_bufsD [OF b]
  have "uint (st_len st div iov_len rty) = received sty n rty"
    unfolding st received_def by (rule uint_div_bytes [OF typed_bufD(5) [OF d(1)]])
  moreover have "to_i32 (received sty n rty) = received sty n rty"
    using d(5-7) by (intro to_i32_id) auto
  ultimately show ?thesis using d(4) by (simp add: MPI_Get_count_def)
qed

text \<open>C31: A message from end to end. After an \<^verbatim>\<open>MPI_Isend\<close> for which no receive was posted, an
  \<^verbatim>\<open>MPI_Recv\<close> whose envelope matches, when no earlier message does, returns without waiting: the data
  bytes are those of the send buffer, the status names the sender and the tag, \<^verbatim>\<open>MPI_Get_count\<close> gives
  the number of elements, and the sender's \<^verbatim>\<open>MPI_Wait\<close> then also succeeds at once.\<close>
theorem send_then_recv:
  assumes re: "p2p_reachable writev readv m" and ranks: "r < msize m" "s < msize m" "m_pc m r = Idle" "m_pc m s = Idle"
    and u: "u_rank us = s" "u_rank ur = r" "u_size ur = int (msize m)"
    and send: "MPI_Isend writev (Some us) sbuf n (Some sty) (int r) tag MPI_COMM_WORLD True (m_world m) =
      Ret (w1, MPI_SUCCESS, Some c)"
    and none: "find (\<lambda>c. send_match (cookie_of m c) (int s) tag) (pr_outbox (w_procs (m_world m) r)) = None"
    and rng: "tag < 32768" "int s < 32768" "rbuf \<noteq> 0"
    and first: "find (\<lambda>c. recv_match (cookie_of m c) source tag') (pr_inbox (w_procs (m_world m) r)) = None"
    and env: "tag' = tag \<or> tag' = MPI_ANY_TAG" "source = int s \<or> source = MPI_ANY_SOURCE"
    and vm: "vm_ok readv" and bufs: "message_bufs s sbuf n sty r rbuf k rty"
  shows "\<exists>w2 st' w3. MPI_Recv readv (Some ur) rbuf k (Some rty) source tag' MPI_COMM_WORLD (Some st) w1 =
      Ret (w2, Done (Some st', MPI_SUCCESS)) \<and>
    map (w_mem w2) (payload (Priv r, rbuf) rty 0 (received sty n rty)) =
      map (w_mem (m_world m)) (payload (Priv s, sbuf) sty 0 n) \<and>
    st_source st' = int s \<and> st_tag st' = tag \<and>
    MPI_Get_count (Some ur) (Some st') (Some rty) True = Ret (Some (received sty n rty), MPI_SUCCESS) \<and>
    MPI_Wait (Some us) (Some (Some c)) None w2 = Ret (w3, Some None, Done (None, MPI_SUCCESS))"
proof -
  have inv: "p2p_inv m" by (rule reachable_inv [OF re])
  have tag0: "0 \<le> tag" and post: "send_post s r sbuf n sty tag (m_world m) = Ret (w1, c, False)"
    using send none u(1)
    by (auto simp: MPI_Isend_def MPI_Issend_def send_request_def send_post_def and_then_Ret_iff mpi_consts
        split: if_splits)
  obtain wr w2 where d: "recv_post r rbuf k rty source tag' w1 = Ret (wr, c, True)"
    "read_from_owner readv c (Priv r, rbuf) rty k 0 0 0 wr = Ret (w2, MPI_SUCCESS)"
    "map (w_mem w2) (payload (Priv r, rbuf) rty 0 (received sty n rty)) =
       map (w_mem (m_world m)) (payload (Priv s, sbuf) sty 0 n)"
    "c_busy (w_cookies w2 c) = 0" "c_err (w_cookies w2 c) = 0" "c_src (w_cookies w2 c) = int s"
    "c_tag (w_cookies w2 c) = tag" "c_count (w_cookies w2 c) = n" "c_iovec (w_cookies w2 c) = sty"
    using send_first_delivers [OF re ranks(1) post tag0 rng(1,2) first env vm bufs] by blast
  let ?m1 = "set_rank s w1 Idle (c # m_handles m s) m"
  have i1: "p2p_inv ?m1" using send_post_inv [OF inv ranks(2,4,1) post] by simp
  have sz1: "msize ?m1 = msize m" using post_sizes(2) [OF post] by simp
  let ?m2 = "set_rank r wr (Reading c rbuf rty k) (c # m_handles ?m1 r) ?m1"
  have pc1: "m_pc ?m1 r = Idle" "r < msize ?m1" using ranks sz1 by simp_all
  have i2: "p2p_inv ?m2" using recv_post_inv [OF i1 pc1(2,1), of rbuf k rty source tag' wr c True] d(1) by simp
  have sz2: "msize ?m2 = msize m" using post_sizes(1) [OF d(1)] sz1 by simp
  let ?m3 = "set_rank r w2 Idle (m_handles ?m2 r) ?m2"
  have dn: "transfer_done c (m_world ?m2) w2" using read_from_owner_done [OF d(2)] by simp
  have i3: "p2p_inv ?m3"
    by (rule transfer_inv [OF i2 _ _ dn]) (use sz2 ranks in simp_all)
  have sz3: "msize ?m3 = msize m" using dn sz2 by (simp add: transfer_done_def)
  have p3: "r < msize ?m3" "m_pc ?m3 r = Idle" "c \<in> set (m_handles ?m3 r)" "c_busy (cookie_of ?m3 c) = 0"
    using sz3 ranks d(4) by simp_all
  obtain st' err where gs: "get_status (Some st) (w_cookies w2 c) = (Some st', err)"
    by (auto simp: get_status_def)
  then have st': "err = MPI_SUCCESS" "st_source st' = int s" "st_tag st' = tag"
    "st_len st' = size_of_int n * iov_len sty"
    using d(5-9) by (auto simp: get_status_def mpi_consts)
  obtain w3 where w3: "MPI_Wait (Some ur) (Some (Some c)) (Some st) w2 = Ret (w3, Some None, Done (Some st', MPI_SUCCESS))"
    "w_mem w3 = w_mem w2" "w_size w3 = msize m"
    "w_cookies w3 = (w_cookies w2)(c := (w_cookies w2 c)\<lparr>c_used := to_i16 (c_used (w_cookies w2 c) - 1)\<rparr>)"
    "p2p_inv (set_rank r w3 Idle (remove1 c (m_handles ?m3 r)) ?m3)"
    using MPI_Wait_completed [OF i3 p3 u(2), of "Some st"] gs st'(1) sz3 by auto
  have recv: "MPI_Recv readv (Some ur) rbuf k (Some rty) source tag' MPI_COMM_WORLD (Some st) w1 =
      Ret (w3, Done (Some st', MPI_SUCCESS))"
  proof -
    have "MPI_Irecv readv (Some ur) rbuf k (Some rty) source tag' MPI_COMM_WORLD True w1 = Ret (w2, MPI_SUCCESS, Some c)"
      using d(1,2) u rng(3) env tag0 ranks(1,2) by (auto simp: MPI_Irecv_def recv_request_def mpi_consts)
    then show ?thesis using w3(1) by (simp add: MPI_Recv_def wait_local_def mpi_consts)
  qed
  let ?m4 = "set_rank r w3 Idle (remove1 c (m_handles ?m3 r)) ?m3"
  have p4: "s < msize ?m4" "m_pc ?m4 s = Idle" "c \<in> set (m_handles ?m4 s)" "c_busy (cookie_of ?m4 c) = 0"
    using w3(3,4) ranks(2,4) d(4) by auto
  have "get_status None (cookie_of ?m4 c) = (None, MPI_SUCCESS)"
    using w3(4) d(5) by (simp add: get_status_def mpi_consts)
  then obtain w4 where "MPI_Wait (Some us) (Some (Some c)) None w3 = Ret (w4, Some None, Done (None, MPI_SUCCESS))"
    using MPI_Wait_completed [OF w3(5) p4 u(1), of None] by auto
  moreover have "MPI_Get_count (Some ur) (Some st') (Some rty) True = Ret (Some (received sty n rty), MPI_SUCCESS)"
    by (rule get_count_received [OF bufs st'(4)])
  ultimately show ?thesis using recv w3(2) d(3) st'(2,3) by auto
qed

definition demo_umpi :: "nat \<Rightarrow> umpi" where
  "demo_umpi r = \<lparr>u_rank = r, u_size = 2, u_name = ''host:1'', u_name_len = 6, u_ticket = 0\<rparr>"

definition demo_status :: status where
  "demo_status = \<lparr>st_source = 0, st_tag = 0, st_error = 0, st_len = 0\<rparr>"

lemma demo_isend:
  "MPI_Isend vm_copy (Some (demo_umpi 1)) 1000 1 (Some demo_type) (int 0) 7 MPI_COMM_WORLD True (m_world demo_start) =
     Ret (demo_w1, MPI_SUCCESS, Some (BP 0))"
  using demo_post
  by (simp add: MPI_Isend_def MPI_Issend_def demo_umpi_def mpi_consts send_request_def demo_start_def)

lemma send_then_recv_witness:
  "\<exists>w2 st' w3. MPI_Recv vm_copy (Some (demo_umpi 0)) 2000 1 (Some demo_type) MPI_ANY_SOURCE 7 MPI_COMM_WORLD
      (Some demo_status) demo_w1 = Ret (w2, Done (Some st', MPI_SUCCESS)) \<and> st_source st' = 1 \<and>
    MPI_Wait (Some (demo_umpi 1)) (Some (Some (BP 0))) None w2 = Ret (w3, Some None, Done (None, MPI_SUCCESS))"
proof -
  have d: "0 < msize demo_start" "1 < msize demo_start" "m_pc demo_start 0 = Idle" "m_pc demo_start 1 = Idle"
    "u_rank (demo_umpi 1) = 1" "u_rank (demo_umpi 0) = 0" "u_size (demo_umpi 0) = int (msize demo_start)"
    by (simp_all add: demo_start_def demo_world_def demo_umpi_def)
  have e: "pr_outbox (w_procs (m_world demo_start) 0) = []" "pr_inbox (w_procs (m_world demo_start) 0) = []"
    by (simp_all add: demo_start_def demo_world_def new_process_def)
  note r = send_then_recv [OF p2p_reachable.start [OF demo_initial, of vm_copy vm_copy] d demo_isend, unfolded e,
      of 2000 MPI_ANY_SOURCE 7 1 demo_type demo_status]
  show ?thesis using r demo_bufs vm_ok_copy by fastforce
qed

section \<open>Probing and receiving\<close>

lemma find_implied:
  "find P xs = Some x \<Longrightarrow> Q x \<Longrightarrow> (\<And>y. y \<in> set xs \<Longrightarrow> Q y \<Longrightarrow> P y) \<Longrightarrow> find Q xs = Some x"
  by (induction xs) (auto split: if_splits)

lemma find_append_Some: "find P xs = Some x \<Longrightarrow> find P (xs @ ys) = Some x"
  by (induction xs) auto

lemma find_cong: "(\<And>x. x \<in> set xs \<Longrightarrow> P x = Q x) \<Longrightarrow> find P xs = find Q xs"
  by (induction xs) auto

text \<open>What \<^verbatim>\<open>MPI_Probe\<close> has announced is what the next receive gets: a receive for the source and
  tag of the returned status takes exactly the probed message, also when more messages have arrived in
  between, and the status has the length of that message in bytes.\<close>
theorem probe_then_recv:
  assumes probe: "MPI_Probe (Some u) source tag MPI_COMM_WORLD (Some st) w = (w1, Done (Some st', MPI_SUCCESS))"
    and envs: "\<forall>c \<in> set (pr_inbox (w_procs w (u_rank u))). 0 \<le> c_src (w_cookies w c) \<and> 0 \<le> c_tag (w_cookies w c)"
    and later: "pr_inbox (w_procs w2 (u_rank u)) = pr_inbox (w_procs w1 (u_rank u)) @ new"
      "\<forall>c \<in> set (pr_inbox (w_procs w1 (u_rank u))). w_cookies w2 c = w_cookies w1 c"
  shows "\<exists>c w3. find_any (u_rank u) source tag w = Some c \<and>
    recv_post (u_rank u) buf n ty (st_source st') (st_tag st') w2 = Ret (w3, c, True) \<and>
    st_len st' = size_of_int (c_count (w_cookies w c)) * iov_len (c_iovec (w_cookies w c))"
proof -
  let ?r = "u_rank u" and ?in = "pr_inbox (w_procs w (u_rank u))"
  obtain c where c: "find (\<lambda>c. recv_match (w_cookies w c) source tag) ?in = Some c" "MPI_ANY_TAG \<le> tag"
    and w1: "w_cookies w1 = w_cookies w" "pr_inbox (w_procs w1 ?r) = ?in"
    and st': "st_source st' = c_src (w_cookies w c)" "st_tag st' = c_tag (w_cookies w c)"
      "st_len st' = size_of_int (c_count (w_cookies w c)) * iov_len (c_iovec (w_cookies w c))"
    using probe by (auto simp: MPI_Probe_def wait_incoming_def get_status_def Let_def mpi_consts
        split: if_splits option.splits)
  have m: "recv_match (w_cookies w c) source tag" "c \<in> set ?in" using c(1) by (auto dest: find_in)
  have "find (\<lambda>d. recv_match (w_cookies w d) (st_source st') (st_tag st')) ?in = Some c"
  proof (rule find_implied [OF c(1)])
    show "recv_match (w_cookies w c) (st_source st') (st_tag st')" by (simp add: recv_match_def st')
    fix d assume "d \<in> set ?in" "recv_match (w_cookies w d) (st_source st') (st_tag st')"
    moreover have "st_source st' \<noteq> MPI_ANY_SOURCE" "0 \<le> st_tag st'"
      using m envs by (auto simp: st' recv_match_def mpi_consts)
    ultimately show "recv_match (w_cookies w d) source tag"
      using m(1) by (auto simp: recv_match_def st' mpi_consts)
  qed
  moreover have "find (\<lambda>d. recv_match (w_cookies w2 d) (st_source st') (st_tag st')) ?in =
      find (\<lambda>d. recv_match (w_cookies w d) (st_source st') (st_tag st')) ?in"
    using later(2) w1 by (intro find_cong) simp
  ultimately have "find (\<lambda>d. recv_match (w_cookies w2 d) (st_source st') (st_tag st')) (pr_inbox (w_procs w2 ?r)) = Some c"
    using later(1) w1(2) by (simp add: find_append_Some)
  then show ?thesis using c(1) st'(3) by (simp add: recv_post_def find_any_def)
qed

lemma probe_then_recv_witness:
  "\<exists>w3. recv_post 0 2000 1 demo_type 1 7 demo_w1 = Ret (w3, BP 0, True)"
proof -
  have "find (\<lambda>c. recv_match (w_cookies demo_w1 c) MPI_ANY_SOURCE MPI_ANY_TAG) (pr_inbox (w_procs demo_w1 0)) = Some (BP 0)"
    "pr_inbox (w_procs demo_w1 0) = [BP 0]" "c_src (w_cookies demo_w1 (BP 0)) = 1"
    "c_tag (w_cookies demo_w1 (BP 0)) = 7" "c_err (w_cookies demo_w1 (BP 0)) = 0" by code_simp+
  note e = this
  let ?w1 = "upd_proc 0 (\<lambda>p. p\<lparr>pr_waiting_for := not_waiting\<rparr>)
    (upd_proc 0 (\<lambda>p. p\<lparr>pr_waiting_for := waiting_for_incoming\<rparr>) demo_w1)"
  obtain st' where st': "get_status (Some demo_status) (w_cookies demo_w1 (BP 0)) = (Some st', MPI_SUCCESS)"
      "st_source st' = 1" "st_tag st' = 7"
    using e by (simp add: get_status_def mpi_consts)
  have "MPI_Probe (Some (demo_umpi 0)) MPI_ANY_SOURCE MPI_ANY_TAG MPI_COMM_WORLD (Some demo_status) demo_w1 =
      (?w1, Done (Some st', MPI_SUCCESS))"
    using e(1) st'(1) by (simp add: MPI_Probe_def wait_incoming_def Let_def demo_umpi_def mpi_consts)
  note p = this
  have r: "u_rank (demo_umpi 0) = 0" by (simp add: demo_umpi_def)
  have fa: "find_any 0 MPI_ANY_SOURCE MPI_ANY_TAG demo_w1 = Some (BP 0)" using e(1) by (simp add: find_any_def)
  have a: "\<forall>c \<in> set (pr_inbox (w_procs demo_w1 (u_rank (demo_umpi 0)))). 0 \<le> c_src (w_cookies demo_w1 c) \<and>
      0 \<le> c_tag (w_cookies demo_w1 c)"
    unfolding r e(2) using e(3,4) by simp
  have b: "pr_inbox (w_procs demo_w1 (u_rank (demo_umpi 0))) = pr_inbox (w_procs ?w1 (u_rank (demo_umpi 0))) @ []"
    "\<forall>c \<in> set (pr_inbox (w_procs ?w1 (u_rank (demo_umpi 0)))). w_cookies demo_w1 c = w_cookies ?w1 c"
    by simp_all
  obtain c w3 where "find_any 0 MPI_ANY_SOURCE MPI_ANY_TAG demo_w1 = Some c"
    "recv_post 0 2000 1 demo_type 1 7 demo_w1 = Ret (w3, c, True)"
    using probe_then_recv [OF p a b, of 2000 1 demo_type, unfolded r st'(2,3)] by blast
  with fa show ?thesis by auto
qed

section \<open>Waiting for any request\<close>

definition ready :: "world \<Rightarrow> cid option \<Rightarrow> bool" where
  "ready w r \<longleftrightarrow> (case r of None \<Rightarrow> False | Some c \<Rightarrow> c_busy (w_cookies w c) = 0)"

lemma first_ready_nth:
  "j < length rs \<Longrightarrow> ready w (rs ! j) \<Longrightarrow> \<forall>k < j. \<not> ready w (rs ! k) \<Longrightarrow>
   first_ready (w_cookies w) i rs = Some (i + j)"
proof (induction rs arbitrary: i j)
  case (Cons r rs)
  show ?case
  proof (cases j)
    case 0
    with Cons.prems show ?thesis by (auto simp: ready_def split: option.splits)
  next
    case (Suc l)
    have "\<not> ready w r" using Cons.prems(3) Suc by force
    moreover have "\<forall>k < l. \<not> ready w (rs ! k)" using Cons.prems(3) Suc by force
    ultimately show ?thesis
      using Cons.IH [of l "Suc i"] Cons.prems Suc by (auto simp: ready_def split: option.splits)
  qed
qed simp

text \<open>The scan over requests of this rank, from a start with no request before: \<^verbatim>\<open>begin\<close> is the first
  entry that is not null and \<^verbatim>\<open>end\<close> is behind all of them.\<close>

lemma waitany_scan_end:
  assumes "\<forall>c. Some c \<in> set rs \<longrightarrow> own c" "b \<le> i" "e \<le> i"
  shows "\<exists>e'. waitany_scan own i b e rs = Inr (b, e') \<and> e \<le> e' \<and> (\<forall>k < length rs. rs ! k \<noteq> None \<longrightarrow> i + k < e')"
  using assms
proof (induction rs arbitrary: i e)
  case (Cons r rs)
  have IH: "\<exists>e'. waitany_scan own (Suc i) b f rs = Inr (b, e') \<and> f \<le> e' \<and>
      (\<forall>k < length rs. rs ! k \<noteq> None \<longrightarrow> Suc i + k < e')" if "f \<le> Suc i" for f
    by (rule Cons.IH) (use Cons.prems that in auto)
  have nth: "\<forall>k < length (r # rs). (r # rs) ! k \<noteq> None \<longrightarrow> i + k < e'"
    if "\<forall>k < length rs. rs ! k \<noteq> None \<longrightarrow> Suc i + k < e'" "r \<noteq> None \<longrightarrow> i < e'" for e'
    using that by (auto simp: nth_Cons split: nat.splits)
  show ?case
  proof (cases r)
    case None
    obtain e' where "waitany_scan own (Suc i) b e rs = Inr (b, e')" "e \<le> e'"
      "\<forall>k < length rs. rs ! k \<noteq> None \<longrightarrow> Suc i + k < e'" using IH [of e] Cons.prems(3) by auto
    with None nth [of e'] show ?thesis by auto
  next
    case (Some c)
    have "own c" using Cons.prems(1) Some by simp
    obtain e' where "waitany_scan own (Suc i) b (Suc i) rs = Inr (b, e')" "Suc i \<le> e'"
      "\<forall>k < length rs. rs ! k \<noteq> None \<longrightarrow> Suc i + k < e'" using IH [of "Suc i"] by auto
    with Some \<open>own c\<close> nth [of e'] Cons.prems(2,3) show ?thesis by (auto simp: min_def)
  qed
qed simp

lemma waitany_scan_own:
  assumes "\<forall>c. Some c \<in> set rs \<longrightarrow> own c" "b < length rs" "rs ! b \<noteq> None" "\<forall>k < b. rs ! k = None"
    and "i + b \<le> n"
  shows "\<exists>e'. waitany_scan own i n 0 rs = Inr (i + b, e') \<and> (\<forall>k < length rs. rs ! k \<noteq> None \<longrightarrow> i + k < e')"
  using assms
proof (induction b arbitrary: rs i)
  case 0
  then obtain c rs' where rs: "rs = Some c # rs'" by (cases rs) auto
  have "own c" using 0 rs by simp
  obtain e' where "waitany_scan own (Suc i) i (Suc i) rs' = Inr (i, e')" "Suc i \<le> e'"
    "\<forall>k < length rs'. rs' ! k \<noteq> None \<longrightarrow> Suc i + k < e'"
    using waitany_scan_end [of rs' own i "Suc i" "Suc i"] 0 rs by auto
  with rs \<open>own c\<close> 0 show ?case by (auto simp: nth_Cons min_def split: nat.splits)
next
  case (Suc b)
  then obtain rs' where rs: "rs = None # rs'" by (cases rs) force+
  have "\<forall>k < b. rs' ! k = None" using Suc.prems(4) rs by force
  then obtain e' where "waitany_scan own (Suc i) n 0 rs' = Inr (Suc i + b, e')"
    "\<forall>k < length rs'. rs' ! k \<noteq> None \<longrightarrow> Suc i + k < e'"
    using Suc.IH [of rs' "Suc i"] Suc.prems rs by auto
  with rs show ?case by (auto simp: nth_Cons split: nat.splits)
qed

text \<open>C32: Which request \<^verbatim>\<open>MPI_Waitany\<close> completes, for requests of the calling rank: when the first
  completed one is entry \<open>j\<close> and the first entry that is not null is entry \<open>b\<close>, it completes entry
  \<open>j - b\<close>. So it is right when the array begins with a request, and takes a wrong entry (a null one is
  dereferenced) when null requests come first.\<close>
theorem waitany_picks:
  assumes own: "\<forall>c. Some c \<in> set reqs \<longrightarrow> is_owner (u_rank u) c w"
    and b: "reqs ! b \<noteq> None" "\<forall>k < b. reqs ! k = None"
    and j: "j < length reqs" "ready w (reqs ! j)" "\<forall>k < j. \<not> ready w (reqs ! k)"
  shows "\<exists>w'. w_cookies w' = w_cookies w \<and> w_pool w' = w_pool w \<and> w_mem w' = w_mem w \<and>
    MPI_Waitany (Some u) (int (length reqs)) (Some reqs) True st w = waitany_end (j - b) reqs st w'"
proof -
  have bj: "b \<le> j" using b(2) j(2) by (force simp: ready_def not_less [symmetric])
  have rj: "reqs ! j \<noteq> None" using j(2) by (auto simp: ready_def split: option.splits)
  obtain e where sc: "waitany_scan (\<lambda>c. is_owner (u_rank u) c w) 0 (length reqs) 0 reqs = Inr (b, e)"
    "\<forall>k < length reqs. reqs ! k \<noteq> None \<longrightarrow> k < e"
    using waitany_scan_own [OF own _ b, of 0 "length reqs"] bj j(1) by auto
  have bl: "b < length reqs" using bj j(1) by simp
  have e: "j < e" using sc(2) j(1) rj by blast
  let ?rs = "take (e - b) (drop b reqs)"
  have nth: "?rs ! k = reqs ! (b + k)" if "k \<le> j - b" for k using that e bj bl by simp
  have "first_ready (w_cookies w) 0 ?rs = Some (0 + (j - b))"
  proof (rule first_ready_nth)
    show "j - b < length ?rs" using e bj j(1) diff_less_mono by simp
    show "ready w (?rs ! (j - b))" using nth [of "j - b"] bj j(2) by simp
    show "\<forall>k < j - b. \<not> ready w (?rs ! k)" using nth j(3) by simp
  qed
  moreover define w' where "w' = upd_proc (u_rank u) (\<lambda>p. p\<lparr>pr_waiting_for := not_waiting\<rparr>)
        (upd_proc (u_rank u) (\<lambda>p. p\<lparr>pr_waiting_for := waiting_for_any_cookie\<rparr>) w)"
  ultimately have "MPI_Waitany (Some u) (int (length reqs)) (Some reqs) True st w = waitany_end (j - b) reqs st w'"
    using sc(1) e by (simp add: MPI_Waitany_def wait_any_cookie_def Let_def)
  moreover have "w_cookies w' = w_cookies w \<and> w_pool w' = w_pool w \<and> w_mem w' = w_mem w" by (simp add: w'_def)
  ultimately show ?thesis by blast
qed

text \<open>Rank 0 with one completed request of its own behind a null one.\<close>

definition demo_done :: world where
  "demo_done = upd_cookie (BP 0) (\<lambda>k. k\<lparr>c_busy := 0\<rparr>) demo_request"

lemma waitany_picks_witness:
  "MPI_Waitany (Some (demo_umpi 0)) 2 (Some [None, Some (BP 0)]) True None demo_done = Undef \<and>
   (\<exists>w'. MPI_Waitany (Some (demo_umpi 0)) 2 (Some [Some (BP 0), None]) True None demo_done =
     waitany_end 0 [Some (BP 0), None] None w')"
proof -
  have o: "is_owner (u_rank (demo_umpi 0)) (BP 0) demo_done" "ready demo_done (Some (BP 0))" "\<not> ready demo_done None"
    by (simp_all add: is_owner_def demo_umpi_def ready_def demo_done_def demo_request_def mk_cookie_def)
  have "\<exists>w'. MPI_Waitany (Some (demo_umpi 0)) (int (length [None, Some (BP 0)])) (Some [None, Some (BP 0)]) True None
      demo_done = waitany_end (1 - 1) [None, Some (BP 0)] None w'"
    using waitany_picks [of "[None, Some (BP 0)]" "demo_umpi 0" demo_done 1 1 None] o by auto
  moreover have "\<exists>w'. MPI_Waitany (Some (demo_umpi 0)) (int (length [Some (BP 0), None])) (Some [Some (BP 0), None]) True None
      demo_done = waitany_end (0 - 0) [Some (BP 0), None] None w'"
    using waitany_picks [of "[Some (BP 0), None]" "demo_umpi 0" demo_done 0 0 None] o by auto
  ultimately show ?thesis by (auto simp: waitany_end_def)
qed

section \<open>Failed receives\<close>



end
