(* ===== verification/Env_Props.thy ===== *)
theory Env_Props
  imports Env Pool_Props P2P_Props
begin

text \<open>
  Properties of start-up: the segment is large enough for what is put into it, no rank returns from
  \<^verbatim>\<open>MPI_Init\<close> before every mailbox has been constructed, and the run without \<^verbatim>\<open>mpiexec\<close>.
\<close>

section \<open>The length of the segment\<close>

lemma unat_and_not_mask: "k < 64 \<Longrightarrow> unat (w AND NOT (2 ^ k - 1 :: size_t)) = unat w div 2 ^ k * 2 ^ k"
proof -
  assume k: "k < 64"
  have eq: "w AND NOT (2 ^ k - 1 :: size_t) = push_bit k (drop_bit k w)"
    unfolding mask_eq_exp_minus_1 [symmetric] by (rule bit_word_eqI) (auto simp: bit_simps)
  have lt: "unat w div 2 ^ k * 2 ^ k < 18446744073709551616"
    using unat_lt64 [of w] by (rule le_less_trans [rotated]) simp
  have "unat (push_bit k (drop_bit k w)) = take_bit 64 (push_bit k (drop_bit k (unat w)))"
    by (simp only: unsigned_push_bit_eq unsigned_drop_bit_eq)
      (simp add: take_bit_nat_eq_self unat_lt64)
  also have "\<dots> = (unat w div 2 ^ k * 2 ^ k) mod 18446744073709551616"
    by (simp only: push_bit_eq_mult drop_bit_eq_div take_bit_eq_mod) simp
  also have "\<dots> = unat w div 2 ^ k * 2 ^ k" using lt by (rule mod_less)
  finally show ?thesis unfolding eq .
qed

text \<open>The bytes \<^verbatim>\<open>calc_mmap_len\<close> asks for before rounding to pages.\<close>

definition segment_need :: "sizes \<Rightarrow> nat \<Rightarrow> nat" where
  "segment_need szs n = unat (fst szs) + unat (snd szs) * n + 1048576 + 64 * (2 * n) * n"

lemma calc_mmap_len_eq:
  assumes "k < 64" "segment_need szs n + 2 ^ k \<le> 2 ^ 64"
  shows "\<exists>len. calc_mmap_len 0 (2 ^ k) szs (int n) = (2 * int n, len) \<and>
    unat len = (segment_need szs n + (2 ^ k - 1)) div 2 ^ k * 2 ^ k"
proof -
  let ?w = "fst szs + snd szs * size_of_int (int n) +
    (1048576 + (64 * size_of_int (2 * int n)) * size_of_int (int n)) + (2 ^ k - 1 :: size_t)"
  have b: "segment_need szs n + (2 ^ k - 1) < 18446744073709551616" using assms(2) by simp
  have "(2 ^ k - 1 :: size_t) = of_nat (2 ^ k - 1)" by (simp add: of_nat_diff)
  then have "?w = of_nat (segment_need szs n + (2 ^ k - 1))"
    by (simp add: segment_need_def size_of_int_def)
  then have u: "unat ?w = segment_need szs n + (2 ^ k - 1)"
    using b by (simp add: unat_of_nat del: of_nat_add)
  have "calc_mmap_len 0 (2 ^ k) szs (int n) = (2 * int n, ?w AND NOT (2 ^ k - 1))"
    by (simp add: calc_mmap_len_def Let_def UMPI_POOL_RESERVE_LEN_def size_consts add.assoc)
  then show ?thesis using unat_and_not_mask [OF assms(1), of ?w] unfolding u by blast
qed

lemma calc_mmap_len_bounds:
  assumes "k < 64" "segment_need szs n + 2 ^ k \<le> 2 ^ 64"
  shows "\<exists>len. calc_mmap_len 0 (2 ^ k) szs (int n) = (2 * int n, len) \<and>
    2 ^ k dvd unat len \<and> segment_need szs n \<le> unat len \<and> unat len < segment_need szs n + 2 ^ k"
proof -
  obtain len where l: "calc_mmap_len 0 (2 ^ k) szs (int n) = (2 * int n, len)"
    "unat len = (segment_need szs n + (2 ^ k - 1)) div 2 ^ k * 2 ^ k"
    using calc_mmap_len_eq [OF assms] by blast
  define N P :: nat where "N = segment_need szs n" and "P = 2 ^ k"
  have P: "0 < P" by (simp add: P_def)
  have "(N + (P - 1)) div P * P + (N + (P - 1)) mod P = N + (P - 1)" by simp
  moreover have "(N + (P - 1)) mod P < P" using P by simp
  ultimately have "N \<le> (N + (P - 1)) div P * P" "(N + (P - 1)) div P * P < N + P"
    using P by linarith+
  with l show ?thesis by (auto simp: N_def P_def)
qed

section \<open>The segment holds what is put into it\<close>

lemma pool_init_space:
  assumes "unat b + 32 \<le> unat e"
  shows "unat e - unat b - 15 \<le> unat (p_space (pool_init base b e words))"
proof -
  define pad where "pad = (- b) AND (15 :: size_t)"
  have pad: "unat pad < 16" using pad_15(1) [of b] by (simp add: pad_def)
  have al: "unat (pool_align sizeof_pointer) = 16" by (simp add: unat_pool_align sizeof_pointer_def)
  have eb: "unat (e - b) = unat e - unat b" using assms by (simp add: unat_sub_if')
  have "unat (e - b - pad) = unat e - unat b - unat pad" using assms pad eb by (simp add: unat_sub_if')
  moreover have "std_align align_size (pool_align sizeof_pointer) b (e - b) = (b + pad, e - b - pad)"
  proof -
    have "\<not> unat (e - b) < unat (pool_align sizeof_pointer) + unat pad" using assms pad al eb by simp
    then show ?thesis by (simp add: std_align_def align_size_def pad_def Let_def)
  qed
  ultimately show ?thesis using pad by (simp add: pool_init_def)
qed

lemma pool_alloc_room:
  assumes inv: "pool_inv lo hi p L" and len: "unat len + 15 < 2 ^ 64" "max 8 (unat len) + 15 \<le> unat (p_space p)"
  shows "\<exists>q b L'. pool_alloc p len = Ret (q, b) \<and> pool_inv lo hi q L' \<and>
    unat (p_space p) \<le> unat (p_space q) + (max 8 (unat len) + 15)"
proof (cases "len = 0")
  case False
  note bs = block_size_props [OF len(1)]
  obtain q b where q: "pool_alloc p len = Ret (q, b)"
    using pool_alloc_total [OF False, of p] pool_alloc_exit_iff [OF False, of p] bs(4) len(2) by auto
  have "unat (p_space p) \<le> unat (p_space q) + block_size len"
    using False
  proof (cases rule: pool_alloc_cases [of _ p])
    case bump
    then show ?thesis using q by (auto simp: block_size_def unat_sub_if')
  qed (use q in \<open>auto simp: pool_pop_def\<close>)
  with pool_alloc_inv(1) [OF inv False len(1) q] q bs(4) show ?thesis by fastforce
qed (use inv in \<open>auto simp: pool_alloc_def\<close>)

lemma alloc_displs_room:
  assumes "pool_inv lo hi p L" "1 \<le> n" "n \<le> 10000" "k * (4 * n + 23) \<le> unat (p_space p)"
  shows "\<exists>q ds L'. alloc_displs k (int n) p = Ret (q, ds) \<and> length ds = k \<and> pool_inv lo hi q L' \<and>
    unat (p_space p) \<le> unat (p_space q) + k * (4 * n + 23)"
  using assms
proof (induction k arbitrary: p L)
  case (Suc k)
  have u: "unat (size_of_int (int n) * 4) = 4 * n"
    using unat_size_mult [of "int n" 4] Suc.prems(3) by simp
  have "unat (size_of_int (int n) * 4) + 15 < 2 ^ 64 \<and>
      max 8 (unat (size_of_int (int n) * 4)) + 15 \<le> unat (p_space p)"
    using Suc.prems by (simp add: u max_def)
  then obtain q b M where q: "pool_alloc p (size_of_int (int n) * 4) = Ret (q, b)" "pool_inv lo hi q M"
    "unat (p_space p) \<le> unat (p_space q) + (max 8 (4 * n) + 15)"
    using pool_alloc_room [OF Suc.prems(1), of "size_of_int (int n) * 4"] by (auto simp: u)
  have m: "max 8 (4 * n) + 15 \<le> 4 * n + 23" using Suc.prems(2) by simp
  with q(3) Suc.prems(4) have "k * (4 * n + 23) \<le> unat (p_space q)" by simp
  from Suc.IH [OF q(2) Suc.prems(2,3) this] obtain r ds M' where
    "alloc_displs k (int n) q = Ret (r, ds)" "length ds = k" "pool_inv lo hi r M'"
    "unat (p_space q) \<le> unat (p_space r) + k * (4 * n + 23)" by blast
  with q m show ?case by (auto simp: allocate_def)
qed auto

text \<open>C35: For every number of ranks that \<^verbatim>\<open>mpiexec\<close> accepts the segment is large enough: the length is
  a whole number of pages, the construction of the segment never runs out of memory, and afterwards the
  pool still has room for two requests of every rank to every rank.\<close>
theorem segment_capacity:
  assumes "1 \<le> n" "n \<le> 10000" "12 \<le> k" "k \<le> 21" "unat (fst szs) \<le> 2 ^ 20" "unat (snd szs) \<le> 2 ^ 20" "1 \<le> unat (snd szs)"
    and "16 dvd unat base" "0 < unat base" "unat base < 2 ^ 62"
  shows "\<exists>len s. calc_mmap_len 0 (2 ^ k) szs (int n) = (2 * int n, len) \<and> 2 ^ k dvd unat len \<and>
    new_shared szs (int n) base len m = Ret s \<and> node_inv (w_pool (s_world s)) {} \<and>
    unat sizeof_list_node * (2 * n * n) \<le> unat (p_space (w_pool (s_world s)))"
proof -
  define hd pr where "hd = unat (fst szs)" and "pr = unat (snd szs)"
  have nn: "n * n \<le> 100000000" using mult_le_mono [OF assms(2,2)] by simp
  have prn: "pr * n \<le> 1048576 * 10000" using assms(2,6) mult_le_mono [of pr 1048576 n 10000] by (simp add: pr_def)
  have k2: "(2 :: nat) ^ k \<le> 2097152" using assms(4) power_increasing [of k 21 "2 :: nat"] by simp
  have hd: "hd \<le> 1048576" using assms(5) by (simp add: hd_def)
  have need: "segment_need szs n = hd + pr * n + 1048576 + 128 * (n * n)"
    by (simp add: segment_need_def hd_def pr_def)
  then have small: "segment_need szs n < 2 ^ 40" using nn prn hd by simp
  have "segment_need szs n + 2 ^ k \<le> 2 ^ 64" using small k2 by simp
  from calc_mmap_len_bounds [OF _ this] assms(4) obtain len where
    len: "calc_mmap_len 0 (2 ^ k) szs (int n) = (2 * int n, len)" "2 ^ k dvd unat len"
      "segment_need szs n \<le> unat len" "unat len < segment_need szs n + 2 ^ k" by auto
  have len40: "unat len < 2 ^ 41" using len(4) small k2 by simp
  let ?b = "base + fst szs" and ?e = "base + len"
  have ub: "unat ?b = unat base + hd" using assms(10) hd by (simp add: unat_plus_if' hd_def)
  have ue: "unat ?e = unat base + unat len" using assms(10) len40 by (simp add: unat_plus_if')
  have room: "hd + 32 \<le> unat len" using len(3) need by simp
  obtain lo hi where p0: "pool_inv lo hi (pool_init base ?b ?e (\<lambda>_. BP 0)) {}"
    using pool_init_inv [of base ?b ?e "\<lambda>_. BP 0"] assms(8,9) ub ue room len40 by auto
  let ?p0 = "pool_init base ?b ?e (\<lambda>_. BP 0)"
  have sp0: "unat len - hd - 15 \<le> unat (p_space ?p0)"
    using pool_init_space [of ?b ?e] ub ue room by simp
  let ?pl = "size_of_int (int n) * snd szs"
  have "n * pr < 2 ^ 64" using prn by (simp add: mult.commute)
  then have "int (n * pr) < int (2 ^ 64)" by (simp only: of_nat_less_iff)
  then have pl: "unat ?pl = n * pr" using unat_size_mult [of "int n" "snd szs"] by (simp add: pr_def)
  have "max 8 (unat ?pl) + 15 \<le> n * pr + 8 + 15" by (simp add: pl)
  then have c: "unat ?pl + 15 < 2 ^ 64" "max 8 (unat ?pl) + 15 \<le> unat (p_space ?p0)"
    using sp0 len(3) need prn pl by (simp_all add: mult.commute)
  obtain p1 procs L1 where p1: "pool_alloc ?p0 ?pl = Ret (p1, procs)" "pool_inv lo hi p1 L1"
    "unat (p_space ?p0) \<le> unat (p_space p1) + (max 8 (unat ?pl) + 15)"
    using pool_alloc_room [OF p0 c] by blast
  have sp1: "1048576 + 128 * (n * n) - 53 \<le> unat (p_space p1)"
    using p1(3) sp0 len(3) need pl by (simp add: mult.commute max_def split: if_splits)
  have "16 * (4 * n + 23) \<le> unat (p_space p1)" using sp1 assms(2) nn by simp
  from alloc_displs_room [OF p1(2) assms(1,2) this] obtain p2 ds L2 where
    p2: "alloc_displs 16 (int n) p1 = Ret (p2, ds)" "pool_inv lo hi p2 L2"
      "unat (p_space p1) \<le> unat (p_space p2) + 16 * (4 * n + 23)" by blast
  have "64 * (2 * n * n) \<le> unat (p_space p2)" using p2(3) sp1 assms(2) by simp
  moreover have "node_inv p2 {}" using p2(2) unfolding node_inv_def by auto
  ultimately show ?thesis
    using len(1,2) p1(1) p2(1)
    by (auto simp: new_shared_def Let_def allocate_def UMPI_OUTSTANDING_COLLECTIVE_OPERATIONS_def sizeof_list_node_64)
qed

lemma segment_capacity_witness:
  "\<exists>len s. calc_mmap_len 0 4096 (8192, 320) 4 = (8, len) \<and> new_shared (8192, 320) 4 65536 len (\<lambda>_. 0) = Ret s \<and>
     64 * 32 \<le> unat (p_space (w_pool (s_world s)))"
  using segment_capacity [of 4 12 "(8192, 320)" 65536 "\<lambda>_. 0"] by (auto simp: sizeof_list_node_64)

section \<open>Start-up\<close>

datatype phase = Outside | At_init umpi | Live umpi | At_barrier umpi | At_final umpi | Gone

record start =
  st_seg :: segment
  st_phase :: "nat \<Rightarrow> phase"

text \<open>The ranks of one run between \<^verbatim>\<open>MPI_Init\<close> and \<^verbatim>\<open>MPI_Finalize\<close>, in any interleaving.\<close>

inductive life_step :: "start \<Rightarrow> start \<Rightarrow> bool" where
  enter: "int r < br_count (s_barrier (st_seg m)) \<Longrightarrow> st_phase m r = Outside \<Longrightarrow>
    umpi_enter (br_count (s_barrier (st_seg m))) r host pid (st_seg m) = (s, u) \<Longrightarrow>
    life_step m \<lparr>st_seg = s, st_phase = (st_phase m)(r := At_init u)\<rparr>"
| inited: "st_phase m r = At_init u \<Longrightarrow> barrier_released r (s_barrier (st_seg m)) \<Longrightarrow>
    life_step m (m\<lparr>st_phase := (st_phase m)(r := Live u)\<rparr>)"
| barrier: "st_phase m r = Live u \<Longrightarrow> MPI_Barrier (Some u) MPI_COMM_WORLD (st_seg m) = (s, res) \<Longrightarrow>
    life_step m \<lparr>st_seg = s, st_phase = (st_phase m)(r := At_barrier u)\<rparr>"
| through: "st_phase m r = At_barrier u \<Longrightarrow> barrier_released r (s_barrier (st_seg m)) \<Longrightarrow>
    life_step m (m\<lparr>st_phase := (st_phase m)(r := Live u)\<rparr>)"
| finalize: "st_phase m r = Live u \<Longrightarrow> l_umpi l = Some u \<Longrightarrow> MPI_Finalize l (st_seg m) = (s, None) \<Longrightarrow>
    life_step m \<lparr>st_seg = s, st_phase = (st_phase m)(r := At_final u)\<rparr>"
| gone: "st_phase m r = At_final u \<Longrightarrow> barrier_released r (s_barrier (st_seg m)) \<Longrightarrow>
    life_step m (m\<lparr>st_phase := (st_phase m)(r := Gone)\<rparr>)"

definition fresh_start :: "start \<Rightarrow> bool" where
  "fresh_start m \<longleftrightarrow> br_inside (s_barrier (st_seg m)) = [] \<and> s_built (st_seg m) = [] \<and>
     (\<forall>r. st_phase m r = Outside)"

fun waiting :: "phase \<Rightarrow> bool" where
  "waiting (At_init u) = True" | "waiting (At_barrier u) = True" | "waiting (At_final u) = True"
| "waiting _ = False"

fun phase_rank :: "phase \<Rightarrow> nat option" where
  "phase_rank (At_init u) = Some (u_rank u)" | "phase_rank (At_barrier u) = Some (u_rank u)"
| "phase_rank (At_final u) = Some (u_rank u)" | "phase_rank (Live u) = Some (u_rank u)"
| "phase_rank _ = None"

text \<open>\<open>i_early\<close>: while a mailbox is missing, every rank that has entered is held in the barrier.\<close>

definition start_inv :: "start \<Rightarrow> bool" where
  "start_inv m \<longleftrightarrow>
     (let b = s_barrier (st_seg m); n = br_count b
      in distinct (br_inside b) \<and> (\<forall>q \<in> set (br_inside b). int q < n \<and> waiting (st_phase m q)) \<and>
         (\<forall>q. st_phase m q \<noteq> Outside \<longrightarrow> int q < n \<and> q \<in> set (s_built (st_seg m)) \<and>
              phase_rank (st_phase m q) \<in> {None, Some q}) \<and>
         ((\<exists>q. int q < n \<and> st_phase m q = Outside) \<longrightarrow>
            (\<forall>r. st_phase m r \<noteq> Outside \<longrightarrow> r \<in> set (br_inside b))))"

lemma fresh_start_inv: "fresh_start m \<Longrightarrow> start_inv m"
  by (simp add: fresh_start_def start_inv_def Let_def)

text \<open>When the last rank arrives, all ranks below the count are there.\<close>

lemma full_barrier:
  assumes "distinct (r # xs)" "\<forall>q \<in> set (r # xs). int q < n" "int (length xs) + 1 = n" "int q < n"
  shows "q \<in> set (r # xs)"
proof -
  have "set (r # xs) \<subseteq> {..<nat n}" using assms(2) by auto
  moreover have "card (set (r # xs)) = nat n"
    unfolding distinct_card [OF assms(1)] using assms(3) by auto
  ultimately have "set (r # xs) = {..<nat n}" by (intro card_subset_eq) auto
  then show ?thesis using assms(4) by auto
qed

lemma arrive_inv:
  assumes inv: "start_inv m" and r: "int r < br_count (s_barrier (st_seg m))" "\<not> waiting (st_phase m r)"
    and s: "s_barrier s = barrier_arrive r (s_barrier (st_seg m))"
      "set (s_built s) = insert r (set (s_built (st_seg m)))"
    and p: "waiting p" "phase_rank p = Some r"
    and first: "st_phase m r = Outside \<or> (\<forall>q. int q < br_count (s_barrier (st_seg m)) \<longrightarrow> st_phase m q \<noteq> Outside)"
  shows "start_inv \<lparr>st_seg = s, st_phase = (st_phase m)(r := p)\<rparr>"
proof -
  let ?b = "s_barrier (st_seg m)"
  have i: "distinct (br_inside ?b)" "\<forall>q \<in> set (br_inside ?b). int q < br_count ?b \<and> waiting (st_phase m q)"
    "\<forall>q. st_phase m q \<noteq> Outside \<longrightarrow> int q < br_count ?b \<and> q \<in> set (s_built (st_seg m)) \<and>
        phase_rank (st_phase m q) \<in> {None, Some q}"
    "(\<exists>q. int q < br_count ?b \<and> st_phase m q = Outside) \<longrightarrow>
       (\<forall>r. st_phase m r \<noteq> Outside \<longrightarrow> r \<in> set (br_inside ?b))"
    using inv by (auto simp: start_inv_def Let_def)
  have nin: "r \<notin> set (br_inside ?b)" using i(2) r(2) by auto
  have po: "p \<noteq> Outside" using p(1) by auto
  show ?thesis
  proof (cases "int (length (br_inside ?b)) + 1 = br_count ?b")
    case True
    have all: "q \<in> set (r # br_inside ?b)" if "int q < br_count ?b" for q
      using full_barrier [OF _ _ True that, of r] i(1,2) r(1) nin by auto
    have "\<forall>q. int q < br_count ?b \<longrightarrow> q = r \<or> st_phase m q \<noteq> Outside"
      using all i(2) by fastforce
    with i(3) True r(1) s p po show ?thesis
      unfolding start_inv_def Let_def by (auto simp: barrier_arrive_def)
  next
    case False
    with i nin r(1) s p po first show ?thesis
      unfolding start_inv_def Let_def by (auto simp: barrier_arrive_def)
  qed
qed

lemma release_inv:
  assumes inv: "start_inv m" and r: "st_phase m r = p" "waiting p" "barrier_released r (s_barrier (st_seg m))"
    and p': "p' \<noteq> Outside" "phase_rank p' \<in> {None, phase_rank p}"
  shows "start_inv (m\<lparr>st_phase := (st_phase m)(r := p')\<rparr>)"
proof -
  have "st_phase m r \<noteq> Outside" using r(1,2) by auto
  with inv r p' show ?thesis
    unfolding start_inv_def Let_def barrier_released_def by (auto 0 3)
qed

lemma live_ok:
  assumes "start_inv m" "st_phase m r = Live u"
  shows "int r < br_count (s_barrier (st_seg m))" "u_rank u = r" "r \<in> set (s_built (st_seg m))"
    "\<forall>q. int q < br_count (s_barrier (st_seg m)) \<longrightarrow> st_phase m q \<noteq> Outside \<and> q \<in> set (s_built (st_seg m))"
proof -
  have i: "\<forall>q \<in> set (br_inside (s_barrier (st_seg m))). waiting (st_phase m q)"
    "\<And>q. st_phase m q \<noteq> Outside \<Longrightarrow> int q < br_count (s_barrier (st_seg m)) \<and>
       q \<in> set (s_built (st_seg m)) \<and> phase_rank (st_phase m q) \<in> {None, Some q}"
    "(\<exists>q. int q < br_count (s_barrier (st_seg m)) \<and> st_phase m q = Outside) \<longrightarrow>
       (\<forall>r. st_phase m r \<noteq> Outside \<longrightarrow> r \<in> set (br_inside (s_barrier (st_seg m))))"
    using assms(1) unfolding start_inv_def Let_def by auto
  show "int r < br_count (s_barrier (st_seg m))" "u_rank u = r" "r \<in> set (s_built (st_seg m))"
    using i(2) [of r] assms(2) by auto
  have "r \<notin> set (br_inside (s_barrier (st_seg m)))" using i(1) assms(2) by auto
  with i(3) assms(2) have "\<not> (\<exists>q. int q < br_count (s_barrier (st_seg m)) \<and> st_phase m q = Outside)"
    by (metis phase.distinct(3))
  with i(2) show "\<forall>q. int q < br_count (s_barrier (st_seg m)) \<longrightarrow>
      st_phase m q \<noteq> Outside \<and> q \<in> set (s_built (st_seg m))" by blast
qed

lemma life_step_inv: "life_step m m' \<Longrightarrow> start_inv m \<Longrightarrow> start_inv m'"
proof (induction rule: life_step.induct)
  case (enter r m host pid s u)
  then show ?case
    by (intro arrive_inv) (auto simp: umpi_enter_def shared_init_def Let_def)
next
  case (inited m r u)
  then show ?case by (intro release_inv [where p = "At_init u"]) auto
next
  case (barrier m r u s res)
  note a = live_ok [OF barrier(3) barrier(1)]
  show ?case
    using a barrier by (intro arrive_inv) (auto simp: MPI_Barrier_def Let_def insert_absorb)
next
  case (through m r u)
  then show ?case by (intro release_inv [where p = "At_barrier u"]) auto
next
  case (finalize m r u l s)
  note a = live_ok [OF finalize(4) finalize(1)]
  show ?case
    using a finalize by (intro arrive_inv) (auto simp: MPI_Finalize_def insert_absorb)
next
  case (gone m r u)
  then show ?case by (intro release_inv [where p = "At_final u"]) auto
qed

lemma life_steps_inv: "life_step\<^sup>*\<^sup>* m m' \<Longrightarrow> start_inv m \<Longrightarrow> start_inv m'"
  by (induction rule: rtranclp_induct) (auto intro: life_step_inv)

text \<open>C34: No rank returns from \<^verbatim>\<open>MPI_Init\<close> before the mailbox of every rank has been constructed, so a
  send never reaches an unconstructed mailbox; and the rank a live process has been given is its own.\<close>
theorem init_waits_for_all:
  assumes "fresh_start m" "life_step\<^sup>*\<^sup>* m m'" "st_phase m' r = Live u"
  shows "u_rank u = r \<and> {q. int q < br_count (s_barrier (st_seg m'))} \<subseteq> set (s_built (st_seg m'))"
proof -
  have inv: "start_inv m'" by (rule life_steps_inv [OF assms(2) fresh_start_inv [OF assms(1)]])
  show ?thesis using live_ok [OF inv assms(3)] by auto
qed

text \<open>One rank alone goes through \<^verbatim>\<open>MPI_Init\<close>.\<close>

definition demo_segment :: segment where
  "demo_segment = \<lparr>s_world = demo_world, s_barrier = \<lparr>br_count = 1, br_inside = []\<rparr>, s_procs = BP 0,
     s_displs = [], s_built = []\<rparr>"

definition demo_entered :: "segment \<times> umpi" where
  "demo_entered = umpi_enter 1 0 ''host'' 42 demo_segment"

lemma init_waits_for_all_witness:
  "u_rank (snd demo_entered) = 0 \<and> 0 \<in> set (s_built (fst demo_entered))"
proof -
  let ?m = "\<lparr>st_seg = demo_segment, st_phase = \<lambda>_. Outside\<rparr>"
  let ?m1 = "\<lparr>st_seg = fst demo_entered, st_phase = (st_phase ?m)(0 := At_init (snd demo_entered))\<rparr>"
  have d: "br_count (s_barrier (st_seg ?m)) = 1" "s_barrier (fst demo_entered) = \<lparr>br_count = 1, br_inside = []\<rparr>"
    by (simp_all add: demo_segment_def demo_entered_def umpi_enter_def shared_init_def barrier_arrive_def Let_def)
  have "life_step ?m ?m1"
    by (rule life_step.enter [where host = "''host''" and pid = 42])
      (simp_all add: d(1) demo_segment_def demo_entered_def)
  moreover have "life_step ?m1 (?m1\<lparr>st_phase := (st_phase ?m1)(0 := Live (snd demo_entered))\<rparr>)"
    by (rule life_step.inited) (simp_all add: d(2) barrier_released_def)
  ultimately have "life_step\<^sup>*\<^sup>* ?m (?m1\<lparr>st_phase := (st_phase ?m1)(0 := Live (snd demo_entered))\<rparr>)"
    by (meson rtranclp.rtrancl_into_rtrancl rtranclp.rtrancl_refl)
  moreover have "fresh_start ?m" by (simp add: fresh_start_def demo_segment_def)
  ultimately show ?thesis
    using init_waits_for_all [of ?m "?m1\<lparr>st_phase := (st_phase ?m1)(0 := Live (snd demo_entered))\<rparr>" 0
        "snd demo_entered"] d(2) by auto
qed

section \<open>Single calls\<close>

text \<open>Without the environment of \<^verbatim>\<open>mpiexec\<close> the process becomes the only rank of its own segment.\<close>

lemma init_alone:
  assumes "l_umpi l = None" "os_host e = Some host" "os_getenv e ''UMPI_MMAP'' = None" "os_mmap e \<noteq> MAP_FAILED"
    and "calc_mmap_len (l_outstanding l) (os_page e) szs 1 = (out, len)"
    and "new_shared szs 1 (os_mmap e) len (w_mem (s_world s)) = Ret s1"
  shows "\<exists>l' s' u. MPI_Init e szs l s = Ret (l', s', Init_returns MPI_SUCCESS) \<and> l_umpi l' = Some u \<and>
    MPI_Comm_rank (l_umpi l') MPI_COMM_WORLD True = (Some 0, MPI_SUCCESS) \<and>
    MPI_Comm_size (l_umpi l') MPI_COMM_WORLD True = (Some 1, MPI_SUCCESS) \<and> 0 \<in> set (s_built s')"
  using assms by (auto simp: MPI_Init_def umpi_enter_def shared_init_def MPI_Comm_rank_def MPI_Comm_size_def)

lemma comm_calls_fail:
  "snd (MPI_Comm_dup comm newcomm) = MPI_ERR_COMM" "snd (MPI_Comm_free (Some comm)) = MPI_ERR_COMM"
  by (cases comm; simp add: MPI_Comm_dup_def MPI_Comm_free_def)+

end
