(* ===== verification/Pack.thy ===== *)
theory Pack
  imports Env Delivery
begin

text \<open>
  \<^verbatim>\<open>MPI_Pack\<close>, \<^verbatim>\<open>MPI_Unpack\<close> and \<^verbatim>\<open>MPI_Pack_size\<close> of \<^verbatim>\<open>umpi.cc\<close>: copies between a typed buffer
  and a byte buffer with a running position. \<^verbatim>\<open>int len = count * datatype->len()\<close> is computed in
  \<^verbatim>\<open>size_t\<close> and narrowed to \<^verbatim>\<open>int\<close>; a negative \<^verbatim>\<open>len\<close> given to \<^verbatim>\<open>memcpy\<close> is undefined. A position is
  \<open>None\<close> for a null pointer, and the new value is returned.
\<close>

section \<open>The calls\<close>

definition pack_len :: "int \<Rightarrow> iovecs \<Rightarrow> int" where
  "pack_len count ty = to_i32 (uint (size_of_int count * iov_len ty))"

definition MPI_Pack ::
  "umpi option \<Rightarrow> int \<Rightarrow> int \<Rightarrow> iovecs option \<Rightarrow> int \<Rightarrow> int \<Rightarrow> int option \<Rightarrow> comm \<Rightarrow> mem \<Rightarrow>
     (mem \<times> int option \<times> int) outcome" where
  "MPI_Pack up inbuf incount datatype outbuf outsize position comm m =
     (case (up, datatype, position) of
        (Some u, Some ty, Some p) \<Rightarrow>
          if inbuf = 0 \<and> incount \<noteq> 0 \<or> iov_scattered ty \<or> outbuf = 0 \<and> outsize \<noteq> 0 \<or> comm \<noteq> MPI_COMM_WORLD
          then Ret (m, position, MPI_FAIL)
          else let len = pack_len incount ty
            in if outsize < len + p then Ret (m, position, MPI_FAIL)
               else if len < 0 then Undef
               else Ret (memcpy m (Priv (u_rank u), outbuf + p) (Priv (u_rank u), inbuf) (nat len),
                         Some (p + len), MPI_SUCCESS)
      | _ \<Rightarrow> Ret (m, position, MPI_FAIL))"

definition MPI_Unpack ::
  "umpi option \<Rightarrow> int \<Rightarrow> int \<Rightarrow> int option \<Rightarrow> int \<Rightarrow> int \<Rightarrow> iovecs option \<Rightarrow> comm \<Rightarrow> mem \<Rightarrow>
     (mem \<times> int option \<times> int) outcome" where
  "MPI_Unpack up inbuf insize position outbuf outcount datatype comm m =
     (case (up, datatype, position) of
        (Some u, Some ty, Some p) \<Rightarrow>
          if inbuf = 0 \<and> insize \<noteq> 0 \<or> outbuf = 0 \<and> outcount \<noteq> 0 \<or> iov_scattered ty \<or> comm \<noteq> MPI_COMM_WORLD
          then Ret (m, position, MPI_FAIL)
          else let len = pack_len outcount ty
            in if insize < len + p then Ret (m, position, MPI_FAIL)
               else if len < 0 then Undef
               else Ret (memcpy m (Priv (u_rank u), outbuf) (Priv (u_rank u), inbuf + p) (nat len),
                         Some (p + len), MPI_SUCCESS)
      | _ \<Rightarrow> Ret (m, position, MPI_FAIL))"

definition MPI_Pack_size :: "umpi option \<Rightarrow> int \<Rightarrow> iovecs option \<Rightarrow> comm \<Rightarrow> bool \<Rightarrow> int option \<times> int" where
  "MPI_Pack_size up incount datatype comm sz =
     (case (up, datatype) of
        (Some u, Some ty) \<Rightarrow>
          if iov_scattered ty \<or> comm \<noteq> MPI_COMM_WORLD \<or> \<not> sz then (None, MPI_FAIL)
          else (Some (pack_len incount ty), MPI_SUCCESS)
      | _ \<Rightarrow> (None, MPI_FAIL))"

section \<open>Sequences of calls\<close>

text \<open>Items packed one after the other: buffer, count and type of each.\<close>

type_synonym item = "int \<times> int \<times> iovecs"

fun pack_all :: "umpi \<Rightarrow> item list \<Rightarrow> int \<Rightarrow> int \<Rightarrow> int \<Rightarrow> mem \<Rightarrow> (mem \<times> int) outcome" where
  "pack_all u [] outbuf outsize p m = Ret (m, p)"
| "pack_all u ((buf, count, ty) # is) outbuf outsize p m =
     and_then (MPI_Pack (Some u) buf count (Some ty) outbuf outsize (Some p) MPI_COMM_WORLD m)
       (\<lambda>(m1, p1, err). case p1 of
          Some q \<Rightarrow> if err = MPI_SUCCESS then pack_all u is outbuf outsize q m1 else Exit err
        | None \<Rightarrow> Exit err)"

fun unpack_all :: "umpi \<Rightarrow> item list \<Rightarrow> int \<Rightarrow> int \<Rightarrow> int \<Rightarrow> mem \<Rightarrow> (mem \<times> int) outcome" where
  "unpack_all u [] inbuf insize p m = Ret (m, p)"
| "unpack_all u ((buf, count, ty) # is) inbuf insize p m =
     and_then (MPI_Unpack (Some u) inbuf insize (Some p) buf count (Some ty) MPI_COMM_WORLD m)
       (\<lambda>(m1, p1, err). case p1 of
          Some q \<Rightarrow> if err = MPI_SUCCESS then unpack_all u is inbuf insize q m1 else Exit err
        | None \<Rightarrow> Exit err)"

definition item_len :: "item \<Rightarrow> nat" where
  "item_len i = (case i of (buf, count, ty) \<Rightarrow> nat count * unat (iov_len ty))"

definition item_locs :: "nat \<Rightarrow> item \<Rightarrow> loc list" where
  "item_locs r i = (case i of (buf, count, ty) \<Rightarrow> loc_range (Priv r, buf) (item_len i))"

definition item_ok :: "item \<Rightarrow> bool" where
  "item_ok i \<longleftrightarrow> (case i of (buf, count, ty) \<Rightarrow>
     buf \<noteq> 0 \<and> 0 \<le> count \<and> \<not> iov_scattered ty \<and> count * int (unat (iov_len ty)) < 2 ^ 31)"

lemma pack_len_item: "item_ok (buf, count, ty) \<Longrightarrow> pack_len count ty = int (item_len (buf, count, ty))"
proof -
  assume ok: "item_ok (buf, count, ty)"
  then have c: "0 \<le> count" "count * int (unat (iov_len ty)) < 2 ^ 31" by (auto simp: item_ok_def)
  have "uint (size_of_int count * iov_len ty) = count * int (unat (iov_len ty))"
    by (rule uint_size_mult [OF c(1)]) (use c(2) in simp)
  moreover have "to_i32 (count * int (unat (iov_len ty))) = count * int (unat (iov_len ty))"
    using c by (intro to_i32_id) (simp_all add: order_trans [OF _ mult_nonneg_nonneg])
  ultimately show ?thesis using c(1) by (simp add: pack_len_def item_len_def)
qed

lemma pack_step:
  assumes "item_ok i" "i = (buf, count, ty)" "out \<noteq> 0"
  shows "MPI_Pack (Some u) buf count (Some ty) out sz (Some p) MPI_COMM_WORLD m =
    (if sz < int (item_len i) + p then Ret (m, Some p, MPI_FAIL)
     else Ret (memcpy m (Priv (u_rank u), out + p) (Priv (u_rank u), buf) (item_len i), Some (p + int (item_len i)), MPI_SUCCESS))"
    "MPI_Unpack (Some u) out sz (Some p) buf count (Some ty) MPI_COMM_WORLD m =
    (if sz < int (item_len i) + p then Ret (m, Some p, MPI_FAIL)
     else Ret (memcpy m (Priv (u_rank u), buf) (Priv (u_rank u), out + p) (item_len i), Some (p + int (item_len i)), MPI_SUCCESS))"
  using assms pack_len_item [of buf count ty]
  by (simp_all add: MPI_Pack_def MPI_Unpack_def Let_def item_ok_def)

text \<open>The packed bytes: the items one after the other.\<close>

definition items_len :: "item list \<Rightarrow> nat" where
  "items_len is = sum_list (map item_len is)"

definition items_data :: "nat \<Rightarrow> mem \<Rightarrow> item list \<Rightarrow> byte list" where
  "items_data r m is = concat (map (\<lambda>i. map m (item_locs r i)) is)"

lemma items_simps [simp]:
  "items_len [] = 0" "items_len (i # is) = item_len i + items_len is"
  "items_data r m [] = []" "items_data r m (i # is) = map m (item_locs r i) @ items_data r m is"
  by (simp_all add: items_len_def items_data_def)

lemma item_locs_eq: "item_locs r (buf, count, ty) = loc_range (Priv r, buf) (item_len (buf, count, ty))"
  by (simp add: item_locs_def)

lemma items_data_cong:
  "(\<And>i l. i \<in> set is \<Longrightarrow> l \<in> set (item_locs r i) \<Longrightarrow> m l = m' l) \<Longrightarrow> items_data r m is = items_data r m' is"
  unfolding items_data_def by (intro arg_cong [where f = concat] map_cong refl) blast

text \<open>Packing items that lie outside the pack buffer puts their bytes there, in order.\<close>

lemma pack_all_data:
  assumes "\<forall>i \<in> set is. item_ok i" "out \<noteq> 0" "0 \<le> p" "p + int (items_len is) \<le> sz"
    and "\<forall>i \<in> set is. set (item_locs (u_rank u) i) \<inter> set (loc_range (Priv (u_rank u), out) (nat sz)) = {}"
  shows "\<exists>m'. pack_all u is out sz p m = Ret (m', p + int (items_len is)) \<and>
    map m' (loc_range (Priv (u_rank u), out + p) (items_len is)) = items_data (u_rank u) m is \<and>
    (\<forall>l. l \<notin> set (loc_range (Priv (u_rank u), out + p) (items_len is)) \<longrightarrow> m' l = m l)"
  using assms
proof (induction "is" arbitrary: p m)
  case (Cons i "is")
  obtain buf count ty where i: "i = (buf, count, ty)" by (cases i)
  let ?r = "Priv (u_rank u)" and ?n = "item_len i" and ?k = "items_len is"
  let ?m1 = "memcpy m (?r, out + p) (?r, buf) ?n"
  have ok: "item_ok i" using Cons.prems(1) by simp
  have st: "MPI_Pack (Some u) buf count (Some ty) out sz (Some p) MPI_COMM_WORLD m =
      Ret (?m1, Some (p + int ?n), MPI_SUCCESS)"
    using pack_step(1) [OF ok i Cons.prems(2), of u sz p m] Cons.prems(4) by simp
  obtain m' where m': "pack_all u is out sz (p + int ?n) ?m1 = Ret (m', p + int ?n + int ?k)"
    "map m' (loc_range (?r, out + (p + int ?n)) ?k) = items_data (u_rank u) ?m1 is"
    "\<forall>l. l \<notin> set (loc_range (?r, out + (p + int ?n)) ?k) \<longrightarrow> m' l = ?m1 l"
    using Cons.IH [of "p + int ?n" ?m1] Cons.prems by auto
  have sp: "loc_range (?r, out + p) (?n + ?k) = loc_range (?r, out + p) ?n @ loc_range (?r, out + (p + int ?n)) ?k"
    by (simp add: loc_range_append add.assoc)
  have inside: "set (loc_range (?r, out + p) ?n) \<subseteq> set (loc_range (?r, out) (nat sz))"
    using Cons.prems(3,4) by (auto simp: loc_simps set_loc_range)
  have "items_data (u_rank u) ?m1 is = items_data (u_rank u) m is"
    using Cons.prems(5) inside by (intro items_data_cong memcpy_other) auto
  moreover have "map m' (loc_range (?r, out + p) ?n) = map ?m1 (loc_range (?r, out + p) ?n)"
    using m'(3) by (intro map_cong refl) (auto simp: loc_simps set_loc_range)
  moreover have "map ?m1 (loc_range (?r, out + p) ?n) = map m (item_locs (u_rank u) i)"
    by (simp add: memcpy_read i item_locs_eq)
  ultimately have "map m' (loc_range (?r, out + p) (?n + ?k)) = items_data (u_rank u) m (i # is)"
    using m'(2) by (simp add: sp)
  moreover have "m' l = m l" if "l \<notin> set (loc_range (?r, out + p) (?n + ?k))" for l
    using that m'(3) memcpy_other [of l "(?r, out + p)" ?n m "(?r, buf)"] by (cases l) (simp add: sp)
  moreover have "pack_all u (i # is) out sz p m = Ret (m', p + int (items_len (i # is)))"
    using st m'(1) by (simp add: i mpi_consts add.assoc)
  ultimately show ?case by auto
qed simp

text \<open>Unpacking into buffers that neither overlap each other nor the pack buffer.\<close>

lemma unpack_all_data:
  assumes "\<forall>i \<in> set is. item_ok i" "inb \<noteq> 0" "0 \<le> p" "p + int (items_len is) \<le> sz"
    and "\<forall>i \<in> set is. set (item_locs (u_rank u) i) \<inter> set (loc_range (Priv (u_rank u), inb) (nat sz)) = {}"
    and "distinct (concat (map (item_locs (u_rank u)) is))"
  shows "\<exists>m'. unpack_all u is inb sz p m = Ret (m', p + int (items_len is)) \<and>
    items_data (u_rank u) m' is = map m (loc_range (Priv (u_rank u), inb + p) (items_len is)) \<and>
    (\<forall>l. l \<notin> set (concat (map (item_locs (u_rank u)) is)) \<longrightarrow> m' l = m l)"
  using assms
proof (induction "is" arbitrary: p m)
  case (Cons i "is")
  obtain buf count ty where i: "i = (buf, count, ty)" by (cases i)
  let ?r = "Priv (u_rank u)" and ?n = "item_len i" and ?k = "items_len is"
  let ?m1 = "memcpy m (?r, buf) (?r, inb + p) ?n"
  have ok: "item_ok i" using Cons.prems(1) by simp
  have st: "MPI_Unpack (Some u) inb sz (Some p) buf count (Some ty) MPI_COMM_WORLD m =
      Ret (?m1, Some (p + int ?n), MPI_SUCCESS)"
    using pack_step(2) [OF ok i Cons.prems(2), of u sz p m] Cons.prems(4) by simp
  obtain m' where m': "unpack_all u is inb sz (p + int ?n) ?m1 = Ret (m', p + int ?n + int ?k)"
    "items_data (u_rank u) m' is = map ?m1 (loc_range (?r, inb + (p + int ?n)) ?k)"
    "\<forall>l. l \<notin> set (concat (map (item_locs (u_rank u)) is)) \<longrightarrow> m' l = ?m1 l"
    using Cons.IH [of "p + int ?n" ?m1] Cons.prems by auto
  have sp: "loc_range (?r, inb + p) (?n + ?k) = loc_range (?r, inb + p) ?n @ loc_range (?r, inb + (p + int ?n)) ?k"
    by (simp add: loc_range_append add.assoc)
  have inside: "set (loc_range (?r, inb + (p + int ?n)) ?k) \<subseteq> set (loc_range (?r, inb) (nat sz))"
    using Cons.prems(3,4) by (auto simp: loc_simps set_loc_range)
  have il: "item_locs (u_rank u) i = loc_range (?r, buf) ?n" by (simp add: i item_locs_eq)
  have "map ?m1 (loc_range (?r, inb + (p + int ?n)) ?k) = map m (loc_range (?r, inb + (p + int ?n)) ?k)"
    using Cons.prems(5) inside il by (intro map_cong refl memcpy_other) auto
  moreover have "map m' (item_locs (u_rank u) i) = map ?m1 (item_locs (u_rank u) i)"
    using m'(3) Cons.prems(6) by (intro map_cong refl) auto
  moreover have "map ?m1 (item_locs (u_rank u) i) = map m (loc_range (?r, inb + p) ?n)"
    unfolding il by (rule memcpy_read)
  ultimately have "items_data (u_rank u) m' (i # is) = map m (loc_range (?r, inb + p) (?n + ?k))"
    using m'(2) by (simp add: sp)
  moreover have "m' l = m l" if "l \<notin> set (concat (map (item_locs (u_rank u)) (i # is)))" for l
    using that m'(3) memcpy_other [of l "(?r, buf)" ?n m "(?r, inb + p)"] il by (cases l) simp
  moreover have "unpack_all u (i # is) inb sz p m = Ret (m', p + int (items_len (i # is)))"
    using st m'(1) by (simp add: i mpi_consts add.assoc)
  ultimately show ?case by auto
qed simp

text \<open>C39: Packing and unpacking are inverse: items packed one after the other into a buffer that has room
  for all of them and unpacked with the same counts and types arrive unchanged in the new buffers, the
  position ends where packing ended, and packing writes nothing outside the pack buffer.\<close>
theorem pack_unpack:
  assumes "\<forall>i \<in> set is. item_ok i" "out \<noteq> 0" "0 \<le> p" "p + int (items_len is) \<le> sz"
    and "\<forall>i \<in> set is. set (item_locs (u_rank u) i) \<inter> set (loc_range (Priv (u_rank u), out) (nat sz)) = {}"
    and "\<forall>i \<in> set js. item_ok i" "map item_len js = map item_len is"
    and "\<forall>i \<in> set js. set (item_locs (u_rank u) i) \<inter> set (loc_range (Priv (u_rank u), out) (nat sz)) = {}"
    and "distinct (concat (map (item_locs (u_rank u)) js))"
  shows "\<exists>m1 m2 q. pack_all u is out sz p m = Ret (m1, q) \<and> unpack_all u js out sz p m1 = Ret (m2, q) \<and>
    items_data (u_rank u) m2 js = items_data (u_rank u) m is \<and>
    (\<forall>l. l \<notin> set (loc_range (Priv (u_rank u), out) (nat sz)) \<longrightarrow> m1 l = m l)"
proof -
  have len: "items_len js = items_len is" using assms(7) by (simp add: items_len_def)
  let ?r = "Priv (u_rank u)"
  obtain m1 where m1: "pack_all u is out sz p m = Ret (m1, p + int (items_len is))"
    "map m1 (loc_range (?r, out + p) (items_len is)) = items_data (u_rank u) m is"
    "\<forall>l. l \<notin> set (loc_range (?r, out + p) (items_len is)) \<longrightarrow> m1 l = m l"
    using pack_all_data [OF assms(1-5), of m] by blast
  obtain m2 where m2: "unpack_all u js out sz p m1 = Ret (m2, p + int (items_len is))"
    "items_data (u_rank u) m2 js = map m1 (loc_range (?r, out + p) (items_len is))"
    using unpack_all_data [OF assms(6,2,3) _ assms(8,9), of m1] assms(4) unfolding len by blast
  have "set (loc_range (?r, out + p) (items_len is)) \<subseteq> set (loc_range (?r, out) (nat sz))"
    using assms(3,4) by (auto simp: loc_simps set_loc_range)
  with m1 m2 show ?thesis by auto
qed

text \<open>Three bytes and one 4-byte integer.\<close>

lemma pack_unpack_witness:
  "\<exists>m1 m2 q. pack_all \<lparr>u_rank = 0, u_size = 2, u_name = [], u_name_len = 0, u_ticket = 0\<rparr>
      [(100, 3, [iov_entry 3 1]), (200, 1, [iov_entry 8 4])] 300 16 0 (\<lambda>l. of_int (snd l)) = Ret (m1, q) \<and>
    unpack_all \<lparr>u_rank = 0, u_size = 2, u_name = [], u_name_len = 0, u_ticket = 0\<rparr>
      [(400, 3, [iov_entry 3 1]), (500, 1, [iov_entry 8 4])] 300 16 0 m1 = Ret (m2, q) \<and>
    items_data 0 m2 [(400, 3, [iov_entry 3 1]), (500, 1, [iov_entry 8 4])] =
      items_data 0 (\<lambda>l. of_int (snd l)) [(100, 3, [iov_entry 3 1]), (200, 1, [iov_entry 8 4])]"
proof -
  let ?u = "\<lparr>u_rank = 0, u_size = 2, u_name = [], u_name_len = 0, u_ticket = 0\<rparr>"
  let ?is = "[(100, 3, [iov_entry 3 1]), (200, 1, [iov_entry 8 4])]"
  let ?js = "[(400, 3, [iov_entry 3 1]), (500, 1, [iov_entry 8 4])]"
  have ok: "\<forall>i \<in> set ?is. item_ok i" "\<forall>i \<in> set ?js. item_ok i" "map item_len ?js = map item_len ?is"
    "items_len ?is = 7"
    by (simp_all add: item_ok_def item_len_def iov_defs)
  have sep: "\<forall>i \<in> set ?is. set (item_locs (u_rank ?u) i) \<inter> set (loc_range (Priv (u_rank ?u), 300) (nat 16)) = {}"
    "\<forall>i \<in> set ?js. set (item_locs (u_rank ?u) i) \<inter> set (loc_range (Priv (u_rank ?u), 300) (nat 16)) = {}"
    "distinct (concat (map (item_locs (u_rank ?u)) ?js))"
    by (auto simp: item_locs_def item_len_def iov_defs set_loc_range)
  from pack_unpack [OF ok(1) _ _ _ sep(1) ok(2,3) sep(2,3), of 0 "\<lambda>l. of_int (snd l)"] ok(4)
  show ?thesis by auto
qed

end
