(* ===== verification/Reduce_Ops.thy ===== *)
theory Reduce_Ops
  imports Env Iovec "HOL-Library.Multiset"
begin

text \<open>
  The reduction operations of \<^verbatim>\<open>funcs.hh\<close>: \<^verbatim>\<open>umpi_op\<close>, the predefined \<^verbatim>\<open>MPI_MAX\<close>, \<^verbatim>\<open>MPI_MIN\<close>,
  \<^verbatim>\<open>MPI_SUM\<close> and \<^verbatim>\<open>MPI_PROD\<close> on the integer types of x86-64 (little endian, two's complement), and
  \<^verbatim>\<open>MPI_Op_create\<close> and \<^verbatim>\<open>MPI_Op_free\<close>. Floating-point arithmetic is a parameter on the
  representations, as is a user's function.

  Operands narrower than \<^verbatim>\<open>int\<close> are promoted: their sum or product is computed in \<^verbatim>\<open>int\<close> and
  narrowed. Signed overflow is undefined (\<open>None\<close>), unsigned arithmetic wraps.
\<close>

section \<open>Integers in memory\<close>

fun le_val :: "byte list \<Rightarrow> nat" where
  "le_val [] = 0"
| "le_val (b # bs) = unat b + 256 * le_val bs"

fun le_bytes :: "nat \<Rightarrow> nat \<Rightarrow> byte list" where
  "le_bytes 0 v = []"
| "le_bytes (Suc n) v = of_nat (v mod 256) # le_bytes n (v div 256)"

text \<open>A C integer type: its size in bytes and whether it is signed.\<close>

type_synonym int_type = "nat \<times> bool"

definition type_mod :: "int_type \<Rightarrow> int" where
  "type_mod t = 2 ^ (8 * fst t)"

definition wrap :: "int_type \<Rightarrow> int \<Rightarrow> int" where
  "wrap t v = (if snd t then (v + type_mod t div 2) mod type_mod t - type_mod t div 2 else v mod type_mod t)"

definition in_type :: "int_type \<Rightarrow> int \<Rightarrow> bool" where
  "in_type t v \<longleftrightarrow> (if snd t then - (type_mod t div 2) \<le> v \<and> v < type_mod t div 2 else 0 \<le> v \<and> v < type_mod t)"

definition decode_int :: "int_type \<Rightarrow> byte list \<Rightarrow> int" where
  "decode_int t bs = wrap t (int (le_val bs))"

definition encode_int :: "int_type \<Rightarrow> int \<Rightarrow> byte list" where
  "encode_int t v = le_bytes (fst t) (nat (v mod type_mod t))"

section \<open>The operations\<close>

datatype op_kind = Op_max | Op_min | Op_sum | Op_prod

text \<open>The type in which \<^verbatim>\<open>a + b\<close> and \<^verbatim>\<open>a * b\<close> are computed.\<close>

definition arith_type :: "int_type \<Rightarrow> int_type" where
  "arith_type t = (if fst t < 4 then (4, True) else t)"

definition int_op :: "op_kind \<Rightarrow> int_type \<Rightarrow> int \<Rightarrow> int \<Rightarrow> int option" where
  "int_op k t a b =
     (case k of
        Op_max \<Rightarrow> Some (if a < b then b else a)
      | Op_min \<Rightarrow> Some (if b < a then b else a)
      | _ \<Rightarrow>
          let v = (if k = Op_sum then a + b else a * b); at = arith_type t
          in if snd at \<and> \<not> in_type at v then None else Some (wrap t (wrap at v)))"

text \<open>The types \<^verbatim>\<open>function\<close> switches on.\<close>

fun int_type_of :: "umpi_id \<Rightarrow> int_type option" where
  "int_type_of UMPI_ID_CHAR = Some (1, True)"
| "int_type_of UMPI_ID_UNSIGNED_CHAR = Some (1, False)"
| "int_type_of UMPI_ID_SHORT = Some (2, True)"
| "int_type_of UMPI_ID_UNSIGNED_SHORT = Some (2, False)"
| "int_type_of UMPI_ID_INT = Some (4, True)"
| "int_type_of UMPI_ID_UNSIGNED = Some (4, False)"
| "int_type_of UMPI_ID_LONG = Some (8, True)"
| "int_type_of UMPI_ID_UNSIGNED_LONG = Some (8, False)"
| "int_type_of _ = None"

fun float_size_of :: "umpi_id \<Rightarrow> nat option" where
  "float_size_of UMPI_ID_FLOAT = Some 4"
| "float_size_of UMPI_ID_DOUBLE = Some 8"
| "float_size_of UMPI_ID_LONG_DOUBLE = Some 16"
| "float_size_of _ = None"

definition all_ids :: "umpi_id list" where
  "all_ids = [UMPI_ID_CONTIGUOUS, UMPI_ID_SCATTERED, UMPI_ID_PACKED, UMPI_ID_BYTE, UMPI_ID_CHAR,
     UMPI_ID_UNSIGNED_CHAR, UMPI_ID_SHORT, UMPI_ID_UNSIGNED_SHORT, UMPI_ID_INT, UMPI_ID_UNSIGNED,
     UMPI_ID_LONG, UMPI_ID_UNSIGNED_LONG, UMPI_ID_FLOAT, UMPI_ID_DOUBLE, UMPI_ID_LONG_DOUBLE]"

text \<open>Arithmetic of the floating-point types on representations.\<close>

type_synonym float_ops = "op_kind \<Rightarrow> umpi_id \<Rightarrow> byte list \<Rightarrow> byte list \<Rightarrow> byte list"

definition elem_op :: "float_ops \<Rightarrow> op_kind \<Rightarrow> umpi_id \<Rightarrow> byte list \<Rightarrow> byte list \<Rightarrow> byte list option" where
  "elem_op fop k i a b =
     (case int_type_of i of
        Some t \<Rightarrow> map_option (encode_int t) (int_op k t (decode_int t a) (decode_int t b))
      | None \<Rightarrow> Some (fop k i a b))"

definition elem_size :: "umpi_id \<Rightarrow> nat option" where
  "elem_size i = (case int_type_of i of Some t \<Rightarrow> Some (fst t) | None \<Rightarrow> float_size_of i)"

text \<open>\<^verbatim>\<open>apply\<close>: element \<open>i\<close> of both vectors, \<open>n\<close> more to go.\<close>

definition elem_loc :: "loc \<Rightarrow> nat \<Rightarrow> nat \<Rightarrow> loc" where
  "elem_loc l sz i = (fst l, snd l + int (sz * i))"

definition load :: "mem \<Rightarrow> loc \<Rightarrow> nat \<Rightarrow> byte list" where
  "load m l n = map m (loc_range l n)"

fun apply_loop ::
  "(byte list \<Rightarrow> byte list \<Rightarrow> byte list option) \<Rightarrow> nat \<Rightarrow> loc \<Rightarrow> loc \<Rightarrow> nat \<Rightarrow> nat \<Rightarrow> mem \<Rightarrow> mem outcome" where
  "apply_loop f sz invec inoutvec i 0 m = Ret m"
| "apply_loop f sz invec inoutvec i (Suc n) m =
     (case f (load m (elem_loc invec sz i) sz) (load m (elem_loc inoutvec sz i) sz) of
        None \<Rightarrow> Undef
      | Some bs \<Rightarrow>
          apply_loop f sz invec inoutvec (Suc i) n (write_locs m (loc_range (elem_loc inoutvec sz i) sz) bs))"

text \<open>\<^verbatim>\<open>umpi_generic_op::function\<close>. An id outside the enumeration falls through the switch.\<close>

definition generic_function :: "float_ops \<Rightarrow> op_kind \<Rightarrow> loc \<Rightarrow> loc \<Rightarrow> int \<Rightarrow> iovecs \<Rightarrow> mem \<Rightarrow> mem outcome" where
  "generic_function fop k invec inoutvec len ty m =
     (case find (\<lambda>i. id_val i = iov_id ty) all_ids of
        None \<Rightarrow> Ret m
      | Some i \<Rightarrow>
          (case elem_size i of
             None \<Rightarrow> Exit 1
           | Some sz \<Rightarrow> apply_loop (elem_op fop k i) sz invec inoutvec 0 (nat len) m))"

text \<open>An \<^verbatim>\<open>MPI_Op\<close>: a predefined one or a user's function of the arguments and the memory.\<close>

datatype op = Generic op_kind | User "loc \<Rightarrow> loc \<Rightarrow> int \<Rightarrow> iovecs \<Rightarrow> mem \<Rightarrow> mem outcome"

fun op_call :: "float_ops \<Rightarrow> op \<Rightarrow> loc \<Rightarrow> loc \<Rightarrow> int \<Rightarrow> iovecs \<Rightarrow> mem \<Rightarrow> mem outcome" where
  "op_call fop (Generic k) invec inoutvec len ty m = generic_function fop k invec inoutvec len ty m"
| "op_call fop (User f) invec inoutvec len ty m = f invec inoutvec len ty m"

definition MPI_Op_create ::
  "umpi option \<Rightarrow> (loc \<Rightarrow> loc \<Rightarrow> int \<Rightarrow> iovecs \<Rightarrow> mem \<Rightarrow> mem outcome) option \<Rightarrow> int \<Rightarrow> op option \<times> int" where
  "MPI_Op_create up user_fn commute =
     (case (up, user_fn) of
        (Some u, Some f) \<Rightarrow> if commute = 0 then (None, MPI_FAIL) else (Some (User f), MPI_SUCCESS)
      | _ \<Rightarrow> (None, MPI_FAIL))"

text \<open>\<^verbatim>\<open>delete *op\<close>: deleting a predefined operation, which \<^verbatim>\<open>new\<close> has not returned, is undefined.\<close>

definition MPI_Op_free :: "op option \<Rightarrow> (op option \<times> int) outcome" where
  "MPI_Op_free p = (case p of Some (Generic k) \<Rightarrow> Undef | _ \<Rightarrow> Ret (None, MPI_SUCCESS))"

section \<open>Integers in memory: round trips\<close>

lemma length_le_bytes [simp]: "length (le_bytes n v) = n"
  by (induction n arbitrary: v) auto

lemma le_val_bytes: "le_val (le_bytes n v) = v mod 256 ^ n"
proof (induction n arbitrary: v)
  case (Suc n)
  have "unat (of_nat (v mod 256) :: byte) = v mod 256" by (simp add: unat_of_nat)
  then show ?case using Suc by (simp add: mod_mult2_eq)
qed simp

lemma type_mod_pos: "0 < type_mod t"
  by (simp add: type_mod_def)

lemma type_mod_even: "0 < fst t \<Longrightarrow> type_mod t = 2 * (type_mod t div 2)"
  by (cases "fst t") (simp_all add: type_mod_def)

lemma wrap_mod: "wrap t v mod type_mod t = v mod type_mod t"
proof (cases "snd t")
  case True
  have "((v + h) mod M - h) mod M = (v + h - h) mod M" for h M :: int by (rule mod_diff_left_eq)
  with True show ?thesis by (simp add: wrap_def)
qed (simp add: wrap_def)

lemma wrap_cong: "a mod type_mod t = b mod type_mod t \<Longrightarrow> wrap t a = wrap t b"
  unfolding wrap_def by (metis mod_add_left_eq)

lemma wrap_wrap: "wrap t (wrap t v) = wrap t v"
  by (rule wrap_cong) (rule wrap_mod)

lemma in_type_wrap: "0 < fst t \<Longrightarrow> in_type t (wrap t v)"
proof -
  assume t: "0 < fst t"
  let ?M = "type_mod t"
  have "0 \<le> (v + ?M div 2) mod ?M" "(v + ?M div 2) mod ?M < ?M" "0 \<le> v mod ?M" "v mod ?M < ?M"
    using type_mod_pos [of t] by simp_all
  then show ?thesis using type_mod_even [OF t] by (auto simp: in_type_def wrap_def)
qed

lemma wrap_id: "0 < fst t \<Longrightarrow> in_type t v \<Longrightarrow> wrap t v = v"
  using type_mod_even [of t] by (auto simp: in_type_def wrap_def)

lemma decode_encode: "0 < fst t \<Longrightarrow> in_type t v \<Longrightarrow> decode_int t (encode_int t v) = v"
proof -
  assume t: "0 < fst t" "in_type t v"
  have M: "(256 :: nat) ^ fst t = nat (type_mod t)"
    by (simp add: type_mod_def nat_power_eq power_mult)
  have "int (le_val (encode_int t v)) = v mod type_mod t"
    using type_mod_pos [of t] by (simp add: encode_int_def le_val_bytes M nat_mod_as_int)
  then show ?thesis
    using wrap_cong [of "v mod type_mod t" t v] wrap_id [OF t] by (simp add: decode_int_def)
qed

end
