(* ===== verification/Collect.thy ===== *)
theory Collect
  imports Env Delivery Reduce_Ops
begin

text \<open>
  Collective operations (\<^verbatim>\<open>class collect\<close> and the \<^verbatim>\<open>MPI_I*\<close> calls of \<^verbatim>\<open>umpi.cc\<close>): the ring of
  slots in the shared segment and one function per member. The first ranks to arrive leave a
  request in the box of the slot; later ranks, or the last one, transfer the data.

  A member function is one step here: it runs under the mutex of the slot (\<open>k_locked\<close>) up to the
  unlock, and what it does after the unlock concerns only requests it has taken out of the box. Where
  the code returns without unlocking, \<open>k_locked\<close> stays set and the next call on the slot gives
  \<open>Block\<close>. Boxes hold requests as in \<open>Requests\<close>; the two in-place buffers of a slot are
  locations of the segment.
\<close>

section \<open>State\<close>

record collect =
  k_locked :: bool
  k_sendbuf :: int
  k_recvbuf :: int
  k_displs :: "int list"
  k_box :: "cid list"
  k_iovec :: iovecs
  k_count :: int
  k_ticket :: "32 word"
  k_joined :: int

record cworld =
  cw_world :: world
  cw_slots :: "nat \<Rightarrow> collect"

text \<open>The kernel calls, the address of \<^verbatim>\<open>umpi_in_place\<close> and floating-point arithmetic.\<close>

record host =
  h_writev :: vm
  h_readv :: vm
  h_in_place :: int
  h_float :: float_ops

definition UMPI_MAX_IN_PLACE_LEN :: int where "UMPI_MAX_IN_PLACE_LEN = 64"
definition UMPI_TAG_CC :: int where "UMPI_TAG_CC = -2"

definition new_collect :: "int \<Rightarrow> int \<Rightarrow> collect" where
  "new_collect sendbuf recvbuf =
     \<lparr>k_locked = False, k_sendbuf = sendbuf, k_recvbuf = recvbuf, k_displs = [], k_box = [], k_iovec = [],
      k_count = 0, k_ticket = 0, k_joined = 0\<rparr>"

definition upd_slot :: "nat \<Rightarrow> (collect \<Rightarrow> collect) \<Rightarrow> cworld \<Rightarrow> cworld" where
  "upd_slot i f s = s\<lparr>cw_slots := (cw_slots s)(i := f (cw_slots s i))\<rparr>"

definition unlock :: "nat \<Rightarrow> cworld \<Rightarrow> cworld" where
  "unlock i = upd_slot i (\<lambda>k. k\<lparr>k_locked := False\<rparr>)"

definition set_world :: "world \<Rightarrow> cworld \<Rightarrow> cworld" where
  "set_world w s = s\<lparr>cw_world := w\<rparr>"

section \<open>Slots\<close>

text \<open>\<open>Exit 1\<close> is the message about too many outstanding requests.\<close>

definition get_current_slot :: "umpi \<Rightarrow> cworld \<Rightarrow> (umpi \<times> cworld \<times> nat) outcome" where
  "get_current_slot u s =
     (let turn = unat (u_ticket u mod of_nat UMPI_OUTSTANDING_COLLECTIVE_OPERATIONS);
          k = cw_slots s turn
      in if k_locked k then Block
         else if k_box k \<noteq> [] \<and> k_ticket k \<noteq> u_ticket u then Exit 1
         else
           let k1 = (if k_box k = [] then k\<lparr>k_ticket := u_ticket u, k_joined := 0\<rparr> else k)
           in Ret (u\<lparr>u_ticket := u_ticket u + 1\<rparr>,
                   upd_slot turn (\<lambda>_. k1\<lparr>k_locked := True, k_joined := k_joined k1 + 1\<rparr>) s, turn))"

definition joined_last :: "umpi \<Rightarrow> collect \<Rightarrow> bool" where
  "joined_last u k \<longleftrightarrow> k_joined k = u_size u"

definition joined_first :: "collect \<Rightarrow> bool" where
  "joined_first k \<longleftrightarrow> k_joined k = 1"

text \<open>\<^verbatim>\<open>create_request\<close> of \<^verbatim>\<open>collect\<close>: a request of the calling rank at the back of the box.\<close>

definition collect_create ::
  "umpi \<Rightarrow> nat \<Rightarrow> int \<Rightarrow> iovecs \<Rightarrow> int \<Rightarrow> int \<Rightarrow> int \<Rightarrow> cworld \<Rightarrow> (cworld \<times> cid) outcome" where
  "collect_create u i buf iovec sz cnt num s =
     and_then (create_request (u_rank u) (mk_cookie (u_rank u) buf iovec sz cnt (int (u_rank u)) UMPI_TAG_CC num)
                (cw_world s))
       (\<lambda>(w, c). Ret (upd_slot i (\<lambda>k. k\<lparr>k_box := k_box k @ [c]\<rparr>) (set_world w s), c))"

definition cookie_at :: "cworld \<Rightarrow> cid \<Rightarrow> cookie" where
  "cookie_at s c = w_cookies (cw_world s) c"

text \<open>\<^verbatim>\<open>todo.splice(todo.begin(), box_)\<close> is \<open>take_box\<close>; the list it returns is local to the call.\<close>

definition take_box :: "nat \<Rightarrow> cworld \<Rightarrow> cworld \<times> cid list" where
  "take_box i s = (upd_slot i (\<lambda>k. k\<lparr>k_box := []\<rparr>) s, k_box (cw_slots s i))"

definition to_pending :: "cid \<Rightarrow> world \<Rightarrow> world" where
  "to_pending c w = move_to_pending (c_owner (w_cookies w c)) c w"

text \<open>
  The loop over \<^verbatim>\<open>todo\<close>. On an error the call returns and the destructor of \<^verbatim>\<open>todo\<close> gives the nodes
  still in it back to the pool.
\<close>

fun todo_loop :: "(cid \<Rightarrow> world \<Rightarrow> (world \<times> int) outcome) \<Rightarrow> cid list \<Rightarrow> world \<Rightarrow> (world \<times> int) outcome" where
  "todo_loop transfer [] w = Ret (w, MPI_SUCCESS)"
| "todo_loop transfer (c # cs) w =
     and_then (transfer c (to_pending c w)) (\<lambda>(w1, ret).
       if ret \<noteq> 0 then and_then (put_all node_put (w_pool w1) cs) (\<lambda>p. Ret (w1\<lparr>w_pool := p\<rparr>, ret))
       else todo_loop transfer cs w1)"

text \<open>The result of a member: the state, the return code and the request stored in \<^verbatim>\<open>*request\<close>.\<close>

type_synonym started = "(cworld \<times> int \<times> cid option) outcome"

definition finish_with :: "cid option \<Rightarrow> cworld \<Rightarrow> (world \<times> int) outcome \<Rightarrow> started" where
  "finish_with c s r = and_then r (\<lambda>(w, ret). Ret (set_world w s, ret, c))"

text \<open>
  \<open>late_join\<close>: the request at the front of the box when it is the root's; the caller joins it and
  moves it to its owner's pending list when it is the last rank.
\<close>

definition late_join :: "umpi \<Rightarrow> nat \<Rightarrow> int \<Rightarrow> cworld \<Rightarrow> (cworld \<times> cid) option" where
  "late_join u i root s =
     (case k_box (cw_slots s i) of
        [] \<Rightarrow> None
      | c # cs \<Rightarrow>
          if c_src (cookie_at s c) \<noteq> root then None
          else
            let s1 = set_world (cookie_join c (cw_world s)) s;
                s2 = (if joined_last u (cw_slots s1 i)
                      then upd_slot i (\<lambda>k. k\<lparr>k_box := cs\<rparr>) (set_world (to_pending c (cw_world s1)) s1) else s1)
            in Some (unlock i s2, c))"

text \<open>
  \<open>root_start\<close>: what the root does before its loop: it takes the box and, when it is the last
  rank, borrows the last request in it (undefined when the box is empty), else leaves its own.
\<close>

definition root_start ::
  "umpi \<Rightarrow> nat \<Rightarrow> int \<Rightarrow> iovecs \<Rightarrow> int \<Rightarrow> int \<Rightarrow> cworld \<Rightarrow> (cworld \<times> cid \<times> cid list) outcome" where
  "root_start u i buf iovec sz cnt s =
     (let (s1, todo) = take_box i s; k = cw_slots s1 i
      in if joined_last u k
         then if todo = [] then Undef
              else Ret (unlock i (set_world (cookie_join (last todo) (cw_world s1)) s1), last todo, todo)
         else and_then (collect_create u i buf iovec sz cnt (u_size u - k_joined k) s1)
                (\<lambda>(s2, c). Ret (unlock i s2, c, todo)))"

section \<open>Broadcast\<close>

definition bcast_request :: "host \<Rightarrow> umpi \<Rightarrow> nat \<Rightarrow> int \<Rightarrow> int \<Rightarrow> iovecs \<Rightarrow> int \<Rightarrow> cworld \<Rightarrow> started" where
  "bcast_request h u i buf cnt ty root s =
     (case late_join u i root s of
        Some (s1, c) \<Rightarrow>
          finish_with (Some c) s1 (read_from_owner (h_readv h) c (Priv (u_rank u), buf) ty cnt cnt 0 0 (cw_world s1))
      | None \<Rightarrow>
          and_then (collect_create u i buf ty cnt cnt 1 s) (\<lambda>(s1, c). Ret (unlock i s1, MPI_SUCCESS, Some c)))"

definition root_bcast_request :: "host \<Rightarrow> umpi \<Rightarrow> nat \<Rightarrow> int \<Rightarrow> int \<Rightarrow> iovecs \<Rightarrow> cworld \<Rightarrow> started" where
  "root_bcast_request h u i buf cnt ty s =
     and_then (root_start u i buf ty cnt cnt s) (\<lambda>(s1, c, todo).
       finish_with (Some c) s1
         (todo_loop (\<lambda>c. write_to_owner (h_writev h) c (Priv (u_rank u), buf) ty cnt 0 0) todo (cw_world s1)))"

text \<open>A call of \<^verbatim>\<open>mpi.h\<close> also returns the \<^verbatim>\<open>umpi\<close> object, whose ticket it may have advanced.\<close>

type_synonym call = "(umpi option \<times> cworld \<times> int \<times> cid option) outcome"

definition rejected :: "umpi option \<Rightarrow> cworld \<Rightarrow> call" where
  "rejected up s = Ret (up, s, MPI_FAIL, None)"

definition in_slot :: "umpi \<Rightarrow> cworld \<Rightarrow> (umpi \<Rightarrow> nat \<Rightarrow> cworld \<Rightarrow> started) \<Rightarrow> call" where
  "in_slot u s f =
     and_then (get_current_slot u s) (\<lambda>(u1, s1, i).
       and_then (f u1 i s1) (\<lambda>(s2, ret, c). Ret (Some u1, s2, ret, c)))"

definition MPI_Ibcast ::
  "host \<Rightarrow> umpi option \<Rightarrow> int \<Rightarrow> int \<Rightarrow> iovecs option \<Rightarrow> int \<Rightarrow> comm \<Rightarrow> cworld \<Rightarrow> call" where
  "MPI_Ibcast h up buf cnt datatype root comm s =
     (case (up, datatype) of
        (Some u, Some ty) \<Rightarrow>
          if buf = 0 \<and> cnt \<noteq> 0 \<or> root < 0 \<or> u_size u \<le> root \<or> comm \<noteq> MPI_COMM_WORLD then rejected up s
          else in_slot u s (\<lambda>u i s.
            if int (u_rank u) = root then root_bcast_request h u i buf cnt ty s
            else bcast_request h u i buf cnt ty root s)
      | _ \<Rightarrow> rejected up s)"

section \<open>Allgather\<close>

definition copy_in :: "host \<Rightarrow> umpi \<Rightarrow> loc \<Rightarrow> iovecs \<Rightarrow> int \<Rightarrow> int \<Rightarrow> loc \<Rightarrow> iovecs \<Rightarrow> int \<Rightarrow> int \<Rightarrow> cworld \<Rightarrow> cworld" where
  "copy_in h u rb ri rc rs wb wi wc ws s =
     set_world ((cw_world s)\<lparr>w_mem := fst (umpi_copy (h_writev h) (w_mem (cw_world s)) rb ri rc rs wb wi wc ws)\<rparr>) s"

text \<open>\<open>sendtype\<close> is \<open>None\<close> when the pointer is null; it is used only when \<open>sendbuf\<close> is not \<^verbatim>\<open>MPI_IN_PLACE\<close>.\<close>

definition allgather_request ::
  "host \<Rightarrow> umpi \<Rightarrow> nat \<Rightarrow> int \<Rightarrow> int \<Rightarrow> iovecs option \<Rightarrow> int \<Rightarrow> int \<Rightarrow> iovecs \<Rightarrow> cworld \<Rightarrow> started" where
  "allgather_request h u i sendbuf sendcount sendtype recvbuf recvcount recvtype s =
     (let r = Priv (u_rank u); rank = int (u_rank u); in_place = (sendbuf = h_in_place h); sty = the sendtype
      in if joined_first (cw_slots s i)
         then
           let s1 = (if in_place then s
                     else copy_in h u (r, sendbuf) sty sendcount 0 (r, recvbuf) recvtype recvcount (rank * recvcount) s)
           in and_then (collect_create u i recvbuf recvtype (recvcount * u_size u) recvcount (u_size u) s1)
                (\<lambda>(s2, c). Ret (unlock i s2, MPI_SUCCESS, Some c))
         else case k_box (cw_slots s i) of
           [] \<Rightarrow> Undef
         | front # _ \<Rightarrow>
             let seek = c_count (cookie_at s front) * rank
             in and_then
                  (if in_place
                   then write_to_owner (h_writev h) front (r, recvbuf) recvtype recvcount seek (recvcount * rank) (cw_world s)
                   else write_to_owner (h_writev h) front (r, sendbuf) sty sendcount seek 0 (cw_world s)) (\<lambda>(w1, ret).
                let s1 = set_world w1 s
                in if ret \<noteq> 0 then Ret (s1, ret, None)
                   else if \<not> joined_last u (cw_slots s1 i)
                   then and_then (collect_create u i recvbuf recvtype (recvcount * u_size u) recvcount 1 s1)
                          (\<lambda>(s2, c). Ret (unlock i s2, MPI_SUCCESS, Some c))
                   else
                     let (s2, todo) = take_box i s1; first = hd todo;
                         s3 = unlock i (set_world (cookie_join first (cw_world s2)) s2)
                     in and_then (read_from_owner (h_readv h) first (r, recvbuf) recvtype (recvcount * u_size u)
                                    (recvcount * u_size u) 0 0 (to_pending first (cw_world s3))) (\<lambda>(w4, _).
                        finish_with (Some first) s3
                          (todo_loop (\<lambda>c. write_to_owner (h_writev h) c (r, recvbuf) recvtype (recvcount * u_size u) 0 0)
                             (tl todo) w4))))"

text \<open>Equal lengths in bytes, compared as \<^verbatim>\<open>size_t\<close>.\<close>

definition same_bytes :: "int \<Rightarrow> iovecs \<Rightarrow> int \<Rightarrow> iovecs \<Rightarrow> bool" where
  "same_bytes n sty k rty \<longleftrightarrow> size_of_int n * iov_len sty = size_of_int k * iov_len rty"

definition MPI_Iallgather ::
  "host \<Rightarrow> umpi option \<Rightarrow> int \<Rightarrow> int \<Rightarrow> iovecs option \<Rightarrow> int \<Rightarrow> int \<Rightarrow> iovecs option \<Rightarrow> comm \<Rightarrow> cworld \<Rightarrow> call" where
  "MPI_Iallgather h up sendbuf sendcount sendtype recvbuf recvcount recvtype comm s =
     (case (up, recvtype) of
        (Some u, Some rty) \<Rightarrow>
          if sendbuf = 0 \<and> sendcount \<noteq> 0 \<or> sendbuf \<noteq> h_in_place h \<and> sendtype = None \<or>
             recvbuf = 0 \<and> recvcount \<noteq> 0 \<or>
             sendbuf \<noteq> h_in_place h \<and> \<not> same_bytes sendcount (the sendtype) recvcount rty \<or> comm \<noteq> MPI_COMM_WORLD
          then rejected up s
          else in_slot u s (\<lambda>u i. allgather_request h u i sendbuf sendcount sendtype recvbuf recvcount rty)
      | _ \<Rightarrow> rejected up s)"

section \<open>Gather and scatter\<close>

definition gather_request :: "host \<Rightarrow> umpi \<Rightarrow> nat \<Rightarrow> int \<Rightarrow> int \<Rightarrow> iovecs \<Rightarrow> int \<Rightarrow> cworld \<Rightarrow> started" where
  "gather_request h u i sendbuf sendcount sendtype root s =
     (case late_join u i root s of
        Some (s1, c) \<Rightarrow>
          finish_with (Some c) s1 (write_to_owner (h_writev h) c (Priv (u_rank u), sendbuf) sendtype sendcount
            (c_count (cookie_at s1 c) * int (u_rank u)) 0 (cw_world s1))
      | None \<Rightarrow>
          and_then (collect_create u i sendbuf sendtype sendcount sendcount 1 s)
            (\<lambda>(s1, c). Ret (unlock i s1, MPI_SUCCESS, Some c)))"

text \<open>The element the root reads to is the rank of the sender, not the rank times \<^verbatim>\<open>recvcount\<close>.\<close>

definition root_gather_request :: "host \<Rightarrow> umpi \<Rightarrow> nat \<Rightarrow> int \<Rightarrow> int \<Rightarrow> iovecs \<Rightarrow> cworld \<Rightarrow> started" where
  "root_gather_request h u i recvbuf recvcount recvtype s =
     and_then (root_start u i recvbuf recvtype (recvcount * u_size u) recvcount s) (\<lambda>(s1, c, todo).
       finish_with (Some c) s1
         (todo_loop (\<lambda>c w. read_from_owner (h_readv h) c (Priv (u_rank u), recvbuf) recvtype (recvcount * u_size u)
            recvcount (c_src (w_cookies w c)) 0 w) todo (cw_world s1)))"

definition MPI_Igather ::
  "host \<Rightarrow> umpi option \<Rightarrow> int \<Rightarrow> int \<Rightarrow> iovecs option \<Rightarrow> int \<Rightarrow> int \<Rightarrow> iovecs option \<Rightarrow> int \<Rightarrow> comm \<Rightarrow> cworld \<Rightarrow> call" where
  "MPI_Igather h up sendbuf sendcount sendtype recvbuf recvcount recvtype root comm s =
     (case up of
        None \<Rightarrow> rejected up s
      | Some u \<Rightarrow>
          if sendbuf = 0 \<and> sendcount \<noteq> 0 \<or> sendbuf \<noteq> h_in_place h \<and> sendtype = None \<or>
             root < 0 \<or> u_size u \<le> root \<or> comm \<noteq> MPI_COMM_WORLD
          then rejected up s
          else in_slot u s (\<lambda>u i s.
            if int (u_rank u) = root
            then case recvtype of
                None \<Rightarrow> Ret (s, MPI_FAIL, None)
              | Some rty \<Rightarrow>
                  if recvbuf = 0 \<and> recvcount \<noteq> 0 \<or>
                     sendbuf \<noteq> h_in_place h \<and> \<not> same_bytes sendcount (the sendtype) recvcount rty
                  then Ret (s, MPI_FAIL, None)
                  else root_gather_request h u i recvbuf recvcount rty
                    (if sendbuf \<noteq> h_in_place h
                     then copy_in h u (Priv (u_rank u), sendbuf) (the sendtype) sendcount 0 (Priv (u_rank u), recvbuf)
                            rty recvcount (int (u_rank u) * recvcount) s
                     else s)
            else case sendtype of
                None \<Rightarrow> Undef
              | Some sty \<Rightarrow> gather_request h u i sendbuf sendcount sty root s))"

definition gatherv_request :: "host \<Rightarrow> umpi \<Rightarrow> nat \<Rightarrow> int \<Rightarrow> int \<Rightarrow> iovecs \<Rightarrow> int \<Rightarrow> cworld \<Rightarrow> started" where
  "gatherv_request h u i sendbuf sendcount sendtype root s =
     (case late_join u i root s of
        Some (s1, c) \<Rightarrow>
          if length (k_displs (cw_slots s1 i)) \<le> u_rank u then Undef
          else finish_with (Some c) s1 (write_to_owner (h_writev h) c (Priv (u_rank u), sendbuf) sendtype sendcount
            (k_displs (cw_slots s1 i) ! u_rank u) 0 (cw_world s1))
      | None \<Rightarrow>
          and_then (collect_create u i sendbuf sendtype sendcount sendcount 1 s)
            (\<lambda>(s1, c). Ret (unlock i s1, MPI_SUCCESS, Some c)))"

text \<open>The two arrays have an entry for every rank.\<close>

definition root_gatherv_request ::
  "host \<Rightarrow> umpi \<Rightarrow> nat \<Rightarrow> int \<Rightarrow> int list \<Rightarrow> int list \<Rightarrow> iovecs \<Rightarrow> cworld \<Rightarrow> started" where
  "root_gatherv_request h u i recvbuf recvcounts displs recvtype s =
     (let n = nat (u_size u); totalcount = sum_list (take n recvcounts)
      in if length recvcounts < n \<or> length displs < n then Undef
         else and_then (root_start u i recvbuf recvtype totalcount 0
                 (upd_slot i (\<lambda>k. k\<lparr>k_displs := take n displs\<rparr>) s)) (\<lambda>(s1, c, todo).
           finish_with (Some c) s1
             (todo_loop (\<lambda>c w. read_from_owner (h_readv h) c (Priv (u_rank u), recvbuf) recvtype totalcount
                (recvcounts ! nat (c_src (w_cookies w c))) (displs ! nat (c_src (w_cookies w c))) 0 w)
                todo (cw_world s1))))"

definition MPI_Igatherv ::
  "host \<Rightarrow> umpi option \<Rightarrow> int \<Rightarrow> int \<Rightarrow> iovecs option \<Rightarrow> int \<Rightarrow> int list option \<Rightarrow> int list option \<Rightarrow>
     iovecs option \<Rightarrow> int \<Rightarrow> comm \<Rightarrow> cworld \<Rightarrow> call" where
  "MPI_Igatherv h up sendbuf sendcount sendtype recvbuf recvcounts displs recvtype root comm s =
     (case up of
        None \<Rightarrow> rejected up s
      | Some u \<Rightarrow>
          if sendbuf = 0 \<and> sendcount \<noteq> 0 \<or> sendbuf \<noteq> h_in_place h \<and> sendtype = None \<or>
             root < 0 \<or> u_size u \<le> root \<or> comm \<noteq> MPI_COMM_WORLD
          then rejected up s
          else in_slot u s (\<lambda>u i s.
            if int (u_rank u) = root
            then case (recvcounts, displs, recvtype) of
                (Some rcs, Some dis, Some rty) \<Rightarrow>
                  if recvbuf = 0 then Ret (s, MPI_FAIL, None)
                  else if length rcs \<le> u_rank u \<or> length dis \<le> u_rank u then Undef
                  else if sendbuf \<noteq> h_in_place h \<and> \<not> same_bytes sendcount (the sendtype) (rcs ! u_rank u) rty
                  then Ret (s, MPI_FAIL, None)
                  else root_gatherv_request h u i recvbuf rcs dis rty
                    (if sendbuf \<noteq> h_in_place h
                     then copy_in h u (Priv (u_rank u), sendbuf) (the sendtype) sendcount 0 (Priv (u_rank u), recvbuf)
                            rty (rcs ! u_rank u) (dis ! u_rank u) s
                     else s)
              | _ \<Rightarrow> Ret (s, MPI_FAIL, None)
            else case sendtype of
                None \<Rightarrow> Undef
              | Some sty \<Rightarrow> gatherv_request h u i sendbuf sendcount sty root s))"

definition scatter_request :: "host \<Rightarrow> umpi \<Rightarrow> nat \<Rightarrow> int \<Rightarrow> int \<Rightarrow> iovecs \<Rightarrow> int \<Rightarrow> cworld \<Rightarrow> started" where
  "scatter_request h u i recvbuf recvcount recvtype root s =
     (case late_join u i root s of
        Some (s1, c) \<Rightarrow>
          finish_with (Some c) s1 (read_from_owner (h_readv h) c (Priv (u_rank u), recvbuf) recvtype recvcount recvcount
            0 (c_count (cookie_at s1 c) * int (u_rank u)) (cw_world s1))
      | None \<Rightarrow>
          and_then (collect_create u i recvbuf recvtype recvcount recvcount 1 s)
            (\<lambda>(s1, c). Ret (unlock i s1, MPI_SUCCESS, Some c)))"

definition root_scatter_request :: "host \<Rightarrow> umpi \<Rightarrow> nat \<Rightarrow> int \<Rightarrow> int \<Rightarrow> iovecs \<Rightarrow> cworld \<Rightarrow> started" where
  "root_scatter_request h u i sendbuf sendcount sendtype s =
     and_then (root_start u i sendbuf sendtype (sendcount * u_size u) sendcount s) (\<lambda>(s1, c, todo).
       finish_with (Some c) s1
         (todo_loop (\<lambda>c w. write_to_owner (h_writev h) c (Priv (u_rank u), sendbuf) sendtype sendcount 0
            (sendcount * c_src (w_cookies w c)) w) todo (cw_world s1)))"

definition MPI_Iscatter ::
  "host \<Rightarrow> umpi option \<Rightarrow> int \<Rightarrow> int \<Rightarrow> iovecs option \<Rightarrow> int \<Rightarrow> int \<Rightarrow> iovecs option \<Rightarrow> int \<Rightarrow> comm \<Rightarrow> cworld \<Rightarrow> call" where
  "MPI_Iscatter h up sendbuf sendcount sendtype recvbuf recvcount recvtype root comm s =
     (case up of
        None \<Rightarrow> rejected up s
      | Some u \<Rightarrow>
          if recvbuf = 0 \<and> recvcount \<noteq> 0 \<or> recvbuf \<noteq> h_in_place h \<and> recvtype = None \<or>
             root < 0 \<or> u_size u \<le> root \<or> comm \<noteq> MPI_COMM_WORLD
          then rejected up s
          else in_slot u s (\<lambda>u i s.
            if int (u_rank u) = root
            then case sendtype of
                None \<Rightarrow> Ret (s, MPI_FAIL, None)
              | Some sty \<Rightarrow>
                  if sendbuf = 0 \<and> sendcount \<noteq> 0 \<or>
                     recvbuf \<noteq> h_in_place h \<and> \<not> same_bytes sendcount sty recvcount (the recvtype)
                  then Ret (s, MPI_FAIL, None)
                  else root_scatter_request h u i sendbuf sendcount sty
                    (if recvbuf \<noteq> h_in_place h
                     then copy_in h u (Priv (u_rank u), sendbuf) sty sendcount (int (u_rank u) * sendcount)
                            (Priv (u_rank u), recvbuf) (the recvtype) recvcount 0 s
                     else s)
            else case recvtype of
                None \<Rightarrow> Undef
              | Some rty \<Rightarrow> scatter_request h u i recvbuf recvcount rty root s))"

section \<open>Reductions\<close>

definition reduce_with :: "host \<Rightarrow> op \<Rightarrow> loc \<Rightarrow> loc \<Rightarrow> int \<Rightarrow> iovecs \<Rightarrow> world \<Rightarrow> world outcome" where
  "reduce_with h p invec inoutvec cnt ty w =
     and_then (op_call (h_float h) p invec inoutvec cnt ty (w_mem w)) (\<lambda>m. Ret (w\<lparr>w_mem := m\<rparr>))"

definition in_world :: "cworld \<Rightarrow> world outcome \<Rightarrow> cworld outcome" where
  "in_world s r = and_then r (\<lambda>w. Ret (set_world w s))"

definition set_partial :: "nat \<Rightarrow> iovecs \<Rightarrow> int \<Rightarrow> cworld \<Rightarrow> cworld" where
  "set_partial i ty cnt = upd_slot i (\<lambda>k. k\<lparr>k_iovec := ty, k_count := cnt\<rparr>)"

text \<open>
  The first part of \<^verbatim>\<open>allreduce_request\<close>: the data of the calling rank is combined with what the
  ranks before it have left, in the in-place buffers of the slot or in the receive buffer of the rank
  before.
\<close>

definition allreduce_combine ::
  "host \<Rightarrow> umpi \<Rightarrow> nat \<Rightarrow> int \<Rightarrow> int \<Rightarrow> int \<Rightarrow> iovecs \<Rightarrow> op \<Rightarrow> cworld \<Rightarrow> (cworld \<times> int) outcome" where
  "allreduce_combine h u i sendbuf recvbuf cnt ty p s =
     (let k = cw_slots s i; r = Priv (u_rank u); sb = (Shm, k_sendbuf k); rb = (Shm, k_recvbuf k)
      in if sendbuf = h_in_place h
         then
           if joined_first k
           then Ret (copy_in h u (r, recvbuf) ty cnt 0 sb ty cnt 0 (set_partial i ty cnt s), MPI_SUCCESS)
           else if \<not> joined_last u k
           then
             let s1 = copy_in h u sb (k_iovec k) (k_count k) 0 rb ty cnt 0 s
             in and_then (in_world s1 (reduce_with h p (r, recvbuf) rb cnt ty (cw_world s1)))
                  (\<lambda>s2. Ret (copy_in h u rb ty cnt 0 sb ty cnt 0 (set_partial i ty cnt s2), MPI_SUCCESS))
           else
             let s1 = copy_in h u sb (k_iovec k) (k_count k) 0 rb ty cnt 0 s
             in and_then (in_world s1 (reduce_with h p rb (r, recvbuf) cnt ty (cw_world s1)))
                  (\<lambda>s2. Ret (s2, MPI_SUCCESS))
         else
           if joined_first k
           then Ret (copy_in h u (r, sendbuf) ty cnt 0 (r, recvbuf) ty cnt 0 s, MPI_SUCCESS)
           else if k_box k = [] then Undef
           else and_then (read_from_owner (h_readv h) (last (k_box k)) (r, recvbuf) ty cnt cnt 0 0 (cw_world s))
             (\<lambda>(w1, ret).
                if ret \<noteq> 0 then Ret (set_world w1 s, ret)
                else and_then (in_world s (reduce_with h p (r, sendbuf) (r, recvbuf) cnt ty w1))
                       (\<lambda>s2. Ret (s2, MPI_SUCCESS))))"

definition allreduce_request ::
  "host \<Rightarrow> umpi \<Rightarrow> nat \<Rightarrow> int \<Rightarrow> int \<Rightarrow> int \<Rightarrow> iovecs \<Rightarrow> op \<Rightarrow> cworld \<Rightarrow> started" where
  "allreduce_request h u i sendbuf recvbuf cnt ty p s =
     and_then (allreduce_combine h u i sendbuf recvbuf cnt ty p s) (\<lambda>(s1, ret).
       if ret \<noteq> 0 then Ret (s1, ret, None)
       else if \<not> joined_last u (cw_slots s1 i)
       then and_then (collect_create u i recvbuf ty cnt cnt (if sendbuf = h_in_place h then 1 else 2) s1)
              (\<lambda>(s2, c). Ret (unlock i s2, MPI_SUCCESS, Some c))
       else
         let (s2, todo) = take_box i s1
         in if todo = [] then Undef
            else
              let borrow = last todo; s3 = unlock i (set_world (cookie_join borrow (cw_world s2)) s2)
              in finish_with (Some borrow) s3
                   (todo_loop (\<lambda>c. write_to_owner (h_writev h) c (Priv (u_rank u), recvbuf) ty cnt 0 0) todo
                      (cw_world s3)))"

definition MPI_Iallreduce ::
  "host \<Rightarrow> umpi option \<Rightarrow> int \<Rightarrow> int \<Rightarrow> int \<Rightarrow> iovecs option \<Rightarrow> op option \<Rightarrow> comm \<Rightarrow> cworld \<Rightarrow> call" where
  "MPI_Iallreduce h up sendbuf recvbuf cnt datatype opp comm s =
     (case (up, datatype, opp) of
        (Some u, Some ty, Some p) \<Rightarrow>
          if (sendbuf = 0 \<or> recvbuf = 0) \<and> cnt \<noteq> 0 \<or> comm \<noteq> MPI_COMM_WORLD \<or>
             sendbuf = h_in_place h \<and> UMPI_MAX_IN_PLACE_LEN < cnt * iov_stride ty
          then rejected up s
          else in_slot u s (\<lambda>u i. allreduce_request h u i sendbuf recvbuf cnt ty p)
      | _ \<Rightarrow> rejected up s)"

text \<open>The destructor of \<^verbatim>\<open>todo\<close> on an early return.\<close>

definition drop_todo :: "cid list \<Rightarrow> int \<Rightarrow> world \<Rightarrow> (world \<times> int) outcome" where
  "drop_todo cs ret w = and_then (put_all node_put (w_pool w) cs) (\<lambda>p. Ret (w\<lparr>w_pool := p\<rparr>, ret))"

fun exscan_loop :: "host \<Rightarrow> op \<Rightarrow> loc \<Rightarrow> loc \<Rightarrow> int \<Rightarrow> iovecs \<Rightarrow> cid list \<Rightarrow> world \<Rightarrow> (world \<times> int) outcome" where
  "exscan_loop h p sb rb cnt ty [] w = Ret (w, MPI_SUCCESS)"
| "exscan_loop h p sb rb cnt ty (c # cs) w =
     and_then (read_from_owner (h_readv h) c rb ty cnt 0 0 0 (to_pending c w)) (\<lambda>(w1, ret).
       if ret \<noteq> 0 then drop_todo cs ret w1
       else and_then (write_to_owner (h_writev h) c sb ty cnt 0 0 w1) (\<lambda>(w2, ret).
         if ret \<noteq> 0 then drop_todo cs ret w2
         else and_then (if cs \<noteq> [] then reduce_with h p rb sb cnt ty w2 else Ret w2)
                (exscan_loop h p sb rb cnt ty cs)))"

fun scan_loop :: "host \<Rightarrow> op \<Rightarrow> loc \<Rightarrow> loc \<Rightarrow> int \<Rightarrow> iovecs \<Rightarrow> cid list \<Rightarrow> world \<Rightarrow> (world \<times> int) outcome" where
  "scan_loop h p sb rb cnt ty [] w = Ret (w, MPI_SUCCESS)"
| "scan_loop h p sb rb cnt ty (c # cs) w =
     and_then (read_from_owner (h_readv h) c rb ty cnt 0 0 0 (to_pending c w)) (\<lambda>(w1, ret).
       if ret \<noteq> 0 then drop_todo cs ret w1
       else and_then (reduce_with h p rb sb cnt ty w1) (\<lambda>w2.
         and_then (write_to_owner (h_writev h) c sb ty cnt 0 0 w2) (\<lambda>(w3, ret).
           if ret \<noteq> 0 then drop_todo cs ret w3 else scan_loop h p sb rb cnt ty cs w3)))"

text \<open>
  \<^verbatim>\<open>exscan_request\<close> and \<^verbatim>\<open>scan_request\<close> from the point where the request has been created: the last rank
  takes all requests, sorted by rank, starts from the data of the first and runs the loop.
\<close>

definition scan_last ::
  "(loc \<Rightarrow> loc \<Rightarrow> cid list \<Rightarrow> world \<Rightarrow> (world \<times> int) outcome) \<Rightarrow> host \<Rightarrow> umpi \<Rightarrow> nat \<Rightarrow> int \<Rightarrow> iovecs \<Rightarrow> cid \<Rightarrow>
     cworld \<Rightarrow> started" where
  "scan_last loop h u i cnt ty c s =
     (if \<not> joined_last u (cw_slots s i) then Ret (unlock i s, MPI_SUCCESS, Some c)
      else
        let k = cw_slots s i; sb = (Shm, k_sendbuf k); rb = (Shm, k_recvbuf k);
            (s1, todo) = take_box i s; s2 = unlock i s1;
            sorted = sort_key (\<lambda>c. c_src (cookie_at s2 c)) todo; first = hd sorted
        in finish_with (Some c) s2
             (and_then (read_from_owner (h_readv h) first sb ty cnt 0 0 0 (to_pending first (cw_world s2))) (\<lambda>(w, ret).
                if ret \<noteq> 0 then drop_todo (tl sorted) ret w else loop sb rb (tl sorted) w)))"

definition exscan_request ::
  "host \<Rightarrow> umpi \<Rightarrow> nat \<Rightarrow> int \<Rightarrow> int \<Rightarrow> int \<Rightarrow> iovecs \<Rightarrow> op \<Rightarrow> cworld \<Rightarrow> started" where
  "exscan_request h u i sendbuf recvbuf cnt ty p s =
     (if UMPI_MAX_IN_PLACE_LEN < cnt * iov_stride ty then Ret (s, MPI_FAIL, None)
      else
        let r = Priv (u_rank u);
            s1 = (if u_rank u \<noteq> 0 \<and> sendbuf \<noteq> h_in_place h
                  then copy_in h u (r, sendbuf) ty cnt 0 (r, recvbuf) ty cnt 0 s else s)
        in and_then (collect_create u i (if u_rank u \<noteq> 0 then recvbuf else sendbuf) ty cnt cnt
                       (if u_rank u \<noteq> 0 then 2 else 1) s1)
             (\<lambda>(s2, c). scan_last (\<lambda>sb rb. exscan_loop h p sb rb cnt ty) h u i cnt ty c s2))"

definition scan_request ::
  "host \<Rightarrow> umpi \<Rightarrow> nat \<Rightarrow> int \<Rightarrow> int \<Rightarrow> int \<Rightarrow> iovecs \<Rightarrow> op \<Rightarrow> cworld \<Rightarrow> started" where
  "scan_request h u i sendbuf recvbuf cnt ty p s =
     (if UMPI_MAX_IN_PLACE_LEN < cnt * iov_stride ty then Ret (s, MPI_FAIL, None)
      else
        let r = Priv (u_rank u);
            s1 = (if sendbuf \<noteq> h_in_place h then copy_in h u (r, sendbuf) ty cnt 0 (r, recvbuf) ty cnt 0 s else s)
        in and_then (collect_create u i recvbuf ty cnt cnt (if u_rank u \<noteq> 0 then 2 else 1) s1)
             (\<lambda>(s2, c). scan_last (\<lambda>sb rb. scan_loop h p sb rb cnt ty) h u i cnt ty c s2))"

definition MPI_Iexscan ::
  "host \<Rightarrow> umpi option \<Rightarrow> int \<Rightarrow> int \<Rightarrow> int \<Rightarrow> iovecs option \<Rightarrow> op option \<Rightarrow> comm \<Rightarrow> cworld \<Rightarrow> call" where
  "MPI_Iexscan h up sendbuf recvbuf cnt datatype opp comm s =
     (case (up, datatype, opp) of
        (Some u, Some ty, Some p) \<Rightarrow>
          if (sendbuf = 0 \<or> u_rank u \<noteq> 0 \<and> recvbuf = 0) \<and> cnt \<noteq> 0 \<or> comm \<noteq> MPI_COMM_WORLD \<or>
             sendbuf = h_in_place h \<and> UMPI_MAX_IN_PLACE_LEN < cnt * iov_stride ty
          then rejected up s
          else in_slot u s (\<lambda>u i. exscan_request h u i sendbuf recvbuf cnt ty p)
      | _ \<Rightarrow> rejected up s)"

definition MPI_Iscan ::
  "host \<Rightarrow> umpi option \<Rightarrow> int \<Rightarrow> int \<Rightarrow> int \<Rightarrow> iovecs option \<Rightarrow> op option \<Rightarrow> comm \<Rightarrow> cworld \<Rightarrow> call" where
  "MPI_Iscan h up sendbuf recvbuf cnt datatype opp comm s =
     (case (up, datatype, opp) of
        (Some u, Some ty, Some p) \<Rightarrow>
          if (sendbuf = 0 \<or> recvbuf = 0) \<and> cnt \<noteq> 0 \<or> comm \<noteq> MPI_COMM_WORLD \<or>
             sendbuf = h_in_place h \<and> UMPI_MAX_IN_PLACE_LEN < cnt * iov_stride ty
          then rejected up s
          else in_slot u s (\<lambda>u i. scan_request h u i sendbuf recvbuf cnt ty p)
      | _ \<Rightarrow> rejected up s)"

end
