(* ===== verification/Collect_Inv.thy ===== *)
theory Collect_Inv
  imports Collect P2P_Safety
begin

text \<open>
  What the proofs about collective operations share: requests in boxes are nodes of their own
  (\<open>box_inv\<close>), what one transfer between two buffers of the same type does, and the loop in which
  one rank serves all requests it has taken out of the box.
\<close>

section \<open>Requests in boxes\<close>

lemma box_inv_places:
  "w_pool w' = w_pool w \<Longrightarrow> places w' + B' = places w + B \<Longrightarrow> box_inv w' B' \<longleftrightarrow> box_inv w B"
  by (simp only: box_inv_def)

lemma at_most_one_if: "(n::nat) \<le> 1 \<Longrightarrow> P \<longleftrightarrow> 0 < n \<Longrightarrow> n = (if P then 1 else 0)"
  by auto

lemma box_inv_distinct: "box_inv w (mset cs + B) \<Longrightarrow> distinct cs \<and> (\<forall>c \<in> set cs. c \<notin># pending w)"
proof -
  assume inv: "box_inv w (mset cs + B)"
  have le: "count (mset cs) c + count (pending w) c \<le> 1" for c
  proof -
    have "count (mset cs) c + count (pending w) c \<le> count (places w + (mset cs + B)) c" by (simp add: places_def)
    also have "\<dots> \<le> 1" using inv by (simp only: box_inv_def)
    finally show ?thesis .
  qed
  have "distinct cs"
    unfolding distinct_count_atmost_1
  proof
    fix c
    have "count (mset cs) c \<le> 1" using le [of c] by linarith
    moreover have "c \<in> set cs \<longleftrightarrow> 0 < count (mset cs) c"
      by (simp only: count_greater_zero_iff set_mset_mset)
    ultimately show "count (mset cs) c = (if c \<in> set cs then 1 else 0)"
      by (rule at_most_one_if)
  qed
  moreover have "c \<notin># pending w" if "c \<in> set cs" for c
  proof
    assume "c \<in># pending w"
    then have "0 < count (pending w) c" by simp
    moreover have "0 < count (mset cs) c" using that by (simp only: count_greater_zero_iff set_mset_mset)
    ultimately show False using le [of c] by linarith
  qed
  ultimately show ?thesis by blast
qed

text \<open>Steps that leave the lists of the processes alone.\<close>

definition same_boxes :: "world \<Rightarrow> world \<Rightarrow> bool" where
  "same_boxes w w' \<longleftrightarrow> w_size w' = w_size w \<and> w_pool w' = w_pool w \<and>
     (\<forall>s. free_of (w_procs w' s) = free_of (w_procs w s) \<and> unmatched_of (w_procs w' s) = unmatched_of (w_procs w s) \<and>
        pending_of (w_procs w' s) = pending_of (w_procs w s))"

lemma same_boxesD:
  assumes "same_boxes w w'"
  shows "w_size w' = w_size w" "places w' = places w" "pending w' = pending w" "box_inv w' B \<longleftrightarrow> box_inv w B"
proof -
  have p: "psum f w' = psum f w" if "\<And>s. f (w_procs w' s) = f (w_procs w s)" for f
    using that assms by (intro psum_cong) (auto simp: same_boxes_def)
  show "w_size w' = w_size w" using assms by (simp add: same_boxes_def)
  show pe: "pending w' = pending w" using assms by (intro p) (simp add: same_boxes_def)
  show pl: "places w' = places w"
    unfolding places_def using assms p [of free_of] p [of unmatched_of] pe by (simp add: same_boxes_def)
  show "box_inv w' B \<longleftrightarrow> box_inv w B" using assms pl by (intro box_inv_places) (simp_all add: same_boxes_def)
qed

lemma same_boxes_refl: "same_boxes w w"
  by (simp add: same_boxes_def)

lemma same_boxes_trans: "same_boxes a b \<Longrightarrow> same_boxes b c \<Longrightarrow> same_boxes a c"
  by (simp add: same_boxes_def)

lemma same_boxes_mem: "same_boxes w (w\<lparr>w_mem := m\<rparr>)"
  by (simp add: same_boxes_def)

lemma same_boxes_cookie: "same_boxes w (upd_cookie c f w)"
  by (simp add: same_boxes_def)

lemma same_boxes_join: "same_boxes w (cookie_join c w)"
  by (simp add: cookie_join_def same_boxes_cookie)

lemma same_boxes_notify: "same_boxes w (notify_done c err w)"
  unfolding same_boxes_def notify_done_effect
proof (intro conjI allI refl)
  fix s
  obtain a where a: "w_procs (notify_done c err w) s = (w_procs w s)\<lparr>pr_asleep := a\<rparr>"
    using notify_done_procs [of c err w s] by blast
  show "free_of (w_procs (notify_done c err w) s) = free_of (w_procs w s)"
    "unmatched_of (w_procs (notify_done c err w) s) = unmatched_of (w_procs w s)"
    "pending_of (w_procs (notify_done c err w) s) = pending_of (w_procs w s)"
    by (simp_all add: a free_of_def unmatched_of_def pending_of_def)
qed

text \<open>A new request is in no box and on no list.\<close>

lemma box_create:
  assumes inv: "box_inv w B" and r: "r < w_size w" and cr: "create_request r k w = Ret (w1, c)"
  shows "box_inv w1 (add_mset c B)" "c \<notin># B" "c \<notin># pending w" "w_mem w1 = w_mem w" "w_size w1 = w_size w"
    "w_cookies w1 = (w_cookies w)(c := k)" "pending w1 = pending w"
proof -
  have "box_inv w1 (add_mset c B) \<and> c \<notin># B \<and> c \<notin># pending w \<and> w_mem w1 = w_mem w \<and> w_size w1 = w_size w \<and>
    w_cookies w1 = (w_cookies w)(c := k) \<and> pending w1 = pending w"
  proof (cases "pr_free (w_procs w r)")
    case Nil
    with cr obtain q where q: "node_get (w_pool w) = Ret (q, c)" "w1 = upd_cookie c (\<lambda>_. k) (w\<lparr>w_pool := q\<rparr>)"
      by (auto simp: create_request_def and_then_Ret_iff)
    have ni: "node_inv (w_pool w) (set_mset (places w + B))" using inv by (simp only: box_inv_def)
    have fresh: "c \<notin># places w + B" by (rule nodes.get_fresh [OF ni q(1)])
    have ps: "psum f w1 = psum f w" for f by (simp add: psum_def q(2))
    then have pl: "places w1 = places w" by (simp add: places_def)
    have "node_inv q (insert c (set_mset (places w + B)))" by (rule nodes.get_inv [OF ni q(1)])
    moreover have "count (places w1 + add_mset c B) x \<le> 1" for x
      using inv fresh by (auto simp: box_inv_def pl not_in_iff)
    moreover have "w_pool w1 = q" by (simp add: q(2))
    ultimately have "box_inv w1 (add_mset c B)" by (simp add: box_inv_def pl)
    then show ?thesis using fresh q(2) ps by (simp add: places_def fun_eq_iff)
  next
    case (Cons d cs)
    with cr have q: "d = c" "w1 = upd_cookie c (\<lambda>_. k) (upd_proc r (\<lambda>p. p\<lparr>pr_free := cs\<rparr>) w)"
      by (auto simp: create_request_def)
    have w1: "w_size w1 = w_size w" "w_procs w1 = (w_procs w)(r := (w_procs w r)\<lparr>pr_free := cs\<rparr>)"
      by (simp_all add: q(2))
    note u = psum_upd [OF r w1]
    have fr: "psum free_of w = add_mset c (psum free_of w1)"
      using u [of free_of] Cons q(1) by (simp add: free_of_def)
    have un: "unmatched w1 = unmatched w" using u [of unmatched_of] by (simp add: unmatched_of_def)
    have pe: "pending w1 = pending w" using u [of pending_of] by (simp add: pending_of_def)
    have pl: "places w1 + add_mset c B = places w + B" using fr un pe by (simp add: places_def)
    have "count (places w + B) c \<le> 1" using inv by (simp only: box_inv_def)
    then have "count B c = 0 \<and> count (pending w) c = 0" using fr by (simp add: places_def)
    then have "c \<notin># B \<and> c \<notin># pending w" by (simp add: not_in_iff)
    moreover have "box_inv w1 (add_mset c B)"
      using inv box_inv_places [OF _ pl] q(2) by (simp only:) simp
    ultimately show ?thesis using pe q(2) by simp
  qed
  then show "box_inv w1 (add_mset c B)" "c \<notin># B" "c \<notin># pending w" "w_mem w1 = w_mem w" "w_size w1 = w_size w"
    "w_cookies w1 = (w_cookies w)(c := k)" "pending w1 = pending w" by auto
qed

lemma node_get_room:
  assumes "64 \<le> unat (p_space p)"
  shows "\<exists>q c. node_get p = Ret (q, c) \<and> unat (p_space p) \<le> unat (p_space q) + 64"
proof -
  have al: "node_get p = pool_alloc p 64" by (simp add: node_get_def allocate_def sizeof_list_node_64)
  have sp: "\<not> unat (p_space p) < block_size 64" using assms by (simp add: block_size_node)
  obtain q c where q: "pool_alloc p 64 = Ret (q, c)"
    using pool_alloc_total [of 64 p] pool_alloc_exit_iff [of 64 p] sp by auto
  have "unat (p_space p) \<le> unat (p_space q) + 64"
  proof (rule pool_alloc_cases [of 64 p])
  qed (use q block_size_node [unfolded block_size_def] in \<open>auto simp: pool_pop_def block_size_node unat_sub_if'\<close>)
  then show ?thesis using al q by auto
qed

lemma create_room:
  assumes "64 \<le> unat (p_space (w_pool w))"
  shows "\<exists>w1 c. create_request r k w = Ret (w1, c) \<and> unat (p_space (w_pool w)) \<le> unat (p_space (w_pool w1)) + 64"
proof (cases "pr_free (w_procs w r)")
  case Nil
  then show ?thesis using node_get_room [OF assms] by (auto simp: create_request_def)
qed (simp add: create_request_def)

lemma to_pending_effect:
  assumes o': "c_owner (w_cookies w c) < w_size w"
  shows "w_cookies (to_pending c w) = w_cookies w" "w_mem (to_pending c w) = w_mem w"
    "w_size (to_pending c w) = w_size w" "pending (to_pending c w) = add_mset c (pending w)"
    "box_inv (to_pending c w) B \<longleftrightarrow> box_inv w (add_mset c B)"
proof -
  let ?r = "c_owner (w_cookies w c)" and ?w = "to_pending c w"
  have w': "w_size ?w = w_size w" "w_procs ?w = (w_procs w)(?r := (w_procs w ?r)\<lparr>pr_pending := c # pr_pending (w_procs w ?r)\<rparr>)"
    by (simp_all add: to_pending_def move_to_pending_def)
  note u = psum_upd [OF o' w']
  show "w_cookies ?w = w_cookies w" "w_mem ?w = w_mem w" "w_size ?w = w_size w"
    by (simp_all add: to_pending_def move_to_pending_def)
  show pe: "pending ?w = add_mset c (pending w)" using u [of pending_of] by (simp add: pending_of_def)
  have "psum free_of ?w = psum free_of w" "unmatched ?w = unmatched w"
    using u [of free_of] u [of unmatched_of] by (simp_all add: free_of_def unmatched_of_def)
  with pe have "places ?w + B = places w + add_mset c B" by (simp add: places_def)
  then show "box_inv ?w B \<longleftrightarrow> box_inv w (add_mset c B)"
    by (intro box_inv_places) (simp_all add: to_pending_def move_to_pending_def)
qed

section \<open>One transfer\<close>

text \<open>The fields of a request, apart from \<^verbatim>\<open>used_\<close> and \<^verbatim>\<open>tag_\<close>; no error so far.\<close>

definition offers :: "world \<Rightarrow> cid \<Rightarrow> nat \<Rightarrow> int \<Rightarrow> iovecs \<Rightarrow> int \<Rightarrow> int \<Rightarrow> bool" where
  "offers w c r buf ty cnt busy \<longleftrightarrow>
     (let k = w_cookies w c
      in c_owner k = r \<and> c_src k = int r \<and> c_buf k = buf \<and> c_iovec k = ty \<and> c_size k = cnt \<and> c_count k = cnt \<and> c_busy k = busy \<and>
         c_err k = 0)"

lemma offers_cong: "w_cookies w' c = w_cookies w c \<Longrightarrow> offers w' c r buf ty cnt busy = offers w c r buf ty cnt busy"
  by (simp add: offers_def)

lemma offers_join: "offers (cookie_join d w) c r buf ty cnt busy = offers w c r buf ty cnt busy"
  by (simp add: offers_def cookie_join_def Let_def)

lemma payload_space: "l \<in> set (payload b ty from n) \<Longrightarrow> fst l = fst b"
  by (auto simp: payload_def elem_locs_def loc_range_def split: if_splits)

definition whole_buf :: "iovecs \<Rightarrow> int \<Rightarrow> bool" where
  "whole_buf ty cnt \<longleftrightarrow> typed_buf ty 0 cnt \<and> iov_len ty \<noteq> 0 \<and> 0 \<le> cnt \<and> cnt < 2 ^ 31"

abbreviation data_locs :: "nat \<Rightarrow> int \<Rightarrow> iovecs \<Rightarrow> int \<Rightarrow> loc list" where
  "data_locs r buf ty cnt \<equiv> payload (Priv r, buf) ty 0 cnt"

lemma length_data: "whole_buf ty cnt \<Longrightarrow> length (payload b ty 0 cnt) = bytes_of ty cnt"
  using typed_bufD [of ty 0 cnt] by (simp add: whole_buf_def length_payload_bytes)

text \<open>Writing into a request's buffer.\<close>

lemma write_same:
  assumes vm: "vm_ok writev" and b: "whole_buf ty cnt" and k: "offers w c r buf ty cnt busy" "1 \<le> busy" "busy < 32768"
    and sep: "separate (payload src ty 0 cnt) (data_locs r buf ty cnt)"
  shows "\<exists>w'. write_to_owner writev c src ty cnt 0 0 w = Ret (w', MPI_SUCCESS) \<and> same_boxes w w' \<and>
    w_mem w' = moved (w_mem w) (payload src ty 0 cnt) (data_locs r buf ty cnt) \<and>
    offers w' c r buf ty cnt (busy - 1) \<and> (\<forall>d. d \<noteq> c \<longrightarrow> w_cookies w' d = w_cookies w d)"
proof -
  have t: "typed_buf ty 0 cnt" "iov_len ty \<noteq> 0" "0 \<le> cnt" "cnt < 2 ^ 31" using b by (auto simp: whole_buf_def)
  let ?k = "w_cookies w c"
  have f: "c_owner ?k = r" "c_buf ?k = buf" "c_iovec ?k = ty" "c_size ?k = cnt" "c_count ?k = cnt" "c_busy ?k = busy" "c_err ?k = 0"
    "c_src ?k = int r"
    using k(1) by (auto simp: offers_def Let_def)
  have "0 < unat (iov_len ty)" using t(2) by (simp add: unat_gt_0)
  then have cnt: "int (bytes_of ty cnt div unat (iov_len ty)) = cnt" using t(3) by (simp add: bytes_of_def)
  let ?w0 = "(upd_cookie c (\<lambda>x. x\<lparr>c_count := min (c_count x) (int (bytes_of ty cnt div unat (iov_len ty)))\<rparr>) w)
     \<lparr>w_mem := moved (w_mem w) (payload src ty 0 cnt) (data_locs r buf ty cnt)\<rparr>"
  have "write_to_owner writev c src ty cnt 0 0 w = Ret (notify_done c MPI_SUCCESS ?w0, MPI_SUCCESS)"
    using write_to_owner_eq [OF vm t(1), of w c 0 src] sep t f by (simp add: owner_buf_def)
  moreover have "same_boxes w (notify_done c MPI_SUCCESS ?w0)"
    by (rule same_boxes_trans [OF _ same_boxes_notify]) (simp add: same_boxes_def)
  moreover have "offers (notify_done c MPI_SUCCESS ?w0) c r buf ty cnt (busy - 1)"
    using f k(2,3) cnt by (simp add: offers_def notify_done_effect Let_def to_i16_id mpi_consts)
  ultimately show ?thesis by (auto simp: notify_done_effect)
qed

text \<open>Reading from a request's buffer.\<close>

lemma read_same:
  assumes vm: "vm_ok readv" and b: "whole_buf ty cnt" and k: "offers w c r buf ty cnt busy" "1 \<le> busy" "busy < 32768"
    and n: "n = cnt \<or> n = 0"
    and sep: "separate (data_locs r buf ty cnt) (payload dst ty 0 cnt)"
  shows "\<exists>w'. read_from_owner readv c dst ty cnt n 0 0 w = Ret (w', MPI_SUCCESS) \<and> same_boxes w w' \<and>
    w_mem w' = moved (w_mem w) (data_locs r buf ty cnt) (payload dst ty 0 cnt) \<and>
    offers w' c r buf ty cnt (busy - 1) \<and> (\<forall>d. d \<noteq> c \<longrightarrow> w_cookies w' d = w_cookies w d)"
proof -
  have t: "typed_buf ty 0 cnt" "iov_len ty \<noteq> 0" "0 \<le> cnt" "cnt < 2 ^ 31" using b by (auto simp: whole_buf_def)
  let ?k = "w_cookies w c"
  have f: "c_owner ?k = r" "c_buf ?k = buf" "c_iovec ?k = ty" "c_size ?k = cnt" "c_count ?k = cnt" "c_busy ?k = busy" "c_err ?k = 0"
    "c_src ?k = int r"
    using k(1) by (auto simp: offers_def Let_def)
  have "0 < unat (iov_len ty)" using t(2) by (simp add: unat_gt_0)
  then have cnt: "read_count ?k ty n 0 = cnt" using t(3) n f by (auto simp: read_count_def bytes_of_def)
  let ?w0 = "w\<lparr>w_mem := moved (w_mem w) (data_locs r buf ty cnt) (payload dst ty 0 cnt)\<rparr>"
  have "take (bytes_of ty cnt) (data_locs r buf ty cnt) = data_locs r buf ty cnt"
    using length_data [OF b, of "(Priv r, buf)"] by simp
  then have "read_from_owner readv c dst ty cnt n 0 0 w = Ret (notify_done c MPI_SUCCESS ?w0, MPI_SUCCESS)"
    using read_from_owner_eq [OF vm, of w c 0 ty 0 cnt n cnt dst] sep t f cnt by (simp add: owner_buf_def)
  moreover have "same_boxes w (notify_done c MPI_SUCCESS ?w0)"
    by (rule same_boxes_trans [OF same_boxes_mem same_boxes_notify])
  moreover have "offers (notify_done c MPI_SUCCESS ?w0) c r buf ty cnt (busy - 1)"
    using f k(2,3) by (simp add: offers_def notify_done_effect Let_def to_i16_id mpi_consts)
  ultimately show ?thesis by (auto simp: notify_done_effect)
qed

lemma moved_whole:
  assumes "separate S D" "length S = length D"
  shows "map (moved m S D) D = map m S" "l \<notin> set D \<Longrightarrow> moved m S D l = m l"
  using moved_read [OF assms(1), of m] moved_other [of l S D m] assms(2) by simp_all

section \<open>The loop over the requests\<close>

text \<open>Requests \<open>cs\<close> of ranks \<open>rk c\<close> for buffers \<open>bf c\<close> that are apart from each other and from \<open>S\<close>.\<close>

definition apart_bufs :: "loc list \<Rightarrow> (cid \<Rightarrow> nat) \<Rightarrow> (cid \<Rightarrow> int) \<Rightarrow> iovecs \<Rightarrow> int \<Rightarrow> cid set \<Rightarrow> bool" where
  "apart_bufs S rk bf ty cnt C \<longleftrightarrow> (\<forall>c \<in> C. separate S (data_locs (rk c) (bf c) ty cnt)) \<and>
     (\<forall>c \<in> C. \<forall>d \<in> C. c \<noteq> d \<longrightarrow> set (data_locs (rk c) (bf c) ty cnt) \<inter> set (data_locs (rk d) (bf d) ty cnt) = {})"

lemma todo_write:
  assumes vm: "vm_ok writev" and b: "whole_buf ty cnt"
    and k: "\<forall>c \<in> set cs. rk c < w_size w \<and> offers w c (rk c) (bf c) ty cnt (busy c) \<and> 1 \<le> busy c \<and> busy c < 32768"
    and ap: "apart_bufs (payload src ty 0 cnt) rk bf ty cnt (set cs)"
    and inv: "box_inv w (mset cs + B)"
  shows "\<exists>w'. todo_loop (\<lambda>c. write_to_owner writev c src ty cnt 0 0) cs w = Ret (w', MPI_SUCCESS) \<and>
    w_size w' = w_size w \<and> w_pool w' = w_pool w \<and> box_inv w' B \<and> pending w' = mset cs + pending w \<and>
    (\<forall>c \<in> set cs. map (w_mem w') (data_locs (rk c) (bf c) ty cnt) = map (w_mem w) (payload src ty 0 cnt) \<and>
       offers w' c (rk c) (bf c) ty cnt (busy c - 1)) \<and>
    (\<forall>l. (\<forall>c \<in> set cs. l \<notin> set (data_locs (rk c) (bf c) ty cnt)) \<longrightarrow> w_mem w' l = w_mem w l) \<and>
    (\<forall>d. d \<notin> set cs \<longrightarrow> w_cookies w' d = w_cookies w d)"
  using k ap inv
proof (induction cs arbitrary: w)
  case (Cons c cs)
  let ?S = "payload src ty 0 cnt" and ?D = "\<lambda>c. data_locs (rk c) (bf c) ty cnt"
  have o': "c_owner (w_cookies w c) < w_size w" using Cons.prems(1) by (simp add: offers_def Let_def)
  note tp = to_pending_effect [OF o']
  have kc: "offers (to_pending c w) c (rk c) (bf c) ty cnt (busy c)" "1 \<le> busy c" "busy c < 32768"
    using Cons.prems(1) tp(1) by (simp_all add: offers_def)
  have sep: "separate ?S (?D c)" using Cons.prems(2) by (simp add: apart_bufs_def)
  obtain w1 where w1: "write_to_owner writev c src ty cnt 0 0 (to_pending c w) = Ret (w1, MPI_SUCCESS)"
    "same_boxes (to_pending c w) w1" "w_mem w1 = moved (w_mem w) ?S (?D c)" "offers w1 c (rk c) (bf c) ty cnt (busy c - 1)"
    "\<forall>d. d \<noteq> c \<longrightarrow> w_cookies w1 d = w_cookies w d"
    using write_same [OF vm b kc sep] tp(1,2) by auto
  have nc: "c \<notin> set cs" using box_inv_distinct [OF Cons.prems(3)] by simp
  have sz: "w_size w1 = w_size w" using same_boxesD(1) [OF w1(2)] tp(3) by simp
  have pw: "w_pool w1 = w_pool w"
    using w1(2) by (simp add: same_boxes_def to_pending_def move_to_pending_def)
  have "box_inv w1 (mset cs + B)" using Cons.prems(3) tp(5) same_boxesD(4) [OF w1(2)] by simp
  moreover have "\<forall>d \<in> set cs. rk d < w_size w1 \<and> offers w1 d (rk d) (bf d) ty cnt (busy d) \<and> 1 \<le> busy d \<and> busy d < 32768"
    using Cons.prems(1) w1(5) nc sz by (metis list.set_intros(2) offers_cong)
  moreover have "apart_bufs ?S rk bf ty cnt (set cs)" using Cons.prems(2) by (simp add: apart_bufs_def)
  ultimately obtain w' where w': "todo_loop (\<lambda>c. write_to_owner writev c src ty cnt 0 0) cs w1 = Ret (w', MPI_SUCCESS)"
    "w_size w' = w_size w1 \<and> w_pool w' = w_pool w1" "box_inv w' B" "pending w' = mset cs + pending w1"
    "\<forall>d \<in> set cs. map (w_mem w') (?D d) = map (w_mem w1) ?S \<and> offers w' d (rk d) (bf d) ty cnt (busy d - 1)"
    "\<forall>l. (\<forall>d \<in> set cs. l \<notin> set (?D d)) \<longrightarrow> w_mem w' l = w_mem w1 l" "\<forall>d. d \<notin> set cs \<longrightarrow> w_cookies w' d = w_cookies w1 d"
    using Cons.IH [of w1] by blast
  have ln: "length ?S = length (?D c)" using length_data [OF b] by simp
  note mv = moved_whole(1) [OF sep ln, of "w_mem w"] moved_whole(2) [OF sep ln, of _ "w_mem w"]
  have S1: "map (w_mem w1) ?S = map (w_mem w) ?S"
    using sep mv(2) w1(3) by (intro map_cong refl) (auto simp: separate_def)
  have "map (w_mem w') (?D c) = map (w_mem w1) (?D c)"
  proof (intro map_cong refl)
    fix l assume "l \<in> set (?D c)"
    then have "\<forall>d \<in> set cs. l \<notin> set (?D d)" using Cons.prems(2) nc by (auto simp: apart_bufs_def)
    then show "w_mem w' l = w_mem w1 l" using w'(6) by blast
  qed
  then have "map (w_mem w') (?D c) = map (w_mem w) ?S" using mv(1) w1(3) by simp
  moreover have "offers w' c (rk c) (bf c) ty cnt (busy c - 1)"
    using w1(4) w'(7) nc offers_cong by metis
  moreover have "w_mem w' l = w_mem w l" if "\<forall>d \<in> set (c # cs). l \<notin> set (?D d)" for l
  proof -
    have "l \<notin> set (?D c)" "\<forall>d \<in> set cs. l \<notin> set (?D d)" using that by simp_all
    then have "w_mem w' l = w_mem w1 l" using w'(6) by blast
    also have "\<dots> = w_mem w l" unfolding w1(3) using \<open>l \<notin> set (?D c)\<close> by (rule mv(2))
    finally show ?thesis .
  qed
  moreover have "pending w' = mset (c # cs) + pending w"
    using w'(4) same_boxesD(3) [OF w1(2)] tp(4) by simp
  moreover have "w_cookies w' d = w_cookies w d" if "d \<notin> set (c # cs)" for d using that w'(7) w1(5) by simp
  ultimately show ?case
    using w1(1) w'(1-3,5) sz pw S1 by (auto simp: mpi_consts)
qed simp

end
