(* ===== verification/Slot_Protocol.thy ===== *)
theory Slot_Protocol
  imports Collect_Inv P2P_Props
begin

text \<open>
  How a call enters and leaves a slot: the rank after \<open>j\<close> others finds the slot with its ticket, new
  requests go to the back of the box, and the request of the root is recognised by its source.
\<close>

section \<open>The ranks of one collective call\<close>

text \<open>All \<open>n\<close> ranks with the same ticket.\<close>

definition same_call :: "nat \<Rightarrow> (nat \<Rightarrow> umpi) \<Rightarrow> 32 word \<Rightarrow> bool" where
  "same_call n us t \<longleftrightarrow> n < 32768 \<and> (\<forall>r < n. u_rank (us r) = r \<and> u_size (us r) = int n \<and> u_ticket (us r) = t)"

definition slot_of :: "32 word \<Rightarrow> nat" where
  "slot_of t = unat (t mod of_nat UMPI_OUTSTANDING_COLLECTIVE_OPERATIONS)"

definition slot_free :: "32 word \<Rightarrow> cworld \<Rightarrow> bool" where
  "slot_free t s \<longleftrightarrow> \<not> k_locked (cw_slots s (slot_of t)) \<and> k_box (cw_slots s (slot_of t)) = []"

text \<open>Unlocked, and either empty with nobody joined or with the ticket of the \<open>j\<close> ranks that have.\<close>

definition slot_after :: "32 word \<Rightarrow> nat \<Rightarrow> collect \<Rightarrow> bool" where
  "slot_after t j k \<longleftrightarrow> \<not> k_locked k \<and> (if j = 0 then k_box k = [] else k_box k \<noteq> [] \<and> k_ticket k = t \<and> k_joined k = int j)"

definition entered :: "32 word \<Rightarrow> nat \<Rightarrow> cworld \<Rightarrow> cworld" where
  "entered t j = upd_slot (slot_of t) (\<lambda>k. k\<lparr>k_locked := True, k_ticket := t, k_joined := int (Suc j)\<rparr>)"

lemma entered_simps [simp]:
  "cw_world (entered t j s) = cw_world s"
  "cw_slots (entered t j s) (slot_of t) = (cw_slots s (slot_of t))\<lparr>k_locked := True, k_ticket := t, k_joined := int (Suc j)\<rparr>"
  by (simp_all add: entered_def upd_slot_def)

lemma enter_slot:
  assumes "same_call n us t" "r < n" "slot_after t j (cw_slots s (slot_of t))"
  shows "get_current_slot (us r) s = Ret ((us r)\<lparr>u_ticket := t + 1\<rparr>, entered t j s, slot_of t)"
proof -
  have u: "u_ticket (us r) = t" using assms by (simp add: same_call_def)
  show ?thesis
  proof (cases "j = 0")
    case True
    then show ?thesis
      using assms(3) unfolding get_current_slot_def u
      by (simp add: slot_of_def [symmetric] Let_def slot_after_def entered_def upd_slot_def fun_eq_iff)
  next
    case False
    let ?k = "cw_slots s (slot_of t)"
    have k: "\<not> k_locked ?k" "k_box ?k \<noteq> []" "k_ticket ?k = t" "k_joined ?k = int j"
      using assms(3) False by (simp_all add: slot_after_def)
    have "?k\<lparr>k_locked := True, k_joined := k_joined ?k + 1\<rparr> =
        ?k\<lparr>k_locked := True, k_ticket := t, k_joined := int (Suc j)\<rparr>"
      using k(3,4) by (cases ?k) simp
    then show ?thesis
      using k(1-3) unfolding get_current_slot_def u entered_def upd_slot_def
      by (simp only: slot_of_def [symmetric] Let_def if_False simp_thms)
  qed
qed

lemma in_slot_enter:
  assumes "same_call n us t" "r < n" "slot_after t j (cw_slots s (slot_of t))"
  shows "in_slot (us r) s f =
    and_then (f ((us r)\<lparr>u_ticket := t + 1\<rparr>) (slot_of t) (entered t j s))
      (\<lambda>(s2, ret, c). Ret (Some ((us r)\<lparr>u_ticket := t + 1\<rparr>), s2, ret, c))"
  by (simp add: in_slot_def enter_slot [OF assms])

lemma slot_simps [simp]:
  "cw_world (unlock i s) = cw_world s" "cw_slots (unlock i s) i = (cw_slots s i)\<lparr>k_locked := False\<rparr>"
  "cw_world (set_world w s) = w" "cw_slots (set_world w s) = cw_slots s"
  "cw_world (upd_slot i f s) = cw_world s" "cw_slots (upd_slot i f s) i = f (cw_slots s i)"
  by (simp_all add: unlock_def upd_slot_def set_world_def)

section \<open>Requests in the box\<close>

lemma collect_create_effect:
  assumes inv: "box_inv (cw_world s) B" and r: "u_rank u < w_size (cw_world s)"
    and sp: "64 \<le> unat (p_space (w_pool (cw_world s)))"
  obtains s2 c where "collect_create u i buf ty sz cnt num s = Ret (s2, c)"
    "cw_slots s2 i = (cw_slots s i)\<lparr>k_box := k_box (cw_slots s i) @ [c]\<rparr>"
    "box_inv (cw_world s2) (add_mset c B)" "c \<notin># B" "w_mem (cw_world s2) = w_mem (cw_world s)"
    "w_size (cw_world s2) = w_size (cw_world s)"
    "w_cookies (cw_world s2) = (w_cookies (cw_world s))
       (c := mk_cookie (u_rank u) buf ty sz cnt (int (u_rank u)) UMPI_TAG_CC num)"
    "unat (p_space (w_pool (cw_world s))) \<le> unat (p_space (w_pool (cw_world s2))) + 64"
proof -
  let ?k = "mk_cookie (u_rank u) buf ty sz cnt (int (u_rank u)) UMPI_TAG_CC num"
  obtain w1 c where w1: "create_request (u_rank u) ?k (cw_world s) = Ret (w1, c)"
    "unat (p_space (w_pool (cw_world s))) \<le> unat (p_space (w_pool w1)) + 64"
    using create_room [OF sp] by blast
  note b = box_create [OF inv r w1(1)]
  show thesis
    by (rule that [of "upd_slot i (\<lambda>k. k\<lparr>k_box := k_box k @ [c]\<rparr>) (set_world w1 s)" c])
      (use b w1 in \<open>simp_all add: collect_create_def\<close>)
qed

lemma mk_cookie_offers:
  assumes "w_cookies w c = mk_cookie r buf ty cnt cnt (int r) tag busy" "int r < 32768" "0 \<le> busy" "busy < 32768"
  shows "offers w c r buf ty cnt busy"
  using assms by (simp add: offers_def mk_cookie_def to_i16_id)

lemma offers_src: "offers w c r buf ty cnt busy \<Longrightarrow> c_src (w_cookies w c) = int r"
  by (simp add: offers_def Let_def)

lemma late_join_none:
  assumes "k_box (cw_slots s i) = map q ds" "\<forall>r \<in> set ds. c_src (cookie_at s (q r)) = int r" "root \<notin> set ds"
  shows "late_join u i (int root) s = None"
  using assms by (cases ds) (auto simp: late_join_def)

lemma late_join_root:
  assumes "k_box (cw_slots s i) = [c]" "c_src (cookie_at s c) = int root"
  shows "late_join u i (int root) s =
    Some (unlock i (if k_joined (cw_slots s i) = u_size u
                    then upd_slot i (\<lambda>k. k\<lparr>k_box := []\<rparr>) (set_world (to_pending c (cookie_join c (cw_world s))) s)
                    else set_world (cookie_join c (cw_world s)) s), c)"
  using assms by (simp add: late_join_def Let_def joined_last_def upd_slot_def set_world_def)

text \<open>The root's beginning, not as the last rank and as the last one.\<close>

lemma root_start_leave:
  assumes "k_joined (cw_slots s i) \<noteq> u_size u"
    and inv: "box_inv (cw_world s) (mset (k_box (cw_slots s i)) + B)" "u_rank u < w_size (cw_world s)"
      "64 \<le> unat (p_space (w_pool (cw_world s)))"
  obtains s2 c where "root_start u i buf ty sz cnt s = Ret (s2, c, k_box (cw_slots s i))"
    "cw_slots s2 i = (cw_slots s i)\<lparr>k_box := [c], k_locked := False\<rparr>"
    "box_inv (cw_world s2) (mset (k_box (cw_slots s i)) + add_mset c B)" "c \<notin> set (k_box (cw_slots s i))"
    "w_mem (cw_world s2) = w_mem (cw_world s)" "w_size (cw_world s2) = w_size (cw_world s)"
    "w_cookies (cw_world s2) = (w_cookies (cw_world s))
       (c := mk_cookie (u_rank u) buf ty sz cnt (int (u_rank u)) UMPI_TAG_CC (u_size u - k_joined (cw_slots s i)))"
    "unat (p_space (w_pool (cw_world s))) \<le> unat (p_space (w_pool (cw_world s2))) + 64"
proof -
  let ?s1 = "upd_slot i (\<lambda>k. k\<lparr>k_box := []\<rparr>) s"
  have 1: "box_inv (cw_world ?s1) (mset (k_box (cw_slots s i)) + B)" "u_rank u < w_size (cw_world ?s1)"
    "64 \<le> unat (p_space (w_pool (cw_world ?s1)))"
    using inv by simp_all
  obtain s2 c where s2: "collect_create u i buf ty sz cnt (u_size u - k_joined (cw_slots s i)) ?s1 = Ret (s2, c)"
    "cw_slots s2 i = (cw_slots ?s1 i)\<lparr>k_box := k_box (cw_slots ?s1 i) @ [c]\<rparr>"
    "box_inv (cw_world s2) (add_mset c (mset (k_box (cw_slots s i)) + B))" "c \<notin># mset (k_box (cw_slots s i)) + B"
    "w_mem (cw_world s2) = w_mem (cw_world ?s1)" "w_size (cw_world s2) = w_size (cw_world ?s1)"
    "w_cookies (cw_world s2) = (w_cookies (cw_world ?s1))
       (c := mk_cookie (u_rank u) buf ty sz cnt (int (u_rank u)) UMPI_TAG_CC (u_size u - k_joined (cw_slots s i)))"
    "unat (p_space (w_pool (cw_world ?s1))) \<le> unat (p_space (w_pool (cw_world s2))) + 64"
    by (rule collect_create_effect [OF 1])
  show thesis
    by (rule that [of "unlock i s2" c]) (use s2 assms(1) in \<open>simp_all add: root_start_def take_box_def Let_def joined_last_def\<close>)
qed

lemma root_start_borrow:
  assumes "k_joined (cw_slots s i) = u_size u" "k_box (cw_slots s i) \<noteq> []"
  shows "root_start u i buf ty sz cnt s =
    Ret (unlock i (set_world (cookie_join (last (k_box (cw_slots s i))) (cw_world s))
           (upd_slot i (\<lambda>k. k\<lparr>k_box := []\<rparr>) s)), last (k_box (cw_slots s i)), k_box (cw_slots s i))"
  using assms by (simp add: root_start_def take_box_def Let_def joined_last_def)

text \<open>The last rank of a scan, when the order of the requests is known.\<close>

lemma scan_last_sorted:
  assumes "k_joined (cw_slots s i) = u_size u" "sort_key (\<lambda>c. c_src (w_cookies (cw_world s) c)) (k_box (cw_slots s i)) = first # rest"
  shows "scan_last f h u i cnt ty c s =
    finish_with (Some c) (unlock i (upd_slot i (\<lambda>k. k\<lparr>k_box := []\<rparr>) s))
      (and_then (read_from_owner (h_readv h) first (Shm, k_sendbuf (cw_slots s i)) ty cnt 0 0 0 (to_pending first (cw_world s)))
        (\<lambda>(w, ret). if ret \<noteq> 0 then drop_todo rest ret w
           else f (Shm, k_sendbuf (cw_slots s i)) (Shm, k_recvbuf (cw_slots s i)) rest w))"
  using assms by (simp add: scan_last_def joined_last_def take_box_def Let_def cookie_at_def case_prod_beta cong: if_cong)

section \<open>Writing to everyone\<close>

definition finished :: "world \<Rightarrow> cid \<Rightarrow> bool" where
  "finished w c \<longleftrightarrow> c_busy (w_cookies w c) = 0 \<and> c_err (w_cookies w c) = 0"

lemma offers_finished: "offers w c r buf ty cnt 0 \<Longrightarrow> finished w c"
  by (simp add: offers_def finished_def Let_def)

lemma finished_cong: "w_cookies w' c = w_cookies w c \<Longrightarrow> finished w' c = finished w c"
  by (simp add: finished_def)

lemma data_locs_apart: "r \<noteq> r' \<Longrightarrow> set (payload (Priv r, x) ty 0 cnt) \<inter> set (payload (Priv r', y) ty' 0 cnt') = {}"
  by (auto dest!: payload_space)

text \<open>Rank \<open>r0\<close> writes the data at \<open>src\<close> to the ranks \<open>ds\<close>, whose requests \<open>q\<close> wait for one transfer.\<close>

lemma todo_write_ranks:
  assumes vm: "vm_ok writev" and b: "whole_buf ty cnt" and ds: "distinct ds" "\<forall>r \<in> set ds. r < w_size w" "r0 \<notin> set ds"
    and d: "\<forall>r \<in> set ds. distinct (data_locs r (bf r) ty cnt)"
    and of': "\<forall>r \<in> set ds. offers w (q r) r (bf r) ty cnt 1" and inv: "box_inv w (mset (map q ds) + B)"
  shows "\<exists>w'. todo_loop (\<lambda>c. write_to_owner writev c (Priv r0, src) ty cnt 0 0) (map q ds) w = Ret (w', MPI_SUCCESS) \<and>
    w_size w' = w_size w \<and> w_pool w' = w_pool w \<and> box_inv w' B \<and>
    (\<forall>r \<in> set ds. map (w_mem w') (data_locs r (bf r) ty cnt) = map (w_mem w) (data_locs r0 src ty cnt) \<and> finished w' (q r)) \<and>
    (\<forall>l. (\<forall>r \<in> set ds. l \<notin> set (data_locs r (bf r) ty cnt)) \<longrightarrow> w_mem w' l = w_mem w l) \<and>
    (\<forall>d. d \<notin> q ` set ds \<longrightarrow> w_cookies w' d = w_cookies w d)"
proof -
  let ?rk = "the_inv_into (set ds) q" and ?S = "data_locs r0 src ty cnt"
  have "distinct (map q ds)" using box_inv_distinct [OF inv] by simp
  then have inj: "inj_on q (set ds)" by (simp add: distinct_map)
  have rk: "?rk (q r) = r" if "r \<in> set ds" for r using that inj by (simp add: the_inv_into_f_f)
  have k: "\<forall>c \<in> set (map q ds). ?rk c < w_size w \<and>
      offers w c (?rk c) (bf (?rk c)) ty cnt 1 \<and> (1::int) \<le> 1 \<and> (1::int) < 32768"
    using rk of' ds by auto
  have ap: "apart_bufs ?S ?rk (\<lambda>c. bf (?rk c)) ty cnt (set (map q ds))"
    unfolding apart_bufs_def
  proof (intro conjI ballI impI)
    fix c assume "c \<in> set (map q ds)"
    then obtain r where r: "r \<in> set ds" "c = q r" by auto
    then have "?rk c = r" "r \<noteq> r0" using rk ds(3) by auto
    then show "separate ?S (data_locs (?rk c) (bf (?rk c)) ty cnt)"
      using d r(1) data_locs_apart [of r0 r src ty cnt "bf r" ty cnt] by (simp add: separate_def)
  next
    fix c d assume "c \<in> set (map q ds)" "d \<in> set (map q ds)" "c \<noteq> d"
    then show "set (data_locs (?rk c) (bf (?rk c)) ty cnt) \<inter> set (data_locs (?rk d) (bf (?rk d)) ty cnt) = {}"
      using rk by (intro data_locs_apart) auto
  qed
  obtain w' where w': "todo_loop (\<lambda>c. write_to_owner writev c (Priv r0, src) ty cnt 0 0)
      (map q ds) w = Ret (w', MPI_SUCCESS)" "w_size w' = w_size w" "w_pool w' = w_pool w" "box_inv w' B"
    "\<forall>c \<in> set (map q ds). map (w_mem w') (data_locs (?rk c) (bf (?rk c)) ty cnt) = map (w_mem w) ?S \<and>
       offers w' c (?rk c) (bf (?rk c)) ty cnt (1 - 1)"
    "\<forall>l. (\<forall>c \<in> set (map q ds). l \<notin> set (data_locs (?rk c) (bf (?rk c)) ty cnt)) \<longrightarrow> w_mem w' l = w_mem w l"
    "\<forall>d. d \<notin> set (map q ds) \<longrightarrow> w_cookies w' d = w_cookies w d"
    using todo_write [OF vm b k ap inv] by blast
  have "map (w_mem w') (data_locs r (bf r) ty cnt) = map (w_mem w) ?S \<and> finished w' (q r)" if "r \<in> set ds" for r
    using w'(5) rk that by (auto intro: offers_finished)
  then show ?thesis using w'(1-4,6,7) rk by (intro exI [of _ w']) auto
qed

section \<open>The slot between two calls\<close>

text \<open>
  After the ranks \<open>ds\<close> have called, with room in the pool for the requests of the others and \<open>B\<close> the
  requests in boxes elsewhere.
\<close>

definition slot_frame :: "nat \<Rightarrow> 32 word \<Rightarrow> cid multiset \<Rightarrow> nat list \<Rightarrow> cworld \<Rightarrow> bool" where
  "slot_frame n t B ds s \<longleftrightarrow>
     w_size (cw_world s) = n \<and> distinct ds \<and> set ds \<subseteq> {..<n} \<and>
     64 * (n - length ds) \<le> unat (p_space (w_pool (cw_world s))) \<and>
     box_inv (cw_world s) (mset (k_box (cw_slots s (slot_of t))) + B) \<and>
     (length ds < n \<longrightarrow> slot_after t (length ds) (cw_slots s (slot_of t))) \<and> \<not> k_locked (cw_slots s (slot_of t))"

lemma slot_frame_not_all: "slot_frame n t B ds s \<Longrightarrow> r < n \<Longrightarrow> r \<notin> set ds \<Longrightarrow> length ds < n"
proof -
  assume "slot_frame n t B ds s" "r < n" "r \<notin> set ds"
  then have "set ds \<subset> {..<n}" "card (set ds) = length ds"
    by (auto simp: slot_frame_def distinct_card)
  then show ?thesis using psubset_card_mono [of "{..<n}" "set ds"] by simp
qed

lemma slot_frame_space:
  assumes "slot_frame n t B ds s" "r < n" "r \<notin> set ds"
  shows "64 \<le> unat (p_space (w_pool (cw_world s)))"
    "64 * (n - length (ds @ [r])) + 64 \<le> unat (p_space (w_pool (cw_world s)))"
    "distinct (ds @ [r])" "set (ds @ [r]) \<subseteq> {..<n}"
proof -
  have "length ds < n" by (rule slot_frame_not_all [OF assms])
  then have "64 * (n - length (ds @ [r])) + 64 = 64 * (n - length ds)" by simp
  then show le: "64 * (n - length (ds @ [r])) + 64 \<le> unat (p_space (w_pool (cw_world s)))"
    using assms by (simp only: slot_frame_def)
  then show "64 \<le> unat (p_space (w_pool (cw_world s)))" by simp
  show "distinct (ds @ [r])" "set (ds @ [r]) \<subseteq> {..<n}" using assms by (auto simp: slot_frame_def)
qed

lemma slot_frame_start:
  assumes "w_size (cw_world s) = n" "box_inv (cw_world s) B" "slot_free t s"
    "64 * n \<le> unat (p_space (w_pool (cw_world s)))"
  shows "slot_frame n t B [] s"
  using assms by (simp add: slot_frame_def slot_free_def slot_after_def)

lemma set_world_same [simp]: "set_world (cw_world s) s = s"
  by (simp add: set_world_def)

text \<open>A rank that has entered puts a request at the back of the box and leaves.\<close>

lemma slot_frame_create:
  assumes fr: "slot_frame n t B ds s" and r: "r < n" "r \<notin> set ds" and box: "k_box (cw_slots s (slot_of t)) = map q ds"
    and w1: "same_boxes (cw_world s) w1" and u: "u_rank u = r"
  obtains s2 c where "collect_create u (slot_of t) buf ty sz cnt num (set_world w1 (entered t (length ds) s)) = Ret (s2, c)"
    "slot_frame n t B (ds @ [r]) (unlock (slot_of t) s2)" "k_box (cw_slots s2 (slot_of t)) = map (q(r := c)) (ds @ [r])"
    "c \<notin> q ` set ds" "w_mem (cw_world s2) = w_mem w1"
    "w_cookies (cw_world s2) = (w_cookies w1)(c := mk_cookie r buf ty sz cnt (int r) UMPI_TAG_CC num)"
proof -
  let ?i = "slot_of t" and ?s1 = "set_world w1 (entered t (length ds) s)"
  note sp = slot_frame_space [OF fr r]
  have bi: "box_inv (cw_world ?s1) (mset (map q ds) + B)" "u_rank u < w_size (cw_world ?s1)" "64 \<le> unat (p_space (w_pool (cw_world ?s1)))"
    using fr box u r(1) sp(1) same_boxesD(4) [OF w1] w1 by (simp_all add: slot_frame_def same_boxes_def)
  obtain s2 c where s2: "collect_create u ?i buf ty sz cnt num ?s1 = Ret (s2, c)"
    "cw_slots s2 ?i = (cw_slots ?s1 ?i)\<lparr>k_box := k_box (cw_slots ?s1 ?i) @ [c]\<rparr>"
    "box_inv (cw_world s2) (add_mset c (mset (map q ds) + B))" "c \<notin># mset (map q ds) + B"
    "w_mem (cw_world s2) = w_mem (cw_world ?s1)" "w_size (cw_world s2) = w_size (cw_world ?s1)"
    "w_cookies (cw_world s2) = (w_cookies (cw_world ?s1))(c := mk_cookie (u_rank u) buf ty sz cnt (int (u_rank u)) UMPI_TAG_CC num)"
    "unat (p_space (w_pool (cw_world ?s1))) \<le> unat (p_space (w_pool (cw_world s2))) + 64"
    by (rule collect_create_effect [OF bi])
  have q': "map (q(r := c)) (ds @ [r]) = map q ds @ [c]" using r(2) by auto
  have bx: "k_box (cw_slots s2 ?i) = map (q(r := c)) (ds @ [r])" unfolding q' using s2(2) box by simp
  have "slot_frame n t B (ds @ [r]) (unlock ?i s2)"
    unfolding slot_frame_def
  proof (intro conjI)
    have "k_box (cw_slots (unlock ?i s2) ?i) = map q ds @ [c]" using bx unfolding q' by simp
    then show "box_inv (cw_world (unlock ?i s2)) (mset (k_box (cw_slots (unlock ?i s2) ?i)) + B)" using s2(3) by simp
    show "length (ds @ [r]) < n \<longrightarrow> slot_after t (length (ds @ [r])) (cw_slots (unlock ?i s2) ?i)"
      using s2(2) by (simp add: slot_after_def)
    show "64 * (n - length (ds @ [r])) \<le> unat (p_space (w_pool (cw_world (unlock ?i s2))))"
      using sp(2) s2(8) w1 by (simp add: same_boxes_def)
    show "w_size (cw_world (unlock ?i s2)) = n" using fr s2(6) w1 by (simp add: slot_frame_def same_boxes_def)
  qed (use sp(3,4) in simp_all)
  then show thesis using that [OF s2(1) _ bx] s2(4,5,7) u by auto
qed

lemma collect_create_slot:
  "collect_create u i buf ty sz cnt num s = Ret (s2, c) \<Longrightarrow>
    cw_slots s2 i = (cw_slots s i)\<lparr>k_box := k_box (cw_slots s i) @ [c]\<rparr>"
  by (auto simp: collect_create_def and_then_Ret_iff)

section \<open>One call after the other\<close>

text \<open>The ranks \<open>rs\<close> make the calls \<open>f\<close>; their results in that order.\<close>

fun calls_all :: "(nat \<Rightarrow> cworld \<Rightarrow> call) \<Rightarrow> nat list \<Rightarrow> cworld \<Rightarrow> (cworld \<times> (int \<times> cid option) list) outcome" where
  "calls_all f [] s = Ret (s, [])"
| "calls_all f (r # rs) s =
     and_then (f r s) (\<lambda>(_, s1, ret, c). and_then (calls_all f rs s1) (\<lambda>(s2, out). Ret (s2, (ret, c) # out)))"

lemma calls_all_order:
  assumes call: "\<And>ds q s r. P ds q s \<Longrightarrow> \<exists>rs. order = ds @ r # rs \<Longrightarrow>
    \<exists>u s2 c. f r s = Ret (u, s2, MPI_SUCCESS, Some c) \<and> P (ds @ [r]) (q(r := c)) s2"
    and d: "distinct order"
  shows "P ds q s \<Longrightarrow> order = ds @ rs \<Longrightarrow>
    \<exists>s' q'. calls_all f rs s = Ret (s', map (\<lambda>r. (MPI_SUCCESS, Some (q' r))) rs) \<and> P order q' s' \<and>
      (\<forall>r. r \<notin> set rs \<longrightarrow> q' r = q r)"
proof (induction rs arbitrary: ds q s)
  case (Cons r rs)
  obtain u s1 c where c: "f r s = Ret (u, s1, MPI_SUCCESS, Some c)" "P (ds @ [r]) (q(r := c)) s1"
    using call [OF Cons.prems(1)] Cons.prems(2) by blast
  have o': "order = (ds @ [r]) @ rs" using Cons.prems(2) by simp
  obtain s' q' where q': "calls_all f rs s1 = Ret (s', map (\<lambda>r. (MPI_SUCCESS, Some (q' r))) rs)" "P order q' s'"
    "\<forall>x. x \<notin> set rs \<longrightarrow> q' x = (q(r := c)) x"
    using Cons.IH [OF c(2) o'] by blast
  have "r \<notin> set rs" using d Cons.prems(2) by simp
  then have "q' r = c" using q'(3) by simp
  then show ?case using c(1) q' by (intro exI [of _ s'] exI [of _ q']) auto
qed auto

lemma calls_all_inv:
  assumes call: "\<And>ds q s r. P ds q s \<Longrightarrow> r < n \<Longrightarrow> r \<notin> set ds \<Longrightarrow>
    \<exists>u s2 c. f r s = Ret (u, s2, MPI_SUCCESS, Some c) \<and> P (ds @ [r]) (q(r := c)) s2"
    and st: "P ds q s" and rs: "distinct (ds @ rs)" "set rs \<subseteq> {..<n}"
  shows "\<exists>s' q'. calls_all f rs s = Ret (s', map (\<lambda>r. (MPI_SUCCESS, Some (q' r))) rs) \<and> P (ds @ rs) q' s' \<and>
      (\<forall>r. r \<notin> set rs \<longrightarrow> q' r = q r)"
proof -
  let ?P = "\<lambda>ds' q s. P ds' q s \<and> (\<exists>xs. ds' = ds @ xs)"
  have "\<exists>u s2 c. f r s = Ret (u, s2, MPI_SUCCESS, Some c) \<and> ?P (ds' @ [r]) (q(r := c)) s2"
    if p: "?P ds' q s" and o': "\<exists>ys. ds @ rs = ds' @ r # ys" for ds' q s r
  proof -
    obtain xs ys where xs: "ds' = ds @ xs" "ds @ rs = ds' @ r # ys" using p o' by blast
    then have "rs = xs @ r # ys" by simp
    then have "r < n" "r \<notin> set ds'" using rs xs(1) by auto
    with call [of ds' q s r] p xs(1) show ?thesis by auto
  qed
  from calls_all_order [of ?P "ds @ rs" f ds q s rs, OF this rs(1)] st show ?thesis by auto
qed

section \<open>A concrete start\<close>

text \<open>\<open>n\<close> ranks with nothing under way, and memory \<open>m\<close>; the host copies with \<open>vm_copy\<close>.\<close>

definition demo_host :: host where
  "demo_host = \<lparr>h_writev = vm_copy, h_readv = vm_copy, h_in_place = 1, h_float = (\<lambda>k i a b. a)\<rparr>"

definition demo_ranks :: "nat \<Rightarrow> nat \<Rightarrow> umpi" where
  "demo_ranks n r = \<lparr>u_rank = r, u_size = int n, u_name = ''host:0'', u_name_len = 6, u_ticket = 0\<rparr>"

definition demo_cworld :: "nat \<Rightarrow> mem \<Rightarrow> cworld" where
  "demo_cworld n m = \<lparr>cw_world = demo_world\<lparr>w_size := n, w_mem := m\<rparr>, cw_slots = (\<lambda>_. new_collect 0 64)\<rparr>"

lemma demo_ranks_call: "n < 32768 \<Longrightarrow> same_call n (demo_ranks n) 0"
  by (simp add: same_call_def demo_ranks_def)

lemma demo_pool_space: "unat (p_space demo_pool) = 4096"
  by (simp add: demo_pool_def) code_simp

lemma demo_cworld_start:
  "w_size (cw_world (demo_cworld n m)) = n" "w_mem (cw_world (demo_cworld n m)) = m"
  "box_inv (cw_world (demo_cworld n m)) {#}" "slot_free 0 (demo_cworld n m)"
  "unat (p_space (w_pool (cw_world (demo_cworld n m)))) = 4096"
proof -
  have "node_inv demo_pool {}" using demo_initial by (simp add: initial_def demo_start_def demo_world_def)
  moreover have "psum f (cw_world (demo_cworld n m)) = {#}" if "\<And>r. f (new_process r) = {#}" for f
    using that by (simp add: psum_def demo_cworld_def demo_world_def)
  then have "places (cw_world (demo_cworld n m)) = {#}"
    by (simp add: places_def free_of_def unmatched_of_def pending_of_def new_process_def)
  ultimately show "box_inv (cw_world (demo_cworld n m)) {#}"
    by (simp add: box_inv_def demo_cworld_def demo_world_def)
  show "w_size (cw_world (demo_cworld n m)) = n" "w_mem (cw_world (demo_cworld n m)) = m"
    "slot_free 0 (demo_cworld n m)" "unat (p_space (w_pool (cw_world (demo_cworld n m)))) = 4096"
    using demo_pool_space by (simp_all add: demo_cworld_def slot_free_def new_collect_def demo_world_def)
qed

end
