(* ===== verification/Rooted.thy ===== *)
theory Rooted
  imports Slot_Protocol
begin

text \<open>
  The collective operations with a root (broadcast, gather, gatherv, scatter) have one protocol: ranks that come
  before the root leave a request, the root serves these and leaves a request of its own, and the ranks
  that come later join it. They differ in the transfers. The locale \<open>rooted_transfers\<close> states what the
  transfers of an operation do; the run of the operation, in any order of arrival, follows.
\<close>

section \<open>An operation with a root\<close>

text \<open>
  \<open>rt_early r\<close> is what rank \<open>r\<close> puts into its request (buffer, type, count); the next four fields are the
  root's; \<open>rt_displs\<close> is what the root stores in the slot, if it does. Rank \<open>r\<close>'s part of the operation
  moves the bytes at \<open>rt_src r\<close> to \<open>rt_dst r\<close>, for the root the copy of its own part.
\<close>

record rooted =
  rt_n :: nat
  rt_ticket :: "32 word"
  rt_root :: nat
  rt_early :: "nat \<Rightarrow> int \<times> iovecs \<times> int"
  rt_buf :: int
  rt_type :: iovecs
  rt_size :: int
  rt_cnt :: int
  rt_displs :: "int list option"
  rt_src :: "nat \<Rightarrow> loc list"
  rt_dst :: "nat \<Rightarrow> loc list"

definition rooted_ok :: "rooted \<Rightarrow> bool" where
  "rooted_ok v \<longleftrightarrow> 2 \<le> rt_n v \<and> rt_n v < 32768 \<and> rt_root v < rt_n v \<and>
     (\<forall>r < rt_n v. distinct (rt_dst v r) \<and> length (rt_src v r) = length (rt_dst v r) \<and>
        (\<forall>x < rt_n v. set (rt_src v r) \<inter> set (rt_dst v x) = {} \<and> (r \<noteq> x \<longrightarrow> set (rt_dst v r) \<inter> set (rt_dst v x) = {})))"

lemma rooted_okD:
  assumes "rooted_ok v" "r < rt_n v"
  shows "separate (rt_src v r) (rt_dst v r)" "length (rt_src v r) = length (rt_dst v r)"
    "x < rt_n v \<Longrightarrow> set (rt_src v r) \<inter> set (rt_dst v x) = {}"
    "x < rt_n v \<Longrightarrow> r \<noteq> x \<Longrightarrow> set (rt_dst v r) \<inter> set (rt_dst v x) = {}"
  using assms unfolding rooted_ok_def separate_def by blast+

text \<open>The fields of a request, apart from \<^verbatim>\<open>used_\<close> and \<^verbatim>\<open>tag_\<close>; no error so far.\<close>

definition request_is :: "world \<Rightarrow> cid \<Rightarrow> nat \<Rightarrow> int \<Rightarrow> iovecs \<Rightarrow> int \<Rightarrow> int \<Rightarrow> int \<Rightarrow> bool" where
  "request_is w c r buf ty sz cnt busy \<longleftrightarrow>
     (let k = w_cookies w c
      in c_owner k = r \<and> c_src k = int r \<and> c_buf k = buf \<and> c_iovec k = ty \<and> c_size k = sz \<and> c_count k = cnt \<and> c_busy k = busy \<and>
         c_err k = 0)"

lemma request_is_cong: "w_cookies w' c = w_cookies w c \<Longrightarrow> request_is w' c r buf ty sz cnt busy = request_is w c r buf ty sz cnt busy"
  by (simp add: request_is_def)

lemma request_is_join: "request_is (cookie_join d w) c r buf ty sz cnt busy = request_is w c r buf ty sz cnt busy"
  by (simp add: request_is_def cookie_join_def Let_def)

lemma request_isD:
  assumes "request_is w c r buf ty sz cnt busy"
  shows "c_owner (w_cookies w c) = r" "c_src (w_cookies w c) = int r"
  using assms by (simp_all add: request_is_def Let_def)

lemma request_is_finished: "request_is w c r buf ty sz cnt 0 \<Longrightarrow> finished w c"
  by (simp add: request_is_def finished_def Let_def)

lemma mk_cookie_request:
  assumes "w_cookies w c = mk_cookie r buf ty sz cnt (int r) tag busy" "int r < 32768" "0 \<le> busy" "busy < 32768"
  shows "request_is w c r buf ty sz cnt busy"
  using assms by (simp add: request_is_def mk_cookie_def to_i16_id)

definition early_req :: "rooted \<Rightarrow> world \<Rightarrow> nat \<Rightarrow> cid \<Rightarrow> bool" where
  "early_req v w r c \<longleftrightarrow> (case rt_early v r of (buf, ty, cnt) \<Rightarrow> request_is w c r buf ty cnt cnt 1)"

definition root_req :: "rooted \<Rightarrow> world \<Rightarrow> cid \<Rightarrow> int \<Rightarrow> bool" where
  "root_req v w c busy \<longleftrightarrow> request_is w c (rt_root v) (rt_buf v) (rt_type v) (rt_size v) (rt_cnt v) busy"

lemma early_req_cong: "w_cookies w' c = w_cookies w c \<Longrightarrow> early_req v w' r c = early_req v w r c"
  by (cases "rt_early v r") (simp add: early_req_def request_is_def)

lemma early_reqD:
  assumes "early_req v w r c" shows "c_owner (w_cookies w c) = r" "c_src (w_cookies w c) = int r"
  using assms request_isD by (auto simp: early_req_def split: prod.splits)

definition displs_set :: "rooted \<Rightarrow> int list \<Rightarrow> bool" where
  "displs_set v ds \<longleftrightarrow> (\<forall>d. rt_displs v = Some d \<longrightarrow> ds = d)"

text \<open>A transfer of the bytes at \<open>S\<close> to \<open>D\<close> that changes request \<open>c\<close> only.\<close>

definition transfers :: "(world \<times> int) outcome \<Rightarrow> world \<Rightarrow> cid \<Rightarrow> loc list \<Rightarrow> loc list \<Rightarrow> (world \<Rightarrow> bool) \<Rightarrow> bool" where
  "transfers out w c S D P \<longleftrightarrow> (\<exists>w'. out = Ret (w', MPI_SUCCESS) \<and> same_boxes w w' \<and> w_mem w' = moved (w_mem w) S D \<and> P w' \<and>
     (\<forall>d. d \<noteq> c \<longrightarrow> w_cookies w' d = w_cookies w d))"

section \<open>The calls, up to the transfers\<close>

definition member_call ::
  "(int list \<Rightarrow> cid \<Rightarrow> world \<Rightarrow> (world \<times> int) outcome) \<Rightarrow> umpi \<Rightarrow> nat \<Rightarrow> int \<times> iovecs \<times> int \<Rightarrow> int \<Rightarrow> cworld \<Rightarrow> started" where
  "member_call f u i req root s =
     (case late_join u i root s of
        Some (s1, c) \<Rightarrow> finish_with (Some c) s1 (f (k_displs (cw_slots s1 i)) c (cw_world s1))
      | None \<Rightarrow> (case req of (buf, ty, cnt) \<Rightarrow>
          and_then (collect_create u i buf ty cnt cnt 1 s) (\<lambda>(s1, c). Ret (unlock i s1, MPI_SUCCESS, Some c))))"

definition root_call :: "(cid \<Rightarrow> world \<Rightarrow> (world \<times> int) outcome) \<Rightarrow> umpi \<Rightarrow> nat \<Rightarrow> int \<Rightarrow> iovecs \<Rightarrow> int \<Rightarrow> int \<Rightarrow> cworld \<Rightarrow> started" where
  "root_call f u i buf ty sz cnt s =
     and_then (root_start u i buf ty sz cnt s) (\<lambda>(s1, c, todo). finish_with (Some c) s1 (todo_loop f todo (cw_world s1)))"

section \<open>The state between two calls\<close>

definition rooted_inv :: "rooted \<Rightarrow> mem \<Rightarrow> cid multiset \<Rightarrow> nat list \<Rightarrow> (nat \<Rightarrow> cid) \<Rightarrow> cworld \<Rightarrow> bool" where
  "rooted_inv v m0 B ds q s \<longleftrightarrow> slot_frame (rt_n v) (rt_ticket v) B ds s \<and>
     (let w = cw_world s; k = cw_slots s (slot_of (rt_ticket v)); c = q (rt_root v)
      in if rt_root v \<in> set ds
         then (\<forall>r \<in> set ds. map (w_mem w) (rt_dst v r) = map m0 (rt_src v r)) \<and>
           (\<forall>l. (\<forall>r \<in> set ds. l \<notin> set (rt_dst v r)) \<longrightarrow> w_mem w l = m0 l) \<and>
           (if length ds < rt_n v
            then k_box k = [c] \<and> root_req v w c (int (rt_n v - length ds)) \<and> displs_set v (k_displs k) \<and>
              (\<forall>r \<in> set ds. q r = c \<or> finished w (q r))
            else k_box k = [] \<and> (\<forall>r \<in> set ds. finished w (q r)))
         else k_box k = map q ds \<and> w_mem w = m0 \<and> (\<forall>r \<in> set ds. early_req v w r (q r)))"

abbreviation rt_slot :: "rooted \<Rightarrow> cworld \<Rightarrow> collect" where
  "rt_slot v s \<equiv> cw_slots s (slot_of (rt_ticket v))"

lemma rooted_before:
  assumes "rooted_inv v m0 B ds q s" "rt_root v \<notin> set ds"
  shows "slot_frame (rt_n v) (rt_ticket v) B ds s" "k_box (rt_slot v s) = map q ds" "w_mem (cw_world s) = m0"
    "\<forall>r \<in> set ds. early_req v (cw_world s) r (q r)" "box_inv (cw_world s) (mset (map q ds) + B)" "w_size (cw_world s) = rt_n v"
  using assms by (auto simp: rooted_inv_def Let_def slot_frame_def)

lemma rooted_after:
  assumes "rooted_inv v m0 B ds q s" "rt_root v \<in> set ds" "length ds < rt_n v"
  shows "slot_frame (rt_n v) (rt_ticket v) B ds s" "k_box (rt_slot v s) = [q (rt_root v)]"
    "\<And>r. r \<in> set ds \<Longrightarrow> map (w_mem (cw_world s)) (rt_dst v r) = map m0 (rt_src v r)"
    "\<And>l. (\<And>r. r \<in> set ds \<Longrightarrow> l \<notin> set (rt_dst v r)) \<Longrightarrow> w_mem (cw_world s) l = m0 l"
    "root_req v (cw_world s) (q (rt_root v)) (int (rt_n v - length ds))" "displs_set v (k_displs (rt_slot v s))"
    "\<And>r. r \<in> set ds \<Longrightarrow> q r = q (rt_root v) \<or> finished (cw_world s) (q r)"
  using assms unfolding rooted_inv_def Let_def by auto

lemma rooted_all:
  assumes "rooted_inv v m0 B rs q s" "distinct rs" "set rs = {..<rt_n v}" "rt_root v < rt_n v"
  shows "\<forall>r < rt_n v. map (w_mem (cw_world s)) (rt_dst v r) = map m0 (rt_src v r) \<and> finished (cw_world s) (q r)"
    "\<forall>l. (\<forall>r < rt_n v. l \<notin> set (rt_dst v r)) \<longrightarrow> w_mem (cw_world s) l = m0 l"
    "slot_free (rt_ticket v) s \<and> box_inv (cw_world s) B"
proof -
  have "length rs = rt_n v" using assms(2,3) distinct_card [of rs] by simp
  then have i: "slot_frame (rt_n v) (rt_ticket v) B rs s" "k_box (rt_slot v s) = []"
    "\<forall>r \<in> set rs. map (w_mem (cw_world s)) (rt_dst v r) = map m0 (rt_src v r)" "\<forall>r \<in> set rs. finished (cw_world s) (q r)"
    "\<forall>l. (\<forall>r \<in> set rs. l \<notin> set (rt_dst v r)) \<longrightarrow> w_mem (cw_world s) l = m0 l"
    using assms(1,3,4) unfolding rooted_inv_def Let_def by simp_all
  show "slot_free (rt_ticket v) s \<and> box_inv (cw_world s) B" using i(1,2) by (simp add: slot_frame_def slot_free_def)
  show "\<forall>r < rt_n v. map (w_mem (cw_world s)) (rt_dst v r) = map m0 (rt_src v r) \<and> finished (cw_world s) (q r)"
    using i(3,4) assms(3) by simp
  show "\<forall>l. (\<forall>r < rt_n v. l \<notin> set (rt_dst v r)) \<longrightarrow> w_mem (cw_world s) l = m0 l" using i(5) unfolding assms(3) by simp
qed

lemma rooted_start:
  assumes "w_size (cw_world s) = rt_n v" "box_inv (cw_world s) B" "slot_free (rt_ticket v) s"
    "64 * rt_n v \<le> unat (p_space (w_pool (cw_world s)))"
  shows "rooted_inv v (w_mem (cw_world s)) B [] q s"
  using slot_frame_start [OF assms] assms(3) by (simp add: rooted_inv_def slot_free_def)

section \<open>A rank before the root\<close>

lemma early_call:
  assumes inv: "rooted_inv v m0 B ds q s" and n: "rt_n v < 32768" and r: "r < rt_n v" "r \<notin> set ds"
    and early: "r \<noteq> rt_root v" "rt_root v \<notin> set ds" and u: "u_rank u = r"
  shows "\<exists>s2 c. member_call f u (slot_of (rt_ticket v)) (rt_early v r) (int (rt_root v))
      (entered (rt_ticket v) (length ds) s) = Ret (s2, MPI_SUCCESS, Some c) \<and> rooted_inv v m0 B (ds @ [r]) (q(r := c)) s2"
proof -
  let ?i = "slot_of (rt_ticket v)" and ?s1 = "entered (rt_ticket v) (length ds) s"
  obtain buf ty cnt where rq: "rt_early v r = (buf, ty, cnt)" by (cases "rt_early v r")
  note wt = rooted_before [OF inv early(2)] and sp = slot_frame_space [OF rooted_before(1) [OF inv early(2)] r]
  have none: "late_join u ?i (int (rt_root v)) ?s1 = None"
    using wt(2,4) early(2) by (intro late_join_none [of _ _ q ds]) (auto simp: cookie_at_def dest: early_reqD(2))
  have same: "set_world (cw_world s) ?s1 = ?s1" using set_world_same [of ?s1] by simp
  obtain s2 c where s2: "collect_create u ?i buf ty cnt cnt 1 ?s1 = Ret (s2, c)" "slot_frame (rt_n v) (rt_ticket v) B (ds @ [r]) (unlock ?i s2)"
    "k_box (rt_slot v s2) = map (q(r := c)) (ds @ [r])" "c \<notin> q ` set ds" "w_mem (cw_world s2) = w_mem (cw_world s)"
    "w_cookies (cw_world s2) = (w_cookies (cw_world s))(c := mk_cookie r buf ty cnt cnt (int r) UMPI_TAG_CC 1)"
    by (rule slot_frame_create [OF wt(1) r wt(2) same_boxes_refl u, unfolded same])
  have new: "early_req v (cw_world s2) r c"
    using s2(6) n r(1) mk_cookie_request [of "cw_world s2" c r buf ty cnt cnt UMPI_TAG_CC 1] by (simp add: early_req_def rq)
  have old: "early_req v (cw_world s2) x (q x)" if x: "x \<in> set ds" for x
  proof -
    have "q x \<noteq> c" using s2(4) x by auto
    then have "w_cookies (cw_world s2) (q x) = w_cookies (cw_world s) (q x)" using s2(6) by simp
    from early_req_cong [OF this] show ?thesis using wt(4) x by blast
  qed
  have "\<forall>x \<in> set (ds @ [r]). early_req v (cw_world (unlock ?i s2)) x ((q(r := c)) x)" using new old r(2) by auto
  then have "rooted_inv v m0 B (ds @ [r]) (q(r := c)) (unlock ?i s2)"
    using early s2(2,3,5) wt(3) by (simp add: rooted_inv_def Let_def del: map_append)
  moreover have "member_call f u ?i (rt_early v r) (int (rt_root v)) ?s1 = Ret (unlock ?i s2, MPI_SUCCESS, Some c)"
    using none s2(1) by (simp add: member_call_def rq)
  ultimately show ?thesis by blast
qed

section \<open>The loop over the box\<close>

text \<open>Every request of the box is served, each with its own source and destination.\<close>

definition apart_parts :: "(nat \<Rightarrow> loc list) \<Rightarrow> (nat \<Rightarrow> loc list) \<Rightarrow> nat set \<Rightarrow> bool" where
  "apart_parts S D R \<longleftrightarrow> (\<forall>r \<in> R. separate (S r) (D r) \<and> length (S r) = length (D r) \<and>
     (\<forall>x \<in> R. set (S r) \<inter> set (D x) = {} \<and> (r \<noteq> x \<longrightarrow> set (D r) \<inter> set (D x) = {})))"

lemma todo_serves:
  assumes tr: "\<And>r w. r \<in> set ds \<Longrightarrow> P w r (q r) \<Longrightarrow> transfers (f (q r) w) w (q r) (S r) (D r) (\<lambda>w'. finished w' (q r))"
    and cong: "\<And>w w' r c. w_cookies w' c = w_cookies w c \<Longrightarrow> P w' r c = P w r c"
    and own: "\<And>w r c. P w r c \<Longrightarrow> c_owner (w_cookies w c) = r"
  shows "distinct ds \<Longrightarrow> apart_parts S D (set ds) \<Longrightarrow> box_inv w (mset (map q ds) + B) \<Longrightarrow> \<forall>r \<in> set ds. r < w_size w \<and> P w r (q r) \<Longrightarrow>
    \<exists>w'. todo_loop f (map q ds) w = Ret (w', MPI_SUCCESS) \<and> w_size w' = w_size w \<and> w_pool w' = w_pool w \<and> box_inv w' B \<and>
      (\<forall>r \<in> set ds. map (w_mem w') (D r) = map (w_mem w) (S r) \<and> finished w' (q r)) \<and>
      (\<forall>l. (\<forall>r \<in> set ds. l \<notin> set (D r)) \<longrightarrow> w_mem w' l = w_mem w l) \<and>
      (\<forall>d. d \<notin> q ` set ds \<longrightarrow> w_cookies w' d = w_cookies w d)"
  using tr
proof (induction ds arbitrary: w)
  case (Cons r rs)
  have ap: "separate (S r) (D r)" "length (S r) = length (D r)" "set (D r) \<inter> set (D x) = {}" "set (S x) \<inter> set (D r) = {}"
    if "x \<in> set rs" "x \<noteq> r" for x
    using Cons.prems(2) that unfolding apart_parts_def by auto
  have sr: "separate (S r) (D r)" "length (S r) = length (D r)" "apart_parts S D (set rs)"
    using Cons.prems(2) unfolding apart_parts_def by auto
  note mv = moved_whole(1) [OF sr(1,2)] moved_whole(2) [OF sr(1,2)]
  have r: "r < w_size w" "P w r (q r)" using Cons.prems(4) by auto
  have "c_owner (w_cookies w (q r)) < w_size w" using own [OF r(2)] r(1) by simp
  note tp = to_pending_effect [OF this]
  have "P (to_pending (q r) w) r (q r)" using r(2) cong [of "to_pending (q r) w" "q r" w] tp(1) by simp
  from Cons.prems(5) [OF _ this]
  obtain w1 where w1: "f (q r) (to_pending (q r) w) = Ret (w1, MPI_SUCCESS)" "same_boxes (to_pending (q r) w) w1"
    "w_mem w1 = moved (w_mem w) (S r) (D r)" "finished w1 (q r)" "\<forall>d. d \<noteq> q r \<longrightarrow> w_cookies w1 d = w_cookies w d"
    using tp(1,2) unfolding transfers_def by auto
  have size1: "w_size w1 = w_size w" "w_pool w1 = w_pool w"
    using w1(2) tp(3) by (simp_all add: same_boxes_def to_pending_def move_to_pending_def)
  have dq: "distinct (map q (r # rs))" using box_inv_distinct [OF Cons.prems(3)] by blast
  have ne: "x \<noteq> r" if "x \<in> set rs" for x using Cons.prems(1) that by auto
  have rest: "x < w_size w1 \<and> P w1 x (q x)" if x: "x \<in> set rs" for x
  proof -
    have "q x \<noteq> q r" using dq imageI [OF x, of q] by auto
    then have "w_cookies w1 (q x) = w_cookies w (q x)" using w1(5) by blast
    from cong [OF this] show ?thesis using Cons.prems(4) x size1 by simp
  qed
  have "box_inv w (add_mset (q r) (mset (map q rs) + B))" using Cons.prems(3) by simp
  then have bi: "box_inv w1 (mset (map q rs) + B)" using tp(5) same_boxesD(4) [OF w1(2)] by blast
  obtain w' where w': "todo_loop f (map q rs) w1 = Ret (w', MPI_SUCCESS)" "w_size w' = w_size w1" "w_pool w' = w_pool w1"
    "box_inv w' B" "\<And>x. x \<in> set rs \<Longrightarrow> map (w_mem w') (D x) = map (w_mem w1) (S x) \<and> finished w' (q x)"
    "\<And>l. (\<And>x. x \<in> set rs \<Longrightarrow> l \<notin> set (D x)) \<Longrightarrow> w_mem w' l = w_mem w1 l"
    "\<And>d. d \<notin> q ` set rs \<Longrightarrow> w_cookies w' d = w_cookies w1 d"
    using Cons.IH [OF _ sr(3) bi _ Cons.prems(5)] Cons.prems(1) rest by auto
  have S1: "map (w_mem w1) (S x) = map (w_mem w) (S x)" if "x \<in> set rs" for x
    unfolding w1(3) using ap(4) [OF that ne [OF that]] by (intro map_cong refl mv(2)) blast
  have own1: "map (w_mem w') (D r) = map (w_mem w1) (D r)"
  proof (intro map_cong refl w'(6))
    fix l x assume l: "l \<in> set (D r)" and x: "x \<in> set rs"
    then show "l \<notin> set (D x)" using ap(3) [OF x ne [OF x]] by blast
  qed
  have fin: "finished w' (q r)" using w1(4) finished_cong [OF w'(7)] dq by simp
  have mem: "w_mem w' l = w_mem w l" if "\<forall>x \<in> set (r # rs). l \<notin> set (D x)" for l
  proof -
    have "w_mem w' l = w_mem w1 l" using that by (intro w'(6)) simp
    also have "\<dots> = w_mem w l" unfolding w1(3) using that by (intro mv(2)) simp
    finally show ?thesis .
  qed
  have D: "map (w_mem w') (D x) = map (w_mem w) (S x) \<and> finished w' (q x)" if "x \<in> set (r # rs)" for x
  proof (cases "x = r")
    case True
    then show ?thesis using own1 fin mv(1) w1(3) by (simp only:)
  next
    case False
    then have "x \<in> set rs" using that by simp
    then show ?thesis using w'(5) S1 by simp
  qed
  have ck: "w_cookies w' d = w_cookies w d" if "d \<notin> q ` set (r # rs)" for d using that w'(7) w1(5) by simp
  have "todo_loop f (map q (r # rs)) w = Ret (w', MPI_SUCCESS)" using w1(1) w'(1) by (simp add: mpi_consts)
  then show ?case using w'(2-4) size1 D mem ck by (intro exI [of _ w']) simp
qed simp

section \<open>The interface of the transfers\<close>

text \<open>\<open>late j r\<close> is what rank \<open>r\<close> does with the root's request, \<open>serve j\<close> what the root does with one of the others'.\<close>

locale rooted_transfers =
  fixes valid :: "'j \<Rightarrow> bool" and view :: "'j \<Rightarrow> rooted"
    and late :: "'j \<Rightarrow> nat \<Rightarrow> int list \<Rightarrow> cid \<Rightarrow> world \<Rightarrow> (world \<times> int) outcome"
    and serve :: "'j \<Rightarrow> cid \<Rightarrow> world \<Rightarrow> (world \<times> int) outcome"
  assumes view_ok: "valid j \<Longrightarrow> rooted_ok (view j)"
    and late_moves: "valid j \<Longrightarrow> r < rt_n (view j) \<Longrightarrow> r \<noteq> rt_root (view j) \<Longrightarrow> displs_set (view j) ds \<Longrightarrow>
      root_req (view j) w c busy \<Longrightarrow> 1 \<le> busy \<Longrightarrow> busy < 32768 \<Longrightarrow>
      transfers (late j r ds c w) w c (rt_src (view j) r) (rt_dst (view j) r) (\<lambda>w'. root_req (view j) w' c (busy - 1))"
    and serve_moves: "valid j \<Longrightarrow> r < rt_n (view j) \<Longrightarrow> r \<noteq> rt_root (view j) \<Longrightarrow> early_req (view j) w r c \<Longrightarrow>
      transfers (serve j c w) w c (rt_src (view j) r) (rt_dst (view j) r) (\<lambda>w'. finished w' c)"
begin

text \<open>The root's loop serves the ranks that have called before.\<close>

lemma serve_all:
  assumes ok: "valid j" and ds: "distinct ds" "\<forall>r \<in> set ds. r < rt_n (view j) \<and> r \<noteq> rt_root (view j) \<and> early_req (view j) w r (q r)"
    and w: "w_size w = rt_n (view j)" "box_inv w (mset (map q ds) + B)"
  shows "\<exists>w'. todo_loop (serve j) (map q ds) w = Ret (w', MPI_SUCCESS) \<and> w_size w' = w_size w \<and> w_pool w' = w_pool w \<and> box_inv w' B \<and>
    (\<forall>r \<in> set ds. map (w_mem w') (rt_dst (view j) r) = map (w_mem w) (rt_src (view j) r) \<and> finished w' (q r)) \<and>
    (\<forall>l. (\<forall>r \<in> set ds. l \<notin> set (rt_dst (view j) r)) \<longrightarrow> w_mem w' l = w_mem w l) \<and>
    (\<forall>d. d \<notin> q ` set ds \<longrightarrow> w_cookies w' d = w_cookies w d)"
proof (rule todo_serves [where P = "early_req (view j)", OF _ early_req_cong early_reqD(1) ds(1) _ w(2)])
  show "apart_parts (rt_src (view j)) (rt_dst (view j)) (set ds)"
    using view_ok [OF ok] ds(2) unfolding apart_parts_def rooted_ok_def separate_def by blast
  show "\<forall>r \<in> set ds. r < w_size w \<and> early_req (view j) w r (q r)" using ds(2) w(1) by simp
qed (use ok ds(2) serve_moves in blast)+

text \<open>A rank after the root.\<close>

lemma late_call:
  assumes ok: "valid j" and inv: "rooted_inv (view j) m0 B ds q s" and r: "r < rt_n (view j)" "r \<notin> set ds"
    and late: "rt_root (view j) \<in> set ds" and u: "u_size u = int (rt_n (view j))"
  shows "\<exists>s2 c. member_call (late j r) u (slot_of (rt_ticket (view j))) req (int (rt_root (view j)))
      (entered (rt_ticket (view j)) (length ds) s) = Ret (s2, MPI_SUCCESS, Some c) \<and> rooted_inv (view j) m0 B (ds @ [r]) (q(r := c)) s2"
proof -
  let ?v = "view j"
  let ?i = "slot_of (rt_ticket ?v)" and ?s1 = "entered (rt_ticket ?v) (length ds) s" and ?root = "rt_root ?v"
  let ?c = "q ?root" and ?D = "rt_dst ?v" and ?S = "rt_src ?v" and ?w = "cw_world s"
  have rv: "rooted_ok ?v" by (rule view_ok [OF ok])
  have fr: "slot_frame (rt_n ?v) (rt_ticket ?v) B ds s" using inv by (simp add: rooted_inv_def)
  have lt: "length ds < rt_n ?v" by (rule slot_frame_not_all [OF fr r])
  note af = rooted_after [OF inv late lt] and sp = slot_frame_space [OF fr r]
  have root: "?root < rt_n ?v" "rt_n ?v < 32768" and rr: "r \<noteq> ?root" using rv late r by (auto simp: rooted_ok_def)
  note mv = moved_whole(1) [OF rooted_okD(1,2) [OF rv r(1)]] moved_whole(2) [OF rooted_okD(1,2) [OF rv r(1)]]
  let ?last = "int (Suc (length ds)) = int (rt_n ?v)"
  define w1 where "w1 = (if ?last then to_pending ?c (cookie_join ?c ?w) else cookie_join ?c ?w)"
  define sj where "sj = unlock ?i (if ?last then upd_slot ?i (\<lambda>k. k\<lparr>k_box := []\<rparr>) (set_world w1 ?s1) else set_world w1 ?s1)"
  have src: "c_owner (w_cookies ?w ?c) = ?root" "c_src (w_cookies ?w ?c) = int ?root"
    using af(5) request_isD unfolding root_req_def by blast+
  have lj: "late_join u ?i (int ?root) ?s1 = Some (sj, ?c)"
    using late_join_root [of ?s1 ?i ?c ?root u] af(2) src(2) u by (simp add: cookie_at_def sj_def w1_def)
  have j1: "w_mem (cookie_join ?c ?w) = w_mem ?w" "w_size (cookie_join ?c ?w) = w_size ?w" "w_pool (cookie_join ?c ?w) = w_pool ?w"
    "c_owner (w_cookies (cookie_join ?c ?w) ?c) = c_owner (w_cookies ?w ?c)"
    "\<And>d. d \<noteq> ?c \<Longrightarrow> w_cookies (cookie_join ?c ?w) d = w_cookies ?w d"
    by (simp_all add: cookie_join_def upd_cookie_def)
  have sz: "w_size ?w = rt_n ?v" using fr by (simp add: slot_frame_def)
  have "c_owner (w_cookies (cookie_join ?c ?w) ?c) < w_size (cookie_join ?c ?w)" using j1(2,4) src(1) sz root(1) by simp
  note tp = to_pending_effect [OF this]
  have k1: "w_cookies w1 = w_cookies (cookie_join ?c ?w)" "w_mem w1 = w_mem ?w" "w_size w1 = w_size ?w" "w_pool w1 = w_pool ?w"
    using tp(1-3) j1(1-3) by (simp_all add: w1_def to_pending_def move_to_pending_def)
  have of1: "root_req ?v w1 ?c (int (rt_n ?v - length ds))"
    using af(5) request_is_cong [of w1 ?c "cookie_join ?c ?w"] k1(1) by (simp add: root_req_def request_is_join)
  have "box_inv (cookie_join ?c ?w) (add_mset ?c B)"
    using fr af(2) same_boxesD(4) [OF same_boxes_join] by (simp add: slot_frame_def)
  then have bi1: "box_inv w1 (mset (if ?last then [] else [?c]) + B)" using tp(5) by (simp add: w1_def)
  have wsj: "cw_world sj = w1" by (simp add: sj_def)
  have sl: "cw_slots sj ?i = (rt_slot ?v s)\<lparr>k_locked := False, k_ticket := rt_ticket ?v,
      k_joined := int (Suc (length ds)), k_box := (if ?last then [] else [?c])\<rparr>"
    using af(2) by (simp add: sj_def)
  have dp: "displs_set ?v (k_displs (cw_slots sj ?i))" using af(6) sl by simp
  have bz: "1 \<le> int (rt_n ?v - length ds)" "int (rt_n ?v - length ds) < 32768" using lt root(2) by auto
  obtain w2 where w2: "late j r (k_displs (cw_slots sj ?i)) ?c w1 = Ret (w2, MPI_SUCCESS)" "same_boxes w1 w2"
    "w_mem w2 = moved (w_mem ?w) (?S r) (?D r)" "root_req ?v w2 ?c (int (rt_n ?v - length ds) - 1)"
    "\<And>d. d \<noteq> ?c \<Longrightarrow> w_cookies w2 d = w_cookies ?w d"
    using late_moves [OF ok r(1) rr dp of1 bz] k1(1,2) j1(5) unfolding transfers_def by auto
  have of2: "root_req ?v w2 ?c (int (rt_n ?v - length (ds @ [r])))"
  proof -
    have "int (rt_n ?v - length (ds @ [r])) = int (rt_n ?v - length ds) - 1" using lt by simp
    then show ?thesis using w2(4) by (simp only:)
  qed
  have mo: "w_mem w2 l = w_mem ?w l" if "l \<notin> set (?D r)" for l unfolding w2(3) by (rule mv(2) [OF that])
  define s2 where "s2 = set_world w2 sj"
  have s2: "cw_world s2 = w2" "cw_slots s2 ?i = cw_slots sj ?i" by (simp_all add: s2_def)
  have fin: "q x = ?c \<or> finished w2 (q x)" if "x \<in> set ds" for x
    using af(7) [OF that] w2(5) finished_cong by metis
  have "slot_frame (rt_n ?v) (rt_ticket ?v) B (ds @ [r]) s2"
    unfolding slot_frame_def s2
  proof (intro conjI)
    show "box_inv w2 (mset (k_box (cw_slots sj ?i)) + B)" using bi1 same_boxesD(4) [OF w2(2)] sl by simp
    show "length (ds @ [r]) < rt_n ?v \<longrightarrow> slot_after (rt_ticket ?v) (length (ds @ [r])) (cw_slots sj ?i)"
      using sl by (auto simp: slot_after_def)
    show "64 * (rt_n ?v - length (ds @ [r])) \<le> unat (p_space (w_pool w2))" using sp(2) w2(2) k1(4) by (simp add: same_boxes_def)
    show "w_size w2 = rt_n ?v" using sz k1(3) same_boxesD(1) [OF w2(2)] by simp
  qed (use sp(3,4) sl in simp_all)
  moreover have "map (w_mem w2) (?D x) = map m0 (?S x)" if x: "x \<in> set (ds @ [r])" for x
  proof (cases "x = r")
    case True
    have "map (w_mem ?w) (?S r) = map m0 (?S r)"
    proof (intro map_cong refl af(4))
      fix l y assume l: "l \<in> set (?S r)" and "y \<in> set ds"
      then have "y < rt_n ?v" using fr by (auto simp: slot_frame_def)
      then show "l \<notin> set (?D y)" using l rooted_okD(3) [OF rv r(1)] by blast
    qed
    then show ?thesis unfolding True w2(3) mv(1) .
  next
    case False
    then have x: "x \<in> set ds" "x < rt_n ?v" using x fr by (auto simp: slot_frame_def)
    have "map (w_mem w2) (?D x) = map (w_mem ?w) (?D x)"
      using rooted_okD(4) [OF rv x(2) r(1) False] by (intro map_cong refl mo) blast
    then show ?thesis using af(3) [OF x(1)] by (simp only:)
  qed
  moreover have "w_mem w2 l = m0 l" if "\<forall>x \<in> set (ds @ [r]). l \<notin> set (?D x)" for l
  proof -
    have "w_mem w2 l = w_mem ?w l" using that by (intro mo) simp
    also have "\<dots> = m0 l" using that by (intro af(4)) simp
    finally show ?thesis .
  qed
  moreover have "(q(r := ?c)) ?root = ?c" using rr by simp
  moreover have "finished w2 ?c \<and> (\<forall>x \<in> set ds. finished w2 (q x))" if "\<not> length (ds @ [r]) < rt_n ?v"
  proof -
    have "finished w2 ?c" using of2 that request_is_finished unfolding root_req_def by auto
    then show ?thesis using fin by metis
  qed
  ultimately have "rooted_inv ?v m0 B (ds @ [r]) (q(r := ?c)) s2"
    using late fin of2 sl s2 lt dp unfolding rooted_inv_def Let_def by auto
  moreover have "member_call (late j r) u ?i req (int ?root) ?s1 = Ret (s2, MPI_SUCCESS, Some ?c)"
    using lj w2(1) by (simp add: member_call_def finish_with_def wsj s2_def)
  ultimately show ?thesis by blast
qed

end

section \<open>The root\<close>

text \<open>What \<open>root_start\<close> leaves: the root's own request, or that of the last rank in the box.\<close>

lemma root_starts:
  assumes v: "rooted_ok v" and u: "u_rank u = rt_root v" "u_size u = int (rt_n v)"
    and k: "k_joined (cw_slots s i) = int (Suc (length ds))" "k_box (cw_slots s i) = map q ds" "length ds < rt_n v"
    and w: "box_inv (cw_world s) (mset (map q ds) + B)" "w_size (cw_world s) = rt_n v" "64 \<le> unat (p_space (w_pool (cw_world s)))"
    and rq: "\<forall>r \<in> set ds. early_req v (cw_world s) r (q r)"
  obtains s2 c B1 where "root_start u i (rt_buf v) (rt_type v) (rt_size v) (rt_cnt v) s = Ret (s2, c, map q ds)"
    "box_inv (cw_world s2) (mset (map q ds) + B1)" "w_mem (cw_world s2) = w_mem (cw_world s)" "w_size (cw_world s2) = rt_n v"
    "unat (p_space (w_pool (cw_world s))) \<le> unat (p_space (w_pool (cw_world s2))) + 64"
    "\<forall>r \<in> set ds. early_req v (cw_world s2) r (q r)"
    "if Suc (length ds) < rt_n v
     then B1 = add_mset c B \<and> c \<notin> q ` set ds \<and> root_req v (cw_world s2) c (int (rt_n v - Suc (length ds))) \<and>
       cw_slots s2 i = (cw_slots s i)\<lparr>k_box := [c], k_locked := False\<rparr>
     else B1 = B \<and> c \<in> q ` set ds \<and> cw_slots s2 i = (cw_slots s i)\<lparr>k_box := [], k_locked := False\<rparr>"
proof (cases "Suc (length ds) < rt_n v")
  case True
  have p: "k_joined (cw_slots s i) \<noteq> u_size u" "box_inv (cw_world s) (mset (k_box (cw_slots s i)) + B)" "u_rank u < w_size (cw_world s)"
    using True k u w v by (simp_all add: rooted_ok_def)
  obtain s2 c where s2: "root_start u i (rt_buf v) (rt_type v) (rt_size v) (rt_cnt v) s = Ret (s2, c, k_box (cw_slots s i))"
    "cw_slots s2 i = (cw_slots s i)\<lparr>k_box := [c], k_locked := False\<rparr>"
    "box_inv (cw_world s2) (mset (k_box (cw_slots s i)) + add_mset c B)" "c \<notin> set (k_box (cw_slots s i))"
    "w_mem (cw_world s2) = w_mem (cw_world s)" "w_size (cw_world s2) = w_size (cw_world s)"
    "w_cookies (cw_world s2) = (w_cookies (cw_world s))(c := mk_cookie (u_rank u) (rt_buf v) (rt_type v) (rt_size v) (rt_cnt v)
       (int (u_rank u)) UMPI_TAG_CC (u_size u - k_joined (cw_slots s i)))"
    "unat (p_space (w_pool (cw_world s))) \<le> unat (p_space (w_pool (cw_world s2))) + 64"
    by (rule root_start_leave [OF p w(3)])
  have c: "c \<notin> q ` set ds" using s2(4) k(2) by simp
  have "root_req v (cw_world s2) c (int (rt_n v - Suc (length ds)))"
    unfolding root_req_def using s2(7) u k(1) v True by (intro mk_cookie_request) (simp_all add: rooted_ok_def of_nat_diff)
  moreover have "\<forall>r \<in> set ds. early_req v (cw_world s2) r (q r)"
  proof
    fix r assume r: "r \<in> set ds"
    have "q r \<noteq> c" using c r by auto
    then have "w_cookies (cw_world s2) (q r) = w_cookies (cw_world s) (q r)" using s2(7) by simp
    from early_req_cong [OF this] show "early_req v (cw_world s2) r (q r)" using rq r by blast
  qed
  ultimately show thesis using that [of s2 c "add_mset c B"] s2 c k(2) w(2) True by simp
next
  case False
  let ?c = "last (map q ds)" and ?s2 = "unlock i (set_world (cookie_join (last (map q ds)) (cw_world s)) (upd_slot i (\<lambda>k. k\<lparr>k_box := []\<rparr>) s))"
  have ne: "ds \<noteq> []" using False v by (auto simp: rooted_ok_def)
  have "Suc (length ds) = rt_n v" using False k(3) by simp
  then have jl: "k_joined (cw_slots s i) = u_size u" using k(1) u(2) by simp
  have "root_start u i (rt_buf v) (rt_type v) (rt_size v) (rt_cnt v) s = Ret (?s2, ?c, map q ds)"
    using root_start_borrow [OF jl] ne by (simp add: k(2) del: last_map)
  moreover have "box_inv (cw_world ?s2) (mset (map q ds) + B)" using w(1) same_boxesD(4) [OF same_boxes_join] by (simp del: last_map)
  moreover have "\<forall>r \<in> set ds. early_req v (cw_world ?s2) r (q r)"
    using rq by (auto simp: early_req_def request_is_join simp del: last_map split: prod.splits)
  moreover have "?c \<in> q ` set ds" using ne by (simp add: last_map)
  ultimately show thesis
    using that [of ?s2 ?c B] False w(2) by (simp add: cookie_join_def upd_cookie_def del: last_map)
qed

context rooted_transfers
begin

lemma root_serves:
  assumes ok: "valid j" and inv: "rooted_inv (view j) m0 B ds q s" and r: "rt_root (view j) \<notin> set ds"
    and u: "u_rank u = rt_root (view j)" "u_size u = int (rt_n (view j))"
    and own: "same_boxes (cw_world s) (cw_world s1)" "w_cookies (cw_world s1) = w_cookies (cw_world s)"
      "w_mem (cw_world s1) = moved m0 (rt_src (view j) (rt_root (view j))) (rt_dst (view j) (rt_root (view j)))"
    and sl: "rt_slot (view j) s1 = (rt_slot (view j) (entered (rt_ticket (view j)) (length ds) s))\<lparr>k_displs := dp\<rparr>"
    and dp: "displs_set (view j) dp"
  shows "\<exists>s2 c. root_call (serve j) u (slot_of (rt_ticket (view j))) (rt_buf (view j)) (rt_type (view j)) (rt_size (view j)) (rt_cnt (view j)) s1 =
      Ret (s2, MPI_SUCCESS, Some c) \<and> rooted_inv (view j) m0 B (ds @ [rt_root (view j)]) (q(rt_root (view j) := c)) s2"
proof -
  let ?v = "view j"
  let ?i = "slot_of (rt_ticket ?v)" and ?root = "rt_root ?v" and ?D = "rt_dst ?v" and ?S = "rt_src ?v" and ?w = "cw_world s1"
  have rv: "rooted_ok ?v" by (rule view_ok [OF ok])
  then have rn: "?root < rt_n ?v" by (simp add: rooted_ok_def)
  note wt = rooted_before [OF inv r]
  have lt: "length ds < rt_n ?v" by (rule slot_frame_not_all [OF wt(1) rn r])
  note sp = slot_frame_space [OF wt(1) rn r]
  note mv = moved_whole(1) [OF rooted_okD(1,2) [OF rv rn]] moved_whole(2) [OF rooted_okD(1,2) [OF rv rn]]
  have pool: "w_pool ?w = w_pool (cw_world s)" using own(1) by (simp add: same_boxes_def)
  have k: "k_joined (rt_slot ?v s1) = int (Suc (length ds))" "k_box (rt_slot ?v s1) = map q ds" using sl wt(2) by simp_all
  have w: "box_inv ?w (mset (map q ds) + B)" "w_size ?w = rt_n ?v" "64 \<le> unat (p_space (w_pool ?w))"
    using wt(5,6) own(1) same_boxesD(1,4) [OF own(1)] sp(1) pool by simp_all
  have rq: "\<forall>x \<in> set ds. early_req ?v ?w x (q x)"
  proof
    fix x assume "x \<in> set ds"
    then show "early_req ?v ?w x (q x)" using wt(4) own(2) early_req_cong [of ?w "q x" "cw_world s"] by simp
  qed
  obtain s2 c B1 where st: "root_start u ?i (rt_buf ?v) (rt_type ?v) (rt_size ?v) (rt_cnt ?v) s1 = Ret (s2, c, map q ds)"
    "box_inv (cw_world s2) (mset (map q ds) + B1)" "w_mem (cw_world s2) = w_mem ?w" "w_size (cw_world s2) = rt_n ?v"
    "unat (p_space (w_pool ?w)) \<le> unat (p_space (w_pool (cw_world s2))) + 64"
    "\<forall>x \<in> set ds. early_req ?v (cw_world s2) x (q x)"
    and box: "if Suc (length ds) < rt_n ?v
     then B1 = add_mset c B \<and> c \<notin> q ` set ds \<and> root_req ?v (cw_world s2) c (int (rt_n ?v - Suc (length ds))) \<and>
       cw_slots s2 ?i = (rt_slot ?v s1)\<lparr>k_box := [c], k_locked := False\<rparr>
     else B1 = B \<and> c \<in> q ` set ds \<and> cw_slots s2 ?i = (rt_slot ?v s1)\<lparr>k_box := [], k_locked := False\<rparr>"
    by (rule root_starts [OF rv u k lt w rq])
  have ds: "distinct ds" "\<forall>x \<in> set ds. x < rt_n ?v \<and> x \<noteq> ?root \<and> early_req ?v (cw_world s2) x (q x)"
    using sp(3,4) r st(6) by auto
  obtain w2 where w2: "todo_loop (serve j) (map q ds) (cw_world s2) = Ret (w2, MPI_SUCCESS)" "w_size w2 = w_size (cw_world s2)"
    "w_pool w2 = w_pool (cw_world s2)" "box_inv w2 B1"
    "\<And>x. x \<in> set ds \<Longrightarrow> map (w_mem w2) (?D x) = map (w_mem (cw_world s2)) (?S x) \<and> finished w2 (q x)"
    "\<And>l. (\<And>x. x \<in> set ds \<Longrightarrow> l \<notin> set (?D x)) \<Longrightarrow> w_mem w2 l = w_mem (cw_world s2) l"
    "\<And>d. d \<notin> q ` set ds \<Longrightarrow> w_cookies w2 d = w_cookies (cw_world s2) d"
    using serve_all [OF ok ds st(4,2)] by auto
  have m1: "w_mem (cw_world s2) = moved m0 (?S ?root) (?D ?root)" using st(3) own(3) by simp
  define s3 where "s3 = set_world w2 s2"
  have s3: "cw_world s3 = w2" "cw_slots s3 = cw_slots s2" by (simp_all add: s3_def)
  have mem: "map (w_mem w2) (?D x) = map m0 (?S x)" if x: "x \<in> set (ds @ [?root])" for x
  proof (cases "x = ?root")
    case True
    have "map (w_mem w2) (?D ?root) = map (w_mem (cw_world s2)) (?D ?root)"
    proof (intro map_cong refl w2(6))
      fix l y assume l: "l \<in> set (?D ?root)" and "y \<in> set ds"
      then have "y < rt_n ?v" "y \<noteq> ?root" using ds(2) by auto
      then show "l \<notin> set (?D y)" using l rooted_okD(4) [OF rv rn] by blast
    qed
    then show ?thesis unfolding True m1 mv(1) .
  next
    case False
    then have x: "x \<in> set ds" "x < rt_n ?v" using x ds(2) by auto
    have "map (w_mem (cw_world s2)) (?S x) = map m0 (?S x)"
      unfolding m1 using rooted_okD(3) [OF rv x(2) rn] by (intro map_cong refl mv(2)) blast
    then show ?thesis using w2(5) [OF x(1)] by (simp only:)
  qed
  have out: "w_mem w2 l = m0 l" if "\<forall>x \<in> set (ds @ [?root]). l \<notin> set (?D x)" for l
  proof -
    have "w_mem w2 l = w_mem (cw_world s2) l" using that by (intro w2(6)) simp
    also have "\<dots> = m0 l" unfolding m1 using that by (intro mv(2)) simp
    finally show ?thesis .
  qed
  have qs: "(q(?root := c)) x = q x" if "x \<in> set ds" for x using that r by auto
  have fin: "finished w2 (q x)" if "x \<in> set ds" for x using w2(5) that by blast
  have sl2: "cw_slots s2 ?i = (rt_slot ?v s)\<lparr>k_locked := False, k_ticket := rt_ticket ?v, k_joined := int (Suc (length ds)), k_displs := dp,
      k_box := (if Suc (length ds) < rt_n ?v then [c] else [])\<rparr>"
    using box sl by auto
  have "slot_frame (rt_n ?v) (rt_ticket ?v) B (ds @ [?root]) s3"
    unfolding slot_frame_def s3
  proof (intro conjI)
    show "box_inv w2 (mset (k_box (cw_slots s2 ?i)) + B)" using w2(4) box sl2 by (auto split: if_splits)
    show "length (ds @ [?root]) < rt_n ?v \<longrightarrow> slot_after (rt_ticket ?v) (length (ds @ [?root])) (cw_slots s2 ?i)"
      using sl2 by (simp add: slot_after_def)
    show "64 * (rt_n ?v - length (ds @ [?root])) \<le> unat (p_space (w_pool w2))" using sp(2) st(5) w2(3) pool by simp
    show "w_size w2 = rt_n ?v" using st(4) w2(2) by simp
  qed (use sp(3,4) sl2 in simp_all)
  moreover have "root_req ?v w2 c (int (rt_n ?v - length (ds @ [?root])))" if "length (ds @ [?root]) < rt_n ?v"
  proof -
    have "c \<notin> q ` set ds" "root_req ?v (cw_world s2) c (int (rt_n ?v - Suc (length ds)))" using box that by auto
    then show ?thesis using request_is_cong [OF w2(7)] unfolding root_req_def by simp
  qed
  moreover have "finished w2 c" if "\<not> length (ds @ [?root]) < rt_n ?v" using box that fin by auto
  ultimately have "rooted_inv ?v m0 B (ds @ [?root]) (q(?root := c)) s3"
    using mem out fin qs sl2 dp s3 unfolding rooted_inv_def Let_def by auto
  moreover have "root_call (serve j) u ?i (rt_buf ?v) (rt_type ?v) (rt_size ?v) (rt_cnt ?v) s1 = Ret (s3, MPI_SUCCESS, Some c)"
    using st(1) w2(1) by (simp add: root_call_def finish_with_def s3_def)
  ultimately show ?thesis by blast
qed

end

section \<open>All calls\<close>

abbreviation after_entry :: "(nat \<Rightarrow> umpi) \<Rightarrow> 32 word \<Rightarrow> nat \<Rightarrow> umpi" where
  "after_entry us t r \<equiv> (us r)\<lparr>u_ticket := t + 1\<rparr>"

definition returned :: "umpi \<Rightarrow> started \<Rightarrow> call" where
  "returned u out = and_then out (\<lambda>(s, ret, c). Ret (Some u, s, ret, c))"

lemma returned_Ret [simp]: "returned u (Ret (s, ret, c)) = Ret (Some u, s, ret, c)"
  by (simp add: returned_def)

text \<open>What the root does between entering the slot and \<open>root_start\<close>: the copy of its own part, and the displacements.\<close>

definition root_prepares :: "rooted \<Rightarrow> nat list \<Rightarrow> cworld \<Rightarrow> cworld \<Rightarrow> bool" where
  "root_prepares v ds s s1 \<longleftrightarrow> same_boxes (cw_world s) (cw_world s1) \<and> w_cookies (cw_world s1) = w_cookies (cw_world s) \<and>
     w_mem (cw_world s1) = moved (w_mem (cw_world s)) (rt_src v (rt_root v)) (rt_dst v (rt_root v)) \<and>
     (\<exists>dp. displs_set v dp \<and> rt_slot v s1 = (rt_slot v (entered (rt_ticket v) (length ds) s))\<lparr>k_displs := dp\<rparr>)"

lemma root_prepares_plain:
  assumes "rt_displs v = None" "rt_slot v s1 = rt_slot v (entered (rt_ticket v) (length ds) s)"
    and "same_boxes (cw_world s) (cw_world s1)" "w_cookies (cw_world s1) = w_cookies (cw_world s)"
    and "w_mem (cw_world s1) = moved (w_mem (cw_world s)) (rt_src v (rt_root v)) (rt_dst v (rt_root v))"
  shows "root_prepares v ds s s1"
  using assms unfolding root_prepares_def displs_set_def
  by (intro conjI exI [of _ "k_displs (rt_slot v (entered (rt_ticket v) (length ds) s))"]) simp_all

context rooted_transfers
begin

lemma all_orders:
  assumes ok: "valid j" and sc: "same_call (rt_n (view j)) us (rt_ticket (view j))"
    and st: "w_size (cw_world s) = rt_n (view j)" "box_inv (cw_world s) B" "slot_free (rt_ticket (view j)) s"
      "64 * rt_n (view j) \<le> unat (p_space (w_pool (cw_world s)))"
    and rs: "distinct rs" "set rs = {..<rt_n (view j)}"
    and member: "\<And>s (ds :: nat list) r. r < rt_n (view j) \<Longrightarrow> r \<noteq> rt_root (view j) \<Longrightarrow> slot_after (rt_ticket (view j)) (length ds) (rt_slot (view j) s) \<Longrightarrow>
      f r s = returned (after_entry us (rt_ticket (view j)) r) (member_call (late j r) (after_entry us (rt_ticket (view j)) r)
        (slot_of (rt_ticket (view j))) (rt_early (view j) r) (int (rt_root (view j))) (entered (rt_ticket (view j)) (length ds) s))"
    and root: "\<And>s (ds :: nat list). slot_after (rt_ticket (view j)) (length ds) (rt_slot (view j) s) \<Longrightarrow> \<exists>s1. root_prepares (view j) ds s s1 \<and>
      f (rt_root (view j)) s = returned (after_entry us (rt_ticket (view j)) (rt_root (view j)))
        (root_call (serve j) (after_entry us (rt_ticket (view j)) (rt_root (view j))) (slot_of (rt_ticket (view j)))
          (rt_buf (view j)) (rt_type (view j)) (rt_size (view j)) (rt_cnt (view j)) s1)"
  shows "\<exists>s' q. calls_all f rs s = Ret (s', map (\<lambda>r. (MPI_SUCCESS, Some (q r))) rs) \<and>
    (\<forall>r < rt_n (view j). map (w_mem (cw_world s')) (rt_dst (view j) r) = map (w_mem (cw_world s)) (rt_src (view j) r) \<and>
       finished (cw_world s') (q r)) \<and>
    (\<forall>l. (\<forall>r < rt_n (view j). l \<notin> set (rt_dst (view j) r)) \<longrightarrow> w_mem (cw_world s') l = w_mem (cw_world s) l) \<and>
    slot_free (rt_ticket (view j)) s' \<and> box_inv (cw_world s') B"
proof -
  let ?v = "view j" and ?I = "rooted_inv (view j) (w_mem (cw_world s)) B"
  let ?U = "after_entry us (rt_ticket ?v)"
  have rv: "rt_root ?v < rt_n ?v" "rt_n ?v < 32768" using view_ok [OF ok] by (simp_all add: rooted_ok_def)
  have u: "u_rank (?U r) = r" "u_size (?U r) = int (rt_n ?v)" if "r < rt_n ?v" for r using sc that by (simp_all add: same_call_def)
  have call: "\<exists>u s2 c. f r sa = Ret (u, s2, MPI_SUCCESS, Some c) \<and> ?I (ds @ [r]) (q(r := c)) s2"
    if inv: "?I ds q sa" and r: "r < rt_n ?v" "r \<notin> set ds" for ds q sa r
  proof -
    have fr: "slot_frame (rt_n ?v) (rt_ticket ?v) B ds sa" using inv by (simp add: rooted_inv_def)
    have "length ds < rt_n ?v" by (rule slot_frame_not_all [OF fr r])
    then have sa: "slot_after (rt_ticket ?v) (length ds) (rt_slot ?v sa)" using fr by (simp add: slot_frame_def)
    show ?thesis
    proof (cases "r = rt_root ?v")
      case True
      then have nr: "rt_root ?v \<notin> set ds" using r(2) by simp
      obtain s1 where s1: "root_prepares ?v ds sa s1"
        "f (rt_root ?v) sa = returned (?U (rt_root ?v)) (root_call (serve j) (?U (rt_root ?v)) (slot_of (rt_ticket ?v))
          (rt_buf ?v) (rt_type ?v) (rt_size ?v) (rt_cnt ?v) s1)"
        using root [OF sa] by blast
      note m = rooted_before(3) [OF inv nr]
      obtain dp where "displs_set ?v dp" "rt_slot ?v s1 = (rt_slot ?v (entered (rt_ticket ?v) (length ds) sa))\<lparr>k_displs := dp\<rparr>"
        using s1(1) unfolding root_prepares_def by blast
      from root_serves [OF ok inv nr u [OF rv(1)] _ _ _ this(2,1)] s1(1) m
      show ?thesis using s1(2) True by (auto simp: root_prepares_def)
    next
      case ne: False
      show ?thesis
      proof (cases "rt_root ?v \<in> set ds")
        case True
        from late_call [where req = "rt_early ?v r", OF ok inv r True u(2) [OF r(1)]] show ?thesis using member [OF r(1) ne sa] by auto
      next
        case no: False
        from early_call [where f = "late j r", OF inv rv(2) r ne no u(1) [OF r(1)]] show ?thesis using member [OF r(1) ne sa] by auto
      qed
    qed
  qed
  obtain s' q where r: "calls_all f rs s = Ret (s', map (\<lambda>r. (MPI_SUCCESS, Some (q r))) rs)" "?I rs q s'"
    using calls_all_inv [of ?I "rt_n ?v" f "[]" "\<lambda>_. bp_null" s rs, OF call rooted_start [OF st]] rs by auto
  show ?thesis using r(1) rooted_all [OF r(2) rs rv(1)] by blast
qed

end

section \<open>Transfers of parts\<close>

lemma typed_buf_shorter: "typed_buf xs from n \<Longrightarrow> 0 \<le> k \<Longrightarrow> k \<le> n \<Longrightarrow> typed_buf xs from k"
proof -
  assume a: "typed_buf xs from n" "0 \<le> k" "k \<le> n"
  have "(from + k) * int (unat (iov_len xs)) \<le> (from + n) * int (unat (iov_len xs))" using a(3) by (simp add: mult_right_mono)
  moreover have "nat k * length (iov_range xs) \<le> nat n * length (iov_range xs)" using a(3) by (intro mult_le_mono1 nat_mono)
  then have "nat n * length (iov_range xs) \<le> 1024 \<Longrightarrow> nat k * length (iov_range xs) \<le> 1024" by (rule le_trans)
  ultimately show ?thesis using a unfolding typed_buf_def by (simp del: mult_le_cancel2) (meson order_trans order_le_less_trans)?
qed

lemma moved_prefix: "length S = length D \<Longrightarrow> moved m S (D @ E) = moved m S D"
  by (simp add: moved_def)

lemma payload_rest: "0 \<le> k \<Longrightarrow> k \<le> n \<Longrightarrow> payload b xs from n = payload b xs from k @ payload b xs (from + k) (n - k)"
  using payload_append [of k "n - k" b xs "from"] by simp

lemma separate_prefix: "separate S (D @ E) \<Longrightarrow> separate S D" "separate (S @ T) D \<Longrightarrow> separate S D"
  by (auto simp: separate_def)

lemma write_part:
  assumes vm: "vm_ok writev" and k: "request_is w c r buf ty sz cnt busy" "1 \<le> busy" "busy < 32768"
    and l: "typed_buf lty skip lcnt" and o': "typed_buf ty seek (sz - seek)" "iov_len ty \<noteq> 0"
    and n: "bytes_of lty lcnt = bytes_of ty n" "0 \<le> n" "seek + n \<le> sz" and cnt: "0 \<le> cnt" "cnt \<le> n" "cnt \<le> sz" "cnt < 2 ^ 31"
    and sep: "separate (payload src lty skip lcnt) (payload (Priv r, buf) ty seek (sz - seek))"
  shows "transfers (write_to_owner writev c src lty lcnt seek skip w) w c (payload src lty skip lcnt) (payload (Priv r, buf) ty seek n)
    (\<lambda>w'. request_is w' c r buf ty sz cnt (busy - 1))"
proof -
  let ?k = "w_cookies w c" and ?S = "payload src lty skip lcnt" and ?D = "payload (Priv r, buf) ty seek n"
  have f: "c_owner ?k = r" "c_buf ?k = buf" "c_iovec ?k = ty" "c_size ?k = sz" "c_count ?k = cnt" "c_busy ?k = busy" "c_err ?k = 0"
    "c_src ?k = int r"
    using k(1) by (auto simp: request_is_def Let_def)
  have D: "payload (Priv r, buf) ty seek (sz - seek) = ?D @ payload (Priv r, buf) ty (seek + n) (sz - seek - n)"
    using n(2,3) by (intro payload_rest) simp_all
  have tn: "typed_buf ty seek n" using n(2,3) by (intro typed_buf_shorter [OF o'(1)]) simp_all
  have len: "length ?S = length ?D" using typed_bufD [OF l] typed_bufD [OF tn] n(1) by (simp add: length_payload_bytes)
  have pos: "0 < unat (iov_len ty)" using o'(2) by (simp add: unat_gt_0)
  have "int (bytes_of lty lcnt div unat (iov_len ty)) = n" using n(1,2) pos by (simp add: bytes_of_def)
  then have mn: "min cnt (int (bytes_of lty lcnt div unat (iov_len ty))) = cnt" using cnt(2) by simp
  let ?w0 = "(upd_cookie c (\<lambda>x. x\<lparr>c_count := min (c_count x) (int (bytes_of lty lcnt div unat (iov_len ty)))\<rparr>) w)
     \<lparr>w_mem := moved (w_mem w) ?S ?D\<rparr>"
  have "bytes_of ty n \<le> bytes_of ty (sz - seek)" unfolding bytes_of_def using n(3) by (intro mult_le_mono1 nat_mono) simp
  then have "write_to_owner writev c src lty lcnt seek skip w = Ret (notify_done c MPI_SUCCESS ?w0, MPI_SUCCESS)"
    using write_to_owner_eq [OF vm l, of w c seek src] sep o' f n(1) cnt(1,3,4) moved_prefix [OF len]
    by (simp add: owner_buf_def D)
  moreover have "same_boxes w (notify_done c MPI_SUCCESS ?w0)"
    by (rule same_boxes_trans [OF _ same_boxes_notify]) (simp add: same_boxes_def)
  moreover have "request_is (notify_done c MPI_SUCCESS ?w0) c r buf ty sz cnt (busy - 1)"
    using f k(2,3) mn by (simp add: request_is_def notify_done_effect Let_def to_i16_id mpi_consts)
  ultimately show ?thesis by (auto simp: transfers_def notify_done_effect)
qed

lemma read_part:
  assumes vm: "vm_ok readv" and k: "request_is w c r buf ty sz cnt busy" "1 \<le> busy" "busy < 32768"
    and l: "typed_buf lty seek (lsz - seek)" "iov_len lty \<noteq> 0" "0 \<le> n" "seek + n \<le> lsz" "n < 2 ^ 31"
    and o': "typed_buf ty skip (sz - skip)" "iov_len ty \<noteq> 0" and m: "bytes_of lty n = bytes_of ty m" "0 \<le> m" "skip + m \<le> sz"
    and zero: "n \<noteq> 0 \<or> bytes_of ty (sz - skip) = 0"
    and sep: "separate (payload (Priv r, buf) ty skip (sz - skip)) (payload dst lty seek n)"
  shows "transfers (read_from_owner readv c dst lty lsz n seek skip w) w c (payload (Priv r, buf) ty skip m) (payload dst lty seek n)
    (\<lambda>w'. request_is w' c r buf ty sz cnt (busy - 1))"
proof -
  let ?k = "w_cookies w c" and ?S = "payload (Priv r, buf) ty skip m" and ?D = "payload dst lty seek n"
  have f: "c_owner ?k = r" "c_buf ?k = buf" "c_iovec ?k = ty" "c_size ?k = sz" "c_count ?k = cnt" "c_busy ?k = busy" "c_err ?k = 0"
    "c_src ?k = int r"
    using k(1) by (auto simp: request_is_def Let_def)
  have S: "payload (Priv r, buf) ty skip (sz - skip) = ?S @ payload (Priv r, buf) ty (skip + m) (sz - skip - m)"
    using m(2,3) by (intro payload_rest) simp_all
  have tn: "typed_buf lty seek n" "typed_buf ty skip m"
    using l m by (auto intro: typed_buf_shorter [OF l(1)] typed_buf_shorter [OF o'(1)])
  have lenS: "length ?S = bytes_of lty n" using typed_bufD [OF tn(2)] m(1) by (simp add: length_payload_bytes)
  have cnt: "read_count ?k lty n skip = n" using zero f by (auto simp: read_count_def)
  let ?w0 = "w\<lparr>w_mem := moved (w_mem w) ?S ?D\<rparr>"
  have "bytes_of ty m \<le> bytes_of ty (sz - skip)" unfolding bytes_of_def using m(3) by (intro mult_le_mono1 nat_mono) simp
  then have "read_from_owner readv c dst lty lsz n seek skip w = Ret (notify_done c MPI_SUCCESS ?w0, MPI_SUCCESS)"
    using read_from_owner_eq [OF vm, of w c skip lty seek lsz n n dst] sep o' f l cnt tn(1) m(1) lenS
    by (simp add: owner_buf_def S)
  moreover have "same_boxes w (notify_done c MPI_SUCCESS ?w0)"
    by (rule same_boxes_trans [OF same_boxes_mem same_boxes_notify])
  moreover have "request_is (notify_done c MPI_SUCCESS ?w0) c r buf ty sz cnt (busy - 1)"
    using f k(2,3) by (simp add: request_is_def notify_done_effect Let_def to_i16_id mpi_consts)
  ultimately show ?thesis by (auto simp: transfers_def notify_done_effect)
qed

section \<open>Parts of a typed buffer\<close>

lemma payload_part: "0 \<le> a \<Longrightarrow> 0 \<le> k \<Longrightarrow> a + k \<le> n \<Longrightarrow>
    payload b xs 0 n = payload b xs 0 a @ payload b xs a k @ payload b xs (a + k) (n - a - k)"
  using payload_rest [of a n b xs 0] payload_rest [of k "n - a" b xs a] by simp

lemma part_subset: "0 \<le> a \<Longrightarrow> 0 \<le> k \<Longrightarrow> a + k \<le> n \<Longrightarrow> set (payload b xs a k) \<subseteq> set (payload b xs 0 n)"
  using payload_part [of a k n b xs] by auto

lemma parts_apart:
  assumes "distinct (payload b xs 0 n)" "0 \<le> a" "0 \<le> k" "a + k \<le> c" "0 \<le> l" "c + l \<le> n"
  shows "set (payload b xs a k) \<inter> set (payload b xs c l) = {}"
proof -
  have "payload b xs 0 n = payload b xs 0 c @ payload b xs c l @ payload b xs (c + l) (n - c - l)"
    using assms by (intro payload_part) simp_all
  moreover have "set (payload b xs a k) \<subseteq> set (payload b xs 0 c)"
    using part_subset [of a k c b xs] assms by simp
  ultimately show ?thesis using assms(1) by auto
qed

lemma part_distinct: "distinct (payload b xs 0 n) \<Longrightarrow> 0 \<le> a \<Longrightarrow> 0 \<le> k \<Longrightarrow> a + k \<le> n \<Longrightarrow> distinct (payload b xs a k)"
  using payload_part [of a k n b xs] by simp

lemma typed_buf_part: "typed_buf xs 0 n \<Longrightarrow> 0 \<le> a \<Longrightarrow> 0 \<le> k \<Longrightarrow> a + k \<le> n \<Longrightarrow> typed_buf xs a k"
proof -
  assume a: "typed_buf xs 0 n" "0 \<le> a" "0 \<le> k" "a + k \<le> n"
  have "(a + k) * int (unat (iov_len xs)) \<le> n * int (unat (iov_len xs))" using a(4) by (simp add: mult_right_mono)
  then have "(a + k) * int (unat (iov_len xs)) < 2 ^ 63" using a(1) by (simp add: typed_buf_def)
  then show ?thesis using typed_buf_shorter [of xs 0 n k] a by (simp add: typed_buf_def)
qed

text \<open>The copy of the root's own part; the other requests are not touched.\<close>

lemma copy_in_prepares:
  assumes vm: "vm_ok (h_writev h)" and b: "typed_buf sty skip scnt" "typed_buf rty seek rcnt" "bytes_of sty scnt = bytes_of rty rcnt"
    and sep: "separate (payload sb sty skip scnt) (payload rb rty seek rcnt)"
  shows "copy_in h u sb sty scnt skip rb rty rcnt seek s =
    set_world ((cw_world s)\<lparr>w_mem := moved (w_mem (cw_world s)) (payload sb sty skip scnt) (payload rb rty seek rcnt)\<rparr>) s"
  using umpi_copy_eq [OF vm b(1,2) _ sep] b(3) by (simp add: copy_in_def)

text \<open>Bytes, for concrete runs.\<close>

definition demo_byte :: iovecs where
  "demo_byte = [iov_entry (id_val UMPI_ID_BYTE) 1]"

lemma demo_byte_payload: "payload (Priv r, x) demo_byte from n = map (\<lambda>i. (Priv r, x + i)) [from..from + n - 1]"
proof -
  have "elem_locs (Priv r, x) demo_byte = (\<lambda>i. [(Priv r, x + i)])"
    by (simp add: fun_eq_iff elem_locs_def demo_byte_def iov_defs loc_range_def add_loc_def)
  then show ?thesis by (simp add: payload_def)
qed

lemma demo_byte_len: "iov_len demo_byte = 1"
  by (simp add: demo_byte_def iov_defs)

lemma demo_byte_whole: "0 \<le> n \<Longrightarrow> n < 2 ^ 31 \<Longrightarrow> whole_buf demo_byte n"
  by (simp add: whole_buf_def typed_buf_def demo_byte_def wf_iovec_def iov_defs)

end
