(* ===== verification/Bcast.thy ===== *)
theory Bcast
  imports Rooted
begin

text \<open>
  \<^verbatim>\<open>MPI_Ibcast\<close> called by all ranks, in any order of arrival: every buffer ends up with the data of
  the root, every request is completed, and the slot is empty again.
\<close>

section \<open>The calls of all ranks\<close>

record bcast_job =
  b_n :: nat
  b_ticket :: "32 word"
  b_root :: nat
  b_buf :: "nat \<Rightarrow> int"
  b_cnt :: int
  b_type :: iovecs

definition bcast_locs :: "bcast_job \<Rightarrow> nat \<Rightarrow> loc list" where
  "bcast_locs j r = payload (Priv r, b_buf j r) (b_type j) 0 (b_cnt j)"

definition ibcast_of :: "host \<Rightarrow> (nat \<Rightarrow> umpi) \<Rightarrow> bcast_job \<Rightarrow> nat \<Rightarrow> cworld \<Rightarrow> call" where
  "ibcast_of h us j r =
     MPI_Ibcast h (Some (us r)) (b_buf j r) (b_cnt j) (Some (b_type j)) (int (b_root j)) MPI_COMM_WORLD"

definition bcast_job_ok :: "bcast_job \<Rightarrow> (nat \<Rightarrow> umpi) \<Rightarrow> bool" where
  "bcast_job_ok j us \<longleftrightarrow> 2 \<le> b_n j \<and> b_root j < b_n j \<and> same_call (b_n j) us (b_ticket j) \<and>
     whole_buf (b_type j) (b_cnt j) \<and> (\<forall>r < b_n j. (b_buf j r = 0 \<longrightarrow> b_cnt j = 0) \<and> distinct (bcast_locs j r))"

abbreviation b_slot :: "bcast_job \<Rightarrow> cworld \<Rightarrow> collect" where
  "b_slot j s \<equiv> cw_slots s (slot_of (b_ticket j))"

abbreviation b_offers :: "bcast_job \<Rightarrow> world \<Rightarrow> cid \<Rightarrow> nat \<Rightarrow> nat \<Rightarrow> bool" where
  "b_offers j w c r busy \<equiv> offers w c r (b_buf j r) (b_type j) (b_cnt j) (int busy)"

section \<open>Buffers of different ranks\<close>

lemma bcast_locs_apart: "r \<noteq> r' \<Longrightarrow> set (bcast_locs j r) \<inter> set (bcast_locs j r') = {}"
  by (auto simp: bcast_locs_def dest!: payload_space)

lemma bcast_separate: "bcast_job_ok j us \<Longrightarrow> r < b_n j \<Longrightarrow> r' \<noteq> r \<Longrightarrow> separate (bcast_locs j r') (bcast_locs j r)"
  using bcast_locs_apart [of r' r j] by (auto simp: separate_def bcast_job_ok_def)

lemma length_bcast_locs: "bcast_job_ok j us \<Longrightarrow> length (bcast_locs j r) = bytes_of (b_type j) (b_cnt j)"
  by (simp add: bcast_job_ok_def bcast_locs_def length_data)

section \<open>The transfers\<close>

definition bcast_ok :: "host \<Rightarrow> bcast_job \<Rightarrow> bool" where
  "bcast_ok h j \<longleftrightarrow> vm_ok (h_writev h) \<and> vm_ok (h_readv h) \<and> (\<exists>us. bcast_job_ok j us)"

definition bcast_view :: "bcast_job \<Rightarrow> rooted" where
  "bcast_view j = \<lparr>rt_n = b_n j, rt_ticket = b_ticket j, rt_root = b_root j,
     rt_early = (\<lambda>r. (b_buf j r, b_type j, b_cnt j)), rt_buf = b_buf j (b_root j), rt_type = b_type j,
     rt_size = b_cnt j, rt_cnt = b_cnt j, rt_displs = None,
     rt_src = (\<lambda>r. if r = b_root j then [] else bcast_locs j (b_root j)), rt_dst = (\<lambda>r. if r = b_root j then [] else bcast_locs j r)\<rparr>"

definition bcast_late :: "host \<Rightarrow> bcast_job \<Rightarrow> nat \<Rightarrow> int list \<Rightarrow> cid \<Rightarrow> world \<Rightarrow> (world \<times> int) outcome" where
  "bcast_late h j r ds c w = read_from_owner (h_readv h) c (Priv r, b_buf j r) (b_type j) (b_cnt j) (b_cnt j) 0 0 w"

definition bcast_serve :: "host \<Rightarrow> bcast_job \<Rightarrow> cid \<Rightarrow> world \<Rightarrow> (world \<times> int) outcome" where
  "bcast_serve h j c w = write_to_owner (h_writev h) c (Priv (b_root j), b_buf j (b_root j)) (b_type j) (b_cnt j) 0 0 w"

lemma bcast_view_sel [simp]:
  "rt_n (bcast_view j) = b_n j" "rt_ticket (bcast_view j) = b_ticket j" "rt_root (bcast_view j) = b_root j"
  "rt_early (bcast_view j) r = (b_buf j r, b_type j, b_cnt j)" "rt_buf (bcast_view j) = b_buf j (b_root j)"
  "rt_type (bcast_view j) = b_type j" "rt_size (bcast_view j) = b_cnt j" "rt_cnt (bcast_view j) = b_cnt j"
  "rt_displs (bcast_view j) = None" "rt_src (bcast_view j) r = (if r = b_root j then [] else bcast_locs j (b_root j))"
  "rt_dst (bcast_view j) r = (if r = b_root j then [] else bcast_locs j r)"
  by (simp_all add: bcast_view_def)

lemma bcast_view_ok: "bcast_ok h j \<Longrightarrow> rooted_ok (bcast_view j)"
  using bcast_locs_apart [of _ _ j] length_bcast_locs [of j]
  by (auto simp: rooted_ok_def bcast_ok_def bcast_job_ok_def same_call_def)

text \<open>A request for a whole buffer of the broadcast.\<close>

lemma bcast_transfer:
  assumes ok: "bcast_ok h j" and r: "r < b_n j" "x < b_n j" "x \<noteq> r"
    and k: "request_is w c r (b_buf j r) (b_type j) (b_cnt j) (b_cnt j) busy" "1 \<le> busy" "busy < 32768"
  shows "transfers (write_to_owner (h_writev h) c (Priv x, b_buf j x) (b_type j) (b_cnt j) 0 0 w) w c (bcast_locs j x) (bcast_locs j r)
      (\<lambda>w'. request_is w' c r (b_buf j r) (b_type j) (b_cnt j) (b_cnt j) (busy - 1))"
    "transfers (read_from_owner (h_readv h) c (Priv x, b_buf j x) (b_type j) (b_cnt j) (b_cnt j) 0 0 w) w c (bcast_locs j r) (bcast_locs j x)
      (\<lambda>w'. request_is w' c r (b_buf j r) (b_type j) (b_cnt j) (b_cnt j) (busy - 1))"
proof -
  obtain us where j: "bcast_job_ok j us" and vm: "vm_ok (h_writev h)" "vm_ok (h_readv h)" using ok by (auto simp: bcast_ok_def)
  have t: "typed_buf (b_type j) 0 (b_cnt j - 0)" "iov_len (b_type j) \<noteq> 0" "0 \<le> b_cnt j" "0 + b_cnt j \<le> b_cnt j" "b_cnt j < 2 ^ 31"
    using j by (simp_all add: bcast_job_ok_def whole_buf_def)
  have sep: "separate (payload (Priv x, b_buf j x) (b_type j) 0 (b_cnt j)) (payload (Priv r, b_buf j r) (b_type j) 0 (b_cnt j - 0))"
    "separate (payload (Priv r, b_buf j r) (b_type j) 0 (b_cnt j - 0)) (payload (Priv x, b_buf j x) (b_type j) 0 (b_cnt j))"
    using bcast_separate [OF j r(1,3)] bcast_separate [OF j r(2) r(3) [symmetric]] by (simp_all add: bcast_locs_def)
  have zero: "b_cnt j \<noteq> 0 \<or> bytes_of (b_type j) (b_cnt j - 0) = 0" by (auto simp: bytes_of_def)
  show "transfers (write_to_owner (h_writev h) c (Priv x, b_buf j x) (b_type j) (b_cnt j) 0 0 w) w c (bcast_locs j x) (bcast_locs j r)
      (\<lambda>w'. request_is w' c r (b_buf j r) (b_type j) (b_cnt j) (b_cnt j) (busy - 1))"
    unfolding bcast_locs_def using t by (intro write_part [OF vm(1) k _ t(1,2) refl _ _ _ _ _ _ sep(1)]) simp_all
  show "transfers (read_from_owner (h_readv h) c (Priv x, b_buf j x) (b_type j) (b_cnt j) (b_cnt j) 0 0 w) w c (bcast_locs j r) (bcast_locs j x)
      (\<lambda>w'. request_is w' c r (b_buf j r) (b_type j) (b_cnt j) (b_cnt j) (busy - 1))"
    unfolding bcast_locs_def using t by (intro read_part [OF vm(2) k t(1,2,3,4,5,1,2) refl t(3,4) zero sep(2)])
qed

lemma bcast_late_moves:
  assumes ok: "bcast_ok h j" and r: "r < b_n j" "r \<noteq> b_root j"
    and k: "root_req (bcast_view j) w c busy" "1 \<le> busy" "busy < 32768"
  shows "transfers (bcast_late h j r ds c w) w c (rt_src (bcast_view j) r) (rt_dst (bcast_view j) r)
    (\<lambda>w'. root_req (bcast_view j) w' c (busy - 1))"
proof -
  have n: "b_root j < b_n j" using ok by (auto simp: bcast_ok_def bcast_job_ok_def)
  have "request_is w c (b_root j) (b_buf j (b_root j)) (b_type j) (b_cnt j) (b_cnt j) busy" using k(1) by (simp add: root_req_def)
  from bcast_transfer(2) [OF ok n r this k(2,3)] r(2) show ?thesis unfolding bcast_late_def root_req_def by simp
qed

lemma bcast_serve_moves:
  assumes ok: "bcast_ok h j" and r: "r < b_n j" "r \<noteq> b_root j" and k: "early_req (bcast_view j) w r c"
  shows "transfers (bcast_serve h j c w) w c (rt_src (bcast_view j) r) (rt_dst (bcast_view j) r) (\<lambda>w'. finished w' c)"
proof -
  have n: "b_root j < b_n j" using ok by (auto simp: bcast_ok_def bcast_job_ok_def)
  have "request_is w c r (b_buf j r) (b_type j) (b_cnt j) (b_cnt j) 1" using k by (simp add: early_req_def)
  from bcast_transfer(1) [OF ok r(1) n r(2) [symmetric] this] r(2) show ?thesis
    unfolding bcast_serve_def transfers_def using request_is_finished by fastforce
qed

interpretation bcast: rooted_transfers "bcast_ok h" bcast_view "bcast_late h" "bcast_serve h" for h
  by unfold_locales (simp_all add: bcast_view_ok bcast_late_moves bcast_serve_moves del: bcast_view_sel(10,11))

section \<open>All calls\<close>

lemma bcast_enters:
  assumes ok: "bcast_job_ok j us" and r: "r < b_n j" and sa: "slot_after (b_ticket j) n (b_slot j s)"
  shows "ibcast_of h us j r s = returned (after_entry us (b_ticket j) r)
    (if r = b_root j
     then root_call (bcast_serve h j) (after_entry us (b_ticket j) r) (slot_of (b_ticket j)) (b_buf j r) (b_type j) (b_cnt j) (b_cnt j)
       (entered (b_ticket j) n s)
     else member_call (bcast_late h j r) (after_entry us (b_ticket j) r) (slot_of (b_ticket j)) (b_buf j r, b_type j, b_cnt j)
       (int (b_root j)) (entered (b_ticket j) n s))"
proof -
  have sc: "same_call (b_n j) us (b_ticket j)" and j: "b_root j < b_n j" "b_buf j r = 0 \<longrightarrow> b_cnt j = 0"
    using ok r by (auto simp: bcast_job_ok_def)
  have u: "u_rank (us r) = r" "u_size (us r) = int (b_n j)" using sc r by (simp_all add: same_call_def)
  have "(\<lambda>c. write_to_owner (h_writev h) c (Priv (b_root j), b_buf j (b_root j)) (b_type j) (b_cnt j) 0 0) = bcast_serve h j"
    by (simp add: fun_eq_iff bcast_serve_def)
  then show ?thesis
    using j u in_slot_enter [OF sc r sa]
    by (auto simp: ibcast_of_def MPI_Ibcast_def returned_def bcast_request_def member_call_def bcast_late_def root_bcast_request_def
        root_call_def split: option.splits)
qed

text \<open>Broadcast, whatever the order in which the ranks arrive. All \<open>n\<close> ranks call \<^verbatim>\<open>MPI_Ibcast\<close> on
  a free slot, each once, in any order; the pool has room for \<open>n\<close> requests. Every call returns
  \<^verbatim>\<open>MPI_SUCCESS\<close> with a request, no call blocks on the slot or ends the process, and when the last
  rank has called, every rank's buffer holds the data the root's buffer held at the start, nothing
  outside the buffers has changed, every request is completed without error, so that each rank's
  \<^verbatim>\<open>MPI_Wait\<close> returns at once, and the slot is unlocked and empty, free for the operation 16 tickets later.\<close>

theorem bcast_all_orders:
  assumes "bcast_job_ok j us" "vm_ok (h_writev h)" "vm_ok (h_readv h)"
    and "w_size (cw_world s) = b_n j" "box_inv (cw_world s) B" "slot_free (b_ticket j) s"
    and "64 * b_n j \<le> unat (p_space (w_pool (cw_world s)))"
    and "distinct rs" "set rs = {..<b_n j}"
  shows "\<exists>s' q. calls_all (ibcast_of h us j) rs s = Ret (s', map (\<lambda>r. (MPI_SUCCESS, Some (q r))) rs) \<and>
    (\<forall>r < b_n j. map (w_mem (cw_world s')) (bcast_locs j r) = map (w_mem (cw_world s)) (bcast_locs j (b_root j)) \<and>
       finished (cw_world s') (q r)) \<and>
    (\<forall>l. (\<forall>r < b_n j. r \<noteq> b_root j \<longrightarrow> l \<notin> set (bcast_locs j r)) \<longrightarrow> w_mem (cw_world s') l = w_mem (cw_world s) l) \<and>
    slot_free (b_ticket j) s' \<and> box_inv (cw_world s') B"
proof -
  have ok: "bcast_ok h j" and sc: "same_call (b_n j) us (b_ticket j)" and rt: "b_root j < b_n j"
    using assms(1-3) by (auto simp: bcast_ok_def bcast_job_ok_def)
  have root: "\<exists>s1. root_prepares (bcast_view j) ds s s1 \<and> ibcast_of h us j (b_root j) s = returned (after_entry us (b_ticket j) (b_root j))
      (root_call (bcast_serve h j) (after_entry us (b_ticket j) (b_root j)) (slot_of (b_ticket j)) (b_buf j (b_root j)) (b_type j)
        (b_cnt j) (b_cnt j) s1)" if "slot_after (b_ticket j) (length ds) (b_slot j s)" for s and ds :: "nat list"
    using bcast_enters [OF assms(1) rt that] root_prepares_plain [of "bcast_view j" "entered (b_ticket j) (length ds) s" ds s]
    by (auto simp: same_boxes_def moved_def)
  have member: "ibcast_of h us j r s = returned (after_entry us (b_ticket j) r) (member_call (bcast_late h j r) (after_entry us (b_ticket j) r)
      (slot_of (b_ticket j)) (b_buf j r, b_type j, b_cnt j) (int (b_root j)) (entered (b_ticket j) (length ds) s))"
    if "r < b_n j" "r \<noteq> b_root j" "slot_after (b_ticket j) (length ds) (b_slot j s)" for s r and ds :: "nat list"
    using bcast_enters [OF assms(1) that(1,3)] that(2) by simp
  obtain s' q where r: "calls_all (ibcast_of h us j) rs s = Ret (s', map (\<lambda>r. (MPI_SUCCESS, Some (q r))) rs)"
    "\<And>r. r < b_n j \<Longrightarrow> map (w_mem (cw_world s')) (rt_dst (bcast_view j) r) = map (w_mem (cw_world s)) (rt_src (bcast_view j) r) \<and>
       finished (cw_world s') (q r)"
    "\<And>l. (\<And>r. r < b_n j \<Longrightarrow> l \<notin> set (rt_dst (bcast_view j) r)) \<Longrightarrow> w_mem (cw_world s') l = w_mem (cw_world s) l"
    "slot_free (b_ticket j) s' \<and> box_inv (cw_world s') B"
    using bcast.all_orders [of h j us s B rs "ibcast_of h us j", unfolded bcast_view_sel(1-9), OF ok sc assms(4-9) member root] by blast
  have out: "w_mem (cw_world s') l = w_mem (cw_world s) l" if "\<forall>r < b_n j. r \<noteq> b_root j \<longrightarrow> l \<notin> set (bcast_locs j r)" for l
    using that by (intro r(3)) simp
  have "map (w_mem (cw_world s')) (bcast_locs j r) = map (w_mem (cw_world s)) (bcast_locs j (b_root j))" if x: "r < b_n j" for r
  proof (cases "r = b_root j")
    case True
    show ?thesis unfolding True using bcast_locs_apart [of _ "b_root j" j] by (intro map_cong refl out) blast
  next
    case False
    then show ?thesis using r(2) [OF x] by (simp del: map_eq_conv)
  qed
  then show ?thesis using r(1,2,4) out by (intro exI [of _ s'] exI [of _ q]) blast
qed

definition demo_bcast :: bcast_job where
  "demo_bcast = \<lparr>b_n = 3, b_ticket = 0, b_root = 1, b_buf = (\<lambda>r. 1000), b_cnt = 1, b_type = demo_type\<rparr>"

lemma demo_bcast_ok: "bcast_job_ok demo_bcast (demo_ranks 3)"
proof -
  have "payload (Priv r, 1000) demo_type 0 1 = [(Priv r, 1000), (Priv r, 1001), (Priv r, 1002), (Priv r, 1003)]" for r
    by (simp add: payload_def elem_locs_def demo_type_def iov_defs loc_range_def add_loc_def upt_rec)
  then show ?thesis
    using demo_ranks_call [of 3]
    by (simp add: bcast_job_ok_def demo_bcast_def bcast_locs_def whole_buf_def typed_buf_def demo_type_def
        wf_iovec_def iov_defs)
qed

definition demo_mem :: mem where
  "demo_mem = (\<lambda>l. if l = (Priv 1, 1002) then 7 else 0)"

lemma bcast_all_orders_witness:
  "\<exists>s' q. calls_all (ibcast_of demo_host (demo_ranks 3) demo_bcast) [2, 1, 0] (demo_cworld 3 demo_mem) =
      Ret (s', [(MPI_SUCCESS, Some (q (2 :: nat))), (MPI_SUCCESS, Some (q 1)), (MPI_SUCCESS, Some (q 0))]) \<and>
    map (w_mem (cw_world s')) (bcast_locs demo_bcast 0) = [0, 0, 7, 0] \<and>
    map (w_mem (cw_world s')) (bcast_locs demo_bcast 2) = [0, 0, 7, 0] \<and> finished (cw_world s') (q 2)"
proof -
  have b: "b_n demo_bcast = 3" "b_ticket demo_bcast = 0" "b_root demo_bcast = 1" by (simp_all add: demo_bcast_def)
  have vm: "vm_ok (h_writev demo_host)" "vm_ok (h_readv demo_host)" by (simp_all add: demo_host_def vm_ok_copy)
  have d: "map demo_mem (bcast_locs demo_bcast 1) = [0, 0, 7, 0]" by code_simp
  have rs: "distinct [2, 1, 0 :: nat]" "set [2, 1, 0] = {..<3 :: nat}" by auto
  note c = demo_cworld_start [of 3 demo_mem]
  obtain s' q where r: "calls_all (ibcast_of demo_host (demo_ranks 3) demo_bcast) [2, 1, 0] (demo_cworld 3 demo_mem) =
      Ret (s', map (\<lambda>r. (MPI_SUCCESS, Some (q r))) [2, 1, 0])"
    "\<forall>r < 3. map (w_mem (cw_world s')) (bcast_locs demo_bcast r) = map demo_mem (bcast_locs demo_bcast 1) \<and>
       finished (cw_world s') (q r)"
    using bcast_all_orders [OF demo_bcast_ok vm, of "demo_cworld 3 demo_mem" "{#}" "[2, 1, 0]", unfolded b c, OF refl _ _ _ rs]
      c by auto
  then show ?thesis using d by (intro exI [of _ s'] exI [of _ q]) (simp del: calls_all.simps)
qed

end
