(* ===== verification/Collect_Calls.thy ===== *)
theory Collect_Calls
  imports Api Collect
begin

text \<open>
  The blocking collective calls of \<^verbatim>\<open>umpi.cc\<close>: the call that starts the operation, then \<^verbatim>\<open>MPI_Wait\<close>
  on the request, which is a local variable.
\<close>

type_synonym blocking = "(umpi option \<times> cworld \<times> int progress) outcome"

definition wait_started :: "call \<Rightarrow> blocking" where
  "wait_started started =
     and_then started (\<lambda>(up, s, ret, request).
       if ret \<noteq> 0 then Ret (up, s, Done ret)
       else and_then (MPI_Wait up (Some request) None (cw_world s))
              (\<lambda>(w, _, p). Ret (up, set_world w s, done_with snd p)))"

definition MPI_Bcast ::
  "host \<Rightarrow> umpi option \<Rightarrow> int \<Rightarrow> int \<Rightarrow> iovecs option \<Rightarrow> int \<Rightarrow> comm \<Rightarrow> cworld \<Rightarrow> blocking" where
  "MPI_Bcast h up buf cnt datatype root comm s = wait_started (MPI_Ibcast h up buf cnt datatype root comm s)"

definition MPI_Allgather ::
  "host \<Rightarrow> umpi option \<Rightarrow> int \<Rightarrow> int \<Rightarrow> iovecs option \<Rightarrow> int \<Rightarrow> int \<Rightarrow> iovecs option \<Rightarrow> comm \<Rightarrow> cworld \<Rightarrow> blocking" where
  "MPI_Allgather h up sendbuf sendcount sendtype recvbuf recvcount recvtype comm s =
     wait_started (MPI_Iallgather h up sendbuf sendcount sendtype recvbuf recvcount recvtype comm s)"

definition MPI_Allreduce ::
  "host \<Rightarrow> umpi option \<Rightarrow> int \<Rightarrow> int \<Rightarrow> int \<Rightarrow> iovecs option \<Rightarrow> op option \<Rightarrow> comm \<Rightarrow> cworld \<Rightarrow> blocking" where
  "MPI_Allreduce h up sendbuf recvbuf cnt datatype opp comm s =
     (case (up, datatype, opp) of
        (Some u, Some ty, Some p) \<Rightarrow>
          if (sendbuf = 0 \<or> recvbuf = 0) \<and> cnt \<noteq> 0 \<or> comm \<noteq> MPI_COMM_WORLD then Ret (up, s, Done MPI_FAIL)
          else if u_size u = 1
          then Ret (up, (if sendbuf \<noteq> h_in_place h
                     then copy_in h u (Priv (u_rank u), sendbuf) ty cnt 0 (Priv (u_rank u), recvbuf) ty cnt 0 s
                     else s), Done MPI_SUCCESS)
          else wait_started (MPI_Iallreduce h up sendbuf recvbuf cnt datatype opp comm s)
      | _ \<Rightarrow> Ret (up, s, Done MPI_FAIL))"

definition MPI_Exscan ::
  "host \<Rightarrow> umpi option \<Rightarrow> int \<Rightarrow> int \<Rightarrow> int \<Rightarrow> iovecs option \<Rightarrow> op option \<Rightarrow> comm \<Rightarrow> cworld \<Rightarrow> blocking" where
  "MPI_Exscan h up sendbuf recvbuf cnt datatype opp comm s =
     wait_started (MPI_Iexscan h up sendbuf recvbuf cnt datatype opp comm s)"

definition MPI_Scan ::
  "host \<Rightarrow> umpi option \<Rightarrow> int \<Rightarrow> int \<Rightarrow> int \<Rightarrow> iovecs option \<Rightarrow> op option \<Rightarrow> comm \<Rightarrow> cworld \<Rightarrow> blocking" where
  "MPI_Scan h up sendbuf recvbuf cnt datatype opp comm s =
     wait_started (MPI_Iscan h up sendbuf recvbuf cnt datatype opp comm s)"

definition MPI_Gather ::
  "host \<Rightarrow> umpi option \<Rightarrow> int \<Rightarrow> int \<Rightarrow> iovecs option \<Rightarrow> int \<Rightarrow> int \<Rightarrow> iovecs option \<Rightarrow> int \<Rightarrow> comm \<Rightarrow> cworld \<Rightarrow> blocking" where
  "MPI_Gather h up sendbuf sendcount sendtype recvbuf recvcount recvtype root comm s =
     wait_started (MPI_Igather h up sendbuf sendcount sendtype recvbuf recvcount recvtype root comm s)"

definition MPI_Gatherv ::
  "host \<Rightarrow> umpi option \<Rightarrow> int \<Rightarrow> int \<Rightarrow> iovecs option \<Rightarrow> int \<Rightarrow> int list option \<Rightarrow> int list option \<Rightarrow>
     iovecs option \<Rightarrow> int \<Rightarrow> comm \<Rightarrow> cworld \<Rightarrow> blocking" where
  "MPI_Gatherv h up sendbuf sendcount sendtype recvbuf recvcounts displs recvtype root comm s =
     wait_started (MPI_Igatherv h up sendbuf sendcount sendtype recvbuf recvcounts displs recvtype root comm s)"

definition MPI_Scatter ::
  "host \<Rightarrow> umpi option \<Rightarrow> int \<Rightarrow> int \<Rightarrow> iovecs option \<Rightarrow> int \<Rightarrow> int \<Rightarrow> iovecs option \<Rightarrow> int \<Rightarrow> comm \<Rightarrow> cworld \<Rightarrow> blocking" where
  "MPI_Scatter h up sendbuf sendcount sendtype recvbuf recvcount recvtype root comm s =
     wait_started (MPI_Iscatter h up sendbuf sendcount sendtype recvbuf recvcount recvtype root comm s)"

section \<open>MPI_Allgatherv\<close>

text \<open>
  \<^verbatim>\<open>MPI_Allgatherv\<close> is one gather after the other, with a barrier between. The next call it makes is
  the state \<open>agv\<close>; \<open>allgatherv_next\<close> gives the state after that call has returned \<open>ret\<close>. The
  return code of the first barrier is overwritten.
\<close>

datatype agv = Agv_barrier1 int | Agv_gather int | Agv_barrier2 int | Agv_wait int | Agv_return int

definition allgatherv_root :: "umpi \<Rightarrow> int \<Rightarrow> agv" where
  "allgatherv_root u root =
     (if u_size u \<le> root then Agv_return MPI_SUCCESS
      else if root \<noteq> int (u_rank u) then Agv_barrier1 root else Agv_gather root)"

fun allgatherv_next :: "umpi \<Rightarrow> agv \<Rightarrow> int \<Rightarrow> agv" where
  "allgatherv_next u (Agv_barrier1 root) ret = Agv_gather root"
| "allgatherv_next u (Agv_gather root) ret =
     (if ret \<noteq> 0 then Agv_return ret else if root = int (u_rank u) then Agv_barrier2 root else Agv_wait root)"
| "allgatherv_next u (Agv_barrier2 root) ret = (if ret \<noteq> 0 then Agv_return ret else Agv_wait root)"
| "allgatherv_next u (Agv_wait root) ret = (if ret \<noteq> 0 then Agv_return ret else allgatherv_root u (root + 1))"
| "allgatherv_next u (Agv_return ret') ret = Agv_return ret'"

text \<open>The call of the state \<open>Agv_gather root\<close>.\<close>

definition allgatherv_gather ::
  "host \<Rightarrow> umpi \<Rightarrow> int \<Rightarrow> int \<Rightarrow> iovecs option \<Rightarrow> int \<Rightarrow> int list \<Rightarrow> int list \<Rightarrow> iovecs \<Rightarrow> comm \<Rightarrow> int \<Rightarrow> cworld \<Rightarrow> call" where
  "allgatherv_gather h u sendbuf sendcount sendtype recvbuf recvcounts displs recvtype comm root s =
     (let r = u_rank u
      in if sendbuf = h_in_place h \<and> root \<noteq> int r
         then if length displs \<le> r \<or> length recvcounts \<le> r then Undef
              else MPI_Igatherv h (Some u) (recvbuf + displs ! r * iov_stride recvtype) (recvcounts ! r) (Some recvtype)
                0 None None None root comm s
         else MPI_Igatherv h (Some u) sendbuf sendcount sendtype recvbuf (Some recvcounts) (Some displs) (Some recvtype)
                root comm s)"

text \<open>The states of one \<^verbatim>\<open>MPI_Allgatherv\<close>, as far as the return codes \<open>rets\<close> of its calls are given.\<close>

fun allgatherv_calls :: "umpi \<Rightarrow> int list \<Rightarrow> agv \<Rightarrow> agv list" where
  "allgatherv_calls u [] st = []"
| "allgatherv_calls u (ret # rets) st =
     (case st of Agv_return ret' \<Rightarrow> [st] | _ \<Rightarrow> st # allgatherv_calls u rets (allgatherv_next u st ret))"

end
