(* ===== verification/Bcast_Machine.thy ===== *)
theory Bcast_Machine
  imports Bcast Collect_Calls
begin

text \<open>
  All ranks inside \<^verbatim>\<open>MPI_Bcast\<close> at once: a step relation whose steps are the section under the mutex
  of the slot, the single transfers, and the steps of \<^verbatim>\<open>MPI_Wait\<close>, in any interleaving. A rank whose
  call has returned may overwrite its own memory, and sleepers may wake up for no reason.

  \<open>B_writing c todo\<close>: the root with its request \<open>c\<close> at the head of the loop over \<^verbatim>\<open>todo\<close>;
  \<open>B_sending c d todo\<close>: with \<open>d\<close> moved to the pending list of its owner and not written to yet.
\<close>

section \<open>The part under the mutex\<close>

text \<open>\<^verbatim>\<open>bcast_request\<close> up to the unlock: the request, and whether it was joined (a transfer is to follow).\<close>

definition bcast_post :: "umpi \<Rightarrow> nat \<Rightarrow> int \<Rightarrow> int \<Rightarrow> iovecs \<Rightarrow> int \<Rightarrow> cworld \<Rightarrow> (cworld \<times> cid \<times> bool) outcome" where
  "bcast_post u i buf cnt ty root s =
     (case late_join u i root s of
        Some (s1, c) \<Rightarrow> Ret (s1, c, True)
      | None \<Rightarrow>
          and_then (collect_create u i buf ty cnt cnt 1 s) (\<lambda>(s1, c). Ret (unlock i s1, c, False)))"

lemma bcast_request_post:
  "bcast_request h u i buf cnt ty root s =
     and_then (bcast_post u i buf cnt ty root s) (\<lambda>(s1, c, joined).
       if joined
       then finish_with (Some c) s1 (read_from_owner (h_readv h) c (Priv (u_rank u), buf) ty cnt cnt 0 0 (cw_world s1))
       else Ret (s1, MPI_SUCCESS, Some c))"
  by (cases "collect_create u i buf ty cnt cnt 1 s") (auto simp: bcast_request_def bcast_post_def split: option.splits)

section \<open>The machine\<close>

datatype bpc =
    B_start
  | B_reading cid
  | B_writing cid "cid list"
  | B_sending cid cid "cid list"
  | B_waiting cid
  | B_leaving cid
  | B_returned int
  | B_reused

record bmachine =
  bm_shared :: cworld
  bm_pc :: "nat \<Rightarrow> bpc"

abbreviation bm_world :: "bmachine \<Rightarrow> world" where
  "bm_world m \<equiv> cw_world (bm_shared m)"

definition bset :: "nat \<Rightarrow> cworld \<Rightarrow> bpc \<Rightarrow> bmachine \<Rightarrow> bmachine" where
  "bset r s p m = m\<lparr>bm_shared := s, bm_pc := (bm_pc m)(r := p)\<rparr>"

definition bset_world :: "nat \<Rightarrow> world \<Rightarrow> bpc \<Rightarrow> bmachine \<Rightarrow> bmachine" where
  "bset_world r w p m = bset r (set_world w (bm_shared m)) p m"

inductive bcast_step :: "host \<Rightarrow> (nat \<Rightarrow> umpi) \<Rightarrow> bcast_job \<Rightarrow> bmachine \<Rightarrow> bmachine \<Rightarrow> bool" for h us j where
  enter: "r < b_n j \<Longrightarrow> r \<noteq> b_root j \<Longrightarrow> bm_pc m r = B_start \<Longrightarrow>
    get_current_slot (us r) (bm_shared m) = Ret (u, s1, i) \<Longrightarrow>
    bcast_post u i (b_buf j r) (b_cnt j) (b_type j) (int (b_root j)) s1 = Ret (s2, c, joined) \<Longrightarrow>
    bcast_step h us j m (bset r s2 (if joined then B_reading c else B_waiting c) m)"
| enter_root: "r < b_n j \<Longrightarrow> r = b_root j \<Longrightarrow> bm_pc m r = B_start \<Longrightarrow>
    get_current_slot (us r) (bm_shared m) = Ret (u, s1, i) \<Longrightarrow>
    root_start u i (b_buf j r) (b_type j) (b_cnt j) (b_cnt j) s1 = Ret (s2, c, todo) \<Longrightarrow>
    bcast_step h us j m (bset r s2 (B_writing c todo) m)"
| do_read: "r < b_n j \<Longrightarrow> bm_pc m r = B_reading c \<Longrightarrow>
    read_from_owner (h_readv h) c (Priv r, b_buf j r) (b_type j) (b_cnt j) (b_cnt j) 0 0 (bm_world m) = Ret (w, ret) \<Longrightarrow>
    bcast_step h us j m (bset_world r w (if ret = 0 then B_waiting c else B_returned ret) m)"
| do_move: "r < b_n j \<Longrightarrow> bm_pc m r = B_writing c (d # todo) \<Longrightarrow>
    bcast_step h us j m (bset_world r (to_pending d (bm_world m)) (B_sending c d todo) m)"
| do_write: "r < b_n j \<Longrightarrow> bm_pc m r = B_sending c d todo \<Longrightarrow>
    write_to_owner (h_writev h) d (Priv r, b_buf j r) (b_type j) (b_cnt j) 0 0 (bm_world m) = Ret (w, ret) \<Longrightarrow>
    ret = 0 \<Longrightarrow> bcast_step h us j m (bset_world r w (B_writing c todo) m)"
| write_fails: "r < b_n j \<Longrightarrow> bm_pc m r = B_sending c d todo \<Longrightarrow>
    write_to_owner (h_writev h) d (Priv r, b_buf j r) (b_type j) (b_cnt j) 0 0 (bm_world m) = Ret (w, ret) \<Longrightarrow>
    ret \<noteq> 0 \<Longrightarrow> drop_todo todo ret w = Ret (w', ret) \<Longrightarrow> bcast_step h us j m (bset_world r w' (B_returned ret) m)"
| written: "r < b_n j \<Longrightarrow> bm_pc m r = B_writing c [] \<Longrightarrow>
    bcast_step h us j m (bset_world r (bm_world m) (B_waiting c) m)"
| do_wait: "r < b_n j \<Longrightarrow> bm_pc m r = B_waiting c \<Longrightarrow> \<not> pr_asleep (w_procs (bm_world m) r) \<Longrightarrow>
    cookie_wait r c (bm_world m) = (w, res) \<Longrightarrow>
    bcast_step h us j m (bset_world r w (if res = None then B_waiting c else B_leaving c) m)"
| do_leave: "r < b_n j \<Longrightarrow> bm_pc m r = B_leaving c \<Longrightarrow> cookie_leave c (bm_world m) = Ret w \<Longrightarrow>
    bcast_step h us j m (bset_world r w (B_returned (c_err (w_cookies (bm_world m) c))) m)"

inductive bcast_wake :: "bcast_job \<Rightarrow> bmachine \<Rightarrow> bmachine \<Rightarrow> bool" for j where
  spurious: "r < b_n j \<Longrightarrow> pr_asleep (w_procs (bm_world m) r) \<Longrightarrow>
    bcast_wake j m (bset_world r (upd_proc r (\<lambda>p. p\<lparr>pr_asleep := False\<rparr>) (bm_world m)) (bm_pc m r) m)"

inductive bcast_reuse :: "bcast_job \<Rightarrow> bmachine \<Rightarrow> bmachine \<Rightarrow> bool" for j where
  reuse: "r < b_n j \<Longrightarrow> bm_pc m r = B_reused \<or> bm_pc m r = B_returned ret \<Longrightarrow>
    (\<And>l. fst l \<noteq> Priv r \<Longrightarrow> mem l = w_mem (bm_world m) l) \<Longrightarrow>
    bcast_reuse j m (bset_world r ((bm_world m)\<lparr>w_mem := mem\<rparr>) B_reused m)"

text \<open>\<open>bcast_run h us j s k p m\<close>: \<open>m\<close> is reached from \<open>s\<close> in \<open>k\<close> steps of the calls and \<open>p\<close> spurious wake-ups.\<close>

inductive bcast_run :: "host \<Rightarrow> (nat \<Rightarrow> umpi) \<Rightarrow> bcast_job \<Rightarrow> cworld \<Rightarrow> nat \<Rightarrow> nat \<Rightarrow> bmachine \<Rightarrow> bool" for h us j s where
  start: "bcast_run h us j s 0 0 \<lparr>bm_shared = s, bm_pc = \<lambda>_. B_start\<rparr>"
| step: "bcast_run h us j s k p m \<Longrightarrow> bcast_step h us j m m' \<Longrightarrow> bcast_run h us j s (Suc k) p m'"
| wake: "bcast_run h us j s k p m \<Longrightarrow> bcast_wake j m m' \<Longrightarrow> bcast_run h us j s k (Suc p) m'"
| reuse: "bcast_run h us j s k p m \<Longrightarrow> bcast_reuse j m m' \<Longrightarrow> bcast_run h us j s k p m'"

lemma bset_simps [simp]:
  "bm_shared (bset r s p m) = s" "bm_pc (bset r s p m) = (bm_pc m)(r := p)"
  "bm_shared (bset_world r w p m) = set_world w (bm_shared m)" "bm_pc (bset_world r w p m) = (bm_pc m)(r := p)"
  by (simp_all add: bset_def bset_world_def)

end
