(* ===== verification/Bcast_Run_Inv.thy ===== *)
theory Bcast_Run_Inv
  imports Bcast_Machine
begin

text \<open>
  The invariant of the broadcast machine. \<open>E\<close> are the ranks that have called before the root, in order
  of arrival, and \<open>q\<close> gives their requests; \<open>q\<close> of the root is the request the root got, its own one or
  the last of the others' when it is the last rank. \<open>D\<close> is the data of the root.
\<close>

section \<open>Counting\<close>

definition tally :: "nat \<Rightarrow> (bpc \<Rightarrow> bool) \<Rightarrow> (nat \<Rightarrow> bpc) \<Rightarrow> nat" where
  "tally n P f = card {r. r < n \<and> P (f r)}"

lemma tally_upd:
  assumes "r < n"
  shows "tally n P (f(r := p)) + (if P (f r) then 1 else 0) = tally n P f + (if P p then 1 else 0)"
proof -
  let ?A = "{s. s < n \<and> s \<noteq> r \<and> P (f s)}"
  have "{s. s < n \<and> P ((f(r := p)) s)} = (if P p then insert r ?A else ?A)" using assms by auto
  moreover have "{s. s < n \<and> P (f s)} = (if P (f r) then insert r ?A else ?A)" using assms by auto
  ultimately show ?thesis by (simp add: tally_def)
qed

lemma tally_pos: "0 < tally n P f \<longleftrightarrow> (\<exists>r < n. P (f r))"
  by (auto simp: tally_def card_gt_0_iff)

lemma tally_le: "tally n P f \<le> n"
  using card_mono [of "{..<n}" "{r. r < n \<and> P (f r)}"] by (auto simp: tally_def)

lemma tally_less: "tally n P f < n \<longleftrightarrow> (\<exists>r < n. \<not> P (f r))"
proof
  assume "tally n P f < n"
  moreover have "{r. r < n \<and> P (f r)} = {..<n}" if "\<forall>r < n. P (f r)" using that by auto
  ultimately show "\<exists>r < n. \<not> P (f r)" unfolding tally_def by fastforce
next
  assume "\<exists>r < n. \<not> P (f r)"
  then have "{r. r < n \<and> P (f r)} \<subset> {..<n}" by auto
  then show "tally n P f < n" using psubset_card_mono [of "{..<n}"] by (auto simp: tally_def)
qed

fun handle :: "bpc \<Rightarrow> cid option" where
  "handle (B_reading c) = Some c"
| "handle (B_writing c _) = Some c"
| "handle (B_sending c _ _) = Some c"
| "handle (B_waiting c) = Some c"
| "handle (B_leaving c) = Some c"
| "handle _ = None"

fun local_box :: "bpc \<Rightarrow> cid list" where
  "local_box (B_writing c todo) = todo"
| "local_box (B_sending c d todo) = todo"
| "local_box _ = []"

fun unserved :: "bpc \<Rightarrow> cid list" where
  "unserved (B_writing c todo) = todo"
| "unserved (B_sending c d todo) = d # todo"
| "unserved _ = []"

fun opener :: "bpc \<Rightarrow> bool" where
  "opener B_start = True"
| "opener (B_reading c) = True"
| "opener _ = False"

abbreviation holders :: "nat \<Rightarrow> (nat \<Rightarrow> bpc) \<Rightarrow> cid \<Rightarrow> nat" where
  "holders n f c \<equiv> tally n (\<lambda>p. handle p = Some c) f"

abbreviation openers :: "nat \<Rightarrow> (nat \<Rightarrow> bpc) \<Rightarrow> nat" where
  "openers n f \<equiv> tally n opener f"

abbreviation arrived :: "nat \<Rightarrow> (nat \<Rightarrow> bpc) \<Rightarrow> nat" where
  "arrived n f \<equiv> tally n (\<lambda>p. p \<noteq> B_start) f"

section \<open>The invariant\<close>

definition has_data :: "bcast_job \<Rightarrow> byte list \<Rightarrow> world \<Rightarrow> nat \<Rightarrow> bool" where
  "has_data j D w r \<longleftrightarrow> map (w_mem w) (bcast_locs j r) = D"

abbreviation b_boxes :: "bcast_job \<Rightarrow> bmachine \<Rightarrow> cid multiset" where
  "b_boxes j m \<equiv> mset (k_box (b_slot j (bm_shared m))) + mset (local_box (bm_pc m (b_root j)))"

text \<open>Nobody but the root has a local list; the box holds the early requests, then the root's.\<close>

definition b_frame :: "bcast_job \<Rightarrow> cid multiset \<Rightarrow> nat list \<Rightarrow> (nat \<Rightarrow> cid) \<Rightarrow> bmachine \<Rightarrow> bool" where
  "b_frame j B E q m \<longleftrightarrow>
     (let w = bm_world m; f = bm_pc m; n = b_n j; k = b_slot j (bm_shared m)
      in w_size w = n \<and> distinct E \<and> set E \<subseteq> {..<n} - {b_root j} \<and> inj_on q (set E) \<and> \<not> k_locked k \<and>
         k_box k = (if f (b_root j) = B_start then map q E else if arrived n f < n then [q (b_root j)] else []) \<and>
         (arrived n f < n \<longrightarrow> slot_after (b_ticket j) (arrived n f) k) \<and> box_inv w (b_boxes j m + B) \<and>
         (f (b_root j) = B_start \<longrightarrow> arrived n f = length E \<and> 64 * (n - arrived n f) \<le> unat (p_space (w_pool w))))"

text \<open>\<^verbatim>\<open>used_\<close> is the number of ranks that hold the request.\<close>

definition b_used :: "bcast_job \<Rightarrow> bmachine \<Rightarrow> bool" where
  "b_used j m \<longleftrightarrow> (\<forall>c. 0 < holders (b_n j) (bm_pc m) c \<longrightarrow>
     c_used (w_cookies (bm_world m) c) = int (holders (b_n j) (bm_pc m) c) \<and> c \<in># b_boxes j m + pending (bm_world m))"

definition b_sleep :: "bcast_job \<Rightarrow> bmachine \<Rightarrow> bool" where
  "b_sleep j m \<longleftrightarrow> (\<forall>r < b_n j. pr_asleep (w_procs (bm_world m) r) \<longrightarrow>
     (\<exists>c. bm_pc m r = B_waiting c \<and> c_owner (w_cookies (bm_world m) c) = r \<and> c_busy (w_cookies (bm_world m) c) \<noteq> 0 \<and>
        pr_waiting (w_procs (bm_world m) r) = Some c \<and> pr_waiting_for (w_procs (bm_world m) r) = waiting_for_cookie))"

definition served :: "bcast_job \<Rightarrow> byte list \<Rightarrow> world \<Rightarrow> cid \<Rightarrow> nat \<Rightarrow> bpc \<Rightarrow> bool" where
  "served j D w c r p \<longleftrightarrow> (p = B_waiting c \<or> p = B_leaving c \<or> p = B_returned 0) \<and> has_data j D w r \<or> p = B_reused"

definition b_early :: "bcast_job \<Rightarrow> byte list \<Rightarrow> nat list \<Rightarrow> (nat \<Rightarrow> cid) \<Rightarrow> bmachine \<Rightarrow> bool" where
  "b_early j D E q m \<longleftrightarrow>
     (\<forall>e \<in> set E. let w = bm_world m; f = bm_pc m in
        if f (b_root j) = B_start \<or> q e \<in> set (unserved (f (b_root j)))
        then f e = B_waiting (q e) \<and> b_offers j w (q e) e 1
        else served j D w (q e) e (f e) \<and> (0 < holders (b_n j) f (q e) \<longrightarrow> b_offers j w (q e) e 0))"

definition b_late :: "bcast_job \<Rightarrow> byte list \<Rightarrow> nat list \<Rightarrow> (nat \<Rightarrow> cid) \<Rightarrow> bmachine \<Rightarrow> bool" where
  "b_late j D E q m \<longleftrightarrow>
     (\<forall>r < b_n j. r \<noteq> b_root j \<longrightarrow> r \<notin> set E \<longrightarrow>
        bm_pc m r = B_start \<or>
        bm_pc m (b_root j) \<noteq> B_start \<and> (bm_pc m r = B_reading (q (b_root j)) \<or>
          served j D (bm_world m) (q (b_root j)) r (bm_pc m r)))"

fun root_at :: "world \<Rightarrow> cid \<Rightarrow> cid set \<Rightarrow> bpc \<Rightarrow> bool" where
  "root_at w c Q (B_writing c' t) \<longleftrightarrow> c' = c \<and> distinct t \<and> set t \<subseteq> Q"
| "root_at w c Q (B_sending c' d t) \<longleftrightarrow> c' = c \<and> distinct (d # t) \<and> set (d # t) \<subseteq> Q \<and> d \<in># pending w"
| "root_at w c Q (B_waiting c') \<longleftrightarrow> c' = c"
| "root_at w c Q (B_leaving c') \<longleftrightarrow> c' = c"
| "root_at w c Q (B_returned ret) \<longleftrightarrow> ret = 0"
| "root_at w c Q p \<longleftrightarrow> p = B_start \<or> p = B_reused"

definition in_call :: "bpc \<Rightarrow> bool" where
  "in_call p \<longleftrightarrow> (\<exists>c t d. p = B_writing c t \<or> p = B_sending c d t \<or> p = B_waiting c)"

definition b_rooted :: "bcast_job \<Rightarrow> byte list \<Rightarrow> nat list \<Rightarrow> (nat \<Rightarrow> cid) \<Rightarrow> bmachine \<Rightarrow> bool" where
  "b_rooted j D E q m \<longleftrightarrow>
     (let w = bm_world m; f = bm_pc m; n = b_n j; r = b_root j
      in root_at w (q r) (q ` set E) (f r) \<and> (f r \<noteq> B_reused \<longrightarrow> has_data j D w r) \<and>
         (f r \<noteq> B_start \<longrightarrow>
            (if Suc (length E) < n
             then q r \<notin> q ` set E \<and> (0 < holders n f (q r) \<longrightarrow> b_offers j w (q r) r (openers n f)) \<and>
               (0 < openers n f \<longrightarrow> in_call (f r))
             else q r \<in> q ` set E)))"

definition b_inv :: "bcast_job \<Rightarrow> byte list \<Rightarrow> cid multiset \<Rightarrow> nat list \<Rightarrow> (nat \<Rightarrow> cid) \<Rightarrow> bmachine \<Rightarrow> bool" where
  "b_inv j D B E q m \<longleftrightarrow> b_frame j B E q m \<and> b_used j m \<and> b_sleep j m \<and> b_early j D E q m \<and> b_late j D E q m \<and>
     b_rooted j D E q m"

lemma b_invD:
  assumes "b_inv j D B E q m"
  shows "b_frame j B E q m" "b_used j m" "b_sleep j m" "b_early j D E q m" "b_late j D E q m" "b_rooted j D E q m"
  using assms by (simp_all add: b_inv_def)

lemma b_frameD:
  assumes "b_frame j B E q m"
  shows "w_size (bm_world m) = b_n j" "distinct E" "set E \<subseteq> {..<b_n j} - {b_root j}" "inj_on q (set E)"
    "box_inv (bm_world m) (b_boxes j m + B)"
    "k_box (b_slot j (bm_shared m)) = (if bm_pc m (b_root j) = B_start then map q E
       else if arrived (b_n j) (bm_pc m) < b_n j then [q (b_root j)] else [])"
  using assms unfolding b_frame_def Let_def by blast+

section \<open>What a rank does where\<close>

lemma early_at:
  assumes "b_inv j D B E q m" "e \<in> set E"
  shows "bm_pc m e = B_waiting (q e) \<or> bm_pc m e = B_leaving (q e) \<or> bm_pc m e = B_returned 0 \<or> bm_pc m e = B_reused"
  using b_invD(4) [OF assms(1)] assms(2) by (auto simp: b_early_def served_def Let_def split: if_splits)

lemma late_at:
  assumes "b_inv j D B E q m" "r < b_n j" "r \<noteq> b_root j" "r \<notin> set E"
  shows "bm_pc m r = B_start \<or> bm_pc m (b_root j) \<noteq> B_start \<and> (bm_pc m r = B_reading (q (b_root j)) \<or>
    bm_pc m r = B_waiting (q (b_root j)) \<or> bm_pc m r = B_leaving (q (b_root j)) \<or> bm_pc m r = B_returned 0 \<or> bm_pc m r = B_reused)"
  using b_invD(5) [OF assms(1)] assms(2-4) by (auto simp: b_late_def served_def)

lemma root_handle:
  assumes "b_inv j D B E q m" "handle (bm_pc m (b_root j)) = Some c"
  shows "c = q (b_root j)"
  using b_invD(6) [OF assms(1)] assms(2) by (cases "bm_pc m (b_root j)") (auto simp: b_rooted_def Let_def)

lemma writer_is_root:
  assumes "b_inv j D B E q m" "r < b_n j" "bm_pc m r = B_writing c t \<or> bm_pc m r = B_sending c d t"
  shows "r = b_root j"
  using early_at [OF assms(1), of r] late_at [OF assms(1,2)] assms(3) by fastforce

lemma reader_is_late:
  assumes "b_inv j D B E q m" "r < b_n j" "bm_pc m r = B_reading c"
  shows "r \<noteq> b_root j \<and> r \<notin> set E \<and> c = q (b_root j) \<and> bm_pc m (b_root j) \<noteq> B_start"
proof -
  have "r \<noteq> b_root j" using b_invD(6) [OF assms(1)] assms(3) by (auto simp: b_rooted_def Let_def)
  then show ?thesis using early_at [OF assms(1), of r] late_at [OF assms(1,2)] assms(3) by auto
qed

lemma late_not_all:
  assumes "b_frame j B E q m" "r < b_n j" "r \<noteq> b_root j" "r \<notin> set E" "b_root j < b_n j"
  shows "Suc (length E) < b_n j"
proof -
  have "insert (b_root j) (set E) \<subset> {..<b_n j}" using b_frameD(3) [OF assms(1)] assms(2-5) by auto
  then have "card (insert (b_root j) (set E)) < b_n j" using psubset_card_mono [of "{..<b_n j}"] by simp
  moreover have "b_root j \<notin> set E" "card (set E) = length E"
    using b_frameD(2,3) [OF assms(1)] by (auto simp: distinct_card)
  ultimately show ?thesis by simp
qed

lemma holder: "r < n \<Longrightarrow> handle (f r) = Some c \<Longrightarrow> 0 < holders n f c"
  by (auto simp: tally_pos)

section \<open>Steps that keep the requests held\<close>

text \<open>\<open>r\<close> goes on to \<open>p\<close> with the request it has; what is left are the clauses on sleep, data and requests.\<close>

lemma keep_inv:
  assumes inv: "b_inv j D B E q m" and r: "r < b_n j" "bm_pc m r \<noteq> B_start" "p \<noteq> B_start" "handle p = handle (bm_pc m r)"
    and w: "w_size w = b_n j" "w_pool w = w_pool (bm_world m)" "\<And>c. c_used (w_cookies w c) = c_used (w_cookies (bm_world m) c)"
    and bx: "box_inv w (b_boxes j (bset_world r w p m) + B)"
      "b_boxes j (bset_world r w p m) + pending w = b_boxes j m + pending (bm_world m)"
    and rest: "b_sleep j (bset_world r w p m)" "b_early j D E q (bset_world r w p m)" "b_late j D E q (bset_world r w p m)"
      "b_rooted j D E q (bset_world r w p m)"
  shows "b_inv j D B E q (bset_world r w p m)"
proof -
  have h: "holders (b_n j) ((bm_pc m)(r := p)) c = holders (b_n j) (bm_pc m) c" for c
    using tally_upd [OF r(1), of "\<lambda>p. handle p = Some c" "bm_pc m" p] r(4) by auto
  have a: "arrived (b_n j) ((bm_pc m)(r := p)) = arrived (b_n j) (bm_pc m)"
    using tally_upd [OF r(1), of "\<lambda>p. p \<noteq> B_start" "bm_pc m" p] r(2,3) by auto
  have rs: "((bm_pc m)(r := p)) (b_root j) = B_start \<longleftrightarrow> bm_pc m (b_root j) = B_start" using r by simp
  have "b_frame j B E q (bset_world r w p m)"
    using b_invD(1) [OF inv] w(1,2) bx(1) unfolding b_frame_def Let_def
    by (simp only: bset_simps slot_simps a rs) blast
  moreover have "b_used j (bset_world r w p m)"
  proof -
    have "b_boxes j (bset_world r w p m) + pending (bm_world (bset_world r w p m)) = b_boxes j m + pending (bm_world m)"
      using bx(2) by (simp only: bset_simps slot_simps)
    then show ?thesis using b_invD(2) [OF inv] unfolding b_used_def by (simp only: bset_simps(4) h) (simp only: bset_simps slot_simps w(3))
  qed
  ultimately show ?thesis using rest by (simp add: b_inv_def)
qed

lemma cookie_wait_effect:
  assumes "cookie_wait r c w = (w', res)"
  shows "same_boxes w w'" "w_cookies w' = w_cookies w" "w_mem w' = w_mem w" "\<And>s. s \<noteq> r \<Longrightarrow> w_procs w' s = w_procs w s"
    "if c_owner (w_cookies w c) = r \<and> c_busy (w_cookies w c) \<noteq> 0
     then res = None \<and> pr_asleep (w_procs w' r) \<and> pr_waiting (w_procs w' r) = Some c \<and> pr_waiting_for (w_procs w' r) = waiting_for_cookie
     else res \<noteq> None \<and> (pr_asleep (w_procs w' r) \<longrightarrow> pr_asleep (w_procs w r))"
proof -
  let ?own = "c_owner (w_cookies w c) = r" and ?q = "w_procs w r"
  obtain q where q: "w' = upd_proc r (\<lambda>_. q) w" "free_of q = free_of ?q" "unmatched_of q = unmatched_of ?q" "pending_of q = pending_of ?q"
    "if ?own \<and> c_busy (w_cookies w c) \<noteq> 0
     then res = None \<and> pr_asleep q \<and> pr_waiting q = Some c \<and> pr_waiting_for q = waiting_for_cookie
     else res \<noteq> None \<and> (pr_asleep q \<longrightarrow> pr_asleep ?q)"
  proof (cases ?own)
    case False
    then show thesis
      using assms that [of ?q] by (simp add: cookie_wait_def is_owner_def upd_proc_def)
  next
    case True
    show thesis
    proof (cases "c_busy (w_cookies w c) = 0")
      case True
      with \<open>?own\<close> show thesis
        using assms by (intro that [of "?q\<lparr>pr_waiting := None, pr_waiting_for := not_waiting\<rparr>"])
          (auto simp: cookie_wait_def is_owner_def wait_cookie_def Let_def upd_proc_def free_of_def unmatched_of_def pending_of_def)
    next
      case False
      with \<open>?own\<close> show thesis
        using assms by (intro that [of "?q\<lparr>pr_waiting := Some c, pr_waiting_for := waiting_for_cookie, pr_asleep := True\<rparr>"])
          (auto simp: cookie_wait_def is_owner_def wait_cookie_def Let_def upd_proc_def free_of_def unmatched_of_def pending_of_def)
    qed
  qed
  show "same_boxes w w'" using q(2-4) by (simp add: q(1) same_boxes_def)
  show "w_cookies w' = w_cookies w" "w_mem w' = w_mem w" by (simp_all add: q(1))
  show "w_procs w' s = w_procs w s" if "s \<noteq> r" for s using that by (simp add: q(1))
  have "w_procs w' r = q" by (simp add: q(1))
  with q(5) show "if ?own \<and> c_busy (w_cookies w c) \<noteq> 0
     then res = None \<and> pr_asleep (w_procs w' r) \<and> pr_waiting (w_procs w' r) = Some c \<and> pr_waiting_for (w_procs w' r) = waiting_for_cookie
     else res \<noteq> None \<and> (pr_asleep (w_procs w' r) \<longrightarrow> pr_asleep (w_procs w r))" by simp
qed

lemma has_data_cong: "w_mem w' = w_mem w \<Longrightarrow> has_data j D w' r = has_data j D w r"
  by (simp add: has_data_def)

lemma served_cong: "w_mem w' = w_mem w \<Longrightarrow> served j D w' c r p = served j D w c r p"
  by (simp only: served_def has_data_def)

lemma root_at_cong: "pending w' = pending w \<Longrightarrow> root_at w' c Q p = root_at w c Q p"
  by (cases p) simp_all

lemma same_pool: "same_boxes w w' \<Longrightarrow> w_pool w' = w_pool w"
  by (simp add: same_boxes_def)

lemma wait_inv:
  assumes inv: "b_inv j D B E q m" and r: "r < b_n j" "bm_pc m r = B_waiting c" "\<not> pr_asleep (w_procs (bm_world m) r)"
    and w: "cookie_wait r c (bm_world m) = (w, res)"
  shows "b_inv j D B E q (bset_world r w (if res = None then B_waiting c else B_leaving c) m)"
proof -
  let ?p = "if res = None then B_waiting c else B_leaving c" and ?f = "bm_pc m" and ?w = "bm_world m" and ?t = "b_root j"
  let ?m = "bset_world r w ?p m" and ?n = "b_n j"
  note e = cookie_wait_effect [OF w] note sb = same_boxesD [OF e(1)]
  note fr = b_frameD [OF b_invD(1) [OF inv]]
  have idle: "res \<noteq> None \<Longrightarrow> c_owner (w_cookies ?w c) = r \<Longrightarrow> c_busy (w_cookies ?w c) = 0"
    using e(5) by (auto split: if_splits)
  have lb: "local_box ((?f(r := ?p)) ?t) = local_box (?f ?t)" using r(2) by simp
  have us: "unserved ((?f(r := ?p)) ?t) = unserved (?f ?t)" using r(2) by simp
  have st: "(?f(r := ?p)) x = B_start \<longleftrightarrow> ?f x = B_start" for x using r(2) by simp
  have h: "holders ?n (?f(r := ?p)) x = holders ?n ?f x" for x
    using tally_upd [OF r(1), of "\<lambda>p. handle p = Some x" ?f ?p] r(2) by auto
  have o: "openers ?n (?f(r := ?p)) = openers ?n ?f"
    using tally_upd [OF r(1), of opener ?f ?p] r(2) by auto
  have of': "b_offers j w x y z = b_offers j ?w x y z" for x y z by (rule offers_cong) (simp add: e(2))
  show ?thesis
  proof (rule keep_inv [OF inv r(1)])
    show "?f r \<noteq> B_start" "?p \<noteq> B_start" "handle ?p = handle (?f r)" using r(2) by simp_all
    show "w_size w = ?n" "w_pool w = w_pool ?w" using sb(1) same_pool [OF e(1)] fr(1) by simp_all
    show "c_used (w_cookies w x) = c_used (w_cookies ?w x)" for x using e(2) by simp
    show "b_boxes j ?m + pending w = b_boxes j m + pending ?w" by (simp only: bset_simps slot_simps lb sb(3))
    show "box_inv w (b_boxes j ?m + B)" using fr(5) by (simp only: bset_simps slot_simps lb sb(4))
    show "b_sleep j ?m"
      using b_invD(3) [OF inv] e r unfolding b_sleep_def
      by (auto split: if_splits)
    show "b_early j D E q ?m"
      unfolding b_early_def Let_def
    proof
      fix x assume x: "x \<in> set E"
      have old: "if ?f ?t = B_start \<or> q x \<in> set (unserved (?f ?t)) then ?f x = B_waiting (q x) \<and> b_offers j ?w (q x) x 1
        else served j D ?w (q x) x (?f x) \<and> (0 < holders ?n ?f (q x) \<longrightarrow> b_offers j ?w (q x) x 0)"
        using b_invD(4) [OF inv] x unfolding b_early_def Let_def by blast
      have "(?f(r := ?p)) x = ?f x \<or> x = r \<and> ?p = B_leaving (q x) \<and> ?f x = B_waiting (q x) \<and> res \<noteq> None"
        using r(2) early_at [OF inv x] by auto
      moreover have "\<not> (?f ?t = B_start \<or> q x \<in> set (unserved (?f ?t)))" if "x = r" "res \<noteq> None" "?f x = B_waiting (q x)"
        using old idle that r(2) by (auto simp: offers_def Let_def)
      ultimately show "if bm_pc ?m ?t = B_start \<or> q x \<in> set (unserved (bm_pc ?m ?t))
        then bm_pc ?m x = B_waiting (q x) \<and> b_offers j (bm_world ?m) (q x) x 1
        else served j D (bm_world ?m) (q x) x (bm_pc ?m x) \<and> (0 < holders ?n (bm_pc ?m) (q x) \<longrightarrow> b_offers j (bm_world ?m) (q x) x 0)"
        using old by (simp only: bset_simps slot_simps us st h of' served_cong [OF e(3)]) (auto simp: served_def)
    qed
    show "b_late j D E q ?m"
      using b_invD(5) [OF inv] r(2) unfolding b_late_def
      by (simp only: bset_simps slot_simps st served_cong [OF e(3)]) (auto simp: served_def)
    show "b_rooted j D E q ?m"
    proof -
      have ro: "c = q ?t" if "r = ?t" using root_handle [OF inv] r(2) that by simp
      have "?f r \<noteq> B_reused" "?f ?t = B_reused \<longrightarrow> r \<noteq> ?t" using r(2) by auto
      moreover have "openers ?n ?f = 0" if "r = ?t" "res \<noteq> None" "Suc (length E) < ?n"
      proof -
        have "0 < holders ?n ?f (q ?t)" using holder [OF r(1), of ?f c] r(2) ro that(1) by simp
        then have "b_offers j ?w (q ?t) ?t (openers ?n ?f)"
          using b_invD(6) [OF inv] that r(2) unfolding b_rooted_def Let_def by auto
        then show ?thesis using idle ro that by (auto simp: offers_def Let_def)
      qed
      ultimately show ?thesis
        using b_invD(6) [OF inv] r(2) ro unfolding b_rooted_def Let_def
        by (simp only: bset_simps slot_simps h o of' has_data_cong [OF e(3)] root_at_cong [OF sb(3)]) (auto simp: in_call_def)
    qed
  qed
qed

text \<open>Steps of the root in its loop: it stays in the call, nobody else moves.\<close>

lemma root_keep_inv:
  assumes inv: "b_inv j D B E q m" and t: "b_root j < b_n j" "b_root j = r" "in_call (bm_pc m r)" "in_call p" "handle p = handle (bm_pc m r)"
    and w: "w_size w = b_n j" "w_pool w = w_pool (bm_world m)" "\<And>c. c_used (w_cookies w c) = c_used (w_cookies (bm_world m) c)"
    and bx: "box_inv w (mset (k_box (b_slot j (bm_shared m))) + mset (local_box p) + B)"
      "mset (local_box p) + pending w = mset (local_box (bm_pc m r)) + pending (bm_world m)"
    and at: "root_at w (q r) (q ` set E) p"
    and others: "\<And>x. x \<notin> q ` set E \<Longrightarrow> w_cookies w x = w_cookies (bm_world m) x"
      "\<And>x. x < b_n j \<Longrightarrow> x \<notin> set E \<Longrightarrow> has_data j D w x = has_data j D (bm_world m) x"
    and rest: "b_sleep j (bset_world r w p m)" "b_early j D E q (bset_world r w p m)"
  shows "b_inv j D B E q (bset_world r w p m)"
proof -
  let ?f = "bm_pc m" and ?w = "bm_world m" and ?n = "b_n j"
  have p: "?f r \<noteq> B_start" "p \<noteq> B_start" "\<not> opener (?f r)" "\<not> opener p" "?f r \<noteq> B_reused" "p \<noteq> B_reused"
    using t(3,4) by (auto simp: in_call_def)
  have h: "holders ?n (?f(r := p)) x = holders ?n ?f x" for x
    using tally_upd [of r ?n "\<lambda>p. handle p = Some x" ?f p] t by auto
  have o: "openers ?n (?f(r := p)) = openers ?n ?f"
    using tally_upd [of r ?n opener ?f p] t p by auto
  show ?thesis
  proof (rule keep_inv [OF inv _ p(1,2) t(5) w _ _ rest])
    show "r < ?n" using t by simp
    show "box_inv w (b_boxes j (bset_world r w p m) + B)" using bx(1) t(2) by simp
    have "b_boxes j (bset_world r w p m) + pending w = mset (k_box (b_slot j (bm_shared m))) + (mset (local_box p) + pending w)"
      using t(2) by simp
    also have "\<dots> = b_boxes j m + pending ?w" unfolding bx(2) using t(2) by simp
    finally show "b_boxes j (bset_world r w p m) + pending w = b_boxes j m + pending ?w" .
    show "b_late j D E q (bset_world r w p m)"
      unfolding b_late_def
    proof (intro allI impI)
      fix x assume x: "x < ?n" "x \<noteq> b_root j" "x \<notin> set E"
      have "has_data j D w x = has_data j D ?w x" by (rule others(2) [OF x(1,3)])
      then have "served j D w c x y = served j D ?w c x y" for c y by (simp add: served_def)
      then show "bm_pc (bset_world r w p m) x = B_start \<or> bm_pc (bset_world r w p m) (b_root j) \<noteq> B_start \<and>
          (bm_pc (bset_world r w p m) x = B_reading (q (b_root j)) \<or>
           served j D (bm_world (bset_world r w p m)) (q (b_root j)) x (bm_pc (bset_world r w p m) x))"
        using b_invD(5) [OF inv] x t(2) p unfolding b_late_def by auto
    qed
    have "b_root j \<notin> set E" using b_frameD(3) [OF b_invD(1) [OF inv]] by auto
    then have "has_data j D w r = has_data j D ?w r" using others(2) t(1,2) by simp
    moreover have "b_offers j w (q r) r x = b_offers j ?w (q r) r x" if "q r \<notin> q ` set E" for x
      by (rule offers_cong) (use others(1) that in simp)
    ultimately show "b_rooted j D E q (bset_world r w p m)"
      using b_invD(6) [OF inv] p t(2-4) at unfolding b_rooted_def Let_def
      by (simp only: bset_simps slot_simps h o fun_upd_same t(2)) auto
  qed
qed

lemma early_open:
  assumes "b_inv j D B E q m" "d \<in> set (unserved (bm_pc m (b_root j)))"
  obtains e where "e \<in> set E" "d = q e" "e < b_n j" "e \<noteq> b_root j" "b_offers j (bm_world m) d e 1"
proof -
  have "d \<in> q ` set E"
    using b_invD(6) [OF assms(1)] assms(2) by (cases "bm_pc m (b_root j)") (auto simp: b_rooted_def Let_def)
  then obtain e where e: "e \<in> set E" "d = q e" by auto
  then have "b_offers j (bm_world m) (q e) e 1"
    using b_invD(4) [OF assms(1)] assms(2) unfolding b_early_def Let_def by metis
  moreover have "e < b_n j" "e \<noteq> b_root j" using b_frameD(3) [OF b_invD(1) [OF assms(1)]] e(1) by auto
  ultimately show thesis using that e by simp
qed

lemma written_inv:
  assumes inv: "b_inv j D B E q m" and r: "r < b_n j" "bm_pc m r = B_writing c []"
  shows "b_inv j D B E q (bset_world r (bm_world m) (B_waiting c) m)"
proof -
  have t: "r = b_root j" by (rule writer_is_root [OF inv r(1)]) (use r in auto)
  have c: "c = q (b_root j)" using root_handle [OF inv] r(2) t by simp
  have h: "holders (b_n j) ((bm_pc m)(r := B_waiting c)) x = holders (b_n j) (bm_pc m) x" for x
    using tally_upd [OF r(1), of "\<lambda>p. handle p = Some x" "bm_pc m" "B_waiting c"] r(2) by auto
  show ?thesis
  proof (rule root_keep_inv [OF inv])
    show "b_root j < b_n j" "b_root j = r" "in_call (bm_pc m r)" "in_call (B_waiting c)"
      "handle (B_waiting c) = handle (bm_pc m r)" "root_at (bm_world m) (q r) (q ` set E) (B_waiting c)"
      using r t c by (auto simp: in_call_def)
    show "w_size (bm_world m) = b_n j" by (rule b_frameD(1) [OF b_invD(1) [OF inv]])
    show "box_inv (bm_world m) (mset (k_box (b_slot j (bm_shared m))) + mset (local_box (B_waiting c)) + B)"
      using b_frameD(5) [OF b_invD(1) [OF inv]] r(2) t by simp
    show "b_sleep j (bset_world r (bm_world m) (B_waiting c) m)"
      using b_invD(3) [OF inv] r(2) unfolding b_sleep_def by auto
    show "b_early j D E q (bset_world r (bm_world m) (B_waiting c) m)"
      using b_invD(4) [OF inv] r t b_frameD(3) [OF b_invD(1) [OF inv]]
      unfolding b_early_def Let_def by (auto simp: h [unfolded t])
  qed (use r(2) in simp_all)
qed

lemma move_inv:
  assumes inv: "b_inv j D B E q m" and r: "r < b_n j" "bm_pc m r = B_writing c (d # todo)"
  shows "b_inv j D B E q (bset_world r (to_pending d (bm_world m)) (B_sending c d todo) m)"
proof -
  let ?w = "bm_world m" and ?p = "B_sending c d todo"
  have t: "r = b_root j" by (rule writer_is_root [OF inv r(1)]) (use r in auto)
  have c: "c = q (b_root j)" using root_handle [OF inv] r(2) t by simp
  obtain e where e: "e \<in> set E" "d = q e" "e < b_n j" "b_offers j ?w d e 1"
    using early_open [OF inv, of d] r(2) t by auto
  have sz: "w_size ?w = b_n j" by (rule b_frameD(1) [OF b_invD(1) [OF inv]])
  have "c_owner (w_cookies ?w d) < w_size ?w" using e(3,4) sz by (simp add: offers_def Let_def)
  note tp = to_pending_effect [OF this]
  have pr: "pr_asleep (w_procs (to_pending d ?w) s) = pr_asleep (w_procs ?w s)"
    "pr_waiting (w_procs (to_pending d ?w) s) = pr_waiting (w_procs ?w s)"
    "pr_waiting_for (w_procs (to_pending d ?w) s) = pr_waiting_for (w_procs ?w s)" for s
    by (simp_all add: to_pending_def move_to_pending_def)
  have h: "holders (b_n j) ((bm_pc m)(r := ?p)) x = holders (b_n j) (bm_pc m) x" for x
    using tally_upd [OF r(1), of "\<lambda>p. handle p = Some x" "bm_pc m" ?p] r(2) by auto
  have of': "b_offers j (to_pending d ?w) x y z = b_offers j ?w x y z" for x y z by (rule offers_cong) (simp add: tp(1))
  show ?thesis
  proof (rule root_keep_inv [OF inv])
    show "b_root j < b_n j" "b_root j = r" "in_call (bm_pc m r)" "in_call ?p" "handle ?p = handle (bm_pc m r)"
      using r t by (auto simp: in_call_def)
    show "root_at (to_pending d ?w) (q r) (q ` set E) ?p"
      using b_invD(6) [OF inv] r(2) t tp(4) by (simp add: b_rooted_def Let_def)
    show "w_size (to_pending d ?w) = b_n j" using tp(3) sz by simp
    show "w_pool (to_pending d ?w) = w_pool ?w" by (simp add: to_pending_def move_to_pending_def)
    show "box_inv (to_pending d ?w) (mset (k_box (b_slot j (bm_shared m))) + mset (local_box ?p) + B)"
      using b_frameD(5) [OF b_invD(1) [OF inv]] r(2) t tp(5) by simp
    show "mset (local_box ?p) + pending (to_pending d ?w) = mset (local_box (bm_pc m r)) + pending ?w"
      using tp(4) r(2) by simp
    show "has_data j D (to_pending d ?w) x = has_data j D ?w x" for x by (simp only: has_data_def tp(2))
    show "b_sleep j (bset_world r (to_pending d ?w) ?p m)"
      using b_invD(3) [OF inv] r(2) unfolding b_sleep_def by (simp only: bset_simps slot_simps pr tp(1)) auto
    show "b_early j D E q (bset_world r (to_pending d ?w) ?p m)"
      using b_invD(4) [OF inv] r t b_frameD(3) [OF b_invD(1) [OF inv]] unfolding b_early_def Let_def
      by (simp only: bset_simps slot_simps of' served_cong [OF tp(2)]) (auto simp: h [unfolded t])
  qed (use tp(1) in simp_all)
qed

section \<open>Transfers\<close>

text \<open>After a transfer of \<open>c\<close>, sleepers still have something to wait for.\<close>

lemma sleep_transfer:
  assumes sl: "b_sleep j m" and r: "bm_pc m r \<noteq> B_start" "\<And>c. bm_pc m r \<noteq> B_waiting c" and dn: "transfer_done c (bm_world m) w"
    and busy: "0 < c_busy (w_cookies (bm_world m) c)" "c_busy (w_cookies (bm_world m) c) < 32768"
  shows "b_sleep j (bset_world r w p m)"
  unfolding b_sleep_def
proof (intro allI impI)
  fix s assume s: "s < b_n j" "pr_asleep (w_procs (bm_world (bset_world r w p m)) s)"
  let ?w = "bm_world m" and ?k = "w_cookies (bm_world m) c"
  obtain k' where k': "w_cookies w = (w_cookies ?w)(c := k')" "c_owner k' = c_owner ?k" "c_busy k' = to_i16 (c_busy ?k - 1)"
    using dn unfolding transfer_done_def by blast
  obtain a where a: "w_procs w s = (w_procs ?w s)\<lparr>pr_asleep := a\<rparr>"
    "a \<longrightarrow> pr_asleep (w_procs ?w s) \<and> \<not> (s = c_owner ?k \<and> to_i16 (c_busy ?k - 1) = 0 \<and>
        pr_waiting_for (w_procs ?w s) = waiting_for_cookie \<and> pr_waiting (w_procs ?w s) = Some c)"
    using dn unfolding transfer_done_def by blast
  have "pr_asleep (w_procs w s)" using s(2) by simp
  then have as: "pr_asleep (w_procs ?w s)" "\<not> (s = c_owner ?k \<and> to_i16 (c_busy ?k - 1) = 0 \<and>
        pr_waiting_for (w_procs ?w s) = waiting_for_cookie \<and> pr_waiting (w_procs ?w s) = Some c)"
    using a by auto
  obtain x where x: "bm_pc m s = B_waiting x" "c_owner (w_cookies ?w x) = s" "c_busy (w_cookies ?w x) \<noteq> 0"
    "pr_waiting (w_procs ?w s) = Some x" "pr_waiting_for (w_procs ?w s) = waiting_for_cookie"
    using sl s(1) as(1) unfolding b_sleep_def by blast
  have sr: "s \<noteq> r" using x(1) r(2) by auto
  have "c_owner (w_cookies w x) = s \<and> c_busy (w_cookies w x) \<noteq> 0"
    using k' x as(2) by (cases "x = c") auto
  then show "\<exists>c. bm_pc (bset_world r w p m) s = B_waiting c \<and> c_owner (w_cookies (bm_world (bset_world r w p m)) c) = s \<and>
      c_busy (w_cookies (bm_world (bset_world r w p m)) c) \<noteq> 0 \<and>
      pr_waiting (w_procs (bm_world (bset_world r w p m)) s) = Some c \<and>
      pr_waiting_for (w_procs (bm_world (bset_world r w p m)) s) = waiting_for_cookie"
    using x a(1) sr by (intro exI [of _ x]) simp
qed

lemma data_moved:
  assumes ok: "bcast_job_ok j us" and r: "e < b_n j" "r \<noteq> e"
    and mv: "w_mem w' = moved (w_mem w) (bcast_locs j r) (bcast_locs j e)"
  shows "has_data j D w' e = has_data j D w r" "x \<noteq> e \<Longrightarrow> has_data j D w' x = has_data j D w x"
proof -
  have sep: "separate (bcast_locs j r) (bcast_locs j e)" by (rule bcast_separate [OF ok r])
  have ln: "length (bcast_locs j r) = length (bcast_locs j e)" using length_bcast_locs [OF ok] by simp
  show "has_data j D w' e = has_data j D w r" using moved_whole(1) [OF sep ln] by (simp add: has_data_def mv)
  assume x: "x \<noteq> e"
  have "map (w_mem w') (bcast_locs j x) = map (w_mem w) (bcast_locs j x)"
    unfolding mv using bcast_locs_apart [OF x, of j] by (intro map_cong refl moved_whole(2) [OF sep ln]) auto
  then show "has_data j D w' x = has_data j D w x" by (simp only: has_data_def)
qed

lemma write_inv:
  assumes ok: "bcast_job_ok j us" and vm: "vm_ok (h_writev h)" and inv: "b_inv j D B E q m"
    and r: "r < b_n j" "bm_pc m r = B_sending c d todo"
    and wr: "write_to_owner (h_writev h) d (Priv r, b_buf j r) (b_type j) (b_cnt j) 0 0 (bm_world m) = Ret (w, ret)"
  shows "ret = 0" "b_inv j D B E q (bset_world r w (B_writing c todo) m)"
proof -
  let ?w = "bm_world m" and ?p = "B_writing c todo"
  have t: "r = b_root j" by (rule writer_is_root [OF inv r(1)]) (use r in auto)
  obtain e where e: "e \<in> set E" "d = q e" "e < b_n j" "e \<noteq> b_root j" "b_offers j ?w d e 1"
    using early_open [OF inv, of d] r(2) t by auto
  have wb: "whole_buf (b_type j) (b_cnt j)" using ok by (simp add: bcast_job_ok_def)
  have sep: "separate (payload (Priv r, b_buf j r) (b_type j) 0 (b_cnt j)) (data_locs e (b_buf j e) (b_type j) (b_cnt j))"
    using bcast_separate [OF ok e(3), of r] e(4) t by (simp add: bcast_locs_def)
  obtain w' where w': "write_to_owner (h_writev h) d (Priv r, b_buf j r) (b_type j) (b_cnt j) 0 0 ?w = Ret (w', MPI_SUCCESS)"
    "same_boxes ?w w'" "w_mem w' = moved (w_mem ?w) (bcast_locs j r) (bcast_locs j e)" "b_offers j w' d e 0"
    "\<forall>x. x \<noteq> d \<longrightarrow> w_cookies w' x = w_cookies ?w x"
    using write_same [OF vm wb e(5) _ _ sep] by (auto simp: bcast_locs_def)
  then have w: "w' = w" "ret = 0" using wr by (simp_all add: mpi_consts)
  show "ret = 0" by (rule w(2))
  note w' = w'(2-5) [unfolded w(1)] note sb = same_boxesD [OF w'(1)]
  note dn = write_to_owner_done [OF wr]
  have re: "r \<noteq> e" using e(4) t by simp
  have rt: "root_at ?w (q r) (q ` set E) (bm_pc m r)" "has_data j D ?w r"
    using b_invD(6) [OF inv] r(2) t unfolding b_rooted_def Let_def by auto
  have h: "holders (b_n j) ((bm_pc m)(r := ?p)) x = holders (b_n j) (bm_pc m) x" for x
    using tally_upd [OF r(1), of "\<lambda>p. handle p = Some x" "bm_pc m" ?p] r(2) by auto
  note hd = data_moved [OF ok e(3) re w'(2), where D = D]
  show "b_inv j D B E q (bset_world r w ?p m)"
  proof (rule root_keep_inv [OF inv])
    show "b_root j < b_n j" "b_root j = r" "in_call (bm_pc m r)" "in_call ?p" "handle ?p = handle (bm_pc m r)"
      using r t by (auto simp: in_call_def)
    show "w_size w = b_n j" using sb(1) b_frameD(1) [OF b_invD(1) [OF inv]] by simp
    show "w_pool w = w_pool ?w" by (rule same_pool [OF w'(1)])
    show "c_used (w_cookies w x) = c_used (w_cookies ?w x)" for x using dn by (auto simp: transfer_done_def)
    show "box_inv w (mset (k_box (b_slot j (bm_shared m))) + mset (local_box ?p) + B)"
      using b_frameD(5) [OF b_invD(1) [OF inv]] r(2) t sb(4) by simp
    show "mset (local_box ?p) + pending w = mset (local_box (bm_pc m r)) + pending ?w" using r(2) sb(3) by simp
    show "root_at w (q r) (q ` set E) ?p" using rt(1) r(2) by simp
    show "w_cookies w x = w_cookies ?w x" if "x \<notin> q ` set E" for x using w'(4) e(1,2) that by auto
    show "has_data j D w x = has_data j D ?w x" if "x \<notin> set E" for x by (rule hd(2)) (use e(1) that in auto)
    show "b_sleep j (bset_world r w ?p m)"
      using r(2) e(5) by (intro sleep_transfer [OF b_invD(3) [OF inv] _ _ dn]) (simp_all add: offers_def Let_def)
    show "b_early j D E q (bset_world r w ?p m)"
      unfolding b_early_def Let_def
    proof
      fix x assume x: "x \<in> set E"
      have old: "if q x = d \<or> q x \<in> set todo then bm_pc m x = B_waiting (q x) \<and> b_offers j ?w (q x) x 1
        else served j D ?w (q x) x (bm_pc m x) \<and> (0 < holders (b_n j) (bm_pc m) (q x) \<longrightarrow> b_offers j ?w (q x) x 0)"
        using bspec [OF b_invD(4) [OF inv, unfolded b_early_def Let_def] x] r(2) t by (auto split: if_splits)
      have xr: "x \<noteq> r" using b_frameD(3) [OF b_invD(1) [OF inv]] x t by auto
      have "if q x \<in> set todo then bm_pc m x = B_waiting (q x) \<and> b_offers j w (q x) x 1
        else served j D w (q x) x (bm_pc m x) \<and> (0 < holders (b_n j) (bm_pc m) (q x) \<longrightarrow> b_offers j w (q x) x 0)"
      proof (cases "x = e")
        case True
        then have "q x \<notin> set todo" using rt(1) r(2) e(2) by auto
        then show ?thesis using True old e(2) w'(3) hd(1) rt(2) by (simp add: served_def)
      next
        case False
        then have "q x \<noteq> d" using b_frameD(4) [OF b_invD(1) [OF inv]] e(1,2) x by (auto dest: inj_onD)
        moreover from this have "offers w (q x) x b ty k z = offers ?w (q x) x b ty k z" for b ty k z
          using w'(4) by (intro offers_cong) simp
        ultimately show ?thesis using old hd(2) [OF False] by (auto simp: served_def split: if_splits)
      qed
      then show "if bm_pc (bset_world r w ?p m) (b_root j) = B_start \<or> q x \<in> set (unserved (bm_pc (bset_world r w ?p m) (b_root j)))
        then bm_pc (bset_world r w ?p m) x = B_waiting (q x) \<and> b_offers j (bm_world (bset_world r w ?p m)) (q x) x 1
        else served j D (bm_world (bset_world r w ?p m)) (q x) x (bm_pc (bset_world r w ?p m) x) \<and>
          (0 < holders (b_n j) (bm_pc (bset_world r w ?p m)) (q x) \<longrightarrow> b_offers j (bm_world (bset_world r w ?p m)) (q x) x 0)"
        using xr t by (auto simp: h [unfolded t] split: if_splits)
    qed
  qed
qed

lemma read_inv:
  assumes ok: "bcast_job_ok j us" and vm: "vm_ok (h_readv h)" and inv: "b_inv j D B E q m"
    and r: "r < b_n j" "bm_pc m r = B_reading c"
    and rd: "read_from_owner (h_readv h) c (Priv r, b_buf j r) (b_type j) (b_cnt j) (b_cnt j) 0 0 (bm_world m) = Ret (w, ret)"
  shows "ret = 0" "b_inv j D B E q (bset_world r w (B_waiting c) m)"
proof -
  let ?w = "bm_world m" and ?p = "B_waiting c" and ?t = "b_root j" and ?f = "bm_pc m" and ?n = "b_n j"
  let ?m = "bset_world r w ?p m"
  have role: "r \<noteq> ?t" "r \<notin> set E" "c = q ?t" "?f ?t \<noteq> B_start" using reader_is_late [OF inv r] by auto
  have t: "?t < ?n" using ok by (simp add: bcast_job_ok_def)
  have L: "Suc (length E) < ?n" by (rule late_not_all [OF b_invD(1) [OF inv] r(1) role(1,2) t])
  have op: "0 < openers ?n ?f" using r by (auto simp: tally_pos)
  have root: "root_at ?w (q ?t) (q ` set E) (?f ?t)" "q ?t \<notin> q ` set E" "b_offers j ?w c ?t (openers ?n ?f)" "in_call (?f ?t)"
    "?f ?t \<noteq> B_reused" "has_data j D ?w ?t"
    using b_invD(6) [OF inv] L op role(3,4) holder [of r ?n ?f c] r unfolding b_rooted_def Let_def by (auto simp: in_call_def)
  have small: "int (openers ?n ?f) < 32768"
    using tally_le [of ?n opener ?f] ok by (simp add: bcast_job_ok_def same_call_def)
  have wb: "whole_buf (b_type j) (b_cnt j)" using ok by (simp add: bcast_job_ok_def)
  have sep: "separate (data_locs ?t (b_buf j ?t) (b_type j) (b_cnt j)) (payload (Priv r, b_buf j r) (b_type j) 0 (b_cnt j))"
    using bcast_separate [OF ok r(1), of ?t] role(1) by (simp add: bcast_locs_def)
  obtain w' where w': "read_from_owner (h_readv h) c (Priv r, b_buf j r) (b_type j) (b_cnt j) (b_cnt j) 0 0 ?w = Ret (w', MPI_SUCCESS)"
    "same_boxes ?w w'" "w_mem w' = moved (w_mem ?w) (bcast_locs j ?t) (bcast_locs j r)"
    "offers w' c ?t (b_buf j ?t) (b_type j) (b_cnt j) (int (openers ?n ?f) - 1)" "\<forall>x. x \<noteq> c \<longrightarrow> w_cookies w' x = w_cookies ?w x"
    using read_same [OF vm wb root(3) _ small _ sep, of "b_cnt j"] op by (auto simp: bcast_locs_def)
  then have w: "w' = w" "ret = 0" using rd by (simp_all add: mpi_consts)
  show "ret = 0" by (rule w(2))
  note w' = w'(2-5) [unfolded w(1)] note sb = same_boxesD [OF w'(1)]
  note dn = read_from_owner_done [OF rd]
  have "?t \<noteq> r" using role(1) by simp
  note hd = data_moved [OF ok r(1) this w'(2), where D = D]
  have h: "holders ?n (?f(r := ?p)) x = holders ?n ?f x" for x
    using tally_upd [OF r(1), of "\<lambda>p. handle p = Some x" ?f ?p] r(2) by auto
  have o: "openers ?n (?f(r := ?p)) = openers ?n ?f - 1"
    using tally_upd [OF r(1), of opener ?f ?p] r(2) by auto
  have of': "offers w x y b ty k z = offers ?w x y b ty k z" if "x \<noteq> c" for x y b ty k z by (rule offers_cong) (use w'(4) that in simp)
  show "b_inv j D B E q ?m"
  proof (rule keep_inv [OF inv r(1)])
    show "?f r \<noteq> B_start" "?p \<noteq> B_start" "handle ?p = handle (?f r)" using r(2) by simp_all
    show "w_size w = ?n" using sb(1) b_frameD(1) [OF b_invD(1) [OF inv]] by simp
    show "w_pool w = w_pool ?w" by (rule same_pool [OF w'(1)])
    show "c_used (w_cookies w x) = c_used (w_cookies ?w x)" for x using dn by (auto simp: transfer_done_def)
    have bx: "b_boxes j ?m = b_boxes j m" using role(1) by simp
    show "box_inv w (b_boxes j ?m + B)" using b_frameD(5) [OF b_invD(1) [OF inv]] unfolding bx sb(4) .
    show "b_boxes j ?m + pending w = b_boxes j m + pending ?w" unfolding bx sb(3) ..
    show "b_sleep j ?m"
      using r(2) root(3) op small by (intro sleep_transfer [OF b_invD(3) [OF inv] _ _ dn]) (simp_all add: offers_def Let_def)
    show "b_early j D E q ?m"
      unfolding b_early_def Let_def
    proof
      fix x assume x: "x \<in> set E"
      have d: "x \<noteq> r" "q x \<noteq> c" using x role(2,3) root(2) by (metis imageI)+
      have "served j D w y x z = served j D ?w y x z" for y z using hd(2) [OF d(1)] by (simp add: served_def)
      then show "if bm_pc ?m ?t = B_start \<or> q x \<in> set (unserved (bm_pc ?m ?t))
        then bm_pc ?m x = B_waiting (q x) \<and> b_offers j (bm_world ?m) (q x) x 1
        else served j D (bm_world ?m) (q x) x (bm_pc ?m x) \<and>
          (0 < holders ?n (bm_pc ?m) (q x) \<longrightarrow> b_offers j (bm_world ?m) (q x) x 0)"
        using bspec [OF b_invD(4) [OF inv, unfolded b_early_def Let_def] x] d(1) role(1) of' [OF d(2)]
        by (auto simp: h split: if_splits)
    qed
    show "b_late j D E q ?m"
      unfolding b_late_def
    proof (intro allI impI)
      fix x assume x: "x < ?n" "x \<noteq> ?t" "x \<notin> set E"
      show "bm_pc ?m x = B_start \<or> bm_pc ?m ?t \<noteq> B_start \<and>
          (bm_pc ?m x = B_reading (q ?t) \<or> served j D (bm_world ?m) (q ?t) x (bm_pc ?m x))"
      proof (cases "x = r")
        case True
        then show ?thesis using hd(1) root(6) role(1,3,4) by (simp add: served_def)
      next
        case False
        then show ?thesis using b_invD(5) [OF inv] x hd(2) [OF False] role(1) unfolding b_late_def served_def by auto
      qed
    qed
    have "root_at w (q ?t) (q ` set E) (?f ?t)" using root(1) root_at_cong [OF sb(3)] by simp
    moreover have "has_data j D w ?t" using hd(2) role(1) root(6) by simp
    moreover have "b_offers j w c ?t (openers ?n ?f - 1)" using w'(3) op by (simp add: of_nat_diff)
    ultimately show "b_rooted j D E q ?m"
      using root(2,4) L role(1,3) unfolding b_rooted_def Let_def by (simp add: o [unfolded role(3)])
  qed
qed

section \<open>Leaving\<close>

lemma leaver_started:
  assumes "b_inv j D B E q m" "r < b_n j" "bm_pc m r = B_leaving c"
  shows "bm_pc m (b_root j) \<noteq> B_start"
proof
  assume st: "bm_pc m (b_root j) = B_start"
  then have "r \<noteq> b_root j" using assms(3) by auto
  moreover have "r \<notin> set E" using b_invD(4) [OF assms(1)] st assms(3) unfolding b_early_def Let_def by auto
  ultimately show False using late_at [OF assms(1,2)] st assms(3) by auto
qed

text \<open>A request that somebody holds is that of an early rank or the root's.\<close>

lemma held_offers:
  assumes inv: "b_inv j D B E q m" and t: "b_root j < b_n j" "bm_pc m (b_root j) \<noteq> B_start"
    and r: "r < b_n j" "handle (bm_pc m r) = Some c"
  obtains o' busy where "o' < b_n j" "b_offers j (bm_world m) c o' busy"
proof -
  have h: "0 < holders (b_n j) (bm_pc m) c" by (rule holder [of r]) (use r in auto)
  have early: thesis if "e \<in> set E" "c = q e" for e
  proof -
    have "b_offers j (bm_world m) c e 1 \<or> b_offers j (bm_world m) c e 0"
      using b_invD(4) [OF inv] that h unfolding b_early_def Let_def by metis
    moreover have "e < b_n j" using b_frameD(3) [OF b_invD(1) [OF inv]] that(1) by auto
    ultimately show thesis using that(1) \<open>\<And>o' busy. o' < b_n j \<Longrightarrow> b_offers j (bm_world m) c o' busy \<Longrightarrow> thesis\<close> by blast
  qed
  have root: thesis if "c = q (b_root j)"
  proof (cases "Suc (length E) < b_n j")
    case True
    then have "b_offers j (bm_world m) c (b_root j) (openers (b_n j) (bm_pc m))"
      using b_invD(6) [OF inv] h that t(2) unfolding b_rooted_def Let_def by auto
    then show ?thesis using t(1) \<open>\<And>o' busy. o' < b_n j \<Longrightarrow> b_offers j (bm_world m) c o' busy \<Longrightarrow> thesis\<close> by blast
  next
    case False
    then have "c \<in> q ` set E" using b_invD(6) [OF inv] that t(2) unfolding b_rooted_def Let_def by auto
    then show ?thesis using early by blast
  qed
  consider "r = b_root j" | "r \<in> set E" | "r \<noteq> b_root j" "r \<notin> set E" by blast
  then show thesis
  proof cases
    case 1
    then show ?thesis using root root_handle [OF inv] r(2) by auto
  next
    case 2
    then show ?thesis using early [OF 2] early_at [OF inv 2] r(2) by auto
  next
    case 3
    then show ?thesis using root late_at [OF inv r(1) 3] r(2) by auto
  qed
qed

lemma leave_inv:
  assumes inv: "b_inv j D B E q m" and t: "b_root j < b_n j" "b_n j < 32768"
    and r: "r < b_n j" "bm_pc m r = B_leaving c" and lv: "cookie_leave c (bm_world m) = Ret w"
  shows "c_err (w_cookies (bm_world m) c) = 0" "b_inv j D B E q (bset_world r w (B_returned 0) m)"
proof -
  let ?w = "bm_world m" and ?p = "B_returned 0" and ?t = "b_root j" and ?f = "bm_pc m" and ?n = "b_n j"
  let ?m = "bset_world r w ?p m"
  note fr = b_frameD [OF b_invD(1) [OF inv]]
  have st: "?f ?t \<noteq> B_start" by (rule leaver_started [OF inv r])
  obtain o' busy where o': "o' < ?n" "b_offers j ?w c o' busy"
    using held_offers [OF inv t(1) st r(1)] r(2) by auto
  show "c_err (w_cookies ?w c) = 0" using o'(2) by (simp add: offers_def Let_def)
  have hc: "0 < holders ?n ?f c" by (rule holder [of r]) (use r in auto)
  have uc: "c_used (w_cookies ?w c) = int (holders ?n ?f c)" using b_invD(2) [OF inv] hc by (simp add: b_used_def)
  have fin: "finalize o' c ?w = Ret w" using lv o'(2) by (simp add: cookie_leave_def offers_def Let_def)
  define k where "k = (w_cookies ?w c)\<lparr>c_used := to_i16 (c_used (w_cookies ?w c) - 1)\<rparr>"
  define unused where "unused = (\<lambda>x. c_used (((w_cookies ?w)(c := k)) x) = 0)"
  have "o' < w_size ?w" using o'(1) fr(1) by simp
  note f = finalize_effect [OF fr(5) this fin, folded k_def, folded unused_def]
  have h: "holders ?n (?f(r := ?p)) x = holders ?n ?f x - (if x = c then 1 else 0)" for x
    using tally_upd [OF r(1), of "\<lambda>p. handle p = Some x" ?f ?p] r(2) by auto
  have le: "0 < holders ?n (?f(r := ?p)) x \<Longrightarrow> 0 < holders ?n ?f x" for x using h [of x] by simp
  have o: "openers ?n (?f(r := ?p)) = openers ?n ?f"
    using tally_upd [OF r(1), of opener ?f ?p] r(2) by auto
  have a: "arrived ?n (?f(r := ?p)) = arrived ?n ?f"
    using tally_upd [OF r(1), of "\<lambda>p. p \<noteq> B_start" ?f ?p] r(2) by auto
  have "int (holders ?n ?f c) \<le> int ?n" using tally_le by simp
  then have small: "int (holders ?n ?f c) - 1 < 32768" "0 \<le> int (holders ?n ?f c) - 1" using t(2) hc by auto
  have ku: "c_used k = int (holders ?n ?f c) - 1" using small uc by (simp add: k_def to_i16_id)
  have used: "c_used (w_cookies w x) = int (holders ?n (?f(r := ?p)) x)" if "0 < holders ?n (?f(r := ?p)) x" for x
  proof (cases "x = c")
    case True
    then show ?thesis using f(3) ku h [of c] hc by (simp add: of_nat_diff)
  next
    case False
    then show ?thesis using b_invD(2) [OF inv] le [OF that] h [of x] f(3) unfolding b_used_def by simp
  qed
  have keep: "x \<in># pending w" if "0 < holders ?n (?f(r := ?p)) x" "x \<in># pending ?w" for x
  proof -
    have "\<not> unused x" using used [OF that(1)] that(1) f(3) by (simp add: unused_def)
    then show ?thesis using that(2) f(6) by auto
  qed
  have of': "offers w x y b ty kk z = offers ?w x y b ty kk z" for x y b ty kk z
    using f(3) by (auto simp: offers_def k_def Let_def)
  have lb: "local_box ((?f(r := ?p)) ?t) = local_box (?f ?t)" using r(2) by simp
  have us: "unserved ((?f(r := ?p)) ?t) = unserved (?f ?t)" using r(2) by simp
  have bx: "b_boxes j ?m = b_boxes j m" by (simp only: bset_simps slot_simps lb)
  have rs: "(?f(r := ?p)) ?t = B_start \<longleftrightarrow> ?f ?t = B_start" using st by simp
  have "b_frame j B E q ?m"
    using b_invD(1) [OF inv] f(1) [unfolded fr(1)] f(4) st unfolding b_frame_def Let_def bset_simps slot_simps a rs lb by blast
  moreover have "b_used j ?m"
    unfolding b_used_def bx
  proof (intro allI impI)
    fix x assume "0 < holders ?n (bm_pc ?m) x"
    then have x: "0 < holders ?n (?f(r := ?p)) x" by simp
    have "x \<in># b_boxes j m + pending ?w" using b_invD(2) [OF inv] le [OF x] unfolding b_used_def by blast
    then have "x \<in># b_boxes j m + pending w" using keep [OF x] by auto
    then show "c_used (w_cookies (bm_world ?m) x) = int (holders ?n (bm_pc ?m) x) \<and> x \<in># b_boxes j m + pending (bm_world ?m)"
      using used [OF x] by simp
  qed
  moreover have "b_sleep j ?m"
    unfolding b_sleep_def
  proof (intro allI impI)
    fix s assume s: "s < ?n" "pr_asleep (w_procs (bm_world ?m) s)"
    have same: "pr_asleep (w_procs w s) = pr_asleep (w_procs ?w s)" "pr_waiting (w_procs w s) = pr_waiting (w_procs ?w s)"
      "pr_waiting_for (w_procs w s) = pr_waiting_for (w_procs ?w s)"
      by (use f(7) in \<open>elim exE, simp\<close>)+
    then obtain x where x: "?f s = B_waiting x" "c_owner (w_cookies ?w x) = s" "c_busy (w_cookies ?w x) \<noteq> 0"
      "pr_waiting (w_procs ?w s) = Some x" "pr_waiting_for (w_procs ?w s) = waiting_for_cookie"
      using b_invD(3) [OF inv] s unfolding b_sleep_def by auto
    have "s \<noteq> r" using x(1) r(2) by auto
    then show "\<exists>c. bm_pc ?m s = B_waiting c \<and> c_owner (w_cookies (bm_world ?m) c) = s \<and> c_busy (w_cookies (bm_world ?m) c) \<noteq> 0 \<and>
        pr_waiting (w_procs (bm_world ?m) s) = Some c \<and> pr_waiting_for (w_procs (bm_world ?m) s) = waiting_for_cookie"
      using x same f(3) by (intro exI [of _ x]) (auto simp: k_def)
  qed
  moreover have "b_early j D E q ?m"
    unfolding b_early_def Let_def
  proof
    fix x assume x: "x \<in> set E"
    have "if q x \<in> set (unserved (?f ?t)) then ?f x = B_waiting (q x) \<and> b_offers j ?w (q x) x 1
      else served j D ?w (q x) x (?f x) \<and> (0 < holders ?n ?f (q x) \<longrightarrow> b_offers j ?w (q x) x 0)"
      using bspec [OF b_invD(4) [OF inv, unfolded b_early_def Let_def] x] st by simp
    then show "if bm_pc ?m ?t = B_start \<or> q x \<in> set (unserved (bm_pc ?m ?t))
      then bm_pc ?m x = B_waiting (q x) \<and> b_offers j (bm_world ?m) (q x) x 1
      else served j D (bm_world ?m) (q x) x (bm_pc ?m x) \<and>
        (0 < holders ?n (bm_pc ?m) (q x) \<longrightarrow> b_offers j (bm_world ?m) (q x) x 0)"
      using r(2) le [of "q x"] st by (simp only: bset_simps slot_simps us rs of' served_cong [OF f(2)])
        (auto simp: served_def split: if_splits)
  qed
  moreover have "b_late j D E q ?m"
    using b_invD(5) [OF inv] r(2) unfolding b_late_def
    by (simp only: bset_simps slot_simps rs served_cong [OF f(2)]) (auto simp: served_def)
  moreover have "b_rooted j D E q ?m"
  proof -
    have "root_at w (q ?t) (q ` set E) (?f ?t)" if "r \<noteq> ?t"
    proof (cases "?f ?t")
      case (B_sending c' d todo)
      have ra: "root_at ?w (q ?t) (q ` set E) (?f ?t)" using b_invD(6) [OF inv] unfolding b_rooted_def Let_def by blast
      obtain e where e: "e \<in> set E" "d = q e" "e < ?n" using early_open [OF inv, of d] B_sending by auto
      have "q e \<in> set (unserved (?f ?t))" using B_sending e(2) by simp
      then have "?f e = B_waiting (q e)" using bspec [OF b_invD(4) [OF inv, unfolded b_early_def Let_def] e(1)] by simp
      then have "(?f(r := ?p)) e = B_waiting (q e)" using r(2) by auto
      then have "0 < holders ?n (?f(r := ?p)) d" by (intro holder [OF e(3)]) (simp add: e(2))
      then show ?thesis using ra keep B_sending by simp
    qed (use b_invD(6) [OF inv] in \<open>simp_all add: b_rooted_def Let_def\<close>)
    moreover have "openers ?n ?f = 0" if "r = ?t" "Suc (length E) < ?n"
      using b_invD(6) [OF inv] that r(2) unfolding b_rooted_def Let_def by (auto simp: in_call_def)
    ultimately show ?thesis
      using b_invD(6) [OF inv] r(2) le [of "q ?t"] st has_data_cong [OF f(2), of j D ?t] unfolding b_rooted_def Let_def
      by (simp only: bset_simps slot_simps o of') (auto simp: in_call_def)
  qed
  ultimately show "b_inv j D B E q ?m" by (simp add: b_inv_def)
qed

section \<open>Spurious wake-ups, and memory used again\<close>

lemma woken_inv:
  assumes inv: "b_inv j D B E q m" and r: "r < b_n j"
  shows "b_inv j D B E q (bset_world r (upd_proc r (\<lambda>p. p\<lparr>pr_asleep := False\<rparr>) (bm_world m)) (bm_pc m r) m)"
proof -
  let ?w = "bm_world m" let ?u = "upd_proc r (\<lambda>p. p\<lparr>pr_asleep := False\<rparr>) ?w"
  have sb: "same_boxes ?w ?u" by (simp add: same_boxes_def free_of_def unmatched_of_def pending_of_def)
  note s = same_boxesD [OF sb]
  have f: "(bm_pc m)(r := bm_pc m r) = bm_pc m" by simp
  have of': "offers ?u x y b ty kk z = offers ?w x y b ty kk z" for x y b ty kk z by (simp add: offers_def)
  have "b_frame j B E q (bset_world r ?u (bm_pc m r) m)"
    using b_invD(1) [OF inv] unfolding b_frame_def Let_def bset_simps slot_simps f s(1,4) upd_proc_simps .
  moreover have "b_used j (bset_world r ?u (bm_pc m r) m)"
    using b_invD(2) [OF inv] unfolding b_used_def bset_simps slot_simps f s(3) upd_proc_simps .
  moreover have "b_sleep j (bset_world r ?u (bm_pc m r) m)"
    using b_invD(3) [OF inv] unfolding b_sleep_def by auto
  moreover have "b_early j D E q (bset_world r ?u (bm_pc m r) m)"
    using b_invD(4) [OF inv] unfolding b_early_def Let_def bset_simps slot_simps f of' served_def has_data_def upd_proc_simps .
  moreover have "b_late j D E q (bset_world r ?u (bm_pc m r) m)"
    using b_invD(5) [OF inv] unfolding b_late_def Let_def bset_simps slot_simps f of' served_def has_data_def upd_proc_simps .
  moreover have "b_rooted j D E q (bset_world r ?u (bm_pc m r) m)"
    using b_invD(6) [OF inv]
    unfolding b_rooted_def Let_def bset_simps slot_simps f of' has_data_def upd_proc_simps root_at_cong [OF s(3)] .
  ultimately show ?thesis by (simp add: b_inv_def)
qed

lemma reuse_inv:
  assumes inv: "b_inv j D B E q m" and r: "r < b_n j" "bm_pc m r = B_reused \<or> bm_pc m r = B_returned ret"
    and mem: "\<And>l. fst l \<noteq> Priv r \<Longrightarrow> mem l = w_mem (bm_world m) l"
  shows "b_inv j D B E q (bset_world r ((bm_world m)\<lparr>w_mem := mem\<rparr>) B_reused m)"
proof -
  let ?w = "bm_world m" and ?n = "b_n j" and ?t = "b_root j" let ?u = "?w\<lparr>w_mem := mem\<rparr>" let ?m = "bset_world r ?u B_reused m"
  note s = same_boxesD [OF same_boxes_mem [of ?w mem]]
  have hd: "has_data j D ?u x = has_data j D ?w x" if "x \<noteq> r" for x
  proof -
    have "map mem (bcast_locs j x) = map (w_mem ?w) (bcast_locs j x)"
      using that by (intro map_cong refl mem) (auto simp: bcast_locs_def dest: payload_space)
    moreover have "w_mem ?u = mem" by simp
    ultimately show ?thesis by (simp only: has_data_def)
  qed
  have sv: "served j D ?u c x p = served j D ?w c x p" if "x \<noteq> r" for c x p using hd [OF that] by (simp add: served_def)
  have f: "bm_pc m r \<noteq> B_start" "handle (bm_pc m r) = None" "\<not> opener (bm_pc m r)" "local_box (bm_pc m r) = []"
    "unserved (bm_pc m r) = []" "\<not> in_call (bm_pc m r)"
    using r(2) by (auto simp: in_call_def)
  have h: "holders ?n ((bm_pc m)(r := B_reused)) x = holders ?n (bm_pc m) x" for x
    using tally_upd [OF r(1), of "\<lambda>p. handle p = Some x" "bm_pc m" B_reused] f(2) by auto
  have o: "openers ?n ((bm_pc m)(r := B_reused)) = openers ?n (bm_pc m)"
    using tally_upd [OF r(1), of opener "bm_pc m" B_reused] f(3) by auto
  have of': "offers ?u x y b ty kk z = offers ?w x y b ty kk z" for x y b ty kk z by (simp add: offers_def)
  have lb: "local_box (((bm_pc m)(r := B_reused)) ?t) = local_box (bm_pc m ?t)" using f(4) by auto
  have us: "unserved (((bm_pc m)(r := B_reused)) ?t) = unserved (bm_pc m ?t)" using f(5) by auto
  have st: "((bm_pc m)(r := B_reused)) x = B_start \<longleftrightarrow> bm_pc m x = B_start" for x using f(1) by auto
  have bx: "b_boxes j ?m = b_boxes j m" by (simp only: bset_simps slot_simps lb)
  show ?thesis
  proof (rule keep_inv [OF inv r(1)])
    show "bm_pc m r \<noteq> B_start" "B_reused \<noteq> B_start" "handle B_reused = handle (bm_pc m r)" using f by simp_all
    show "w_size ?u = ?n" using s(1) b_frameD(1) [OF b_invD(1) [OF inv]] by simp
    show "box_inv ?u (b_boxes j ?m + B)" using b_frameD(5) [OF b_invD(1) [OF inv]] unfolding bx s(4) .
    show "b_boxes j ?m + pending ?u = b_boxes j m + pending ?w" unfolding bx s(3) ..
    show "b_sleep j ?m" using b_invD(3) [OF inv] r(2) unfolding b_sleep_def by auto
    show "b_early j D E q ?m"
      unfolding b_early_def Let_def
    proof
      fix x assume x: "x \<in> set E"
      have old: "if bm_pc m ?t = B_start \<or> q x \<in> set (unserved (bm_pc m ?t)) then bm_pc m x = B_waiting (q x) \<and> b_offers j ?w (q x) x 1
        else served j D ?w (q x) x (bm_pc m x) \<and> (0 < holders ?n (bm_pc m) (q x) \<longrightarrow> b_offers j ?w (q x) x 0)"
        using bspec [OF b_invD(4) [OF inv, unfolded b_early_def Let_def] x] .
      show "if bm_pc ?m ?t = B_start \<or> q x \<in> set (unserved (bm_pc ?m ?t))
        then bm_pc ?m x = B_waiting (q x) \<and> b_offers j (bm_world ?m) (q x) x 1
        else served j D (bm_world ?m) (q x) x (bm_pc ?m x) \<and>
          (0 < holders ?n (bm_pc ?m) (q x) \<longrightarrow> b_offers j (bm_world ?m) (q x) x 0)"
        using old r(2) by (cases "x = r") (simp_all only: bset_simps slot_simps st us of' h fun_upd_same sv fun_upd_other,
            auto simp: served_def hd split: if_splits)
    qed
    show "b_late j D E q ?m"
      unfolding b_late_def
    proof (intro allI impI)
      fix x assume x: "x < ?n" "x \<noteq> ?t" "x \<notin> set E"
      show "bm_pc ?m x = B_start \<or> bm_pc ?m ?t \<noteq> B_start \<and>
          (bm_pc ?m x = B_reading (q ?t) \<or> served j D (bm_world ?m) (q ?t) x (bm_pc ?m x))"
        using b_invD(5) [OF inv] x r(2) sv unfolding b_late_def by (cases "x = r") (auto simp: served_def st)
    qed
    show "b_rooted j D E q ?m"
      using b_invD(6) [OF inv] f hd unfolding b_rooted_def Let_def
      by (simp only: bset_simps slot_simps of' h o root_at_cong [OF s(3)] st) (cases "r = ?t", auto)
  qed simp_all
qed

end
