(* ===== verification/Bcast_Enter.thy ===== *)
theory Bcast_Enter
  imports Bcast_Run_Inv
begin

text \<open>
  Entering the slot keeps the invariant of the broadcast machine: a rank before the root leaves its
  request, the root takes them all, a rank after the root joins the root's request.
\<close>

section \<open>Creating a request wakes nobody up\<close>

definition same_waits :: "world \<Rightarrow> world \<Rightarrow> bool" where
  "same_waits w w' \<longleftrightarrow> (\<forall>s. pr_asleep (w_procs w' s) = pr_asleep (w_procs w s) \<and>
     pr_waiting (w_procs w' s) = pr_waiting (w_procs w s) \<and> pr_waiting_for (w_procs w' s) = pr_waiting_for (w_procs w s))"

lemma create_request_waits: "create_request r k w = Ret (w', c) \<Longrightarrow> same_waits w w'"
  by (auto simp: create_request_def same_waits_def and_then_Ret_iff split: list.splits if_splits)

lemma collect_create_quiet:
  assumes inv: "box_inv (cw_world s) B" and r: "u_rank u < w_size (cw_world s)"
    and cr: "collect_create u i buf ty sz cnt num s = Ret (s2, c)"
  shows "same_waits (cw_world s) (cw_world s2)" "pending (cw_world s2) = pending (cw_world s)" "c \<notin># pending (cw_world s)"
proof -
  obtain w1 where w1: "create_request (u_rank u) (mk_cookie (u_rank u) buf ty sz cnt (int (u_rank u)) UMPI_TAG_CC num)
      (cw_world s) = Ret (w1, c)" "cw_world s2 = w1"
    using cr by (auto simp: collect_create_def and_then_Ret_iff)
  show "same_waits (cw_world s) (cw_world s2)" using create_request_waits [OF w1(1)] w1(2) by simp
  show "pending (cw_world s2) = pending (cw_world s)" "c \<notin># pending (cw_world s)"
    using box_create(3,7) [OF inv r w1(1)] w1(2) by simp_all
qed

lemma sleep_enter:
  assumes sl: "b_sleep j m" and r: "bm_pc m r = B_start" and sw: "same_waits (bm_world m) (cw_world s2)"
    and ck: "\<And>s x. s < b_n j \<Longrightarrow> bm_pc m s = B_waiting x \<Longrightarrow> c_owner (w_cookies (cw_world s2) x) = c_owner (w_cookies (bm_world m) x) \<and>
       c_busy (w_cookies (cw_world s2) x) = c_busy (w_cookies (bm_world m) x)"
  shows "b_sleep j (bset r s2 p m)"
  unfolding b_sleep_def
proof (intro allI impI)
  fix s assume s: "s < b_n j" "pr_asleep (w_procs (bm_world (bset r s2 p m)) s)"
  have "pr_asleep (w_procs (bm_world m) s)" using s(2) sw by (simp add: same_waits_def)
  then obtain x where x: "bm_pc m s = B_waiting x" "c_owner (w_cookies (bm_world m) x) = s" "c_busy (w_cookies (bm_world m) x) \<noteq> 0"
    "pr_waiting (w_procs (bm_world m) s) = Some x" "pr_waiting_for (w_procs (bm_world m) s) = waiting_for_cookie"
    using sl s(1) unfolding b_sleep_def by blast
  then have "s \<noteq> r" using r by auto
  then show "\<exists>c. bm_pc (bset r s2 p m) s = B_waiting c \<and> c_owner (w_cookies (bm_world (bset r s2 p m)) c) = s \<and>
      c_busy (w_cookies (bm_world (bset r s2 p m)) c) \<noteq> 0 \<and> pr_waiting (w_procs (bm_world (bset r s2 p m)) s) = Some c \<and>
      pr_waiting_for (w_procs (bm_world (bset r s2 p m)) s) = waiting_for_cookie"
    using x ck [OF s(1) x(1)] sw by (intro exI [of _ x]) (simp add: same_waits_def)
qed

section \<open>Before the root\<close>

lemma enters:
  assumes ok: "bcast_job_ok j us" and inv: "b_inv j D B E q m" and r: "r < b_n j" "bm_pc m r = B_start"
  defines "a \<equiv> arrived (b_n j) (bm_pc m)"
  shows "get_current_slot (us r) (bm_shared m) =
      Ret ((us r)\<lparr>u_ticket := b_ticket j + 1\<rparr>, entered (b_ticket j) a (bm_shared m), slot_of (b_ticket j))"
    "u_rank (us r) = r" "u_size (us r) = int (b_n j)" "a < b_n j" "\<not> k_locked (b_slot j (bm_shared m))" "int (b_n j) < 32768"
proof -
  have sc: "same_call (b_n j) us (b_ticket j)" using ok by (simp add: bcast_job_ok_def)
  show a: "a < b_n j" using r unfolding a_def tally_less by blast
  then have "slot_after (b_ticket j) a (b_slot j (bm_shared m))" "\<not> k_locked (b_slot j (bm_shared m))"
    using b_invD(1) [OF inv] unfolding b_frame_def Let_def a_def by blast+
  then show "get_current_slot (us r) (bm_shared m) =
      Ret ((us r)\<lparr>u_ticket := b_ticket j + 1\<rparr>, entered (b_ticket j) a (bm_shared m), slot_of (b_ticket j))"
    "\<not> k_locked (b_slot j (bm_shared m))"
    using enter_slot [OF sc r(1)] by blast+
  show "u_rank (us r) = r" "u_size (us r) = int (b_n j)" "int (b_n j) < 32768" using sc r(1) by (simp_all add: same_call_def)
qed

lemma holders_places: "b_inv j D B E q m \<Longrightarrow> 0 < holders (b_n j) (bm_pc m) c \<Longrightarrow> c \<in># b_boxes j m + pending (bm_world m)"
  using b_invD(2) unfolding b_used_def by blast

lemma arrived_upd: "r < n \<Longrightarrow> f r = B_start \<Longrightarrow> p \<noteq> B_start \<Longrightarrow> arrived n (f(r := p)) = Suc (arrived n f)"
  using tally_upd [of r n "\<lambda>p. p \<noteq> B_start" f p] by simp

lemma holders_upd:
  "r < n \<Longrightarrow> f r = B_start \<Longrightarrow> handle p = Some c \<Longrightarrow> holders n (f(r := p)) x = holders n f x + (if x = c then 1 else 0)"
  using tally_upd [of r n "\<lambda>p. handle p = Some x" f p] by simp

lemma early_enter:
  assumes ok: "bcast_job_ok j us" and inv: "b_inv j D B E q m" and r: "r < b_n j" "bm_pc m r = B_start" "r \<noteq> b_root j"
    and st: "bm_pc m (b_root j) = B_start"
  defines "u \<equiv> (us r)\<lparr>u_ticket := b_ticket j + 1\<rparr>"
  shows "\<exists>s2 c. bcast_post u (slot_of (b_ticket j)) (b_buf j r) (b_cnt j) (b_type j) (int (b_root j))
      (entered (b_ticket j) (arrived (b_n j) (bm_pc m)) (bm_shared m)) = Ret (s2, c, False) \<and>
    b_inv j D B (E @ [r]) (q(r := c)) (bset r s2 (B_waiting c) m)"
proof -
  let ?n = "b_n j" and ?f = "bm_pc m" and ?t = "b_root j" and ?i = "slot_of (b_ticket j)" and ?w = "bm_world m"
  let ?a = "arrived ?n ?f" let ?s1 = "entered (b_ticket j) ?a (bm_shared m)"
  note en = enters [OF ok inv r(1,2)]
  note fr = b_frameD [OF b_invD(1) [OF inv]]
  have u: "u_rank u = r" "u_size u = int ?n" using en(2,3) by (simp_all add: u_def)
  have rE: "r \<notin> set E" using early_at [OF inv, of r] r(2) by auto
  have box: "k_box (b_slot j (bm_shared m)) = map q E" using fr(6) st by simp
  have eo: "?f e = B_waiting (q e) \<and> b_offers j ?w (q e) e 1" if "e \<in> set E" for e
    using bspec [OF b_invD(4) [OF inv, unfolded b_early_def Let_def] that] st by simp
  have aE: "?a = length E" "64 * (?n - ?a) \<le> unat (p_space (w_pool ?w))"
    using b_invD(1) [OF inv] st unfolding b_frame_def Let_def by blast+
  have tE: "?t \<notin> set E" using fr(3) by auto
  have none: "late_join u ?i (int ?t) ?s1 = None"
    using box eo tE by (intro late_join_none [of _ _ q E]) (auto simp: cookie_at_def dest: offers_src)
  have bi: "box_inv (cw_world ?s1) (mset (map q E) + B)" using fr(5) box st by simp
  have us: "u_rank u < w_size (cw_world ?s1)" using fr(1) r(1) u by simp
  have "64 * (?n - ?a) = 64 * (?n - Suc ?a) + 64" using en(4) by simp
  then have sp: "64 * (?n - Suc ?a) + 64 \<le> unat (p_space (w_pool (cw_world ?s1)))" using aE(2) by simp
  then have sp1: "64 \<le> unat (p_space (w_pool (cw_world ?s1)))" by simp
  obtain s2 c where s2: "collect_create u ?i (b_buf j r) (b_type j) (b_cnt j) (b_cnt j) 1 ?s1 = Ret (s2, c)"
    "cw_slots s2 ?i = (cw_slots ?s1 ?i)\<lparr>k_box := k_box (cw_slots ?s1 ?i) @ [c]\<rparr>"
    "box_inv (cw_world s2) (add_mset c (mset (map q E) + B))" "c \<notin># mset (map q E) + B"
    "w_mem (cw_world s2) = w_mem (cw_world ?s1)" "w_size (cw_world s2) = w_size (cw_world ?s1)"
    "w_cookies (cw_world s2) = (w_cookies (cw_world ?s1))
       (c := mk_cookie (u_rank u) (b_buf j r) (b_type j) (b_cnt j) (b_cnt j) (int (u_rank u)) UMPI_TAG_CC 1)"
    "unat (p_space (w_pool (cw_world ?s1))) \<le> unat (p_space (w_pool (cw_world s2))) + 64"
    by (rule collect_create_effect [OF bi us sp1])
  note qu = collect_create_quiet [OF bi us s2(1)]
  let ?s2 = "unlock ?i s2" and ?p = "B_waiting c" let ?m = "bset r ?s2 ?p m" and ?q = "q(r := c)"
  have fresh: "c \<notin> q ` set E" "c \<notin># pending ?w" using s2(4) qu(3) by auto
  have unheld: "holders ?n ?f c = 0"
  proof (rule ccontr)
    assume "holders ?n ?f c \<noteq> 0"
    then have "c \<in># b_boxes j m + pending ?w" using holders_places [OF inv] by blast
    then show False using fresh box st by simp
  qed
  have h: "holders ?n (?f(r := ?p)) x = holders ?n ?f x + (if x = c then 1 else 0)" for x
    by (rule holders_upd) (use r in simp_all)
  have a: "arrived ?n (?f(r := ?p)) = Suc ?a" by (rule arrived_upd) (use r in simp_all)
  have qE: "map ?q (E @ [r]) = map q E @ [c]" using rE by auto
  have slot: "b_slot j (bm_shared ?m) = (b_slot j (bm_shared m))\<lparr>k_locked := False, k_ticket := b_ticket j, k_joined := int (Suc ?a),
      k_box := map q E @ [c]\<rparr>"
    using s2(2) box by simp
  have tr: "(?f(r := ?p)) ?t = B_start" using st r(3) by simp
  have w: "bm_world ?m = cw_world s2" by simp
  have "b_frame j B (E @ [r]) ?q ?m"
    unfolding b_frame_def Let_def
  proof (intro conjI impI)
    show "w_size (bm_world ?m) = ?n" using s2(6) fr(1) by simp
    show "distinct (E @ [r])" "set (E @ [r]) \<subseteq> {..<?n} - {?t}" using fr(2,3) rE r by auto
    show "inj_on ?q (set (E @ [r]))" using fr(4) rE fresh(1) by (auto simp: inj_on_def)
    show "\<not> k_locked (b_slot j (bm_shared ?m))" unfolding slot by simp
    show "k_box (b_slot j (bm_shared ?m)) = (if bm_pc ?m ?t = B_start then map ?q (E @ [r])
        else if arrived ?n (bm_pc ?m) < ?n then [?q ?t] else [])"
      unfolding slot qE using tr by simp
    show "slot_after (b_ticket j) (arrived ?n (bm_pc ?m)) (b_slot j (bm_shared ?m))"
      unfolding slot unfolding bset_simps a by (simp add: slot_after_def)
    show "box_inv (bm_world ?m) (b_boxes j ?m + B)" using s2(3) tr unfolding slot w by simp
    show "arrived ?n (bm_pc ?m) = length (E @ [r])" using a aE(1) by simp
    show "64 * (?n - arrived ?n (bm_pc ?m)) \<le> unat (p_space (w_pool (bm_world ?m)))" using sp s2(8) unfolding bset_simps a by simp
  qed
  moreover have "b_used j ?m"
    unfolding b_used_def
  proof (intro allI impI)
    fix x assume x: "0 < holders ?n (bm_pc ?m) x"
    show "c_used (w_cookies (bm_world ?m) x) = int (holders ?n (bm_pc ?m) x) \<and> x \<in># b_boxes j ?m + pending (bm_world ?m)"
    proof (cases "x = c")
      case True
      then show ?thesis using h [of c] unheld s2(7) slot by (simp add: mk_cookie_def)
    next
      case False
      then have "0 < holders ?n ?f x" using x h [of x] by simp
      then have "c_used (w_cookies ?w x) = int (holders ?n ?f x)" "x \<in># b_boxes j m + pending ?w"
        using b_invD(2) [OF inv] unfolding b_used_def by blast+
      then show ?thesis using False h [of x] s2(7) qu(2) slot box st tr by simp
    qed
  qed
  moreover have "b_sleep j ?m"
  proof (rule sleep_enter [OF b_invD(3) [OF inv] r(2)])
    show "same_waits ?w (cw_world ?s2)" using qu(1) by simp
    fix s x assume "s < ?n" "?f s = B_waiting x"
    then have "x \<noteq> c" using unheld holder [of s ?n ?f x] by auto
    then show "c_owner (w_cookies (cw_world ?s2) x) = c_owner (w_cookies ?w x) \<and> c_busy (w_cookies (cw_world ?s2) x) = c_busy (w_cookies ?w x)"
      using s2(7) by simp
  qed
  moreover have "b_early j D (E @ [r]) ?q ?m"
    unfolding b_early_def Let_def
  proof
    fix e assume e: "e \<in> set (E @ [r])"
    have "bm_pc ?m e = B_waiting (?q e) \<and> b_offers j (cw_world s2) (?q e) e 1"
    proof (cases "e = r")
      case True
      then show ?thesis using s2(7) u r(1) en(6) by (auto intro!: mk_cookie_offers)
    next
      case False
      then have "e \<in> set E" "q e \<noteq> c" using e fresh(1) by auto
      then show ?thesis using eo False s2(7) by (auto simp: offers_def)
    qed
    then show "if bm_pc ?m ?t = B_start \<or> ?q e \<in> set (unserved (bm_pc ?m ?t))
      then bm_pc ?m e = B_waiting (?q e) \<and> b_offers j (bm_world ?m) (?q e) e 1
      else served j D (bm_world ?m) (?q e) e (bm_pc ?m e) \<and> (0 < holders ?n (bm_pc ?m) (?q e) \<longrightarrow> b_offers j (bm_world ?m) (?q e) e 0)"
      using tr by simp
  qed
  moreover have "b_late j D (E @ [r]) ?q ?m"
    using late_at [OF inv] st r(3) unfolding b_late_def by auto
  moreover have "b_rooted j D (E @ [r]) ?q ?m"
  proof -
    have "has_data j D (cw_world s2) ?t"
      using b_invD(6) [OF inv] st has_data_cong [of "cw_world s2" ?w j D ?t] s2(5) by (simp add: b_rooted_def Let_def)
    then show ?thesis using tr unfolding b_rooted_def Let_def by simp
  qed
  ultimately have "b_inv j D B (E @ [r]) ?q ?m" by (simp add: b_inv_def)
  moreover have "bcast_post u ?i (b_buf j r) (b_cnt j) (b_type j) (int ?t) ?s1 = Ret (?s2, c, False)"
    using none s2(1) by (simp add: bcast_post_def)
  ultimately show ?thesis by blast
qed

section \<open>After the root\<close>

lemma join_effect:
  "w_cookies (cookie_join c w) = (w_cookies w)(c := (w_cookies w c)\<lparr>c_used := to_i16 (c_used (w_cookies w c) + 1)\<rparr>)"
  "w_mem (cookie_join c w) = w_mem w" "w_size (cookie_join c w) = w_size w" "w_pool (cookie_join c w) = w_pool w"
  "w_procs (cookie_join c w) = w_procs w"
  by (simp_all add: cookie_join_def)

lemma late_enter:
  assumes ok: "bcast_job_ok j us" and inv: "b_inv j D B E q m" and r: "r < b_n j" "bm_pc m r = B_start" "r \<noteq> b_root j"
    and st: "bm_pc m (b_root j) \<noteq> B_start"
  defines "u \<equiv> (us r)\<lparr>u_ticket := b_ticket j + 1\<rparr>"
  shows "\<exists>s2 c. bcast_post u (slot_of (b_ticket j)) (b_buf j r) (b_cnt j) (b_type j) (int (b_root j))
      (entered (b_ticket j) (arrived (b_n j) (bm_pc m)) (bm_shared m)) = Ret (s2, c, True) \<and>
    b_inv j D B E q (bset r s2 (B_reading c) m)"
proof -
  let ?n = "b_n j" and ?f = "bm_pc m" and ?t = "b_root j" and ?i = "slot_of (b_ticket j)" and ?w = "bm_world m"
  let ?a = "arrived ?n ?f" let ?s1 = "entered (b_ticket j) ?a (bm_shared m)" let ?c = "q ?t"
  note en = enters [OF ok inv r(1,2)]
  note fr = b_frameD [OF b_invD(1) [OF inv]]
  have u: "u_rank u = r" "u_size u = int ?n" using en(2,3) by (simp_all add: u_def)
  have rE: "r \<notin> set E" using early_at [OF inv, of r] r(2) by auto
  have t: "?t < ?n" using ok by (simp add: bcast_job_ok_def)
  have L: "Suc (length E) < ?n" by (rule late_not_all [OF b_invD(1) [OF inv] r(1,3) rE t])
  have op: "0 < openers ?n ?f" using r by (auto simp: tally_pos)
  have root: "root_at ?w ?c (q ` set E) (?f ?t)" "?c \<notin> q ` set E" "in_call (?f ?t)" "has_data j D ?w ?t"
    "0 < holders ?n ?f ?c \<longrightarrow> b_offers j ?w ?c ?t (openers ?n ?f)"
    using b_invD(6) [OF inv] L op st unfolding b_rooted_def Let_def by (auto simp: in_call_def)
  have hc: "0 < holders ?n ?f ?c" by (rule holder [OF t]) (use root(1,3) in \<open>auto simp: in_call_def\<close>)
  have ofc: "b_offers j ?w ?c ?t (openers ?n ?f)" using root(5) hc by blast
  have uc: "c_used (w_cookies ?w ?c) = int (holders ?n ?f ?c)" using b_invD(2) [OF inv] hc unfolding b_used_def by blast
  have box: "k_box (b_slot j (bm_shared m)) = [?c]" using fr(6) st en(4) by simp
  define w2 where "w2 = (if Suc ?a = ?n then to_pending ?c (cookie_join ?c ?w) else cookie_join ?c ?w)"
  let ?box = "if Suc ?a = ?n then [] else [?c]"
  obtain s2 where s2: "late_join u ?i (int ?t) ?s1 = Some (s2, ?c)" "cw_world s2 = w2"
    "cw_slots s2 ?i = (b_slot j (bm_shared m))\<lparr>k_locked := False, k_ticket := b_ticket j, k_joined := int (Suc ?a), k_box := ?box\<rparr>"
  proof -
    have "late_join u ?i (int ?t) ?s1 = Some (unlock ?i (if k_joined (cw_slots ?s1 ?i) = u_size u
        then upd_slot ?i (\<lambda>k. k\<lparr>k_box := []\<rparr>) (set_world (to_pending ?c (cookie_join ?c (cw_world ?s1))) ?s1)
        else set_world (cookie_join ?c (cw_world ?s1)) ?s1), ?c)"
      by (rule late_join_root) (use box ofc in \<open>simp_all add: cookie_at_def offers_src\<close>)
    moreover have "int (Suc ?a) = u_size u \<longleftrightarrow> Suc ?a = ?n" unfolding u(2) of_nat_eq_iff ..
    ultimately show thesis using box by (intro that) (auto simp: w2_def)
  qed
  let ?p = "B_reading ?c" let ?m = "bset r s2 ?p m"
  have own: "c_owner (w_cookies (cookie_join ?c ?w) ?c) < w_size (cookie_join ?c ?w)"
    using ofc t fr(1) by (simp add: offers_def join_effect Let_def)
  note tp = to_pending_effect [OF own]
  have ck: "w_cookies w2 = (w_cookies ?w)(?c := (w_cookies ?w ?c)\<lparr>c_used := to_i16 (c_used (w_cookies ?w ?c) + 1)\<rparr>)"
    unfolding w2_def by (simp add: tp(1) join_effect)
  have w2: "w_mem w2 = w_mem ?w" "w_size w2 = w_size ?w" "w_pool w2 = w_pool ?w"
    unfolding w2_def using tp(2,3) by (simp_all add: join_effect) (simp add: to_pending_def move_to_pending_def join_effect)
  have wt: "same_waits ?w w2"
    unfolding w2_def same_waits_def by (simp add: to_pending_def move_to_pending_def join_effect)
  have pj: "pending (cookie_join ?c ?w) = pending ?w" by (rule same_boxesD(3) [OF same_boxes_join])
  have pe: "mset ?box + pending w2 = add_mset ?c (pending ?w)" unfolding w2_def using tp(4) pj by simp
  have bi: "box_inv ?w (add_mset ?c (mset (local_box (?f ?t)) + B))" using fr(5) box by simp
  have "box_inv w2 (mset ?box + (mset (local_box (?f ?t)) + B))"
    unfolding w2_def using bi tp(5) same_boxesD(4) [OF same_boxes_join] by simp
  then have bi2: "box_inv w2 (mset ?box + mset (local_box (?f ?t)) + B)" by (simp only: add.assoc)
  have h: "holders ?n (?f(r := ?p)) x = holders ?n ?f x + (if x = ?c then 1 else 0)" for x
    by (rule holders_upd) (use r in simp_all)
  have a: "arrived ?n (?f(r := ?p)) = Suc ?a" by (rule arrived_upd) (use r in simp_all)
  have o: "openers ?n (?f(r := ?p)) = openers ?n ?f" using tally_upd [OF r(1), of opener ?f ?p] r(2) by simp
  have tr: "(?f(r := ?p)) ?t = ?f ?t" using r(3) by simp
  have of': "offers w2 x y b ty k z = offers ?w x y b ty k z" for x y b ty k z unfolding offers_def ck by (simp add: Let_def)
  have hn: "holders ?n (?f(r := ?p)) ?c \<le> ?n" by (rule tally_le)
  have "b_frame j B E q ?m"
    unfolding b_frame_def Let_def
  proof (intro conjI impI)
    show "w_size (bm_world ?m) = ?n" using s2(2) w2(2) fr(1) by simp
    show "distinct E" "set E \<subseteq> {..<?n} - {?t}" "inj_on q (set E)" by (rule fr)+
    show "\<not> k_locked (b_slot j (bm_shared ?m))" using s2(3) by simp
    show "k_box (b_slot j (bm_shared ?m)) = (if bm_pc ?m ?t = B_start then map q E
        else if arrived ?n (bm_pc ?m) < ?n then [?c] else [])"
      using s2(3) en(4) tr st unfolding bset_simps a by simp
    show "slot_after (b_ticket j) (arrived ?n (bm_pc ?m)) (b_slot j (bm_shared ?m))" if "arrived ?n (bm_pc ?m) < ?n"
      using that s2(3) unfolding bset_simps a by (simp add: slot_after_def)
    show "box_inv (bm_world ?m) (b_boxes j ?m + B)" using bi2 unfolding bset_simps s2(2,3) tr by simp
    show "arrived ?n (bm_pc ?m) = length E" "64 * (?n - arrived ?n (bm_pc ?m)) \<le> unat (p_space (w_pool (bm_world ?m)))"
      if "bm_pc ?m ?t = B_start" using that st tr by simp_all
  qed
  moreover have "b_used j ?m"
    unfolding b_used_def
  proof (intro allI impI)
    fix x assume x: "0 < holders ?n (bm_pc ?m) x"
    then have hx: "0 < holders ?n ?f x" using h [of x] hc by (simp split: if_splits)
    then have old: "c_used (w_cookies ?w x) = int (holders ?n ?f x)" "x \<in># b_boxes j m + pending ?w"
      using b_invD(2) [OF inv] unfolding b_used_def by blast+
    have "c_used (w_cookies w2 x) = int (holders ?n (?f(r := ?p)) x)"
      using old(1) ck h [of x] hn en(6) uc by (auto simp: to_i16_id)
    moreover have "b_boxes j ?m + pending (bm_world ?m) = b_boxes j m + pending ?w"
    proof -
      have "b_boxes j ?m + pending (bm_world ?m) = (mset ?box + pending w2) + mset (local_box (?f ?t))"
        unfolding bset_simps s2(2,3) tr by simp
      also have "\<dots> = b_boxes j m + pending ?w" unfolding pe box by simp
      finally show ?thesis .
    qed
    ultimately show "c_used (w_cookies (bm_world ?m) x) = int (holders ?n (bm_pc ?m) x) \<and> x \<in># b_boxes j ?m + pending (bm_world ?m)"
      using old(2) s2(2) by (simp only: bset_simps)
  qed
  moreover have "b_sleep j ?m"
    by (rule sleep_enter [OF b_invD(3) [OF inv] r(2)]) (use wt s2(2) ck in auto)
  moreover have "b_early j D E q ?m"
    unfolding b_early_def Let_def
  proof
    fix e assume e: "e \<in> set E"
    have d: "e \<noteq> r" "q e \<noteq> ?c" using e rE root(2) by (metis imageI)+
    show "if bm_pc ?m ?t = B_start \<or> q e \<in> set (unserved (bm_pc ?m ?t))
      then bm_pc ?m e = B_waiting (q e) \<and> b_offers j (bm_world ?m) (q e) e 1
      else served j D (bm_world ?m) (q e) e (bm_pc ?m e) \<and> (0 < holders ?n (bm_pc ?m) (q e) \<longrightarrow> b_offers j (bm_world ?m) (q e) e 0)"
      using bspec [OF b_invD(4) [OF inv, unfolded b_early_def Let_def] e] d h [of "q e"]
      by (simp only: bset_simps s2(2) tr of' served_cong [OF w2(1)] fun_upd_other not_False_eq_True if_False add_0_right)
  qed
  moreover have "b_late j D E q ?m"
    using b_invD(5) [OF inv] st r(3) unfolding b_late_def
    by (simp only: bset_simps s2(2) tr served_cong [OF w2(1)]) auto
  moreover have "b_rooted j D E q ?m"
  proof -
    have "root_at w2 ?c (q ` set E) (?f ?t)" using root(1) pe by (cases "?f ?t") (auto simp: w2_def tp(4) pj)
    moreover have "has_data j D w2 ?t" using root(4) has_data_cong [OF w2(1), of j D] by simp
    ultimately show ?thesis
      using root(2,3) ofc L unfolding b_rooted_def Let_def by (simp only: bset_simps s2(2) tr of' o) simp
  qed
  ultimately have "b_inv j D B E q ?m" by (simp add: b_inv_def)
  moreover have "bcast_post u ?i (b_buf j r) (b_cnt j) (b_type j) (int ?t) ?s1 = Ret (s2, ?c, True)"
    using s2(1) by (simp add: bcast_post_def)
  ultimately show ?thesis by blast
qed

section \<open>The root\<close>

lemma root_start_quiet:
  assumes inv: "box_inv (cw_world s) (mset (k_box (cw_slots s i)) + B)" "u_rank u < w_size (cw_world s)"
    and st: "root_start u i buf ty sz cnt s = Ret (s2, c, todo)"
  shows "same_waits (cw_world s) (cw_world s2)" "pending (cw_world s2) = pending (cw_world s)"
    "k_joined (cw_slots s i) \<noteq> u_size u \<longrightarrow> c \<notin># pending (cw_world s)"
proof -
  let ?s1 = "upd_slot i (\<lambda>k. k\<lparr>k_box := []\<rparr>) s"
  have "same_waits (cw_world s) (cw_world s2) \<and> pending (cw_world s2) = pending (cw_world s) \<and>
    (k_joined (cw_slots s i) \<noteq> u_size u \<longrightarrow> c \<notin># pending (cw_world s))"
  proof (cases "k_joined (cw_slots s i) = u_size u")
    case True
    then have "cw_world s2 = cookie_join (last (k_box (cw_slots s i))) (cw_world s)"
      using st by (auto simp: root_start_def take_box_def joined_last_def Let_def split: if_splits)
    then show ?thesis using True same_boxesD(3) [OF same_boxes_join] by (simp add: same_waits_def join_effect)
  next
    case False
    then obtain s3 where s3: "collect_create u i buf ty sz cnt (u_size u - k_joined (cw_slots s i)) ?s1 = Ret (s3, c)" "cw_world s2 = cw_world s3"
      using st by (auto simp: root_start_def take_box_def joined_last_def Let_def and_then_Ret_iff)
    have "box_inv (cw_world ?s1) (mset (k_box (cw_slots s i)) + B)" "u_rank u < w_size (cw_world ?s1)" using inv by simp_all
    from collect_create_quiet [OF this s3(1)] show ?thesis using s3(2) by simp
  qed
  then show "same_waits (cw_world s) (cw_world s2)" "pending (cw_world s2) = pending (cw_world s)"
    "k_joined (cw_slots s i) \<noteq> u_size u \<longrightarrow> c \<notin># pending (cw_world s)" by blast+
qed

lemma tally_not: "tally n (\<lambda>p. \<not> P p) f = n - tally n P f"
proof -
  have "{r. r < n \<and> \<not> P (f r)} = {..<n} - {r. r < n \<and> P (f r)}" by auto
  moreover have "{r. r < n \<and> P (f r)} \<subseteq> {..<n}" by auto
  ultimately show ?thesis by (simp add: tally_def card_Diff_subset finite_subset)
qed

lemma tally_cong: "(\<And>r. r < n \<Longrightarrow> P (f r) = Q (f r)) \<Longrightarrow> tally n P f = tally n Q f"
  unfolding tally_def by (rule arg_cong [of _ _ card]) auto

text \<open>What the root has done when it unlocks the slot, as the last rank or not.\<close>

lemma root_begins:
  assumes ok: "bcast_job_ok j us" and inv: "b_inv j D B E q m" and st: "bm_pc m (b_root j) = B_start"
  defines "u \<equiv> (us (b_root j))\<lparr>u_ticket := b_ticket j + 1\<rparr>" and "L \<equiv> Suc (length E) < b_n j" and "t \<equiv> b_root j"
  obtains s2 c where
    "root_start u (slot_of (b_ticket j)) (b_buf j t) (b_type j) (b_cnt j) (b_cnt j)
       (entered (b_ticket j) (arrived (b_n j) (bm_pc m)) (bm_shared m)) = Ret (s2, c, map q E)"
    "cw_slots s2 (slot_of (b_ticket j)) = (b_slot j (bm_shared m))\<lparr>k_locked := False, k_ticket := b_ticket j,
       k_joined := int (Suc (length E)), k_box := if L then [c] else []\<rparr>"
    "box_inv (cw_world s2) (mset (map q E) + ((if L then {#c#} else {#}) + B))"
    "w_mem (cw_world s2) = w_mem (bm_world m)" "w_size (cw_world s2) = b_n j" "same_waits (bm_world m) (cw_world s2)"
    "pending (cw_world s2) = pending (bm_world m)"
    "\<And>x. x \<noteq> c \<Longrightarrow> w_cookies (cw_world s2) x = w_cookies (bm_world m) x"
    "if L then c \<notin> q ` set E \<and> c \<notin># pending (bm_world m) \<and> c_used (w_cookies (cw_world s2) c) = 1 \<and>
         b_offers j (cw_world s2) c t (b_n j - Suc (length E))
     else c \<in> q ` set E \<and> w_cookies (cw_world s2) c = (w_cookies (bm_world m) c)\<lparr>c_used := to_i16 (c_used (w_cookies (bm_world m) c) + 1)\<rparr>"
proof -
  let ?n = "b_n j" and ?f = "bm_pc m" and ?i = "slot_of (b_ticket j)" and ?w = "bm_world m" and ?E = "mset (map q E)"
  let ?a = "arrived ?n ?f" let ?s1 = "entered (b_ticket j) ?a (bm_shared m)"
  have t: "t < ?n" "2 \<le> ?n" using ok by (simp_all add: bcast_job_ok_def t_def)
  note en = enters [OF ok inv t(1) [unfolded t_def] st]
  note fr = b_frameD [OF b_invD(1) [OF inv]]
  have u: "u_rank u = t" "u_size u = int ?n" using en(2,3) by (simp_all add: u_def t_def)
  have box: "k_box (b_slot j (bm_shared m)) = map q E" using fr(6) st by simp
  have aE: "?a = length E" "64 * (?n - ?a) \<le> unat (p_space (w_pool ?w))"
    using b_invD(1) [OF inv] st unfolding b_frame_def Let_def by blast+
  have "64 * (?n - ?a) = 64 * (?n - Suc ?a) + 64" using en(4) by simp
  then have sp: "64 \<le> unat (p_space (w_pool (cw_world ?s1)))" using aE(2) by simp
  have bi: "box_inv (cw_world ?s1) (mset (k_box (cw_slots ?s1 ?i)) + B)" using fr(5) box st by simp
  have us: "u_rank u < w_size (cw_world ?s1)" using fr(1) t(1) u by simp
  have jd: "k_joined (cw_slots ?s1 ?i) = u_size u \<longleftrightarrow> \<not> L"
    using en(4) aE(1) u(2) unfolding L_def entered_simps by (simp add: nat_less_le) linarith
  have shape: "(cw_slots ?s1 ?i)\<lparr>k_box := b, k_locked := False\<rparr> = (b_slot j (bm_shared m))\<lparr>k_locked := False,
      k_ticket := b_ticket j, k_joined := int (Suc (length E)), k_box := b\<rparr>" for b
    using aE(1) by simp
  show thesis
  proof (cases L)
    case True
    then have j': "k_joined (cw_slots ?s1 ?i) \<noteq> u_size u" using jd by blast
    obtain s2 c where s2: "root_start u ?i (b_buf j t) (b_type j) (b_cnt j) (b_cnt j) ?s1 = Ret (s2, c, k_box (cw_slots ?s1 ?i))"
      "cw_slots s2 ?i = (cw_slots ?s1 ?i)\<lparr>k_box := [c], k_locked := False\<rparr>"
      "box_inv (cw_world s2) (mset (k_box (cw_slots ?s1 ?i)) + add_mset c B)" "c \<notin> set (k_box (cw_slots ?s1 ?i))"
      "w_mem (cw_world s2) = w_mem (cw_world ?s1)" "w_size (cw_world s2) = w_size (cw_world ?s1)"
      "w_cookies (cw_world s2) = (w_cookies (cw_world ?s1))(c := mk_cookie (u_rank u) (b_buf j t) (b_type j) (b_cnt j)
         (b_cnt j) (int (u_rank u)) UMPI_TAG_CC (u_size u - k_joined (cw_slots ?s1 ?i)))"
      by (rule root_start_leave [OF j' bi us sp])
    note qu = root_start_quiet [OF bi us s2(1)]
    have "b_offers j (cw_world s2) c t (?n - Suc (length E))"
      using s2(7) u t(1) True en(6) aE(1) unfolding L_def by (intro mk_cookie_offers) (simp_all add: of_nat_diff)
    then show thesis
      using True s2 qu j' box fr(1) aE(1) u by (intro that [of s2 c]) (simp_all add: shape mk_cookie_def)
  next
    case False
    then have j': "k_joined (cw_slots ?s1 ?i) = u_size u" using jd by blast
    have ne: "E \<noteq> []" using False t(2) unfolding L_def by auto
    let ?c = "last (map q E)"
    let ?s2 = "unlock ?i (set_world (cookie_join ?c ?w) (upd_slot ?i (\<lambda>k. k\<lparr>k_box := []\<rparr>) ?s1))"
    have rs: "root_start u ?i (b_buf j t) (b_type j) (b_cnt j) (b_cnt j) ?s1 = Ret (?s2, ?c, map q E)"
      using root_start_borrow [OF j', of "b_buf j t" "b_type j" "b_cnt j" "b_cnt j"] box ne by simp
    note qu = root_start_quiet [OF bi us rs]
    have "box_inv (cookie_join ?c ?w) (mset (map q E) + B)" using bi box same_boxesD(4) [OF same_boxes_join] by simp
    moreover have "?c \<in> q ` set E" using ne by (simp add: last_map)
    ultimately show thesis
      using False qu fr(1) aE(1) rs by (intro that [of ?s2 ?c]) (simp_all add: join_effect del: last_map)
  qed
qed

lemma root_enter:
  assumes ok: "bcast_job_ok j us" and inv: "b_inv j D B E q m" and st: "bm_pc m (b_root j) = B_start"
  defines "u \<equiv> (us (b_root j))\<lparr>u_ticket := b_ticket j + 1\<rparr>" and "t \<equiv> b_root j"
  shows "\<exists>s2 c. root_start u (slot_of (b_ticket j)) (b_buf j t) (b_type j) (b_cnt j) (b_cnt j)
       (entered (b_ticket j) (arrived (b_n j) (bm_pc m)) (bm_shared m)) = Ret (s2, c, map q E) \<and>
    b_inv j D B E (q(t := c)) (bset t s2 (B_writing c (map q E)) m)"
proof -
  let ?n = "b_n j" and ?f = "bm_pc m" and ?w = "bm_world m" and ?L = "Suc (length E) < b_n j" and ?a = "arrived (b_n j) (bm_pc m)"
  obtain s2 c where s2: "root_start u (slot_of (b_ticket j)) (b_buf j t) (b_type j) (b_cnt j) (b_cnt j)
       (entered (b_ticket j) ?a (bm_shared m)) = Ret (s2, c, map q E)"
    "cw_slots s2 (slot_of (b_ticket j)) = (b_slot j (bm_shared m))\<lparr>k_locked := False, k_ticket := b_ticket j,
       k_joined := int (Suc (length E)), k_box := if ?L then [c] else []\<rparr>"
    "box_inv (cw_world s2) (mset (map q E) + ((if ?L then {#c#} else {#}) + B))"
    "w_mem (cw_world s2) = w_mem ?w" "w_size (cw_world s2) = ?n" "same_waits ?w (cw_world s2)"
    "pending (cw_world s2) = pending ?w" "\<And>x. x \<noteq> c \<Longrightarrow> w_cookies (cw_world s2) x = w_cookies ?w x"
    "if ?L then c \<notin> q ` set E \<and> c \<notin># pending ?w \<and> c_used (w_cookies (cw_world s2) c) = 1 \<and>
         b_offers j (cw_world s2) c t (?n - Suc (length E))
     else c \<in> q ` set E \<and> w_cookies (cw_world s2) c = (w_cookies ?w c)\<lparr>c_used := to_i16 (c_used (w_cookies ?w c) + 1)\<rparr>"
    by (rule root_begins [OF ok inv st, folded t_def u_def]) (rule that)
  have t: "t < ?n" using ok by (simp add: bcast_job_ok_def t_def)
  have st': "?f t = B_start" using st by (simp add: t_def)
  note en = enters [OF ok inv t st']
  note fr = b_frameD [OF b_invD(1) [OF inv], folded t_def]
  have box: "k_box (b_slot j (bm_shared m)) = map q E" using fr(6) st' by simp
  have aE: "?a = length E" using b_invD(1) [OF inv] st unfolding b_frame_def Let_def by blast
  have tE: "t \<notin> set E" using fr(3) by auto
  have eo: "?f e = B_waiting (q e) \<and> b_offers j ?w (q e) e 1" if "e \<in> set E" for e
    using bspec [OF b_invD(4) [OF inv, unfolded b_early_def Let_def] that] st by simp
  let ?p = "B_writing c (map q E)" and ?q = "q(t := c)" let ?m = "bset t s2 ?p m"
  have h: "holders ?n (?f(t := ?p)) x = holders ?n ?f x + (if x = c then 1 else 0)" for x
    by (rule holders_upd) (use t st' in simp_all)
  have a: "arrived ?n (?f(t := ?p)) = Suc (length E)" using arrived_upd [of t ?n ?f ?p] t st' aE by simp
  have ph: "x \<noteq> t \<Longrightarrow> x \<notin> set E \<Longrightarrow> x < ?n \<Longrightarrow> ?f x = B_start" for x
    using late_at [OF inv, of x] st by (auto simp: t_def)
  have "openers ?n ?f = tally ?n (\<lambda>p. \<not> p \<noteq> B_start) ?f"
  proof (rule tally_cong)
    fix x assume "x < ?n"
    then show "opener (?f x) = (\<not> ?f x \<noteq> B_start)" using ph [of x] eo [of x] st' by (cases "x = t"; cases "x \<in> set E") auto
  qed
  then have "openers ?n ?f = ?n - length E" using tally_not [of ?n "\<lambda>p. p \<noteq> B_start" ?f] aE by simp
  then have o: "openers ?n (?f(t := ?p)) = ?n - Suc (length E)" using tally_upd [OF t, of opener ?f ?p] st' by simp
  have oe: "offers (cw_world s2) (q e) e b ty k z = offers ?w (q e) e b ty k z" if "e \<in> set E" for e b ty k z
  proof (cases "q e = c")
    case True
    then have "\<not> ?L" using s2(9) that by (auto split: if_splits)
    then have "w_cookies (cw_world s2) (q e) = (w_cookies ?w (q e))\<lparr>c_used := to_i16 (c_used (w_cookies ?w (q e)) + 1)\<rparr>"
      using True s2(9) by simp
    then show ?thesis by (simp add: offers_def Let_def)
  qed (simp add: offers_def s2(8))
  have unheld: "holders ?n ?f c = 0" if ?L
  proof (rule ccontr)
    assume "holders ?n ?f c \<noteq> 0"
    then have "c \<in># b_boxes j m + pending ?w" using holders_places [OF inv] by blast
    then show False using s2(9) that box st by auto
  qed
  have bx: "b_boxes j ?m = mset (map q E) + (if ?L then {#c#} else {#})" using s2(2) by (simp add: t_def [symmetric])
  have "b_frame j B E ?q ?m"
    unfolding b_frame_def Let_def t_def [symmetric]
  proof (intro conjI impI)
    show "w_size (bm_world ?m) = ?n" using s2(5) by simp
    show "distinct E" "set E \<subseteq> {..<?n} - {t}" by (rule fr)+
    show "inj_on ?q (set E)" using fr(4) tE by (auto simp: inj_on_def)
    show "\<not> k_locked (b_slot j (bm_shared ?m))" using s2(2) by simp
    show "k_box (b_slot j (bm_shared ?m)) = (if bm_pc ?m t = B_start then map ?q E
        else if arrived ?n (bm_pc ?m) < ?n then [?q t] else [])"
      unfolding bset_simps a s2(2) by simp
    show "slot_after (b_ticket j) (arrived ?n (bm_pc ?m)) (b_slot j (bm_shared ?m))" if "arrived ?n (bm_pc ?m) < ?n"
      using that unfolding bset_simps a s2(2) by (simp add: slot_after_def)
    show "box_inv (bm_world ?m) (mset (k_box (b_slot j (bm_shared ?m))) + mset (local_box (bm_pc ?m t)) + B)"
      using s2(2,3) by (simp split: if_splits)
    show "arrived ?n (bm_pc ?m) = length E" "64 * (?n - arrived ?n (bm_pc ?m)) \<le> unat (p_space (w_pool (bm_world ?m)))"
      if "bm_pc ?m t = B_start" using that by simp_all
  qed
  moreover have "b_used j ?m"
    unfolding b_used_def bx
  proof (intro allI impI)
    fix x assume x: "0 < holders ?n (bm_pc ?m) x"
    have hn: "holders ?n (?f(t := ?p)) x \<le> ?n" by (rule tally_le)
    have old: "c_used (w_cookies ?w x) = int (holders ?n ?f x)" "x \<in># mset (map q E) + pending ?w" if "0 < holders ?n ?f x"
      using b_invD(2) [OF inv] that box st unfolding b_used_def t_def by auto
    show "c_used (w_cookies (bm_world ?m) x) = int (holders ?n (bm_pc ?m) x) \<and>
        x \<in># mset (map q E) + (if ?L then {#c#} else {#}) + pending (bm_world ?m)"
    proof (cases "x = c")
      case False
      then show ?thesis using old x h [of x] s2(7,8) by auto
    next
      case True
      show ?thesis
      proof (cases ?L)
        case True
        then show ?thesis using \<open>x = c\<close> unheld h [of c] s2(9) by simp
      next
        case False
        then obtain e where e: "e \<in> set E" "x = q e" using s2(9) \<open>x = c\<close> by auto
        then have "0 < holders ?n ?f x" using eo fr(3) by (intro holder [of e]) auto
        then show ?thesis using old False s2(9) \<open>x = c\<close> h [of c] hn en(6) e by (auto simp: to_i16_id)
      qed
    qed
  qed
  moreover have "b_sleep j ?m"
  proof (rule sleep_enter [OF b_invD(3) [OF inv] st' s2(6)])
    fix s x assume s: "s < ?n" "?f s = B_waiting x"
    show "c_owner (w_cookies (cw_world s2) x) = c_owner (w_cookies ?w x) \<and> c_busy (w_cookies (cw_world s2) x) = c_busy (w_cookies ?w x)"
    proof (cases "x = c")
      case True
      then have "\<not> ?L" using unheld holder [of s ?n ?f x] s by auto
      then show ?thesis using s2(9) True by simp
    qed (simp add: s2(8))
  qed
  moreover have "b_early j D E ?q ?m"
    unfolding b_early_def Let_def
  proof
    fix e assume e: "e \<in> set E"
    then have "e \<noteq> t" using tE by auto
    then show "if bm_pc ?m (b_root j) = B_start \<or> ?q e \<in> set (unserved (bm_pc ?m (b_root j)))
      then bm_pc ?m e = B_waiting (?q e) \<and> b_offers j (bm_world ?m) (?q e) e 1
      else served j D (bm_world ?m) (?q e) e (bm_pc ?m e) \<and> (0 < holders ?n (bm_pc ?m) (?q e) \<longrightarrow> b_offers j (bm_world ?m) (?q e) e 0)"
      using eo e oe unfolding t_def [symmetric] by simp
  qed
  moreover have "b_late j D E ?q ?m" using ph unfolding b_late_def t_def [symmetric] by auto
  moreover have "b_rooted j D E ?q ?m"
  proof -
    have "has_data j D (cw_world s2) t"
      using b_invD(6) [OF inv] st' has_data_cong [OF s2(4), of j D t] unfolding b_rooted_def Let_def t_def [symmetric] by simp
    moreover have "?q ` set E = q ` set E" using tE by auto
    ultimately show ?thesis
      using fr(2,4) s2(9) o unfolding b_rooted_def Let_def t_def [symmetric]
      by (simp add: distinct_map in_call_def split: if_splits)
  qed
  ultimately have "b_inv j D B E ?q ?m" by (simp add: b_inv_def)
  with s2(1) show ?thesis by blast
qed

end
