(* ===== verification/Bcast_Runs.thy ===== *)
theory Bcast_Runs
  imports Bcast_Enter
begin

text \<open>
  What holds in every run of the broadcast machine: the invariant, a step for as long as some rank has
  not returned, and a bound on the number of steps.
\<close>

section \<open>The invariant in every run\<close>

text \<open>Nobody has called yet, the slot is free, and the pool has room for a request of every rank.\<close>

definition bcast_ready :: "bcast_job \<Rightarrow> cid multiset \<Rightarrow> cworld \<Rightarrow> bool" where
  "bcast_ready j B s \<longleftrightarrow> w_size (cw_world s) = b_n j \<and> box_inv (cw_world s) B \<and> slot_free (b_ticket j) s \<and>
     64 * b_n j \<le> unat (p_space (w_pool (cw_world s))) \<and> (\<forall>r < b_n j. \<not> pr_asleep (w_procs (cw_world s) r))"

abbreviation bcast_data :: "bcast_job \<Rightarrow> cworld \<Rightarrow> byte list" where
  "bcast_data j s \<equiv> map (w_mem (cw_world s)) (bcast_locs j (b_root j))"

lemma tally_none: "(\<And>r. r < n \<Longrightarrow> \<not> P (f r)) \<Longrightarrow> tally n P f = 0"
  using tally_pos [of n P f] by blast

lemma ready_inv:
  assumes "bcast_ready j B s"
  shows "b_inv j (bcast_data j s) B [] q \<lparr>bm_shared = s, bm_pc = \<lambda>_. B_start\<rparr>"
proof -
  have "tally (b_n j) (\<lambda>p. handle p = Some c) (\<lambda>_. B_start) = 0" "tally (b_n j) (\<lambda>p. p \<noteq> B_start) (\<lambda>_. B_start) = 0" for c
    by (intro tally_none; simp)+
  then show ?thesis
    using assms by (simp add: bcast_ready_def b_inv_def b_frame_def b_used_def b_sleep_def b_early_def b_late_def b_rooted_def
        has_data_def slot_free_def slot_after_def)
qed

lemma step_inv:
  assumes ok: "bcast_job_ok j us" and vm: "vm_ok (h_writev h)" "vm_ok (h_readv h)" and inv: "b_inv j D B E q m"
    and st: "bcast_step h us j m m'"
  shows "\<exists>E' q'. b_inv j D B E' q' m'"
proof -
  have t: "b_root j < b_n j" "b_n j < 32768" using ok by (simp_all add: bcast_job_ok_def same_call_def)
  show ?thesis
    using st
  proof cases
    case (enter r u s1 i s2 c joined)
    have e: "u = (us r)\<lparr>u_ticket := b_ticket j + 1\<rparr>" "s1 = entered (b_ticket j) (arrived (b_n j) (bm_pc m)) (bm_shared m)"
      "i = slot_of (b_ticket j)"
      using enters(1) [OF ok inv enter(2,4)] enter(5) by simp_all
    show ?thesis
    proof (cases "bm_pc m (b_root j) = B_start")
      case True
      from early_enter [OF ok inv enter(2,4,3) True] enter(6) show ?thesis unfolding enter(1) e by auto
    next
      case False
      from late_enter [OF ok inv enter(2,4,3) False] enter(6) show ?thesis unfolding enter(1) e by auto
    qed
  next
    case (enter_root r u s1 i s2 c todo)
    have e: "u = (us r)\<lparr>u_ticket := b_ticket j + 1\<rparr>" "s1 = entered (b_ticket j) (arrived (b_n j) (bm_pc m)) (bm_shared m)"
      "i = slot_of (b_ticket j)"
      using enters(1) [OF ok inv enter_root(2,4)] enter_root(5) by simp_all
    have "bm_pc m (b_root j) = B_start" using enter_root(3,4) by simp
    from root_enter [OF ok inv this] enter_root(6) show ?thesis unfolding enter_root(1,3) e by auto
  next
    case (do_read r c w ret)
    then show ?thesis using read_inv [OF ok vm(2) inv do_read(2-4)] by auto
  next
    case (do_move r c d todo)
    then show ?thesis using move_inv [OF inv do_move(2,3)] by auto
  next
    case (do_write r c d todo w ret)
    then show ?thesis using write_inv(2) [OF ok vm(1) inv do_write(2-4)] by auto
  next
    case (write_fails r c d todo w ret w')
    then show ?thesis using write_inv(1) [OF ok vm(1) inv write_fails(2-4)] by simp
  next
    case (written r c)
    then show ?thesis using written_inv [OF inv written(2,3)] by auto
  next
    case (do_wait r c w res)
    then show ?thesis using wait_inv [OF inv do_wait(2-5)] by blast
  next
    case (do_leave r c w)
    then show ?thesis using leave_inv [OF inv t do_leave(2-4)] by auto
  qed
qed

lemma run_inv:
  assumes ok: "bcast_job_ok j us" and vm: "vm_ok (h_writev h)" "vm_ok (h_readv h)" and rd: "bcast_ready j B s"
    and run: "bcast_run h us j s k p m"
  shows "\<exists>E q. b_inv j (bcast_data j s) B E q m"
  using run
proof induction
  case start
  then show ?case using ready_inv [OF rd] by blast
next
  case (step k p m m')
  then show ?case using step_inv [OF ok vm] by blast
next
  case (wake k p m m')
  then show ?case by (auto elim!: bcast_wake.cases intro: woken_inv)
next
  case (reuse k p m m')
  then obtain E q where inv: "b_inv j (bcast_data j s) B E q m" by blast
  from reuse(2) show ?case
  proof cases
    case (reuse r ret mem)
    then show ?thesis using reuse_inv [OF inv reuse(2,3)] by blast
  qed
qed

section \<open>Somebody can always go on\<close>

lemma progress:
  assumes ok: "bcast_job_ok j us" and vm: "vm_ok (h_writev h)" "vm_ok (h_readv h)" and inv: "b_inv j D B E q m"
    and r: "r < b_n j" "\<And>ret. bm_pc m r \<noteq> B_returned ret" "bm_pc m r \<noteq> B_reused"
  shows "\<exists>m'. bcast_step h us j m m'"
proof -
  let ?n = "b_n j" and ?t = "b_root j" and ?w = "bm_world m" and ?f = "bm_pc m"
  have t: "?t < ?n" using ok by (simp add: bcast_job_ok_def)
  note fr = b_frameD [OF b_invD(1) [OF inv]]
  have wb: "whole_buf (b_type j) (b_cnt j)" using ok by (simp add: bcast_job_ok_def)
  have go_start: ?thesis if x: "x < ?n" "?f x = B_start" for x
  proof -
    note en = enters(1) [OF ok inv x]
    show ?thesis
    proof (cases "x = ?t")
      case True
      then obtain s2 c where "root_start ((us x)\<lparr>u_ticket := b_ticket j + 1\<rparr>) (slot_of (b_ticket j)) (b_buf j x) (b_type j)
          (b_cnt j) (b_cnt j) (entered (b_ticket j) (arrived ?n ?f) (bm_shared m)) = Ret (s2, c, map q E)"
        using root_enter [OF ok inv] x(2) by auto
      then show ?thesis by (intro exI) (rule bcast_step.enter_root [where us = us, OF x(1) True x(2) en])
    next
      case False
      note enter = bcast_step.enter [where us = us, OF x(1) False x(2) en]
      show ?thesis
        using early_enter [OF ok inv x False] late_enter [OF ok inv x False] by (blast intro: enter)
    qed
  qed
  have go_root: ?thesis if "?f ?t = B_writing c todo \<or> ?f ?t = B_sending c d todo" for c d todo
    using that
  proof
    assume w: "?f ?t = B_writing c todo"
    then show ?thesis by (cases todo) (auto intro: bcast_step.do_move [OF t] bcast_step.written [OF t])
  next
    assume w: "?f ?t = B_sending c d todo"
    obtain e where e: "e < ?n" "e \<noteq> ?t" "b_offers j ?w d e 1" using early_open [OF inv, of d] w by auto
    have "separate (payload (Priv ?t, b_buf j ?t) (b_type j) 0 (b_cnt j)) (data_locs e (b_buf j e) (b_type j) (b_cnt j))"
      using bcast_separate [OF ok e(1), of ?t] e(2) by (simp add: bcast_locs_def)
    from write_same [OF vm(1) wb e(3) _ _ this]
    obtain w' where w': "write_to_owner (h_writev h) d (Priv ?t, b_buf j ?t) (b_type j) (b_cnt j) 0 0 ?w = Ret (w', MPI_SUCCESS)"
      by auto
    show ?thesis using bcast_step.do_write [OF t w w'] by (auto simp: mpi_consts)
  qed
  have go_read: ?thesis if x: "x < ?n" "?f x = B_reading c" for x c
  proof -
    have role: "x \<noteq> ?t" "x \<notin> set E" "c = q ?t" "?f ?t \<noteq> B_start" using reader_is_late [OF inv x] by auto
    have L: "Suc (length E) < ?n" by (rule late_not_all [OF b_invD(1) [OF inv] x(1) role(1,2) t])
    have op: "0 < openers ?n ?f" using x by (auto simp: tally_pos)
    have of': "b_offers j ?w c ?t (openers ?n ?f)"
      using b_invD(6) [OF inv] L role(3,4) holder [of x ?n ?f c] x unfolding b_rooted_def Let_def by auto
    have small: "int (openers ?n ?f) < 32768"
      using tally_le [of ?n opener ?f] ok by (simp add: bcast_job_ok_def same_call_def)
    have "separate (data_locs ?t (b_buf j ?t) (b_type j) (b_cnt j)) (payload (Priv x, b_buf j x) (b_type j) 0 (b_cnt j))"
      using bcast_separate [OF ok x(1), of ?t] role(1) by (simp add: bcast_locs_def)
    from read_same [OF vm(2) wb of' _ small _ this, of "b_cnt j"] op
    obtain w' where "read_from_owner (h_readv h) c (Priv x, b_buf j x) (b_type j) (b_cnt j) (b_cnt j) 0 0 ?w = Ret (w', MPI_SUCCESS)"
      by auto
    then show ?thesis by (intro exI) (rule bcast_step.do_read [OF x])
  qed
  have go_leave: ?thesis if x: "x < ?n" "?f x = B_leaving c" for x c
  proof -
    obtain o' busy where o': "o' < ?n" "b_offers j ?w c o' busy"
      using held_offers [OF inv t leaver_started [OF inv x] x(1)] x(2) by auto
    have "o' < w_size ?w" using o'(1) fr(1) by simp
    then obtain w where "finalize o' c ?w = Ret w" using finalize_total [OF fr(5)] by blast
    then have "cookie_leave c ?w = Ret w" using o'(2) by (simp add: cookie_leave_def offers_def Let_def)
    then show ?thesis by (intro exI) (rule bcast_step.do_leave [OF x])
  qed
  have go_wait: ?thesis if x: "x < ?n" "?f x = B_waiting c" "\<not> pr_asleep (w_procs ?w x)" for x c
    by (cases "cookie_wait x c ?w") (intro exI, rule bcast_step.do_wait [OF x])
  show ?thesis
  proof (cases "?f r")
    case (B_waiting c)
    show ?thesis
    proof (cases "pr_asleep (w_procs ?w r)")
      case True
      then obtain c' where c': "?f r = B_waiting c'" "c_owner (w_cookies ?w c') = r" "c_busy (w_cookies ?w c') \<noteq> 0"
        using b_invD(3) [OF inv] r(1) unfolding b_sleep_def by blast
      have hc: "0 < holders ?n ?f c'" by (rule holder [OF r(1)]) (simp add: c'(1))
      consider "r \<in> set E" | "r = ?t" | "r \<noteq> ?t" "r \<notin> set E" by blast
      then show ?thesis
      proof cases
        case 1
        then have q: "c' = q r" using early_at [OF inv 1] c'(1) by auto
        have "?f ?t = B_start \<or> q r \<in> set (unserved (?f ?t))"
          using bspec [OF b_invD(4) [OF inv, unfolded b_early_def Let_def] 1] c'(3) hc q
          by (auto simp: offers_def Let_def split: if_splits)
        then show ?thesis using go_start [OF t] go_root by (cases "?f ?t") auto
      next
        case 2
        then have q: "c' = q ?t" using root_handle [OF inv] c'(1) by simp
        have "Suc (length E) < ?n"
        proof (rule ccontr)
          assume "\<not> Suc (length E) < ?n"
          then obtain e where e: "e \<in> set E" "c' = q e"
            using b_invD(6) [OF inv] q c'(1) 2 unfolding b_rooted_def Let_def by auto
          have "unserved (?f ?t) = []" "?f ?t \<noteq> B_start" using c'(1) 2 by auto
          then have "b_offers j ?w c' e 0"
            using bspec [OF b_invD(4) [OF inv, unfolded b_early_def Let_def] e(1)] hc e(2) by auto
          then show False using c'(3) by (simp add: offers_def Let_def)
        qed
        then have "b_offers j ?w c' ?t (openers ?n ?f)"
          using b_invD(6) [OF inv] hc q c'(1) 2 unfolding b_rooted_def Let_def by auto
        then have "0 < openers ?n ?f" using c'(3) by (auto simp: offers_def Let_def)
        then obtain x where "x < ?n" "opener (?f x)" by (auto simp: tally_pos)
        then show ?thesis using go_start [of x] go_read [of x] by (cases "?f x") auto
      next
        case 3
        then have q: "c' = q ?t" "?f ?t \<noteq> B_start" using late_at [OF inv r(1) 3] c'(1) by auto
        then have "b_offers j ?w c' ?t (openers ?n ?f)"
          using b_invD(6) [OF inv] hc late_not_all [OF b_invD(1) [OF inv] r(1) 3 t] unfolding b_rooted_def Let_def by auto
        then show ?thesis using c'(2) 3(1) by (simp add: offers_def Let_def)
      qed
    qed (use go_wait B_waiting r(1) in blast)
  next
    case (B_writing c todo)
    then have "r = ?t" using writer_is_root [OF inv r(1)] by blast
    with B_writing show ?thesis using go_root by blast
  next
    case (B_sending c d todo)
    then have "r = ?t" using writer_is_root [OF inv r(1)] by blast
    with B_sending show ?thesis using go_root by blast
  qed (use r go_start go_read go_leave in blast)+
qed

section \<open>Every run ends\<close>

text \<open>An upper bound on the steps a rank still takes, where being woken up costs one.\<close>

fun weight :: "nat \<Rightarrow> bool \<Rightarrow> bpc \<Rightarrow> nat" where
  "weight n asleep B_start = 4 * n + 9"
| "weight n asleep (B_reading c) = 6"
| "weight n asleep (B_writing c todo) = 4 * length todo + 5"
| "weight n asleep (B_sending c d todo) = 4 * length todo + 7"
| "weight n asleep (B_waiting c) = (if asleep then 3 else 4)"
| "weight n asleep (B_leaving c) = 2"
| "weight n asleep (B_returned ret) = 1"
| "weight n asleep B_reused = 0"

definition rank_work :: "bcast_job \<Rightarrow> bmachine \<Rightarrow> nat \<Rightarrow> nat" where
  "rank_work j m r = weight (b_n j) (pr_asleep (w_procs (bm_world m) r)) (bm_pc m r)"

definition work :: "bcast_job \<Rightarrow> bmachine \<Rightarrow> nat" where
  "work j m = (\<Sum>r < b_n j. rank_work j m r)"

lemma work_less:
  assumes r: "r < b_n j" "rank_work j m' r + b < rank_work j m r"
    and others: "\<And>s. s < b_n j \<Longrightarrow> s \<noteq> r \<Longrightarrow> rank_work j m' s \<le> rank_work j m s + (if s = x then b else 0)"
  shows "work j m' < work j m"
proof -
  let ?A = "{..<b_n j} - {r}"
  have "(\<Sum>s \<in> ?A. rank_work j m' s) \<le> (\<Sum>s \<in> ?A. rank_work j m s + (if s = x then b else 0))"
    by (rule sum_mono) (use others in auto)
  also have "\<dots> \<le> (\<Sum>s \<in> ?A. rank_work j m s) + b" by (simp add: sum.distrib)
  finally have "(\<Sum>s \<in> ?A. rank_work j m' s) \<le> (\<Sum>s \<in> ?A. rank_work j m s) + b" .
  moreover have "work j n = rank_work j n r + (\<Sum>s \<in> ?A. rank_work j n s)" for n
    unfolding work_def using r(1) by (intro sum.remove) auto
  ultimately show ?thesis using r(2) by simp
qed

lemma work_less_same:
  assumes "r < b_n j" "rank_work j m' r < rank_work j m r"
    and "\<And>s. s < b_n j \<Longrightarrow> s \<noteq> r \<Longrightarrow> rank_work j m' s = rank_work j m s"
  shows "work j m' < work j m"
  by (rule work_less [of r j m' 0 m 0]) (use assms in auto)

lemma weight_wake: "weight n a p \<le> weight n b p + 1"
  by (cases p) auto

lemma notify_other: "s \<noteq> c_owner (w_cookies w c) \<Longrightarrow> w_procs (notify_done c err w) s = w_procs w s"
  by (simp add: notify_done_def Let_def)

lemma read_other: "read_from_owner readv c buf ty sz cnt seek skip w = Ret (w', err) \<Longrightarrow> s \<noteq> c_owner (w_cookies w c) \<Longrightarrow>
    w_procs w' s = w_procs w s"
  by (auto simp: read_from_owner_def Let_def notify_other split: if_splits prod.splits)

lemma write_other: "write_to_owner writev c buf ty cnt seek skip w = Ret (w', err) \<Longrightarrow> s \<noteq> c_owner (w_cookies w c) \<Longrightarrow>
    w_procs w' s = w_procs w s"
  by (auto simp: write_to_owner_def Let_def notify_other split: if_splits prod.splits)

lemma transfer_work:
  assumes r: "r < b_n j" and p: "weight (b_n j) False p + 1 < rank_work j m r" "\<And>a. weight (b_n j) a p \<le> weight (b_n j) False p"
    and other: "\<And>s. s \<noteq> x \<Longrightarrow> w_procs w s = w_procs (bm_world m) s"
  shows "work j (bset_world r w p m) < work j m"
proof (rule work_less [OF r])
  let ?m = "bset_world r w p m"
  have "rank_work j ?m r \<le> weight (b_n j) False p" using p(2) by (simp add: rank_work_def)
  then show "rank_work j ?m r + 1 < rank_work j m r" using p(1) by simp
  fix s assume "s \<noteq> r"
  then show "rank_work j ?m s \<le> rank_work j m s + (if s = x then 1 else 0)"
    using other [of s] weight_wake [of "b_n j" _ "bm_pc m s"] by (auto simp: rank_work_def)
qed

lemma box_length:
  assumes "b_frame j B E q m"
  shows "length E \<le> b_n j"
proof -
  have "set E \<subseteq> {..<b_n j}" using b_frameD(3) [OF assms] by auto
  then have "card (set E) \<le> b_n j" using card_mono [of "{..<b_n j}"] by auto
  then show ?thesis using b_frameD(2) [OF assms] by (simp add: distinct_card)
qed

lemma post_waits:
  assumes inv: "box_inv (cw_world s) B" "u_rank u < w_size (cw_world s)"
    and st: "bcast_post u i buf cnt ty root s = Ret (s2, c, joined)"
  shows "same_waits (cw_world s) (cw_world s2)"
proof (cases "late_join u i root s")
  case None
  then obtain s1 where s1: "collect_create u i buf ty cnt cnt 1 s = Ret (s1, c)" "cw_world s2 = cw_world s1"
    using st by (auto simp: bcast_post_def and_then_Ret_iff)
  show ?thesis using collect_create_quiet(1) [OF inv s1(1)] s1(2) by simp
next
  case (Some x)
  then show ?thesis
    using st by (cases x) (auto simp: bcast_post_def late_join_def Let_def same_waits_def join_effect to_pending_def
        move_to_pending_def split: list.splits if_splits)
qed

lemma waits_work:
  assumes "r < b_n j" "\<And>a. weight (b_n j) a p < rank_work j m r" "same_waits (bm_world m) (cw_world s2)"
  shows "work j (bset r s2 p m) < work j m"
  by (rule work_less_same [OF assms(1)]) (use assms(2,3) in \<open>simp_all add: rank_work_def same_waits_def\<close>)

lemma step_work:
  assumes ok: "bcast_job_ok j us" and vm: "vm_ok (h_writev h)" "vm_ok (h_readv h)" and inv: "b_inv j D B E q m"
    and st: "bcast_step h us j m m'"
  shows "work j m' < work j m"
proof -
  let ?n = "b_n j" and ?w = "bm_world m"
  have t: "b_root j < ?n" using ok by (simp add: bcast_job_ok_def)
  note fr = b_frameD [OF b_invD(1) [OF inv]]
  note same = same_waits_def [THEN iffD2]
  show ?thesis
    using st
  proof cases
    case (enter r u s1 i s2 c joined)
    have e: "u_rank u = r" "cw_world s1 = ?w" using enters(1-3) [OF ok inv enter(2,4)] enter(5) by auto
    have "same_waits ?w (cw_world s2)"
      using post_waits [OF _ _ enter(6), of "b_boxes j m + B"] fr(1,5) e enter(2) by simp
    then show ?thesis unfolding enter(1) by (intro waits_work [OF enter(2)]) (auto simp: rank_work_def enter(4))
  next
    case (enter_root r u s1 i s2 c todo)
    have st: "bm_pc m (b_root j) = B_start" using enter_root(3,4) by simp
    have e: "u = (us r)\<lparr>u_ticket := b_ticket j + 1\<rparr>" "s1 = entered (b_ticket j) (arrived ?n (bm_pc m)) (bm_shared m)"
      "i = slot_of (b_ticket j)" "u_rank u = r" "cw_world s1 = ?w"
      using enters(1,2) [OF ok inv enter_root(2,4)] enter_root(5) by auto
    have todo: "todo = map q E" using root_enter [OF ok inv st] enter_root(3,6) e(1-3) by auto
    have "k_box (cw_slots s1 i) = map q E" using fr(6) st e(2,3) by simp
    then have "box_inv (cw_world s1) (mset (k_box (cw_slots s1 i)) + B)" using fr(5,6) st e(5) by simp
    then have "same_waits ?w (cw_world s2)"
      using root_start_quiet(1) [OF _ _ enter_root(6)] fr(1) e(4,5) enter_root(2) by simp
    then show ?thesis
      unfolding enter_root(1) using box_length [OF b_invD(1) [OF inv]]
      by (intro waits_work [OF enter_root(2)]) (auto simp: rank_work_def enter_root(4) todo)
  next
    case (do_read r c w ret)
    have "ret = 0" by (rule read_inv(1) [OF ok vm(2) inv do_read(2-4)])
    then show ?thesis
      unfolding do_read(1) using read_other [OF do_read(4)]
      by (intro transfer_work [OF do_read(2), where x = "c_owner (w_cookies ?w c)"]) (simp_all add: rank_work_def do_read(3))
  next
    case (do_move r c d todo)
    show ?thesis
      unfolding do_move(1)
      by (rule work_less_same [OF do_move(2)])
        (simp_all add: rank_work_def do_move(3) to_pending_def move_to_pending_def)
  next
    case (do_write r c d todo w ret)
    show ?thesis
      unfolding do_write(1) using write_other [OF do_write(4)]
      by (intro transfer_work [OF do_write(2), where x = "c_owner (w_cookies ?w d)"]) (simp_all add: rank_work_def do_write(3))
  next
    case (write_fails r c d todo w ret w')
    then show ?thesis using write_inv(1) [OF ok vm(1) inv write_fails(2-4)] by simp
  next
    case (written r c)
    show ?thesis unfolding written(1) by (rule work_less_same [OF written(2)]) (simp_all add: rank_work_def written(3))
  next
    case (do_wait r c w res)
    note e = cookie_wait_effect [OF do_wait(5)]
    show ?thesis
      unfolding do_wait(1)
    proof (rule work_less_same [OF do_wait(2)])
      show "rank_work j (bset_world r w (if res = None then B_waiting c else B_leaving c) m) r < rank_work j m r"
        using e(5) do_wait(3,4) by (auto simp: rank_work_def split: if_splits)
    qed (simp add: rank_work_def e(4))
  next
    case (do_leave r c w)
    obtain o' busy where o': "o' < ?n" "b_offers j ?w c o' busy"
      using held_offers [OF inv t leaver_started [OF inv do_leave(2,3)] do_leave(2)] do_leave(3) by auto
    have "o' < w_size ?w" "finalize o' c ?w = Ret w"
      using o' fr(1) do_leave(4) by (simp_all add: cookie_leave_def offers_def Let_def)
    from finalize_effect(7) [OF fr(5) this] obtain ps fs where
      "w_procs w = (w_procs ?w)(o' := (w_procs ?w o')\<lparr>pr_pending := ps, pr_free := fs\<rparr>)" by blast
    then show ?thesis
      unfolding do_leave(1) by (intro work_less_same [OF do_leave(2)]) (simp_all add: rank_work_def do_leave(3))
  qed
qed

lemma wake_work:
  assumes "bcast_wake j m m'"
  shows "work j m' \<le> work j m + 1"
  using assms
proof cases
  case (spurious r)
  let ?A = "{..<b_n j} - {r}"
  have "work j n = rank_work j n r + (\<Sum>s \<in> ?A. rank_work j n s)" for n
    unfolding work_def using spurious(2) by (intro sum.remove) auto
  moreover have "(\<Sum>s \<in> ?A. rank_work j m' s) = (\<Sum>s \<in> ?A. rank_work j m s)"
    by (rule sum.cong) (auto simp: rank_work_def spurious(1))
  moreover have "rank_work j m' r \<le> rank_work j m r + 1" by (simp add: rank_work_def spurious(1) weight_wake [simplified])
  ultimately show ?thesis by simp
qed

lemma reuse_work:
  assumes "bcast_reuse j m m'"
  shows "work j m' \<le> work j m"
  using assms
proof cases
  case (reuse r ret mem)
  show ?thesis unfolding work_def reuse(1) by (rule sum_mono) (auto simp: rank_work_def reuse(2))
qed

lemma start_work: "work j \<lparr>bm_shared = s, bm_pc = \<lambda>_. B_start\<rparr> = b_n j * (4 * b_n j + 9)"
  by (simp add: work_def rank_work_def)

lemma run_work:
  assumes ok: "bcast_job_ok j us" and vm: "vm_ok (h_writev h)" "vm_ok (h_readv h)" and rd: "bcast_ready j B s"
    and run: "bcast_run h us j s k p m"
  shows "k + work j m \<le> b_n j * (4 * b_n j + 9) + p"
  using run
proof induction
  case (step k p m m')
  obtain E q where "b_inv j (bcast_data j s) B E q m" using run_inv [OF ok vm rd step(1)] by blast
  then have "work j m' < work j m" by (rule step_work [OF ok vm _ step(2)])
  then show ?case using step.IH by simp
next
  case (wake k p m m')
  then show ?case using wake_work [OF wake(2)] by simp
next
  case (reuse k p m m')
  then show ?case using reuse_work [OF reuse(2)] by simp
qed (simp add: start_work)

section \<open>What the runs show\<close>

lemma returned_data:
  assumes inv: "b_inv j D B E q m" and r: "r < b_n j" "bm_pc m r = B_returned ret"
  shows "ret = 0 \<and> has_data j D (bm_world m) r"
proof -
  consider "r = b_root j" | "r \<in> set E" | "r \<noteq> b_root j" "r \<notin> set E" by blast
  then show ?thesis
  proof cases
    case 1
    then show ?thesis using b_invD(6) [OF inv] r(2) by (simp add: b_rooted_def Let_def)
  next
    case 2
    then show ?thesis
      using bspec [OF b_invD(4) [OF inv, unfolded b_early_def Let_def] 2] r(2) by (auto simp: served_def split: if_splits)
  next
    case 3
    then show ?thesis using b_invD(5) [OF inv] r unfolding b_late_def by (auto simp: served_def)
  qed
qed

text \<open>C4: Every run of \<^verbatim>\<open>MPI_Bcast\<close> ends, and ends well. All \<open>n\<close> ranks call it; the sections under the
  mutex of the slot, the transfers, the steps of waiting and of giving up requests and spurious
  wake-ups come in any order. A run has at most \<open>n (4 n + 9)\<close> steps and one more for each spurious
  wake-up, and when no call can go on, every rank has returned \<^verbatim>\<open>MPI_SUCCESS\<close>, the slot is free for
  the operation 16 tickets later, and the requests in boxes are those that were there before: no
  deadlock, no lost wake-up, no livelock.\<close>

theorem bcast_runs_end:
  assumes "bcast_job_ok j us" "vm_ok (h_writev h)" "vm_ok (h_readv h)" "bcast_ready j B s" "bcast_run h us j s k p m"
  shows "k \<le> b_n j * (4 * b_n j + 9) + p \<and>
    ((\<nexists>m'. bcast_step h us j m m') \<longrightarrow>
       (\<forall>r < b_n j. bm_pc m r = B_returned MPI_SUCCESS \<or> bm_pc m r = B_reused) \<and>
       slot_free (b_ticket j) (bm_shared m) \<and> box_inv (bm_world m) B)"
proof (intro conjI impI)
  show "k \<le> b_n j * (4 * b_n j + 9) + p" using run_work [OF assms] by simp
  assume stuck: "\<nexists>m'. bcast_step h us j m m'"
  obtain E q where inv: "b_inv j (bcast_data j s) B E q m" using run_inv [OF assms] by blast
  note fr = b_frameD [OF b_invD(1) [OF inv]]
  have t: "b_root j < b_n j" using assms(1) by (simp add: bcast_job_ok_def)
  have "\<exists>ret. bm_pc m r = B_returned ret \<or> bm_pc m r = B_reused" if "r < b_n j" for r
    using progress [OF assms(1-3) inv that] stuck by blast
  then have all: "bm_pc m r = B_returned MPI_SUCCESS \<or> bm_pc m r = B_reused" if "r < b_n j" for r
    using returned_data [OF inv that] that by (metis mpi_consts(1))
  then show "\<forall>r < b_n j. bm_pc m r = B_returned MPI_SUCCESS \<or> bm_pc m r = B_reused" by blast
  have "arrived (b_n j) (bm_pc m) = b_n j"
    using tally_less [of "b_n j" "\<lambda>p. p \<noteq> B_start" "bm_pc m"] tally_le [of "b_n j" "\<lambda>p. p \<noteq> B_start" "bm_pc m"] all
    by fastforce
  moreover have rt: "bm_pc m (b_root j) \<noteq> B_start" "local_box (bm_pc m (b_root j)) = []" using all [OF t] by auto
  ultimately have box: "k_box (b_slot j (bm_shared m)) = []" using fr(6) by simp
  moreover have "\<not> k_locked (b_slot j (bm_shared m))" using b_invD(1) [OF inv] unfolding b_frame_def Let_def by blast
  ultimately show "slot_free (b_ticket j) (bm_shared m)" by (simp add: slot_free_def)
  show "box_inv (bm_world m) B" using fr(5) box rt(2) by simp
qed

text \<open>C5: What \<^verbatim>\<open>MPI_Bcast\<close> has done when it returns, in any interleaving, whatever the ranks whose calls have
  already returned do to their own memory: it returns \<^verbatim>\<open>MPI_SUCCESS\<close>, and the buffer of the rank holds
  the data that the root's buffer held at the start.\<close>

theorem bcast_returns_data:
  assumes "bcast_job_ok j us" "vm_ok (h_writev h)" "vm_ok (h_readv h)" "bcast_ready j B s" "bcast_run h us j s k p m"
    and "r < b_n j" "bm_pc m r = B_returned ret"
  shows "ret = MPI_SUCCESS \<and> map (w_mem (bm_world m)) (bcast_locs j r) = map (w_mem (cw_world s)) (bcast_locs j (b_root j))"
proof -
  obtain E q where inv: "b_inv j (bcast_data j s) B E q m" using run_inv [OF assms(1-5)] by blast
  show ?thesis using returned_data [OF inv assms(6,7)] by (simp only: has_data_def mpi_consts)
qed


section \<open>A concrete run\<close>

lemma run_completes:
  assumes ok: "bcast_job_ok j us" and vm: "vm_ok (h_writev h)" "vm_ok (h_readv h)" and rd: "bcast_ready j B s"
  shows "bcast_run h us j s k 0 m \<Longrightarrow> \<forall>r < b_n j. bm_pc m r \<noteq> B_reused \<Longrightarrow>
    \<exists>k' m'. bcast_run h us j s k' 0 m' \<and> (\<forall>r < b_n j. \<exists>ret. bm_pc m' r = B_returned ret)"
proof (induction "work j m" arbitrary: k m rule: less_induct)
  case less
  show ?case
  proof (cases "\<forall>r < b_n j. \<exists>ret. bm_pc m r = B_returned ret")
    case True
    then show ?thesis using less.prems(1) by blast
  next
    case False
    then obtain r where r: "r < b_n j" "\<And>ret. bm_pc m r \<noteq> B_returned ret" by blast
    obtain E q where inv: "b_inv j (bcast_data j s) B E q m" using run_inv [OF ok vm rd less.prems(1)] by blast
    obtain m' where m': "bcast_step h us j m m'" using progress [OF ok vm inv r] less.prems(2) r(1) by blast
    have "\<forall>x < b_n j. bm_pc m' x \<noteq> B_reused"
      using m' less.prems(2) by (cases rule: bcast_step.cases) auto
    then show ?thesis
      using less.hyps [OF step_work [OF ok vm inv m'] bcast_run.step [OF less.prems(1) m']] by blast
  qed
qed

lemma demo_bcast_ready: "bcast_ready demo_bcast {#} (demo_cworld 3 m)"
proof -
  have "b_n demo_bcast = 3" "b_ticket demo_bcast = 0" by (simp_all add: demo_bcast_def)
  moreover have "\<not> pr_asleep (w_procs (cw_world (demo_cworld 3 m)) r)" for r
    by (simp add: demo_cworld_def demo_world_def new_process_def)
  ultimately show ?thesis using demo_cworld_start [of 3 m] by (simp add: bcast_ready_def)
qed

lemma demo_vm: "vm_ok (h_writev demo_host)" "vm_ok (h_readv demo_host)"
  by (simp_all add: demo_host_def vm_ok_copy)


lemma demo_bcast_done:
  obtains k m where "bcast_run demo_host (demo_ranks 3) demo_bcast (demo_cworld 3 demo_mem) k 0 m"
    "\<forall>r < 3. \<exists>ret. bm_pc m r = B_returned ret"
proof -
  have "b_n demo_bcast = 3" by (simp add: demo_bcast_def)
  then show thesis
    using run_completes [OF demo_bcast_ok demo_vm demo_bcast_ready bcast_run.start] that by auto
qed

lemma bcast_runs_end_witness:
  "\<exists>k m. bcast_run demo_host (demo_ranks 3) demo_bcast (demo_cworld 3 demo_mem) k 0 m \<and> k \<le> 63 \<and>
     (\<forall>r < 3. bm_pc m r = B_returned MPI_SUCCESS) \<and> slot_free 0 (bm_shared m)"
proof -
  obtain k m where r: "bcast_run demo_host (demo_ranks 3) demo_bcast (demo_cworld 3 demo_mem) k 0 m"
    "\<forall>r < 3. \<exists>ret. bm_pc m r = B_returned ret"
    by (rule demo_bcast_done)
  have b: "b_n demo_bcast = 3" "b_ticket demo_bcast = 0" by (simp_all add: demo_bcast_def)
  have "\<nexists>m'. bcast_step demo_host (demo_ranks 3) demo_bcast m m'"
    using r(2) b(1) by (auto elim!: bcast_step.cases)
  then show ?thesis
    using bcast_runs_end [OF demo_bcast_ok demo_vm demo_bcast_ready r(1)] r b by (intro exI [of _ k] exI [of _ m]) fastforce
qed

lemma bcast_returns_data_witness:
  "\<exists>k m. bcast_run demo_host (demo_ranks 3) demo_bcast (demo_cworld 3 demo_mem) k 0 m \<and>
     (\<forall>r < 3. map (w_mem (bm_world m)) (bcast_locs demo_bcast r) = [0, 0, 7, 0])"
proof -
  obtain k m where r: "bcast_run demo_host (demo_ranks 3) demo_bcast (demo_cworld 3 demo_mem) k 0 m"
    "\<forall>r < 3. \<exists>ret. bm_pc m r = B_returned ret"
    by (rule demo_bcast_done)
  have b: "b_n demo_bcast = 3" "b_root demo_bcast = 1" by (simp_all add: demo_bcast_def)
  have d: "map demo_mem (bcast_locs demo_bcast 1) = [0, 0, 7, 0]" by code_simp
  have "map (w_mem (bm_world m)) (bcast_locs demo_bcast x) = [0, 0, 7, 0]" if x: "x < 3" for x
  proof -
    obtain ret where "bm_pc m x = B_returned ret" using r(2) x by blast
    then show ?thesis
      using bcast_returns_data [OF demo_bcast_ok demo_vm demo_bcast_ready r(1), of x] x d
      unfolding b demo_cworld_start(2) by simp
  qed
  with r(1) show ?thesis by blast
qed


end
