(* ===== verification/Reduction.thy ===== *)
theory Reduction
  imports Reduce_Ops Typed_Copy
begin

text \<open>
  What a reduction computes. \<open>vec_apply\<close> is the element-wise operation on the bytes of two vectors
  that \<open>apply_loop\<close> implements; \<open>fold_ranks\<close> combines the vectors of several ranks in an order. The
  locale \<open>comm_reduction\<close> states when the order does not matter; it holds for the predefined
  operations on the integer types, except where an overflow is undefined.
\<close>

section \<open>Vectors\<close>

fun vec_apply :: "(byte list \<Rightarrow> byte list \<Rightarrow> byte list option) \<Rightarrow> nat \<Rightarrow> nat \<Rightarrow> byte list \<Rightarrow> byte list \<Rightarrow> byte list option" where
  "vec_apply f sz 0 xs ys = Some []"
| "vec_apply f sz (Suc n) xs ys =
     (case f (take sz xs) (take sz ys) of
        None \<Rightarrow> None
      | Some z \<Rightarrow> map_option (\<lambda>zs. z @ zs) (vec_apply f sz n (drop sz xs) (drop sz ys)))"

definition keeps_size :: "(byte list \<Rightarrow> byte list \<Rightarrow> byte list option) \<Rightarrow> nat \<Rightarrow> bool" where
  "keeps_size f sz \<longleftrightarrow> (\<forall>x y z. length x = sz \<longrightarrow> length y = sz \<longrightarrow> f x y = Some z \<longrightarrow> length z = sz)"

definition vec_locs :: "loc \<Rightarrow> nat \<Rightarrow> nat \<Rightarrow> nat \<Rightarrow> loc list" where
  "vec_locs l sz i n = loc_range (elem_loc l sz i) (n * sz)"

lemma vec_locs_Suc: "vec_locs l sz i (Suc n) = loc_range (elem_loc l sz i) sz @ vec_locs l sz (Suc i) n"
  by (simp add: vec_locs_def loc_range_append elem_loc_def algebra_simps)

lemma length_vec_locs [simp]: "length (vec_locs l sz i n) = n * sz"
  by (simp add: vec_locs_def)

lemma distinct_vec_locs [simp]: "distinct (vec_locs l sz i n)"
  by (auto simp: vec_locs_def loc_range_def distinct_map inj_on_def)

lemma apply_loop_vec:
  assumes "keeps_size f sz"
  shows "set (vec_locs a sz i n) \<inter> set (vec_locs b sz i n) = {} \<Longrightarrow>
    vec_apply f sz n (map m (vec_locs a sz i n)) (map m (vec_locs b sz i n)) = Some zs \<Longrightarrow>
    \<exists>m'. apply_loop f sz a b i n m = Ret m' \<and> map m' (vec_locs b sz i n) = zs \<and>
      (\<forall>l. l \<notin> set (vec_locs b sz i n) \<longrightarrow> m' l = m l)"
proof (induction n arbitrary: i m zs)
  case (Suc n)
  let ?A = "loc_range (elem_loc a sz i) sz" and ?B = "loc_range (elem_loc b sz i) sz"
  let ?As = "vec_locs a sz (Suc i) n" and ?Bs = "vec_locs b sz (Suc i) n"
  have spl: "vec_locs a sz i (Suc n) = ?A @ ?As" "vec_locs b sz i (Suc n) = ?B @ ?Bs" by (rule vec_locs_Suc)+
  have "distinct (?B @ ?Bs)" unfolding spl [symmetric] by simp
  then have d: "distinct ?B" "set ?B \<inter> set ?Bs = {}" by simp_all
  have dj: "set ?As \<inter> set ?B = {}" "set ?As \<inter> set ?Bs = {}" using Suc.prems(1) unfolding spl by auto
  obtain z zs' where z: "f (map m ?A) (map m ?B) = Some z" "vec_apply f sz n (map m ?As) (map m ?Bs) = Some zs'"
    "zs = z @ zs'"
    using Suc.prems(2) unfolding spl by (auto split: option.splits)
  have lz: "length z = sz" using assms z(1) unfolding keeps_size_def by (metis length_loc_range length_map)
  let ?m = "write_locs m ?B z"
  have "map ?m ?As = map m ?As" "map ?m ?Bs = map m ?Bs"
    using dj d by (auto intro!: map_cong write_locs_other)
  then have "vec_apply f sz n (map ?m ?As) (map ?m ?Bs) = Some zs'" using z(2) by (simp only:)
  then obtain m' where m': "apply_loop f sz a b (Suc i) n ?m = Ret m'" "map m' ?Bs = zs'"
    "\<forall>l. l \<notin> set ?Bs \<longrightarrow> m' l = ?m l"
    using Suc.IH [OF dj(2), of ?m zs'] by blast
  have "map m' ?B = map ?m ?B" using m'(3) d(2) by (intro map_cong refl) blast
  also have "\<dots> = z" by (rule write_locs_read [OF d(1)]) (simp add: lz)
  finally have "map m' (?B @ ?Bs) = zs" using m'(2) z(3) by simp
  moreover have "m' l = m l" if "l \<notin> set (?B @ ?Bs)" for l
  proof -
    have "l \<notin> set ?Bs" "l \<notin> set ?B" using that by simp_all
    then show ?thesis using m'(3) write_locs_other [of l ?B m z] by (metis (no_types))
  qed
  moreover have "apply_loop f sz a b i (Suc n) m = Ret m'" using z(1) m'(1) by (simp add: load_def)
  ultimately show ?case unfolding spl by blast
qed (simp add: vec_locs_def)

section \<open>Folding over the ranks\<close>

definition combine :: "('a \<Rightarrow> 'a \<Rightarrow> 'a option) \<Rightarrow> 'a option \<Rightarrow> 'a \<Rightarrow> 'a option" where
  "combine F acc x = Option.bind acc (F x)"

text \<open>The vector of the first rank, then the others as first operand, one after the other.\<close>

fun fold_ranks :: "('a \<Rightarrow> 'a \<Rightarrow> 'a option) \<Rightarrow> ('r \<Rightarrow> 'a) \<Rightarrow> 'r list \<Rightarrow> 'a option" where
  "fold_ranks F d [] = None"
| "fold_ranks F d (r # rs) = foldl (combine F) (Some (d r)) (map d rs)"

lemma fold_ranks_snoc: "rs \<noteq> [] \<Longrightarrow> fold_ranks F d (rs @ [r]) = combine F (fold_ranks F d rs) (d r)"
  by (cases rs) simp_all

section \<open>When the order does not matter\<close>

locale comm_reduction =
  fixes f :: "'a \<Rightarrow> 'a \<Rightarrow> 'a" and P :: "'a \<Rightarrow> bool"
  assumes closed: "P x \<Longrightarrow> P y \<Longrightarrow> P (f x y)"
    and comm: "P x \<Longrightarrow> P y \<Longrightarrow> f x y = f y x"
    and assoc: "P x \<Longrightarrow> P y \<Longrightarrow> P z \<Longrightarrow> f (f x y) z = f x (f y z)"
begin

fun reduce :: "'a list \<Rightarrow> 'a" where
  "reduce [] = undefined"
| "reduce [x] = x"
| "reduce (x # xs) = f x (reduce xs)"

lemma reduce_P: "xs \<noteq> [] \<Longrightarrow> \<forall>x \<in> set xs. P x \<Longrightarrow> P (reduce xs)"
proof (induction xs rule: reduce.induct)
  case (3 x y ys)
  then have "P x" "P (reduce (y # ys))" by simp_all
  then show ?case using closed by simp
qed simp_all

lemma left_comm: "P x \<Longrightarrow> P y \<Longrightarrow> P z \<Longrightarrow> f x (f y z) = f y (f x z)"
proof -
  assume P: "P x" "P y" "P z"
  have "f x (f y z) = f (f x y) z" using assoc [OF P] by simp
  also have "\<dots> = f (f y x) z" using comm [OF P(1,2)] by simp
  also have "\<dots> = f y (f x z)" by (rule assoc [OF P(2,1,3)])
  finally show ?thesis .
qed

lemma reduce_pull: "z \<in> set xs \<Longrightarrow> \<forall>x \<in> set xs. P x \<Longrightarrow> remove1 z xs \<noteq> [] \<Longrightarrow> reduce xs = f z (reduce (remove1 z xs))"
proof (induction xs rule: reduce.induct)
  case 1
  then show ?case by simp
next
  case (2 x)
  then show ?case by simp
next
  case (3 x y ys)
  show ?case
  proof (cases "x = z")
    case True
    then show ?thesis by simp
  next
    case other: False
    then have z: "z \<in> set (y # ys)" using "3.prems"(1) by simp
    have P: "P x" "P z" "\<forall>v \<in> set (y # ys). P v" using "3.prems"(1,2) by auto
    show ?thesis
    proof (cases "remove1 z (y # ys)")
      case Nil
      then have "y = z \<and> ys = []" by (simp split: if_splits)
      then show ?thesis using comm [OF P(1,2)] other by simp
    next
      case (Cons u us)
      have "set (u # us) \<subseteq> set (y # ys)" using set_remove1_subset [of z "y # ys"] by (simp only: Cons)
      then have "P (reduce (u # us))" using P(3) by (intro reduce_P) auto
      moreover have "reduce (y # ys) = f z (reduce (u # us))" using "3.IH" [OF z P(3)] Cons by simp
      moreover have "remove1 z (x # y # ys) = x # u # us" using Cons other by simp
      ultimately show ?thesis using left_comm [OF P(1,2), of "reduce (u # us)"] by simp
    qed
  qed
qed

lemma reduce_perm: "mset xs = mset ys \<Longrightarrow> \<forall>x \<in> set xs. P x \<Longrightarrow> reduce xs = reduce ys"
proof (induction ys arbitrary: xs rule: reduce.induct)
  case (2 y)
  then have "xs = [y]" by (simp add: mset_single_iff_right)
  then show ?case by simp
next
  case (3 y u us)
  have z: "y \<in> set xs" using "3.prems"(1) by (metis list.set_intros(1) mset_eq_setD)
  have m: "mset (remove1 y xs) = mset (u # us)" using "3.prems"(1) by simp
  then have ne: "remove1 y xs \<noteq> []" by (metis mset_zero_iff_right union_mset_add_mset_right mset.simps(2) add_mset_not_empty)
  have "\<forall>x \<in> set (remove1 y xs). P x" using "3.prems"(2) by (meson notin_set_remove1)
  from "3.IH" [OF m this] have "reduce (remove1 y xs) = reduce (u # us)" .
  then show ?case using reduce_pull [OF z "3.prems"(2) ne] by simp
qed simp

text \<open>A partial operation that is defined and equal to \<open>f\<close> on the values the ranks have.\<close>

lemma foldl_reduce:
  assumes F: "\<And>x y. P x \<Longrightarrow> P y \<Longrightarrow> F x y = Some (f x y)"
  shows "P x \<Longrightarrow> \<forall>y \<in> set ys. P y \<Longrightarrow> foldl (combine F) (Some x) ys = Some (reduce (x # ys))"
proof (induction ys arbitrary: x)
  case (Cons y ys)
  have P: "P y" "\<forall>z \<in> set ys. P z" "P (f y x)" using Cons.prems closed by auto
  have "foldl (combine F) (Some x) (y # ys) = foldl (combine F) (Some (f y x)) ys"
    using F P(1) Cons.prems(1) by (simp add: combine_def)
  also have "\<dots> = Some (reduce (f y x # ys))" using Cons.IH P by blast
  also have "reduce (f y x # ys) = reduce (x # y # ys)"
  proof (cases ys)
    case Nil
    then show ?thesis using comm [OF P(1) Cons.prems(1)] by simp
  next
    case (Cons z zs)
    then have "P (reduce ys)" using P(2) by (intro reduce_P) simp_all
    then have "f (f y x) (reduce ys) = f x (f y (reduce ys))"
      using comm [OF P(1) Cons.prems(1)] assoc [OF Cons.prems(1) P(1)] by simp
    then show ?thesis using local.Cons by simp
  qed
  finally show ?case .
qed simp

lemma fold_ranks_perm:
  assumes F: "\<And>x y. P x \<Longrightarrow> P y \<Longrightarrow> F x y = Some (f x y)"
    and "mset rs = mset rs'" "rs \<noteq> []" "\<forall>r \<in> set rs. P (d r)"
  shows "fold_ranks F d rs = fold_ranks F d rs' \<and> (\<exists>v. fold_ranks F d rs = Some v \<and> P v)"
proof -
  have t: "fold_ranks F d xs = Some (reduce (map d xs))" if "xs \<noteq> []" "\<forall>r \<in> set xs. P (d r)" for xs
    using that foldl_reduce [OF F] by (cases xs) auto
  have s: "set rs' = set rs" "rs' \<noteq> []" using assms(2,3) by (metis mset_eq_setD) (use assms(2,3) in auto)
  have "mset (map d rs) = mset (map d rs')" using assms(2) by simp
  then have "reduce (map d rs) = reduce (map d rs')" using assms(4) by (intro reduce_perm) auto
  moreover have "P (reduce (map d rs))" using assms(3,4) by (intro reduce_P) auto
  ultimately show ?thesis using t [OF assms(3,4)] t [OF s(2)] assms(4) s(1) by simp
qed

end

text \<open>Vectors of elements that fit are combined element by element.\<close>

locale elem_reduction = comm_reduction f "\<lambda>x. length x = sz" for f :: "byte list \<Rightarrow> byte list \<Rightarrow> byte list" and sz :: nat
begin

fun vec :: "nat \<Rightarrow> byte list \<Rightarrow> byte list \<Rightarrow> byte list" where
  "vec 0 xs ys = []"
| "vec (Suc n) xs ys = f (take sz xs) (take sz ys) @ vec n (drop sz xs) (drop sz ys)"

lemma length_vec: "length xs = n * sz \<Longrightarrow> length ys = n * sz \<Longrightarrow> length (vec n xs ys) = n * sz"
  by (induction n arbitrary: xs ys) (simp_all add: closed)

lemma vec_apply_vec:
  assumes "\<And>x y. length x = sz \<Longrightarrow> length y = sz \<Longrightarrow> F x y = Some (f x y)"
  shows "length xs = n * sz \<Longrightarrow> length ys = n * sz \<Longrightarrow> vec_apply F sz n xs ys = Some (vec n xs ys)"
  by (induction n arbitrary: xs ys) (simp_all add: assms)

lemma vec_comm: "length xs = n * sz \<Longrightarrow> length ys = n * sz \<Longrightarrow> vec n xs ys = vec n ys xs"
proof (induction n arbitrary: xs ys)
  case (Suc n)
  then show ?case using comm [of "take sz xs" "take sz ys"] by simp
qed simp

lemma vec_assoc:
  "length xs = n * sz \<Longrightarrow> length ys = n * sz \<Longrightarrow> length zs = n * sz \<Longrightarrow> vec n (vec n xs ys) zs = vec n xs (vec n ys zs)"
proof (induction n arbitrary: xs ys zs)
  case (Suc n)
  have l: "length (f (take sz xs) (take sz ys)) = sz" "length (f (take sz ys) (take sz zs)) = sz"
    using Suc.prems by (auto intro!: closed)
  show ?case using Suc assoc [of "take sz xs" "take sz ys" "take sz zs"] l by simp
qed simp

end

sublocale elem_reduction \<subseteq> vecs: comm_reduction "vec n" "\<lambda>xs. length xs = n * sz" for n
  by unfold_locales (rule length_vec vec_comm vec_assoc; assumption)+

section \<open>The predefined operations\<close>

text \<open>The value of a predefined operation where it is defined.\<close>

definition value_op :: "op_kind \<Rightarrow> int_type \<Rightarrow> int \<Rightarrow> int \<Rightarrow> int" where
  "value_op k t a b =
     (case k of Op_max \<Rightarrow> max a b | Op_min \<Rightarrow> min a b | Op_sum \<Rightarrow> wrap t (a + b) | Op_prod \<Rightarrow> wrap t (a * b))"

lemma value_op_in_type: "0 < fst t \<Longrightarrow> in_type t a \<Longrightarrow> in_type t b \<Longrightarrow> in_type t (value_op k t a b)"
  by (cases k) (auto simp: value_op_def in_type_wrap max_def min_def)

lemma value_op_comm: "value_op k t a b = value_op k t b a"
  by (cases k) (auto simp: value_op_def add.commute mult.commute max.commute min.commute)

lemma wrap_add: "wrap t (wrap t a + b) = wrap t (a + b)"
  using mod_add_cong [OF wrap_mod [of t a] refl, of b] by (intro wrap_cong)

lemma wrap_mult: "wrap t (wrap t a * b) = wrap t (a * b)"
  using mod_mult_cong [OF wrap_mod [of t a] refl, of b] by (intro wrap_cong)

lemma value_op_assoc: "value_op k t (value_op k t a b) c = value_op k t a (value_op k t b c)"
proof (cases k)
  case Op_sum
  have "wrap t (a + wrap t (b + c)) = wrap t (wrap t (b + c) + a)" by (simp only: add.commute)
  also have "\<dots> = wrap t (b + c + a)" by (rule wrap_add)
  also have "\<dots> = wrap t (wrap t (a + b) + c)" by (simp only: wrap_add) (simp add: ac_simps)
  finally show ?thesis using Op_sum by (simp add: value_op_def)
next
  case Op_prod
  have "wrap t (a * wrap t (b * c)) = wrap t (wrap t (b * c) * a)" by (simp only: mult.commute)
  also have "\<dots> = wrap t (b * c * a)" by (rule wrap_mult)
  also have "\<dots> = wrap t (wrap t (a * b) * c)" by (simp only: wrap_mult) (simp add: ac_simps)
  finally show ?thesis using Op_prod by (simp add: value_op_def)
qed (simp_all add: value_op_def max.assoc min.assoc)

text \<open>On bytes, for the type of \<open>Suc (fst t)\<close> bytes: a type has at least one.\<close>

definition byte_op :: "op_kind \<Rightarrow> nat \<times> bool \<Rightarrow> byte list \<Rightarrow> byte list \<Rightarrow> byte list" where
  "byte_op k t x y =
     (let t' = (Suc (fst t), snd t) in encode_int t' (value_op k t' (decode_int t' x) (decode_int t' y)))"

lemma in_type_decode: "0 < fst t \<Longrightarrow> in_type t (decode_int t x)"
  by (simp add: decode_int_def in_type_wrap)

interpretation ints: elem_reduction "byte_op k t" "Suc (fst t)" for k t
proof
  fix x y z :: "byte list"
  let ?t = "(Suc (fst t), snd t)"
  show "length (byte_op k t x y) = Suc (fst t)" by (simp add: byte_op_def Let_def encode_int_def)
  show "byte_op k t x y = byte_op k t y x" by (simp add: byte_op_def value_op_comm Let_def)
  have in': "in_type ?t (value_op k ?t (decode_int ?t u) (decode_int ?t v))" for u v
    by (intro value_op_in_type in_type_decode) simp_all
  show "byte_op k t (byte_op k t x y) z = byte_op k t x (byte_op k t y z)"
    using in' by (simp add: byte_op_def Let_def decode_encode value_op_assoc)
qed

text \<open>The operations whose result is always defined.\<close>

definition always_defined :: "op_kind \<Rightarrow> int_type \<Rightarrow> bool" where
  "always_defined k t \<longleftrightarrow> k = Op_max \<or> k = Op_min \<or> \<not> snd t \<and> (4 \<le> fst t \<or> k = Op_sum \<or> fst t = 1)"

lemma int_types: "int_type_of i = Some t \<Longrightarrow> fst t \<in> {1, 2, 4, 8}"
  by (cases i) auto

lemma decode_range: "\<not> snd t \<Longrightarrow> 0 < fst t \<Longrightarrow> 0 \<le> decode_int t x \<and> decode_int t x < type_mod t"
  using in_type_decode [of t x] by (simp add: in_type_def)

lemma mult_bounds: "0 \<le> a \<Longrightarrow> a < m \<Longrightarrow> 0 \<le> b \<Longrightarrow> b < m \<Longrightarrow> 0 \<le> a * b \<and> a * b < m * (m :: int)"
  by (simp add: mult_strict_mono)

lemma small_int: "0 \<le> v \<Longrightarrow> v < 2147483648 \<Longrightarrow> in_type (4, True) v"
  by (simp add: in_type_def type_mod_def)

lemma int_op_defined:
  assumes t: "fst t \<in> {1, 2, 4, 8}" and def: "always_defined k t"
  shows "int_op k t (decode_int t x) (decode_int t y) = Some (value_op k t (decode_int t x) (decode_int t y))"
proof -
  let ?a = "decode_int t x" and ?b = "decode_int t y"
  have pos: "0 < fst t" using t by auto
  consider "k = Op_max" | "k = Op_min" | "k = Op_sum \<or> k = Op_prod" "\<not> snd t" by (cases k) (use def in \<open>auto simp: always_defined_def\<close>)
  then show ?thesis
  proof cases
    case 3
    let ?v = "if k = Op_sum then ?a + ?b else ?a * ?b"
    have op: "value_op k t ?a ?b = wrap t ?v" using 3(1) by (auto simp: value_op_def)
    have io: "int_op k t ?a ?b = (let at = arith_type t in if snd at \<and> \<not> in_type at ?v then None else Some (wrap t (wrap at ?v)))"
      using 3(1) by (auto simp: int_op_def Let_def)
    show ?thesis
    proof (cases "4 \<le> fst t")
      case True
      then show ?thesis using 3(2) by (simp add: io op arith_type_def Let_def wrap_wrap)
    next
      case False
      note r = decode_range [OF 3(2) pos, of x] decode_range [OF 3(2) pos, of y]
      have "in_type (4, True) ?v"
      proof (cases "k = Op_sum")
        case True
        have "type_mod t \<le> 65536" using False t by (auto simp: type_mod_def)
        then show ?thesis using True r by (auto simp: in_type_def type_mod_def)
      next
        case prod: False
        then have "fst t = 1" using def 3 False by (auto simp: always_defined_def)
        then have "type_mod t = 256" by (simp add: type_mod_def)
        then have "0 \<le> ?a * ?b \<and> ?a * ?b < 256 * 256" using r by (intro mult_bounds) simp_all
        then have "in_type (4, True) (?a * ?b)" by (intro small_int) auto
        then show ?thesis using prod by simp
      qed
      then show ?thesis using False by (simp add: io op arith_type_def Let_def wrap_id)
    qed
  qed (auto simp: int_op_def value_op_def)
qed

lemma elem_op_defined:
  assumes "int_type_of i = Some t" "always_defined k t"
  shows "elem_op fop k i x y = Some (byte_op k (fst t - 1, snd t) x y)"
proof -
  have "fst t \<in> {1, 2, 4, 8}" by (rule int_types [OF assms(1)])
  then have "(Suc (fst t - 1), snd t) = t" by (cases t) auto
  then show ?thesis
    using int_op_defined [OF int_types [OF assms(1)] assms(2)] assms(1) by (simp add: elem_op_def byte_op_def Let_def)
qed

lemma elem_op_keeps_size: "int_type_of i = Some t \<Longrightarrow> keeps_size (elem_op fop k i) (fst t)"
  by (auto simp: keeps_size_def elem_op_def encode_int_def)

text \<open>The vectors of any set of ranks, in two orders.\<close>

lemma fold_order_free:
  assumes i: "int_type_of i = Some t" "always_defined k t"
    and rs: "mset rs = mset rs'" "rs \<noteq> []" "\<forall>r \<in> set rs. length (d r) = n * fst t"
  shows "fold_ranks (vec_apply (elem_op fop k i) (fst t) n) d rs = fold_ranks (vec_apply (elem_op fop k i) (fst t) n) d rs' \<and>
    (\<exists>v. fold_ranks (vec_apply (elem_op fop k i) (fst t) n) d rs = Some v \<and> length v = n * fst t)"
proof -
  let ?t = "(fst t - 1, snd t)"
  have sz: "Suc (fst ?t) = fst t" using int_types [OF i(1)] by auto
  have F: "vec_apply (elem_op fop k i) (fst t) n x y = Some (elem_reduction.vec (byte_op k ?t) (fst t) n x y)"
    if "length x = n * fst t" "length y = n * fst t" for x y
    using that ints.vec_apply_vec [of ?t "elem_op fop k i" k x n y, unfolded sz] elem_op_defined [OF i] by simp
  show ?thesis
    using ints.vecs.fold_ranks_perm [of n ?t "vec_apply (elem_op fop k i) (fst t) n" k rs rs' d, unfolded sz] F rs by blast
qed

end
