(* ===== verification/Allreduce.thy ===== *)
theory Allreduce
  imports Slot_Protocol Reduction
begin

text \<open>
  \<^verbatim>\<open>MPI_Iallreduce\<close> with separate buffers, called by all ranks in any order of arrival: the vectors
  are combined in that order, every rank ends up with the result, and for the predefined operations on
  integer types that are always defined the order is of no consequence.
\<close>

section \<open>The calls of all ranks\<close>

record allreduce_job =
  a_n :: nat
  a_ticket :: "32 word"
  a_send :: "nat \<Rightarrow> int"
  a_recv :: "nat \<Rightarrow> int"
  a_cnt :: int
  a_type :: iovecs
  a_op :: op

definition iallreduce_of :: "host \<Rightarrow> (nat \<Rightarrow> umpi) \<Rightarrow> allreduce_job \<Rightarrow> nat \<Rightarrow> cworld \<Rightarrow> call" where
  "iallreduce_of h us j r = MPI_Iallreduce h (Some (us r)) (a_send j r) (a_recv j r) (a_cnt j) (Some (a_type j)) (Some (a_op j)) MPI_COMM_WORLD"

definition send_locs :: "allreduce_job \<Rightarrow> nat \<Rightarrow> loc list" where
  "send_locs j r = payload (Priv r, a_send j r) (a_type j) 0 (a_cnt j)"

definition recv_locs :: "allreduce_job \<Rightarrow> nat \<Rightarrow> loc list" where
  "recv_locs j r = payload (Priv r, a_recv j r) (a_type j) 0 (a_cnt j)"

text \<open>An operation that combines two vectors with \<open>F\<close> where \<open>F\<close> is defined, and writes nothing else.\<close>

definition op_computes :: "host \<Rightarrow> op \<Rightarrow> int \<Rightarrow> iovecs \<Rightarrow> (byte list \<Rightarrow> byte list \<Rightarrow> byte list option) \<Rightarrow> bool" where
  "op_computes h p cnt ty F \<longleftrightarrow> (\<forall>m a b z.
     separate (payload a ty 0 cnt) (payload b ty 0 cnt) \<longrightarrow>
     F (map m (payload a ty 0 cnt)) (map m (payload b ty 0 cnt)) = Some z \<longrightarrow>
     (\<exists>m'. op_call (h_float h) p a b cnt ty m = Ret m' \<and> map m' (payload b ty 0 cnt) = z \<and>
        (\<forall>l. l \<notin> set (payload b ty 0 cnt) \<longrightarrow> m' l = m l)))"

definition allreduce_job_ok :: "host \<Rightarrow> allreduce_job \<Rightarrow> (nat \<Rightarrow> umpi) \<Rightarrow> bool" where
  "allreduce_job_ok h j us \<longleftrightarrow> 2 \<le> a_n j \<and> same_call (a_n j) us (a_ticket j) \<and> whole_buf (a_type j) (a_cnt j) \<and>
     (\<forall>r < a_n j. a_send j r \<noteq> h_in_place h \<and> (a_send j r = 0 \<or> a_recv j r = 0 \<longrightarrow> a_cnt j = 0) \<and>
        separate (send_locs j r) (recv_locs j r))"

abbreviation a_slot :: "allreduce_job \<Rightarrow> cworld \<Rightarrow> collect" where
  "a_slot j s \<equiv> cw_slots s (slot_of (a_ticket j))"

abbreviation a_offers :: "allreduce_job \<Rightarrow> world \<Rightarrow> cid \<Rightarrow> nat \<Rightarrow> int \<Rightarrow> bool" where
  "a_offers j w c r busy \<equiv> offers w c r (a_recv j r) (a_type j) (a_cnt j) busy"

section \<open>The state between two calls\<close>

text \<open>What the ranks \<open>ds\<close> have contributed so far is in the receive buffer of the last of them.\<close>

definition partial_result :: "allreduce_job \<Rightarrow> mem \<Rightarrow> byte list option \<Rightarrow> nat list \<Rightarrow> (nat \<Rightarrow> cid) \<Rightarrow> cworld \<Rightarrow> bool" where
  "partial_result j m0 v ds q s \<longleftrightarrow> k_box (a_slot j s) = map q ds \<and>
     (\<forall>r \<in> set ds. a_offers j (cw_world s) (q r) r (if r = last ds then 2 else 1)) \<and>
     (ds \<noteq> [] \<longrightarrow> v = Some (map (w_mem (cw_world s)) (recv_locs j (last ds))))"

definition everyone_has :: "allreduce_job \<Rightarrow> byte list option \<Rightarrow> nat list \<Rightarrow> (nat \<Rightarrow> cid) \<Rightarrow> cworld \<Rightarrow> bool" where
  "everyone_has j v ds q s \<longleftrightarrow> k_box (a_slot j s) = [] \<and>
     (\<forall>r \<in> set ds. v = Some (map (w_mem (cw_world s)) (recv_locs j r)) \<and> finished (cw_world s) (q r))"

definition allreduce_inv ::
  "allreduce_job \<Rightarrow> (byte list \<Rightarrow> byte list \<Rightarrow> byte list option) \<Rightarrow> mem \<Rightarrow> cid multiset \<Rightarrow> nat list \<Rightarrow> (nat \<Rightarrow> cid) \<Rightarrow> cworld \<Rightarrow> bool" where
  "allreduce_inv j F m0 B ds q s \<longleftrightarrow> slot_frame (a_n j) (a_ticket j) B ds s \<and>
     (\<forall>l. (\<forall>r < a_n j. l \<notin> set (recv_locs j r)) \<longrightarrow> w_mem (cw_world s) l = m0 l) \<and>
     (let v = fold_ranks F (\<lambda>r. map m0 (send_locs j r)) ds
      in if length ds < a_n j then partial_result j m0 v ds q s else everyone_has j v ds q s)"

lemma job_bufs:
  assumes "allreduce_job_ok h j us" "r < a_n j"
  shows "separate (send_locs j r) (recv_locs j r)" "length (send_locs j r) = length (recv_locs j r)"
    "whole_buf (a_type j) (a_cnt j)" "distinct (recv_locs j r)" "typed_buf (a_type j) 0 (a_cnt j)"
  using assms by (auto simp: allreduce_job_ok_def separate_def send_locs_def recv_locs_def length_data whole_buf_def)

lemma recv_apart: "r \<noteq> r' \<Longrightarrow> set (recv_locs j r) \<inter> set (recv_locs j r') = {}"
  unfolding recv_locs_def by (rule data_locs_apart)

lemma send_apart: "r \<noteq> r' \<Longrightarrow> set (send_locs j r) \<inter> set (recv_locs j r') = {}"
  unfolding recv_locs_def send_locs_def by (rule data_locs_apart)

text \<open>The send buffers keep their contents.\<close>

lemma send_data:
  assumes ok: "allreduce_job_ok h j us" and r: "r < a_n j"
    and m: "\<forall>l. (\<forall>r < a_n j. l \<notin> set (recv_locs j r)) \<longrightarrow> m l = m0 l"
  shows "map m (send_locs j r) = map m0 (send_locs j r)"
proof (intro map_cong refl)
  fix l assume l: "l \<in> set (send_locs j r)"
  have "l \<notin> set (recv_locs j r')" if "r' < a_n j" for r'
    using l job_bufs(1) [OF ok r] send_apart [of r r' j] by (cases "r' = r") (auto simp: separate_def)
  then show "m l = m0 l" using m by blast
qed

section \<open>Combining\<close>

text \<open>Steps that change nothing but the memory at \<open>L\<close>: copies between vectors of the same type, and the operation.\<close>

definition only_writes :: "loc set \<Rightarrow> world \<Rightarrow> world \<Rightarrow> bool" where
  "only_writes L w w' \<longleftrightarrow> w' = w\<lparr>w_mem := w_mem w'\<rparr> \<and> (\<forall>l. l \<notin> L \<longrightarrow> w_mem w' l = w_mem w l)"

lemma only_writesD:
  assumes "only_writes L w w'"
  shows "same_boxes w w'" "w_cookies w' = w_cookies w" "l \<notin> L \<Longrightarrow> w_mem w' l = w_mem w l"
proof -
  have w': "w' = w\<lparr>w_mem := w_mem w'\<rparr>" using assms by (simp add: only_writes_def)
  show "same_boxes w w'" "w_cookies w' = w_cookies w" by (subst w', simp add: same_boxes_mem)+
  show "l \<notin> L \<Longrightarrow> w_mem w' l = w_mem w l" using assms unfolding only_writes_def by blast
qed

lemma only_writes_trans: "only_writes L w w1 \<Longrightarrow> only_writes L' w1 w2 \<Longrightarrow> only_writes (L \<union> L') w w2"
proof -
  assume a: "only_writes L w w1" "only_writes L' w1 w2"
  have "w2 = w1\<lparr>w_mem := w_mem w2\<rparr>" "w1 = w\<lparr>w_mem := w_mem w1\<rparr>" using a by (simp_all add: only_writes_def)
  then have "w2 = w\<lparr>w_mem := w_mem w2\<rparr>" by (cases w, cases w1) simp
  moreover have "w_mem w2 l = w_mem w l" if "l \<notin> L \<union> L'" for l using that only_writesD(3) [OF a(1)] only_writesD(3) [OF a(2)] by simp
  ultimately show ?thesis unfolding only_writes_def by blast
qed

lemma only_writes_map: "only_writes L w w' \<Longrightarrow> set ls \<inter> L = {} \<Longrightarrow> map (w_mem w') ls = map (w_mem w) ls"
  by (intro map_cong refl only_writesD(3)) auto

lemma copy_whole:
  assumes vm: "vm_ok (h_writev h)" and b: "typed_buf ty 0 cnt" and sep: "separate (payload x ty 0 cnt) (payload y ty 0 cnt)"
  obtains w where "copy_in h u x ty cnt 0 y ty cnt 0 s = set_world w s" "only_writes (set (payload y ty 0 cnt)) (cw_world s) w"
    "map (w_mem w) (payload y ty 0 cnt) = map (w_mem (cw_world s)) (payload x ty 0 cnt)"
proof -
  let ?m = "moved (w_mem (cw_world s)) (payload x ty 0 cnt) (payload y ty 0 cnt)"
  have "length (payload x ty 0 cnt) = length (payload y ty 0 cnt)" using typed_bufD [OF b] by (simp add: length_payload_bytes)
  note mv = moved_whole [OF sep this]
  have "copy_in h u x ty cnt 0 y ty cnt 0 s = set_world ((cw_world s)\<lparr>w_mem := ?m\<rparr>) s"
    using umpi_copy_eq [OF vm b b] sep by (simp add: copy_in_def)
  then show thesis by (rule that) (use mv in \<open>simp_all add: only_writes_def\<close>)
qed

lemma reduce_whole:
  assumes opc: "op_computes h p cnt ty F" and sep: "separate (payload x ty 0 cnt) (payload y ty 0 cnt)"
    and v: "F (map (w_mem w) (payload x ty 0 cnt)) (map (w_mem w) (payload y ty 0 cnt)) = Some z"
  obtains w' where "reduce_with h p x y cnt ty w = Ret w'" "only_writes (set (payload y ty 0 cnt)) w w'"
    "map (w_mem w') (payload y ty 0 cnt) = z"
proof -
  obtain m where m: "op_call (h_float h) p x y cnt ty (w_mem w) = Ret m" "map m (payload y ty 0 cnt) = z"
    "\<forall>l. l \<notin> set (payload y ty 0 cnt) \<longrightarrow> m l = w_mem w l"
    using opc sep v unfolding op_computes_def by metis
  then show thesis by (intro that [of "w\<lparr>w_mem := m\<rparr>"]) (simp_all add: reduce_with_def only_writes_def)
qed

text \<open>The first rank copies its vector; each later one reads the partial result and applies the operation.\<close>

lemma combine_first:
  assumes ok: "allreduce_job_ok h j us" and vm: "vm_ok (h_writev h)" and r: "r < a_n j" and u: "u_rank u = r"
    and k: "k_joined (cw_slots s i) = 1"
  shows "\<exists>w2. allreduce_combine h u i (a_send j r) (a_recv j r) (a_cnt j) (a_type j) (a_op j) s = Ret (set_world w2 s, MPI_SUCCESS) \<and>
    same_boxes (cw_world s) w2 \<and> w_cookies w2 = w_cookies (cw_world s) \<and>
    map (w_mem w2) (recv_locs j r) = map (w_mem (cw_world s)) (send_locs j r) \<and>
    (\<forall>l. l \<notin> set (recv_locs j r) \<longrightarrow> w_mem w2 l = w_mem (cw_world s) l)"
proof -
  note b = job_bufs [OF ok r]
  obtain w2 where "copy_in h u (Priv r, a_send j r) (a_type j) (a_cnt j) 0 (Priv r, a_recv j r) (a_type j) (a_cnt j) 0 s = set_world w2 s"
    "only_writes (set (recv_locs j r)) (cw_world s) w2"
    "map (w_mem w2) (recv_locs j r) = map (w_mem (cw_world s)) (send_locs j r)"
    using copy_whole [OF vm b(5) b(1) [unfolded send_locs_def recv_locs_def]] unfolding send_locs_def recv_locs_def by blast
  then show ?thesis
    using ok r u k only_writesD
    by (intro exI [of _ w2]) (simp add: allreduce_combine_def joined_first_def allreduce_job_ok_def Let_def)
qed

lemma combine_next:
  assumes ok: "allreduce_job_ok h j us" and vm: "vm_ok (h_readv h)" and r: "r < a_n j" and u: "u_rank u = r"
    and k: "k_joined (cw_slots s i) \<noteq> 1" "k_box (cw_slots s i) \<noteq> []" and p: "last (k_box (cw_slots s i)) = c" "d \<noteq> r"
    and of': "a_offers j (cw_world s) c d 2" and opc: "op_computes h (a_op j) (a_cnt j) (a_type j) F"
    and v: "F (map (w_mem (cw_world s)) (send_locs j r)) (map (w_mem (cw_world s)) (recv_locs j d)) = Some v"
  shows "\<exists>w2. allreduce_combine h u i (a_send j r) (a_recv j r) (a_cnt j) (a_type j) (a_op j) s = Ret (set_world w2 s, MPI_SUCCESS) \<and>
    same_boxes (cw_world s) w2 \<and> a_offers j w2 c d 1 \<and> (\<forall>e. e \<noteq> c \<longrightarrow> w_cookies w2 e = w_cookies (cw_world s) e) \<and>
    map (w_mem w2) (recv_locs j r) = v \<and> (\<forall>l. l \<notin> set (recv_locs j r) \<longrightarrow> w_mem w2 l = w_mem (cw_world s) l)"
proof -
  note b = job_bufs [OF ok r]
  let ?w = "cw_world s" and ?D = "recv_locs j d" and ?R = "recv_locs j r" and ?S = "send_locs j r"
  have sepD: "separate ?D ?R" using recv_apart [OF p(2)] b(4) by (simp add: separate_def)
  have ln: "length ?D = length ?R" using b(3) by (simp add: recv_locs_def length_data)
  obtain w1 where w1: "read_from_owner (h_readv h) c (Priv r, a_recv j r) (a_type j) (a_cnt j) (a_cnt j) 0 0 ?w = Ret (w1, MPI_SUCCESS)"
    "same_boxes ?w w1" "w_mem w1 = moved (w_mem ?w) ?D ?R" "a_offers j w1 c d (2 - 1)" "\<forall>e. e \<noteq> c \<longrightarrow> w_cookies w1 e = w_cookies ?w e"
    using read_same [OF vm b(3) of', of "a_cnt j" "(Priv r, a_recv j r)"] sepD by (auto simp: recv_locs_def)
  have m1: "map (w_mem w1) ?R = map (w_mem ?w) ?D" "map (w_mem w1) ?S = map (w_mem ?w) ?S"
  proof -
    show "map (w_mem w1) ?R = map (w_mem ?w) ?D" unfolding w1(3) by (rule moved_whole(1) [OF sepD ln])
    show "map (w_mem w1) ?S = map (w_mem ?w) ?S"
      unfolding w1(3) using b(1) by (intro map_cong refl moved_whole(2) [OF sepD ln]) (auto simp: separate_def)
  qed
  obtain w2 where w2: "reduce_with h (a_op j) (Priv r, a_send j r) (Priv r, a_recv j r) (a_cnt j) (a_type j) w1 = Ret w2"
    "only_writes (set ?R) w1 w2" "map (w_mem w2) ?R = v"
    using reduce_whole [OF opc b(1) [unfolded send_locs_def recv_locs_def], of w1 v] v m1 unfolding send_locs_def recv_locs_def by metis
  have "allreduce_combine h u i (a_send j r) (a_recv j r) (a_cnt j) (a_type j) (a_op j) s = Ret (set_world w2 s, MPI_SUCCESS)"
    using ok r u k p(1) w1(1) w2(1)
    by (simp add: allreduce_combine_def joined_first_def allreduce_job_ok_def Let_def in_world_def mpi_consts)
  moreover have "w_mem w2 l = w_mem ?w l" if "l \<notin> set ?R" for l
  proof -
    have "w_mem w2 l = w_mem w1 l" by (rule only_writesD(3) [OF w2(2) that])
    also have "\<dots> = w_mem ?w l" unfolding w1(3) by (rule moved_whole(2) [OF sepD ln that])
    finally show ?thesis .
  qed
  ultimately show ?thesis
    using w1(4,5) w2(3) only_writesD(1,2) [OF w2(2)] same_boxes_trans [OF w1(2)] offers_cong [of w2 c w1]
    by (intro exI [of _ w2]) simp
qed

text \<open>Either way: the caller's receive buffer holds the result of all who have called.\<close>

lemma combined:
  assumes ok: "allreduce_job_ok h j us" and vm: "vm_ok (h_writev h)" "vm_ok (h_readv h)"
    and opc: "op_computes h (a_op j) (a_cnt j) (a_type j) F"
    and inv: "allreduce_inv j F m0 B ds q s" and r: "r < a_n j" "r \<notin> set ds" and u: "u_rank u = r"
    and v: "fold_ranks F (\<lambda>r. map m0 (send_locs j r)) (ds @ [r]) = Some v"
  shows "\<exists>w2. allreduce_combine h u (slot_of (a_ticket j)) (a_send j r) (a_recv j r) (a_cnt j) (a_type j) (a_op j)
        (entered (a_ticket j) (length ds) s) = Ret (set_world w2 (entered (a_ticket j) (length ds) s), MPI_SUCCESS) \<and>
    same_boxes (cw_world s) w2 \<and> (\<forall>r' \<in> set ds. a_offers j w2 (q r') r' 1) \<and> map (w_mem w2) (recv_locs j r) = v \<and>
    (\<forall>l. l \<notin> set (recv_locs j r) \<longrightarrow> w_mem w2 l = w_mem (cw_world s) l)"
proof -
  let ?s1 = "entered (a_ticket j) (length ds) s" and ?w = "cw_world s" and ?i = "slot_of (a_ticket j)"
  let ?d = "\<lambda>r. map m0 (send_locs j r)"
  have fr: "slot_frame (a_n j) (a_ticket j) B ds s" and m: "\<forall>l. (\<forall>r < a_n j. l \<notin> set (recv_locs j r)) \<longrightarrow> w_mem ?w l = m0 l"
    using inv unfolding allreduce_inv_def by blast+
  have lt: "length ds < a_n j" by (rule slot_frame_not_all [OF fr r])
  then have pr: "partial_result j m0 (fold_ranks F ?d ds) ds q s" using inv by (simp add: allreduce_inv_def Let_def)
  have snd': "map (w_mem ?w) (send_locs j r) = ?d r" by (rule send_data [OF ok r(1) m])
  show ?thesis
  proof (cases "ds = []")
    case True
    then have v': "v = ?d r" using v by simp
    have "k_joined (cw_slots ?s1 ?i) = 1" using True by simp
    from combine_first [OF ok vm(1) r(1) u this] show ?thesis using True v' snd' by auto
  next
    case False
    have dist: "distinct (map q ds)"
    proof -
      have "box_inv ?w (mset (map q ds) + B)" using fr pr by (simp add: slot_frame_def partial_result_def)
      then show ?thesis using box_inv_distinct by blast
    qed
    let ?last = "last ds"
    have ld: "?last \<in> set ds" using False by simp
    have k: "k_joined (cw_slots ?s1 ?i) \<noteq> 1" "k_box (cw_slots ?s1 ?i) \<noteq> []" "last (k_box (cw_slots ?s1 ?i)) = q ?last"
      using False pr by (simp_all add: partial_result_def last_map)
    have ne: "?last \<noteq> r" using ld r(2) by blast
    have "a_offers j ?w (q ?last) ?last (if ?last = last ds then 2 else 1)" using pr ld unfolding partial_result_def by blast
    then have of': "a_offers j (cw_world ?s1) (q ?last) ?last 2" by simp
    have "fold_ranks F ?d (ds @ [r]) = combine F (fold_ranks F ?d ds) (?d r)" by (rule fold_ranks_snoc [OF False])
    then have "F (?d r) (map (w_mem ?w) (recv_locs j ?last)) = Some v"
      using pr False v by (simp add: partial_result_def combine_def)
    then have F: "F (map (w_mem (cw_world ?s1)) (send_locs j r)) (map (w_mem (cw_world ?s1)) (recv_locs j ?last)) = Some v"
      by (simp only: entered_simps snd')
    obtain w2 where w2: "allreduce_combine h u ?i (a_send j r) (a_recv j r) (a_cnt j) (a_type j) (a_op j) ?s1 = Ret (set_world w2 ?s1, MPI_SUCCESS)"
      "same_boxes ?w w2" "a_offers j w2 (q ?last) ?last 1" "\<forall>e. e \<noteq> q ?last \<longrightarrow> w_cookies w2 e = w_cookies ?w e"
      "map (w_mem w2) (recv_locs j r) = v" "\<forall>l. l \<notin> set (recv_locs j r) \<longrightarrow> w_mem w2 l = w_mem ?w l"
      using combine_next [OF ok vm(2) r(1) u k ne of' opc F] by auto
    have "a_offers j w2 (q r') r' 1" if r': "r' \<in> set ds" for r'
    proof (cases "r' = ?last")
      case other: False
      then have "q r' \<noteq> q ?last" using dist r' ld by (auto simp: distinct_map dest: inj_onD)
      moreover have "a_offers j ?w (q r') r' (if r' = last ds then 2 else 1)"
        using pr r' unfolding partial_result_def by blast
      ultimately show ?thesis using w2(4) offers_cong [of w2 "q r'" ?w] other by simp
    qed (use w2(3) in simp)
    with w2 show ?thesis by blast
  qed
qed

section \<open>One call\<close>

lemma fold_prefix: "ds \<noteq> [] \<Longrightarrow> fold_ranks F d (ds @ rs) \<noteq> None \<Longrightarrow> fold_ranks F d ds \<noteq> None"
proof (induction rs rule: rev_induct)
  case (snoc r rs)
  have "fold_ranks F d ((ds @ rs) @ [r]) = combine F (fold_ranks F d (ds @ rs)) (d r)"
    using snoc.prems(1) by (intro fold_ranks_snoc) simp
  then have "fold_ranks F d (ds @ rs) \<noteq> None"
    using snoc.prems(2) by (cases "fold_ranks F d (ds @ rs)") (simp_all add: combine_def)
  then show ?case using snoc by blast
qed simp

text \<open>What follows the combination, with separate buffers or in place: a rank that is not the last leaves a request.\<close>

lemma request_leaves:
  assumes cmb: "allreduce_combine h u (slot_of t) a (bf r) cnt ty p e = Ret (set_world w2 (entered t (length ds) s), MPI_SUCCESS)"
    and fr: "slot_frame n t B ds s" and n: "n < 32768" and r: "r < n" "r \<notin> set ds" "length (ds @ [r]) < n"
    and u: "u_rank u = r" "u_size u = int n"
    and box: "k_box (cw_slots s (slot_of t)) = map q ds" and sb: "same_boxes (cw_world s) w2"
    and of': "\<forall>x \<in> set ds. offers w2 (q x) x (bf x) ty cnt 1"
  obtains s2 c where "allreduce_request h u (slot_of t) a (bf r) cnt ty p e = Ret (s2, MPI_SUCCESS, Some c)"
    "slot_frame n t B (ds @ [r]) s2" "w_mem (cw_world s2) = w_mem w2"
    "cw_slots s2 (slot_of t) = (cw_slots s (slot_of t))
       \<lparr>k_locked := False, k_ticket := t, k_joined := int (Suc (length ds)), k_box := map (q(r := c)) (ds @ [r])\<rparr>"
    "\<forall>x \<in> set (ds @ [r]). offers (cw_world s2) ((q(r := c)) x) x (bf x) ty cnt (if x = r \<and> a \<noteq> h_in_place h then 2 else 1)"
proof -
  let ?i = "slot_of t" and ?s1 = "set_world w2 (entered t (length ds) s)" and ?busy = "if a = h_in_place h then 1 else 2 :: int"
  obtain s2 c where s2: "collect_create u ?i (bf r) ty cnt cnt ?busy ?s1 = Ret (s2, c)" "slot_frame n t B (ds @ [r]) (unlock ?i s2)"
    "k_box (cw_slots s2 ?i) = map (q(r := c)) (ds @ [r])" "c \<notin> q ` set ds" "w_mem (cw_world s2) = w_mem w2"
    "w_cookies (cw_world s2) = (w_cookies w2)(c := mk_cookie r (bf r) ty cnt cnt (int r) UMPI_TAG_CC ?busy)"
    by (rule slot_frame_create [OF fr r(1,2) box sb u(1)])
  have "offers (cw_world s2) (q x) x (bf x) ty cnt 1" if "x \<in> set ds" for x
    using of' that s2(4,6) by (auto simp: offers_def)
  moreover have "offers (cw_world s2) c r (bf r) ty cnt ?busy"
    using s2(6) n r(1) by (intro mk_cookie_offers) simp_all
  ultimately have "\<forall>x \<in> set (ds @ [r]). offers (cw_world s2) ((q(r := c)) x) x (bf x) ty cnt (if x = r \<and> a \<noteq> h_in_place h then 2 else 1)"
    using r(2) by auto
  moreover have "cw_slots s2 ?i = (cw_slots s ?i)
      \<lparr>k_locked := True, k_ticket := t, k_joined := int (Suc (length ds)), k_box := map (q(r := c)) (ds @ [r])\<rparr>"
    using collect_create_slot [OF s2(1)] s2(3) by simp
  moreover have "allreduce_request h u ?i a (bf r) cnt ty p e = Ret (unlock ?i s2, MPI_SUCCESS, Some c)"
    using cmb s2(1) r(3) u(2) by (simp add: allreduce_request_def joined_last_def mpi_consts)
  ultimately show thesis using that [of "unlock ?i s2" c] s2(2,5) by simp
qed

text \<open>The last rank writes its result to all of them and borrows the last request.\<close>

lemma request_serves:
  assumes cmb: "allreduce_combine h u (slot_of t) a (bf r) cnt ty p e = Ret (set_world w2 (entered t (length ds) s), MPI_SUCCESS)"
    and fr: "slot_frame n t B ds s" and vm: "vm_ok (h_writev h)" and b: "whole_buf ty cnt"
    and r: "r < n" "r \<notin> set ds" "length (ds @ [r]) = n" "ds \<noteq> []" and u: "u_rank u = r" "u_size u = int n"
    and box: "k_box (cw_slots s (slot_of t)) = map q ds" and sb: "same_boxes (cw_world s) w2"
    and of': "\<forall>x \<in> set ds. offers w2 (q x) x (bf x) ty cnt 1" and d: "\<forall>x \<in> set ds. distinct (data_locs x (bf x) ty cnt)"
  obtains s2 where "allreduce_request h u (slot_of t) a (bf r) cnt ty p e = Ret (s2, MPI_SUCCESS, Some (last (map q ds)))"
    "slot_frame n t B (ds @ [r]) s2"
    "cw_slots s2 (slot_of t) = (cw_slots s (slot_of t))\<lparr>k_locked := False, k_ticket := t, k_joined := int (Suc (length ds)), k_box := []\<rparr>"
    "\<forall>x \<in> set (ds @ [r]). map (w_mem (cw_world s2)) (data_locs x (bf x) ty cnt) = map (w_mem w2) (data_locs r (bf r) ty cnt) \<and>
       finished (cw_world s2) ((q(r := last (map q ds))) x)"
    "\<forall>l. (\<forall>x \<in> set ds. l \<notin> set (data_locs x (bf x) ty cnt)) \<longrightarrow> w_mem (cw_world s2) l = w_mem w2 l"
proof -
  let ?i = "slot_of t" and ?e = "entered t (length ds) s" and ?c = "last (map q ds)"
  let ?s1 = "set_world w2 ?e" and ?w3 = "cookie_join ?c w2" and ?q = "q(r := ?c)"
  have bi: "box_inv ?w3 (mset (map q ds) + B)"
    using fr box same_boxesD(4) [OF sb] same_boxesD(4) [OF same_boxes_join [of w2 ?c]] by (simp add: slot_frame_def)
  have w3: "w_mem ?w3 = w_mem w2" "w_size ?w3 = n" using fr same_boxesD(1) [OF sb] by (simp_all add: cookie_join_def upd_cookie_def slot_frame_def)
  have ds: "distinct ds" "\<forall>x \<in> set ds. x < w_size ?w3" using fr w3(2) by (auto simp: slot_frame_def)
  have of3: "\<forall>x \<in> set ds. offers ?w3 (q x) x (bf x) ty cnt 1" using of' by (simp add: offers_join)
  obtain w4 where w4: "todo_loop (\<lambda>c. write_to_owner (h_writev h) c (Priv r, bf r) ty cnt 0 0) (map q ds) ?w3 = Ret (w4, MPI_SUCCESS)"
    "w_size w4 = w_size ?w3" "w_pool w4 = w_pool ?w3" "box_inv w4 B"
    "\<forall>x \<in> set ds. map (w_mem w4) (data_locs x (bf x) ty cnt) = map (w_mem ?w3) (data_locs r (bf r) ty cnt) \<and> finished w4 (q x)"
    "\<forall>l. (\<forall>x \<in> set ds. l \<notin> set (data_locs x (bf x) ty cnt)) \<longrightarrow> w_mem w4 l = w_mem ?w3 l"
    using todo_write_ranks [OF vm b ds r(2) d of3 bi, of "bf r"] by blast
  let ?s2 = "unlock ?i (set_world w4 (upd_slot ?i (\<lambda>k. k\<lparr>k_box := []\<rparr>) ?e))"
  have own: "map (w_mem w4) (data_locs r (bf r) ty cnt) = map (w_mem w2) (data_locs r (bf r) ty cnt)"
  proof (intro map_cong refl)
    fix l assume "l \<in> set (data_locs r (bf r) ty cnt)"
    then have "\<forall>x \<in> set ds. l \<notin> set (data_locs x (bf x) ty cnt)" using data_locs_apart [of r] r(2) by (metis disjoint_iff)
    then show "w_mem w4 l = w_mem w2 l" using w4(6) w3(1) by metis
  qed
  have fin: "finished w4 (?q x)" if "x \<in> set (ds @ [r])" for x
  proof -
    have "?q x \<in> q ` set ds" using that r(4) by (auto simp: last_map)
    then show ?thesis using w4(5) by auto
  qed
  have has: "map (w_mem w4) (data_locs x (bf x) ty cnt) = map (w_mem w2) (data_locs r (bf r) ty cnt)" if "x \<in> set (ds @ [r])" for x
    using that w4(5) own w3(1) by auto
  have slot: "cw_slots ?s2 ?i = (cw_slots s ?i)\<lparr>k_locked := False, k_ticket := t, k_joined := int (Suc (length ds)), k_box := []\<rparr>" by simp
  have frame: "slot_frame n t B (ds @ [r]) ?s2"
    unfolding slot_frame_def slot
    using slot_frame_space(3,4) [OF fr r(1,2)] r(3) w4(2,4) w3(2) by simp
  have tb: "take_box ?i ?s1 = (upd_slot ?i (\<lambda>k. k\<lparr>k_box := []\<rparr>) ?s1, map q ds)" using box by (simp add: take_box_def)
  have "set_world w4 (unlock ?i (set_world ?w3 (upd_slot ?i (\<lambda>k. k\<lparr>k_box := []\<rparr>) ?s1))) = ?s2"
    by (simp add: set_world_def unlock_def upd_slot_def)
  moreover have "joined_last u (cw_slots ?s1 ?i)" using r(3) u(2) by (simp add: joined_last_def)
  ultimately have "allreduce_request h u ?i a (bf r) cnt ty p e = Ret (?s2, MPI_SUCCESS, Some ?c)"
    using cmb tb w4(1) u(1) r(4) by (simp add: allreduce_request_def finish_with_def mpi_consts del: last_map)
  then show thesis
  proof (rule that [OF _ frame slot])
    show "\<forall>x \<in> set (ds @ [r]). map (w_mem (cw_world ?s2)) (data_locs x (bf x) ty cnt) = map (w_mem w2) (data_locs r (bf r) ty cnt) \<and>
       finished (cw_world ?s2) (?q x)"
      using has fin by (simp only: slot_simps) blast
    show "\<forall>l. (\<forall>x \<in> set ds. l \<notin> set (data_locs x (bf x) ty cnt)) \<longrightarrow> w_mem (cw_world ?s2) l = w_mem w2 l"
      using w4(6) w3(1) by (simp only: slot_simps)
  qed
qed

lemma allreduce_call:
  assumes ok: "allreduce_job_ok h j us" and vm: "vm_ok (h_writev h)" "vm_ok (h_readv h)"
    and opc: "op_computes h (a_op j) (a_cnt j) (a_type j) F"
    and inv: "allreduce_inv j F m0 B ds q s" and r: "r < a_n j" "r \<notin> set ds"
    and v: "fold_ranks F (\<lambda>r. map m0 (send_locs j r)) (ds @ [r]) = Some v"
  shows "\<exists>u s2 c. iallreduce_of h us j r s = Ret (u, s2, MPI_SUCCESS, Some c) \<and> allreduce_inv j F m0 B (ds @ [r]) (q(r := c)) s2"
proof -
  let ?i = "slot_of (a_ticket j)" and ?s1 = "entered (a_ticket j) (length ds) s" and ?u = "(us r)\<lparr>u_ticket := a_ticket j + 1\<rparr>"
  let ?req = "allreduce_request h ?u ?i (a_send j r) (a_recv j r) (a_cnt j) (a_type j) (a_op j) ?s1"
  have fr: "slot_frame (a_n j) (a_ticket j) B ds s" and m: "\<forall>l. (\<forall>r < a_n j. l \<notin> set (recv_locs j r)) \<longrightarrow> w_mem (cw_world s) l = m0 l"
    using inv unfolding allreduce_inv_def by blast+
  have lt: "length ds < a_n j" by (rule slot_frame_not_all [OF fr r])
  then have box: "k_box (a_slot j s) = map q ds" using inv by (simp add: allreduce_inv_def Let_def partial_result_def)
  have sc: "same_call (a_n j) us (a_ticket j)" "2 \<le> a_n j" and sep: "a_send j r \<noteq> h_in_place h"
    using ok r(1) by (simp_all add: allreduce_job_ok_def)
  have u: "u_rank ?u = r" "u_size ?u = int (a_n j)" "a_n j < 32768" using sc r by (simp_all add: same_call_def)
  have sa: "slot_after (a_ticket j) (length ds) (a_slot j s)" using fr lt by (simp add: slot_frame_def)
  have call: "iallreduce_of h us j r s = and_then ?req (\<lambda>(s2, ret, c). Ret (Some ?u, s2, ret, c))"
    using ok r in_slot_enter [OF sc(1) r(1) sa] by (auto simp: iallreduce_of_def MPI_Iallreduce_def allreduce_job_ok_def)
  obtain w2 where w2: "allreduce_combine h ?u ?i (a_send j r) (a_recv j r) (a_cnt j) (a_type j) (a_op j) ?s1 = Ret (set_world w2 ?s1, MPI_SUCCESS)"
    "same_boxes (cw_world s) w2" "\<forall>r' \<in> set ds. a_offers j w2 (q r') r' 1" "map (w_mem w2) (recv_locs j r) = v"
    "\<forall>l. l \<notin> set (recv_locs j r) \<longrightarrow> w_mem w2 l = w_mem (cw_world s) l"
    using combined [OF ok vm opc inv r u(1) v] by blast
  have out: "w_mem w2 l = m0 l" if "\<forall>r < a_n j. l \<notin> set (recv_locs j r)" for l
    using w2(5) m that r(1) by metis
  show ?thesis
  proof (cases "length (ds @ [r]) < a_n j")
    case True
    obtain s2 c where s2: "?req = Ret (s2, MPI_SUCCESS, Some c)" "slot_frame (a_n j) (a_ticket j) B (ds @ [r]) s2" "w_mem (cw_world s2) = w_mem w2"
      "a_slot j s2 = (a_slot j s)\<lparr>k_locked := False, k_ticket := a_ticket j, k_joined := int (Suc (length ds)), k_box := map (q(r := c)) (ds @ [r])\<rparr>"
      "\<forall>x \<in> set (ds @ [r]). a_offers j (cw_world s2) ((q(r := c)) x) x (if x = r \<and> a_send j r \<noteq> h_in_place h then 2 else 1)"
      by (rule request_leaves [OF w2(1) fr u(3) r True u(1,2) box w2(2,3)])
    then have "allreduce_inv j F m0 B (ds @ [r]) (q(r := c)) s2"
      using True sep out v w2(4) by (simp add: allreduce_inv_def partial_result_def Let_def del: length_append map_append)
    then show ?thesis using call s2(1) by auto
  next
    case False
    then have last': "length (ds @ [r]) = a_n j" "ds \<noteq> []" using lt sc(2) by auto
    have d: "\<forall>x \<in> set ds. distinct (data_locs x (a_recv j x) (a_type j) (a_cnt j))"
      using fr job_bufs(4) [OF ok] by (auto simp: slot_frame_def recv_locs_def)
    obtain s2 where s2: "?req = Ret (s2, MPI_SUCCESS, Some (last (map q ds)))" "slot_frame (a_n j) (a_ticket j) B (ds @ [r]) s2"
      "a_slot j s2 = (a_slot j s)\<lparr>k_locked := False, k_ticket := a_ticket j, k_joined := int (Suc (length ds)), k_box := []\<rparr>"
      "\<forall>x \<in> set (ds @ [r]). map (w_mem (cw_world s2)) (recv_locs j x) = map (w_mem w2) (recv_locs j r) \<and>
         finished (cw_world s2) ((q(r := last (map q ds))) x)"
      "\<forall>l. (\<forall>x \<in> set ds. l \<notin> set (recv_locs j x)) \<longrightarrow> w_mem (cw_world s2) l = w_mem w2 l"
      by (rule request_serves [OF w2(1) fr vm(1) job_bufs(3) [OF ok r(1)] r last' u(1,2) box w2(2,3) d, folded recv_locs_def])
    have "w_mem (cw_world s2) l = m0 l" if "\<forall>r < a_n j. l \<notin> set (recv_locs j r)" for l
    proof -
      have "\<forall>x \<in> set ds. l \<notin> set (recv_locs j x)" using that fr by (auto simp: slot_frame_def)
      then show ?thesis using s2(5) out [OF that] by metis
    qed
    then have "allreduce_inv j F m0 B (ds @ [r]) (q(r := last (map q ds))) s2"
      using False s2(2-4) w2(4) unfolding allreduce_inv_def Let_def everyone_has_def v by (simp del: length_append last_map)
    then show ?thesis using call s2(1) by auto
  qed
qed

section \<open>All calls\<close>

lemma allreduce_calls:
  assumes ok: "allreduce_job_ok h j us" and vm: "vm_ok (h_writev h)" "vm_ok (h_readv h)"
    and opc: "op_computes h (a_op j) (a_cnt j) (a_type j) F"
    and st: "allreduce_inv j F m0 B [] q s" and rs: "distinct rs" "set rs = {..<a_n j}"
    and v: "fold_ranks F (\<lambda>r. map m0 (send_locs j r)) rs \<noteq> None"
  shows "\<exists>s' q'. calls_all (iallreduce_of h us j) rs s = Ret (s', map (\<lambda>r. (MPI_SUCCESS, Some (q' r))) rs) \<and>
      allreduce_inv j F m0 B rs q' s'"
proof -
  let ?I = "allreduce_inv j F m0 B"
  have "\<exists>u s2 c. iallreduce_of h us j r sa = Ret (u, s2, MPI_SUCCESS, Some c) \<and> ?I (ds @ [r]) (q(r := c)) s2"
    if inv: "?I ds q sa" and o': "\<exists>ys. rs = ds @ r # ys" for ds q sa r
  proof -
    obtain ys where o': "rs = ds @ r # ys" using o' by blast
    have r: "r < a_n j" "r \<notin> set ds" using rs o' by auto
    have "fold_ranks F (\<lambda>r. map m0 (send_locs j r)) ((ds @ [r]) @ ys) \<noteq> None" using v o' by simp
    then obtain z where "fold_ranks F (\<lambda>r. map m0 (send_locs j r)) (ds @ [r]) = Some z" using fold_prefix [of "ds @ [r]" F _ ys] by blast
    from allreduce_call [OF ok vm opc inv r this] show ?thesis .
  qed
  from calls_all_order [of ?I rs "iallreduce_of h us j", OF this rs(1) st] show ?thesis by auto
qed

definition allreduce_start :: "host \<Rightarrow> allreduce_job \<Rightarrow> (nat \<Rightarrow> umpi) \<Rightarrow> cid multiset \<Rightarrow> cworld \<Rightarrow> bool" where
  "allreduce_start h j us B s \<longleftrightarrow> allreduce_job_ok h j us \<and> vm_ok (h_writev h) \<and> vm_ok (h_readv h) \<and>
     w_size (cw_world s) = a_n j \<and> box_inv (cw_world s) B \<and> slot_free (a_ticket j) s \<and>
     64 * a_n j \<le> unat (p_space (w_pool (cw_world s)))"

lemma allreduce_runs:
  assumes st: "allreduce_start h j us B s" and opc: "op_computes h (a_op j) (a_cnt j) (a_type j) F"
    and rs: "distinct rs" "set rs = {..<a_n j}"
    and v: "fold_ranks F (\<lambda>r. map (w_mem (cw_world s)) (send_locs j r)) rs = Some v"
  shows "\<exists>s' q. calls_all (iallreduce_of h us j) rs s = Ret (s', map (\<lambda>r. (MPI_SUCCESS, Some (q r))) rs) \<and>
    (\<forall>r < a_n j. map (w_mem (cw_world s')) (recv_locs j r) = v \<and> finished (cw_world s') (q r)) \<and>
    (\<forall>l. (\<forall>r < a_n j. l \<notin> set (recv_locs j r)) \<longrightarrow> w_mem (cw_world s') l = w_mem (cw_world s) l) \<and>
    slot_free (a_ticket j) s' \<and> box_inv (cw_world s') B"
proof -
  let ?m0 = "w_mem (cw_world s)"
  have ok: "allreduce_job_ok h j us" and vm: "vm_ok (h_writev h)" "vm_ok (h_readv h)" using st by (simp_all add: allreduce_start_def)
  have fr: "slot_frame (a_n j) (a_ticket j) B [] s" using st by (intro slot_frame_start) (simp_all add: allreduce_start_def)
  have "allreduce_inv j F ?m0 B [] (\<lambda>_. bp_null) s"
    using fr ok st by (simp add: allreduce_inv_def partial_result_def allreduce_job_ok_def allreduce_start_def slot_free_def)
  from allreduce_calls [OF ok vm opc this rs] v
  obtain s' q where r: "calls_all (iallreduce_of h us j) rs s = Ret (s', map (\<lambda>r. (MPI_SUCCESS, Some (q r))) rs)"
    "allreduce_inv j F ?m0 B rs q s'"
    by auto
  have "length rs = a_n j" using rs distinct_card [of rs] by simp
  with r(2) v have e: "everyone_has j (Some v) rs q s'" and f: "slot_frame (a_n j) (a_ticket j) B rs s'"
    and m: "\<forall>l. (\<forall>r < a_n j. l \<notin> set (recv_locs j r)) \<longrightarrow> w_mem (cw_world s') l = ?m0 l"
    unfolding allreduce_inv_def by (simp_all add: Let_def)
  then have "slot_free (a_ticket j) s' \<and> box_inv (cw_world s') B"
    by (simp add: slot_frame_def slot_free_def everyone_has_def)
  with e m r(1) rs(2) show ?thesis
    unfolding everyone_has_def by (intro exI [of _ s'] exI [of _ q]) simp
qed

section \<open>The predefined operations\<close>

text \<open>The type of the vectors: a predefined integer type.\<close>

lemma int_layout:
  assumes "int_type_of i = Some t" "predefined i = Some ty"
  shows "iov_id ty = id_val i" "iov_len ty = of_nat (fst t)" "\<not> iov_scattered ty" "fst t \<le> 8" "fst t \<noteq> 0"
    "find (\<lambda>i. id_val i = iov_id ty) all_ids = Some i" "elem_size i = Some (fst t)"
proof -
  show "iov_id ty = id_val i" "iov_len ty = of_nat (fst t)" "\<not> iov_scattered ty" "fst t \<le> 8" "fst t \<noteq> 0"
    using assms by (cases i; force simp: iov_defs)+
  then show "find (\<lambda>i. id_val i = iov_id ty) all_ids = Some i" "elem_size i = Some (fst t)"
    using assms by (cases i; simp add: all_ids_def elem_size_def)+
qed

lemma int_payload:
  assumes "int_type_of i = Some t" "predefined i = Some ty" "0 \<le> cnt"
  shows "payload b ty 0 cnt = vec_locs b (fst t) 0 (nat cnt)"
proof -
  note l = int_layout [OF assms(1,2)]
  have "unat (iov_len ty) = fst t" using l(2,4) by (simp add: unat_of_nat)
  then show ?thesis
    using payload_contiguous [OF l(3) assms(3), of b 0] by (simp add: vec_locs_def elem_loc_def add_loc_def)
qed

lemma generic_computes:
  assumes i: "int_type_of i = Some t" "predefined i = Some ty" and cnt: "0 \<le> cnt"
  shows "op_computes h (Generic k) cnt ty (vec_apply (elem_op (h_float h) k i) (fst t) (nat cnt))"
  unfolding op_computes_def int_payload [OF assms]
proof (intro allI impI)
  fix m a b z
  assume sep: "separate (vec_locs a (fst t) 0 (nat cnt)) (vec_locs b (fst t) 0 (nat cnt))"
    and z: "vec_apply (elem_op (h_float h) k i) (fst t) (nat cnt) (map m (vec_locs a (fst t) 0 (nat cnt)))
      (map m (vec_locs b (fst t) 0 (nat cnt))) = Some z"
  have "op_call (h_float h) (Generic k) a b cnt ty m = apply_loop (elem_op (h_float h) k i) (fst t) a b 0 (nat cnt) m"
    using int_layout(6,7) [OF i] by (simp add: generic_function_def)
  then show "\<exists>m'. op_call (h_float h) (Generic k) a b cnt ty m = Ret m' \<and> map m' (vec_locs b (fst t) 0 (nat cnt)) = z \<and>
      (\<forall>l. l \<notin> set (vec_locs b (fst t) 0 (nat cnt)) \<longrightarrow> m' l = m l)"
    using apply_loop_vec [OF elem_op_keeps_size [OF i(1)] _ z] sep by (auto simp: separate_def)
qed

text \<open>C9: allreduce, whatever the order in which the ranks arrive. All \<open>n\<close> ranks call
  \<^verbatim>\<open>MPI_Iallreduce\<close> with separate buffers on a free slot, each once, in the order \<open>rs\<close>. If combining the
  vectors in this order is defined (no signed overflow) with value \<open>v\<close>, every call returns
  \<^verbatim>\<open>MPI_SUCCESS\<close>; after the last, every rank's receive buffer holds \<open>v\<close>, nothing outside the receive
  buffers has changed, every request is completed without error and the slot is free again: the calls
  implement the fold of the operation over the ranks, for a predefined operation and for a user's.\<close>

theorem allreduce_all_orders:
  assumes "allreduce_start h j us B s" "op_computes h (a_op j) (a_cnt j) (a_type j) F"
    and "distinct rs" "set rs = {..<a_n j}"
    and "fold_ranks F (\<lambda>r. map (w_mem (cw_world s)) (send_locs j r)) rs = Some v"
  shows "\<exists>s' q. calls_all (iallreduce_of h us j) rs s = Ret (s', map (\<lambda>r. (MPI_SUCCESS, Some (q r))) rs) \<and>
    (\<forall>r < a_n j. map (w_mem (cw_world s')) (recv_locs j r) = v \<and> finished (cw_world s') (q r)) \<and>
    (\<forall>l. (\<forall>r < a_n j. l \<notin> set (recv_locs j r)) \<longrightarrow> w_mem (cw_world s') l = w_mem (cw_world s) l) \<and>
    slot_free (a_ticket j) s' \<and> box_inv (cw_world s') B"
  by (rule allreduce_runs [OF assms])

definition demo_allreduce :: allreduce_job where
  "demo_allreduce = \<lparr>a_n = 3, a_ticket = 0, a_send = (\<lambda>r. 1000), a_recv = (\<lambda>r. 2000), a_cnt = 1,
     a_type = [iov_entry (id_val UMPI_ID_UNSIGNED) 4], a_op = Generic Op_sum\<rparr>"

definition demo_vectors :: mem where
  "demo_vectors = (\<lambda>l. if l = (Priv 0, 1000) then 250 else if l = (Priv 1, 1000) then 7 else if l = (Priv 2, 1001) then 1 else 0)"

lemma demo_locs: "payload (Priv r, 1000) [iov_entry (id_val UMPI_ID_UNSIGNED) 4] 0 1 = [(Priv r, 1000), (Priv r, 1001), (Priv r, 1002), (Priv r, 1003)]"
    "payload (Priv r, 2000) [iov_entry (id_val UMPI_ID_UNSIGNED) 4] 0 1 = [(Priv r, 2000), (Priv r, 2001), (Priv r, 2002), (Priv r, 2003)]"
  by (simp_all add: payload_def elem_locs_def iov_defs loc_range_def add_loc_def upt_rec)

lemma demo_allreduce_start: "allreduce_start demo_host demo_allreduce (demo_ranks 3) {#} (demo_cworld 3 demo_vectors)"
proof -
  have "allreduce_job_ok demo_host demo_allreduce (demo_ranks 3)"
    using demo_ranks_call [of 3] demo_locs
    by (simp add: allreduce_job_ok_def demo_allreduce_def demo_host_def send_locs_def recv_locs_def separate_def whole_buf_def
        typed_buf_def wf_iovec_def iov_defs)
  then show ?thesis
    using demo_cworld_start [of 3 demo_vectors] vm_ok_copy
    by (simp add: allreduce_start_def demo_host_def) (simp add: demo_allreduce_def)
qed

lemma demo_computes: "op_computes demo_host (a_op demo_allreduce) (a_cnt demo_allreduce) (a_type demo_allreduce)
    (vec_apply (elem_op (h_float demo_host) Op_sum UMPI_ID_UNSIGNED) 4 1)"
  using generic_computes [of UMPI_ID_UNSIGNED "(4, False)" "a_type demo_allreduce" 1 demo_host Op_sum] by (simp add: demo_allreduce_def)

lemma demo_send_locs: "send_locs demo_allreduce r = [(Priv r, 1000), (Priv r, 1001), (Priv r, 1002), (Priv r, 1003)]"
  by (simp only: send_locs_def demo_allreduce_def allreduce_job.simps demo_locs)

lemma le_bytes_4: "le_bytes 4 v = [of_nat (v mod 256), of_nat (v div 256 mod 256), of_nat (v div 256 div 256 mod 256),
    of_nat (v div 256 div 256 div 256 mod 256)]"
proof -
  have "(4 :: nat) = Suc (Suc (Suc (Suc 0)))" by simp
  then show ?thesis by (simp only: le_bytes.simps)
qed

lemma allreduce_all_orders_witness:
  "\<exists>s' out. calls_all (iallreduce_of demo_host (demo_ranks 3) demo_allreduce) [2, 0, 1] (demo_cworld 3 demo_vectors) = Ret (s', out) \<and>
    map (w_mem (cw_world s')) (recv_locs demo_allreduce 1) = [1, 2, 0, 0]"
proof -
  have rs: "distinct [2, 0, 1 :: nat]" "set [2, 0, 1] = {..<a_n demo_allreduce}" by (auto simp: demo_allreduce_def)
  have v: "fold_ranks (vec_apply (elem_op (h_float demo_host) Op_sum UMPI_ID_UNSIGNED) 4 1)
      (\<lambda>r. map demo_vectors (send_locs demo_allreduce r)) [2, 0, 1] = Some [1, 2, 0, 0]"
    unfolding demo_send_locs
    by (simp add: demo_vectors_def combine_def elem_op_def int_op_def decode_int_def wrap_def type_mod_def arith_type_def
        encode_int_def le_bytes_4)
  have n: "1 < a_n demo_allreduce" by (simp add: demo_allreduce_def)
  from allreduce_all_orders [OF demo_allreduce_start demo_computes rs, unfolded demo_cworld_start(2), OF v] n
  show ?thesis by blast
qed

text \<open>C16: the order of arrival is of no consequence to the result. For a predefined operation on an
  integer type whose result is always defined (maximum and minimum; sum and product of the unsigned
  types, except the product of \<^verbatim>\<open>unsigned short\<close>), two runs of \<^verbatim>\<open>MPI_Iallreduce\<close> from the same state in
  which the ranks arrive in different orders both succeed and end with the same contents of the whole
  memory, and the same result at every rank.\<close>

theorem allreduce_order_irrelevant:
  assumes "allreduce_start h j us B s" "a_op j = Generic k"
    and "int_type_of i = Some t" "predefined i = Some (a_type j)" "always_defined k t"
    and "distinct rs" "set rs = {..<a_n j}" "distinct rs'" "set rs' = {..<a_n j}"
  shows "\<exists>s1 out1 s2 out2 v. calls_all (iallreduce_of h us j) rs s = Ret (s1, out1) \<and> calls_all (iallreduce_of h us j) rs' s = Ret (s2, out2) \<and>
    w_mem (cw_world s1) = w_mem (cw_world s2) \<and> (\<forall>r < a_n j. map (w_mem (cw_world s1)) (recv_locs j r) = v)"
proof -
  let ?F = "vec_apply (elem_op (h_float h) k i) (fst t) (nat (a_cnt j))"
  let ?d = "\<lambda>r. map (w_mem (cw_world s)) (send_locs j r)"
  have b: "2 \<le> a_n j" "0 \<le> a_cnt j" using assms(1) by (simp_all add: allreduce_start_def allreduce_job_ok_def whole_buf_def)
  have opc: "op_computes h (a_op j) (a_cnt j) (a_type j) ?F"
    unfolding assms(2) by (rule generic_computes [OF assms(3,4) b(2)])
  have m: "mset rs = mset rs'" using assms(6-9) by (metis set_eq_iff_mset_eq_distinct)
  have ne: "rs \<noteq> []"
  proof
    assume "rs = []"
    then have "{..<a_n j} = {}" using assms(7) by (simp only: list.set)
    then show False using b(1) by (simp add: lessThan_empty_iff)
  qed
  have "\<forall>r \<in> set rs. length (?d r) = nat (a_cnt j) * fst t"
    by (simp add: send_locs_def int_payload [OF assms(3,4) b(2)])
  from fold_order_free [OF assms(3,5) m ne this, of "h_float h"]
  obtain v where v: "fold_ranks ?F ?d rs = Some v" "fold_ranks ?F ?d rs' = Some v" by metis
  obtain s1 q1 where r1: "calls_all (iallreduce_of h us j) rs s = Ret (s1, map (\<lambda>r. (MPI_SUCCESS, Some (q1 r))) rs)"
    "\<forall>r < a_n j. map (w_mem (cw_world s1)) (recv_locs j r) = v"
    "\<forall>l. (\<forall>r < a_n j. l \<notin> set (recv_locs j r)) \<longrightarrow> w_mem (cw_world s1) l = w_mem (cw_world s) l"
    using allreduce_runs [OF assms(1) opc assms(6,7) v(1)] by blast
  obtain s2 q2 where r2: "calls_all (iallreduce_of h us j) rs' s = Ret (s2, map (\<lambda>r. (MPI_SUCCESS, Some (q2 r))) rs')"
    "\<forall>r < a_n j. map (w_mem (cw_world s2)) (recv_locs j r) = v"
    "\<forall>l. (\<forall>r < a_n j. l \<notin> set (recv_locs j r)) \<longrightarrow> w_mem (cw_world s2) l = w_mem (cw_world s) l"
    using allreduce_runs [OF assms(1) opc assms(8,9) v(2)] by blast
  have "w_mem (cw_world s1) l = w_mem (cw_world s2) l" for l
  proof (cases "\<exists>r < a_n j. l \<in> set (recv_locs j r)")
    case True
    then obtain r where r: "r < a_n j" "l \<in> set (recv_locs j r)" by blast
    then have "map (w_mem (cw_world s1)) (recv_locs j r) = map (w_mem (cw_world s2)) (recv_locs j r)" using r1(2) r2(2) by simp
    then show ?thesis using r(2) by (simp only: map_eq_conv)
  next
    case False
    then have "\<forall>r < a_n j. l \<notin> set (recv_locs j r)" by blast
    then show ?thesis using r1(3) r2(3) by metis
  qed
  then have "w_mem (cw_world s1) = w_mem (cw_world s2)" by (rule ext)
  with r1 r2 show ?thesis by blast
qed

lemma allreduce_order_irrelevant_witness:
  "\<exists>s1 out1 s2 out2. calls_all (iallreduce_of demo_host (demo_ranks 3) demo_allreduce) [2, 0, 1] (demo_cworld 3 demo_vectors) = Ret (s1, out1) \<and>
    calls_all (iallreduce_of demo_host (demo_ranks 3) demo_allreduce) [0, 1, 2] (demo_cworld 3 demo_vectors) = Ret (s2, out2) \<and>
    w_mem (cw_world s1) = w_mem (cw_world s2)"
proof -
  have rs: "distinct [2, 0, 1 :: nat]" "set [2, 0, 1] = {..<a_n demo_allreduce}"
    "distinct [0, 1, 2 :: nat]" "set [0, 1, 2] = {..<a_n demo_allreduce}" by (auto simp: demo_allreduce_def)
  have i: "int_type_of UMPI_ID_UNSIGNED = Some (4, False)" "predefined UMPI_ID_UNSIGNED = Some (a_type demo_allreduce)"
    "always_defined Op_sum (4, False)" "a_op demo_allreduce = Generic Op_sum"
    by (simp_all add: demo_allreduce_def always_defined_def)
  from allreduce_order_irrelevant [OF demo_allreduce_start i(4,1-3) rs] show ?thesis by blast
qed

end
