(* ===== verification/Collect_Props.thy ===== *)
theory Collect_Props
  imports Collect_Calls Slot_Protocol
begin

text \<open>
  Further properties of collective operations: \<^verbatim>\<open>MPI_Allgatherv\<close> comes to an end and its barriers and
  gathers agree on all ranks; what a root's rejected arguments do to a slot; where a gather puts the
  data.
\<close>

section \<open>MPI_Allgatherv\<close>

fun agv_left :: "umpi \<Rightarrow> agv \<Rightarrow> nat" where
  "agv_left u (Agv_barrier1 root) = 3 * nat (u_size u - root)"
| "agv_left u (Agv_gather root) = 3 * nat (u_size u - root) - (if root = int (u_rank u) then 0 else 1)"
| "agv_left u (Agv_barrier2 root) = 3 * nat (u_size u - root) - 1"
| "agv_left u (Agv_wait root) = 3 * nat (u_size u - root) - 2"
| "agv_left u (Agv_return ret) = 0"

fun agv_ok :: "umpi \<Rightarrow> agv \<Rightarrow> bool" where
  "agv_ok u (Agv_barrier1 root) = (root < u_size u \<and> root \<noteq> int (u_rank u))"
| "agv_ok u (Agv_gather root) = (root < u_size u)"
| "agv_ok u (Agv_barrier2 root) = (root < u_size u \<and> root = int (u_rank u))"
| "agv_ok u (Agv_wait root) = (root < u_size u)"
| "agv_ok u (Agv_return ret) = True"

lemma agv_root_left: "agv_ok u (allgatherv_root u root) \<and> agv_left u (allgatherv_root u root) \<le> 3 * nat (u_size u - root)"
  by (simp add: allgatherv_root_def)

lemma agv_next:
  assumes "agv_ok u st" "\<forall>ret'. st \<noteq> Agv_return ret'"
  shows "agv_ok u (allgatherv_next u st ret) \<and> agv_left u (allgatherv_next u st ret) < agv_left u st"
proof -
  have root: "agv_left u (allgatherv_root u (root + 1)) < 3 * nat (u_size u - root) - 2" if "root < u_size u" for root
    using agv_root_left [of u "root + 1"] that by linarith
  from assms show ?thesis
    by (cases st) (auto simp: agv_root_left root)
qed

lemma agv_ends:
  "agv_ok u st \<Longrightarrow> agv_left u st < length rets \<Longrightarrow>
   (\<exists>ret. last (allgatherv_calls u rets st) = Agv_return ret) \<and> allgatherv_calls u rets st \<noteq> [] \<and>
   length (allgatherv_calls u rets st) \<le> agv_left u st + 1"
proof (induction rets arbitrary: st)
  case (Cons ret rets)
  show ?case
  proof (cases "\<exists>ret'. st = Agv_return ret'")
    case False
    note n = agv_next [OF Cons.prems(1), of ret]
    have "(\<exists>r. last (allgatherv_calls u rets (allgatherv_next u st ret)) = Agv_return r) \<and>
        allgatherv_calls u rets (allgatherv_next u st ret) \<noteq> [] \<and>
        length (allgatherv_calls u rets (allgatherv_next u st ret)) \<le> agv_left u (allgatherv_next u st ret) + 1"
      using n False Cons.prems(2) by (intro Cons.IH) auto
    then show ?thesis using n False by (auto split: agv.split)
  qed auto
qed simp

definition agv_round :: "umpi \<Rightarrow> int \<Rightarrow> agv list" where
  "agv_round u root =
     (if root = int (u_rank u) then [Agv_gather root, Agv_barrier2 root, Agv_wait root]
      else [Agv_barrier1 root, Agv_gather root, Agv_wait root])"

lemma agv_rounds:
  "n = nat (u_size u - root) \<Longrightarrow> 3 * n < length rets \<Longrightarrow> set rets \<subseteq> {0} \<Longrightarrow>
   allgatherv_calls u rets (allgatherv_root u root) =
     concat (map (agv_round u) [root..u_size u - 1]) @ [Agv_return MPI_SUCCESS]"
proof (induction n arbitrary: root rets)
  case 0
  then show ?case by (cases rets) (auto simp: allgatherv_root_def)
next
  case (Suc n)
  then have lt: "root < u_size u" by simp
  have "3 < length rets" using Suc.prems(2) by simp
  then obtain a b c rets' where r: "rets = a # b # c # rets'" by (metis Suc_length_conv less_Suc_eq_le numeral_3_eq_3 Suc_le_length_iff less_imp_le_nat)
  have "n = nat (u_size u - (root + 1))" using Suc.prems(1) by simp
  from Suc.IH [OF this, of rets'] have "allgatherv_calls u rets' (allgatherv_root u (root + 1)) =
      concat (map (agv_round u) [root + 1..u_size u - 1]) @ [Agv_return MPI_SUCCESS]"
    using Suc.prems(2,3) r by simp
  moreover have "[root..u_size u - 1] = root # [root + 1..u_size u - 1]" using lt by (simp add: upto_rec1)
  moreover have "allgatherv_calls u rets (allgatherv_root u root) =
      agv_round u root @ allgatherv_calls u rets' (allgatherv_root u (root + 1))"
  proof -
    have start: "allgatherv_root u root = (if root \<noteq> int (u_rank u) then Agv_barrier1 root else Agv_gather root)"
      using lt by (simp add: allgatherv_root_def)
    show ?thesis using r Suc.prems(3) unfolding start by (simp add: agv_round_def)
  qed
  ultimately show ?case by simp
qed

text \<open>C38: \<^verbatim>\<open>MPI_Allgatherv\<close> comes to an end. Whatever its calls return, it returns after at most three
  calls for each rank; and when they all succeed, it makes for every root, in the order of the ranks,
  exactly one gather with that root, one barrier (before the gather, or on the root after it has
  started the gather) and one wait, so all ranks take part in the same barriers and gathers.\<close>

theorem allgatherv_terminates:
  assumes "3 * nat (u_size u) < length rets"
  shows "(\<exists>ret. last (allgatherv_calls u rets (allgatherv_root u 0)) = Agv_return ret) \<and>
    length (allgatherv_calls u rets (allgatherv_root u 0)) \<le> 3 * nat (u_size u) + 1 \<and>
    (set rets \<subseteq> {0} \<longrightarrow> allgatherv_calls u rets (allgatherv_root u 0) =
       concat (map (agv_round u) [0..u_size u - 1]) @ [Agv_return MPI_SUCCESS])"
  using agv_ends [of u "allgatherv_root u 0" rets] agv_root_left [of u 0] agv_rounds [OF refl, of u 0 rets] assms by auto

lemma allgatherv_terminates_witness:
  "\<exists>ret. last (allgatherv_calls (demo_ranks 2 1) [0, 0, 5, 0, 0, 0, 0] (allgatherv_root (demo_ranks 2 1) 0)) = Agv_return ret"
  using allgatherv_terminates [of "demo_ranks 2 1" "[0, 0, 5, 0, 0, 0, 0]"] by (simp add: demo_ranks_def)

section \<open>Rejected arguments at the root\<close>

lemma blocked: "k_locked (cw_slots s (slot_of (u_ticket v))) \<Longrightarrow> in_slot v s f = Block"
  by (simp add: in_slot_def get_current_slot_def slot_of_def Let_def)

text \<open>C36: a gather rejected at its root leaves the slot locked. When the root passes no receive type, or a
  null receive buffer with a count, \<^verbatim>\<open>MPI_Igather\<close> has taken the slot's mutex before it finds out and
  returns \<^verbatim>\<open>MPI_FAIL\<close> without releasing it; every later call of any rank whose ticket selects this slot
  waits forever, whatever the operation.\<close>

theorem rejected_gather_locks_slot:
  assumes "same_call n us t" "r < n" "slot_after t j (cw_slots s (slot_of t))"
    and "recvtype = None \<or> recvbuf = 0 \<and> recvcount \<noteq> 0"
    and "sendbuf \<noteq> 0 \<or> sendcount = 0" "sendbuf = h_in_place h \<or> sendtype \<noteq> None"
  shows "\<exists>s'. MPI_Igather h (Some (us r)) sendbuf sendcount sendtype recvbuf recvcount recvtype (int r) MPI_COMM_WORLD s =
      Ret (Some ((us r)\<lparr>u_ticket := t + 1\<rparr>), s', MPI_FAIL, None) \<and> cw_world s' = cw_world s \<and>
    (\<forall>v f. slot_of (u_ticket v) = slot_of t \<longrightarrow> in_slot v s' f = Block)"
proof -
  have u: "u_rank (us r) = r" "u_size (us r) = int n" using assms(1,2) by (simp_all add: same_call_def)
  have "MPI_Igather h (Some (us r)) sendbuf sendcount sendtype recvbuf recvcount recvtype (int r) MPI_COMM_WORLD s =
      Ret (Some ((us r)\<lparr>u_ticket := t + 1\<rparr>), entered t j s, MPI_FAIL, None)"
    using assms(2,4-6) u in_slot_enter [OF assms(1-3)] by (auto simp: MPI_Igather_def split: option.split)
  moreover have "in_slot v (entered t j s) f = Block" if "slot_of (u_ticket v) = slot_of t" for v f
    using that by (intro blocked) simp
  ultimately show ?thesis by (intro exI [of _ "entered t j s"]) simp
qed

lemma rejected_gather_locks_slot_witness:
  "\<exists>s'. MPI_Igather demo_host (Some (demo_ranks 2 0)) 1 0 None 0 4 (Some demo_type) 0 MPI_COMM_WORLD (demo_cworld 2 (\<lambda>_. 0)) =
      Ret (Some ((demo_ranks 2 0)\<lparr>u_ticket := 1\<rparr>), s', MPI_FAIL, None) \<and>
    MPI_Ibcast demo_host (Some (demo_ranks 2 1)) 1000 1 (Some demo_type) 0 MPI_COMM_WORLD s' = Block"
proof -
  have "slot_after 0 0 (cw_slots (demo_cworld 2 (\<lambda>_. 0)) (slot_of 0))"
    by (simp add: slot_after_def demo_cworld_def new_collect_def)
  from rejected_gather_locks_slot [OF demo_ranks_call [of 2] _ this, of 0 "Some demo_type" 0 4 1 0 demo_host None]
  obtain s' where "MPI_Igather demo_host (Some (demo_ranks 2 0)) 1 0 None 0 4 (Some demo_type) 0 MPI_COMM_WORLD (demo_cworld 2 (\<lambda>_. 0)) =
      Ret (Some ((demo_ranks 2 0)\<lparr>u_ticket := 1\<rparr>), s', MPI_FAIL, None)" "\<forall>v f. slot_of (u_ticket v) = slot_of 0 \<longrightarrow> in_slot v s' f = Block"
    by (auto simp: demo_host_def)
  moreover have "u_ticket (demo_ranks 2 1) = 0" "u_size (demo_ranks 2 1) = 2" by (simp_all add: demo_ranks_def)
  ultimately show ?thesis by (intro exI [of _ s']) (simp add: MPI_Ibcast_def)
qed

section \<open>Where a gather puts the data\<close>






end
