(* ===== verification/Launcher.thy ===== *)
theory Launcher
  imports Env "HOL-Library.Sublist"
begin

text \<open>
  The two programs around the library: \<^verbatim>\<open>mpicc\<close> (\<^verbatim>\<open>mpicc.cc\<close>), which turns its arguments into a
  compiler command, and \<^verbatim>\<open>mpiexec\<close> (\<^verbatim>\<open>mpiexec.cc\<close>), which builds the shared segment, starts the ranks
  and waits for them. System calls are arguments (their results) and actions (their effects, in
  order).
\<close>

section \<open>mpicc\<close>

text \<open>\<^verbatim>\<open>std::string::rfind\<close>; \<open>None\<close> is \<^verbatim>\<open>npos\<close>.\<close>

fun rfind :: "string \<Rightarrow> string \<Rightarrow> nat option" where
  "rfind pat [] = (if pat = [] then Some 0 else None)"
| "rfind pat (c # cs) =
     (case rfind pat cs of
        Some i \<Rightarrow> Some (Suc i)
      | None \<Rightarrow> if prefix pat (c # cs) then Some 0 else None)"

record mode =
  showme :: bool
  commanding :: bool
  compiling :: bool
  linking :: bool

fun showme_mode :: "string \<Rightarrow> mode option" where
  "showme_mode a =
     (if a = ''--showme'' then Some \<lparr>showme = True, commanding = True, compiling = True, linking = True\<rparr>
      else if a = ''--showme:compile'' then Some \<lparr>showme = True, commanding = False, compiling = True, linking = False\<rparr>
      else if a = ''--showme:link'' then Some \<lparr>showme = True, commanding = False, compiling = False, linking = True\<rparr>
      else if a = ''--showme:command'' then Some \<lparr>showme = True, commanding = True, compiling = False, linking = False\<rparr>
      else None)"

declare showme_mode.simps [simp del]

text \<open>The loop over the arguments: the first \<^verbatim>\<open>--showme\<close> option is erased.\<close>

fun scan_args :: "string list \<Rightarrow> mode option \<times> string list" where
  "scan_args [] = (None, [])"
| "scan_args (a # as) =
     (case showme_mode a of
        Some md \<Rightarrow> (Some md, as)
      | None \<Rightarrow> let (md, as') = scan_args as in (md, a # as'))"

datatype mpicc_end = Prints string | Execs "string list" | Returns int | Throws

fun join_words :: "string list \<Rightarrow> string" where
  "join_words [] = []"
| "join_words [a] = a"
| "join_words (a # b # as) = a @ '' '' @ join_words (b # as)"

definition mpicc_args :: "string \<Rightarrow> mode \<Rightarrow> string \<Rightarrow> string list \<Rightarrow> string list" where
  "mpicc_args pre md compiler rest =
     (if commanding md then [compiler] else []) @ rest @
     (if compiling md then [''-pthread'', ''-I'' @ pre @ ''include''] else []) @
     (if linking md then [''-Wl,-rpath,'' @ pre @ ''lib'', ''-L'' @ pre @ ''lib'', ''-lmpi''] else [])"

text \<open>
  \<open>exe\<close> is what \<^verbatim>\<open>readlink\<close> gives, \<open>None\<close> when it fails. A program name without \<^verbatim>\<open>mpi\<close> makes the
  string constructor throw; when \<^verbatim>\<open>execvp\<close> fails the program returns 1.
\<close>

definition mpicc_main :: "string option \<Rightarrow> string list \<Rightarrow> mpicc_end outcome" where
  "mpicc_main exe argv =
     (case exe of
        None \<Rightarrow> Ret (Returns 1)
      | Some real_path \<Rightarrow>
          let (found, args) = scan_args argv;
              md = (case found of Some md \<Rightarrow> md
                    | None \<Rightarrow> \<lparr>showme = False, commanding = True, compiling = True, linking = True\<rparr>);
              pre = (case rfind ''bin/'' real_path of Some i \<Rightarrow> take i real_path | None \<Rightarrow> real_path)
          in case args of
               [] \<Rightarrow> Undef
             | name # rest \<Rightarrow>
                 (case rfind ''mpi'' name of
                    None \<Rightarrow> Ret Throws
                  | Some i \<Rightarrow>
                      let compiler = (if drop i name = ''mpicc'' then ''clang'' else ''clang++'');
                          new_args = mpicc_args pre md compiler rest
                      in Ret (if showme md then Prints (join_words new_args) else Execs new_args)))"

section \<open>mpiexec\<close>

datatype wait_status = Exited int | Signaled int | Other_status

datatype action =
    Remove | Munmap | Ftruncate size_t | Memset | New_shared int | Fork nat | Kill_group | Setenv string string | Exec

record sys =
  sy_mkstemp :: int
  sy_setenv_mmap :: bool
  sy_setenv_size :: bool
  sy_ftruncate :: bool
  sy_mmap :: addr
  sy_close :: bool
  sy_fork :: "nat \<Rightarrow> int"
  sy_setenv_rank :: bool
  sy_wait :: "(int \<times> wait_status) list"
  sy_page :: size_t




definition child_main :: "sys \<Rightarrow> nat \<Rightarrow> action list \<times> int" where
  "child_main sy rank =
     (if \<not> sy_setenv_rank sy then ([Munmap, Remove], 1)
      else ([Setenv ''UMPI_RANK'' (show_int (int rank)), Exec], 1))"


section \<open>Properties\<close>

lemma digit_char: "k < 10 \<Longrightarrow> digit (char_of (48 + k)) = Some k"
  by (simp add: digit_def of_char_of)

lemma atoi_digits_show: "\<exists>k. \<forall>acc cs. atoi_digits acc (show_nat n @ cs) = atoi_digits (acc * 10 ^ k + int n) cs"
proof (induction n rule: show_nat.induct)
  case (1 n)
  show ?case
  proof (cases "n < 10")
    case True
    then have "atoi_digits acc (show_nat n @ cs) = atoi_digits (acc * 10 ^ 1 + int n) cs" for acc cs
      by (simp add: show_nat.simps [of n] digit_char mult.commute)
    then show ?thesis by blast
  next
    case False
    then obtain k where k: "\<And>acc cs. atoi_digits acc (show_nat (n div 10) @ cs) =
        atoi_digits (acc * 10 ^ k + int (n div 10)) cs" using 1 by blast
    have "int n = 10 * int (n div 10) + int (n mod 10)" by presburger
    then have "10 * (acc * 10 ^ k + int (n div 10)) + int (n mod 10) = acc * 10 ^ Suc k + int n" for acc :: int
      by simp
    moreover have "atoi_digits acc (show_nat n @ cs) =
        atoi_digits (10 * (acc * 10 ^ k + int (n div 10)) + int (n mod 10)) cs" for acc cs
      using False k by (simp add: show_nat.simps [of n] digit_char)
    ultimately show ?thesis by (intro exI [of _ "Suc k"]) metis
  qed
qed

lemma show_nat_digits: "c \<in> set (show_nat n) \<Longrightarrow> digit c \<noteq> None"
  by (induction n rule: show_nat.induct) (subst (asm) (2) show_nat.simps, auto simp: digit_char split: if_splits)

lemma show_nat_Cons: obtains c cs where "show_nat n = c # cs" "digit c \<noteq> None"
proof -
  have "show_nat n \<noteq> []" by (subst show_nat.simps) simp
  then obtain c cs where "show_nat n = c # cs" by (cases "show_nat n") auto
  moreover have "digit c \<noteq> None" by (rule show_nat_digits [of c n]) (simp add: calculation)
  ultimately show ?thesis using that by blast
qed

text \<open>What \<^verbatim>\<open>mpiexec\<close> writes into \<^verbatim>\<open>UMPI_SIZE\<close> and \<^verbatim>\<open>UMPI_RANK\<close> is what \<^verbatim>\<open>MPI_Init\<close> reads back:
  \<^verbatim>\<open>atoi\<close> of the decimal form of a number is the number.\<close>
theorem env_round_trip:
  "atoi (show_int n) = n"
proof (cases "n < 0")
  case True
  obtain k where "atoi_digits 0 (show_nat (nat (- n)) @ []) = atoi_digits (0 * 10 ^ k + int (nat (- n))) []"
    using atoi_digits_show [of "nat (- n)"] by blast
  with True show ?thesis by (simp add: show_int_def atoi_def is_space_def)
next
  case False
  obtain c cs where c: "show_nat (nat n) = c # cs" "digit c \<noteq> None" by (rule show_nat_Cons)
  then have "\<not> is_space c \<and> c \<noteq> CHR ''-'' \<and> c \<noteq> CHR ''+''"
    by (auto simp: digit_def is_space_def Let_def split: if_splits)
  then have "atoi (show_nat (nat n)) = atoi_digits 0 (show_nat (nat n))" using c(1) by (simp add: atoi_def)
  moreover obtain k where "atoi_digits 0 (show_nat (nat n) @ []) = atoi_digits (0 * 10 ^ k + int (nat n)) []"
    using atoi_digits_show [of "nat n"] by blast
  ultimately show ?thesis using False by (simp add: show_int_def)
qed






text \<open>\<^verbatim>\<open>mpicc\<close> passes the user's arguments on, in order, after the compiler and before its own flags.\<close>

lemma scan_args_none: "\<forall>a \<in> set as. showme_mode a = None \<Longrightarrow> scan_args as = (None, as)"
  by (induction as) auto

lemma mpicc_runs:
  assumes "\<forall>a \<in> set (name # rest). showme_mode a = None" "rfind ''mpi'' name = Some i" "rfind ''bin/'' exe = Some j"
  shows "mpicc_main (Some exe) (name # rest) =
    Ret (Execs ((if drop i name = ''mpicc'' then ''clang'' else ''clang++'') # rest @
      [''-pthread'', ''-I'' @ take j exe @ ''include'', ''-Wl,-rpath,'' @ take j exe @ ''lib'',
       ''-L'' @ take j exe @ ''lib'', ''-lmpi'']))"
  using assms scan_args_none [of "name # rest"] by (simp add: mpicc_main_def mpicc_args_def Let_def)

end
