(* ===== verification/Sections.thy ===== *)
theory Sections
  imports Requests Locks
begin

text \<open>
  The members of \<^verbatim>\<open>process\<close> that sleep or wake somebody up, as sections of \<open>Locks\<close>: run as a whole they
  do what the single steps of \<open>Requests\<close> do. The flag \<open>pr_asleep\<close> stands there for the condition
  variable, which is not part of the data the mutex protects.
\<close>

definition same_flag :: "nat \<Rightarrow> world \<Rightarrow> world \<Rightarrow> world" where
  "same_flag r w = upd_proc r (\<lambda>p. p\<lparr>pr_asleep := pr_asleep (w_procs w r)\<rparr>)"

section \<open>Waiting for one request\<close>

definition wait_enter :: "nat \<Rightarrow> cid \<Rightarrow> world \<Rightarrow> world" where
  "wait_enter self c = upd_proc self (\<lambda>p. p\<lparr>pr_waiting := Some c, pr_waiting_for := waiting_for_cookie\<rparr>)"

definition wait_leave :: "nat \<Rightarrow> world \<Rightarrow> world" where
  "wait_leave self = upd_proc self (\<lambda>p. p\<lparr>pr_waiting := None, pr_waiting_for := not_waiting\<rparr>)"

definition busy :: "cid \<Rightarrow> world \<Rightarrow> bool" where
  "busy c w \<longleftrightarrow> c_busy (w_cookies w c) \<noteq> 0"

definition process_wait :: "nat \<Rightarrow> cid \<Rightarrow> world instr list" where
  "process_wait self c = [Do (wait_enter self c), Wait_while (busy c), Do (wait_leave self)]"

lemma wait_section:
  "run_section (process_wait self c) w =
     (case wait_cookie self c w of
        (w', None) \<Rightarrow> (same_flag self w w', Some [Wait_while (busy c), Do (wait_leave self)])
      | (w', Some _) \<Rightarrow> (w', None))"
  by (simp add: process_wait_def wait_enter_def wait_leave_def busy_def wait_cookie_def same_flag_def upd_proc_def)

text \<open>After a wake-up: the registration is still there, so the first two lines change nothing.\<close>

lemma wait_again:
  assumes "pr_waiting (w_procs w self) = Some c" "pr_waiting_for (w_procs w self) = waiting_for_cookie"
  shows "run_section [Wait_while (busy c), Do (wait_leave self)] w = run_section (process_wait self c) w"
proof -
  have "(w_procs w self)\<lparr>pr_waiting := Some c, pr_waiting_for := waiting_for_cookie\<rparr> = w_procs w self"
    using assms by (cases "w_procs w self") simp
  then have "wait_enter self c w = w" by (simp add: wait_enter_def upd_proc_def)
  then show ?thesis by (simp add: process_wait_def)
qed

section \<open>Completing a request\<close>

definition set_done :: "cid \<Rightarrow> int \<Rightarrow> world \<Rightarrow> world" where
  "set_done c err = upd_cookie c (\<lambda>k. k\<lparr>c_err := (if c_err k \<noteq> 0 then c_err k else to_i16 err), c_busy := to_i16 (c_busy k - 1)\<rparr>)"

definition waits_for :: "nat \<Rightarrow> cid \<Rightarrow> world \<Rightarrow> bool" where
  "waits_for r c w \<longleftrightarrow> \<not> busy c w \<and> pr_waiting_for (w_procs w r) = waiting_for_cookie \<and> pr_waiting (w_procs w r) = Some c"

definition process_notify_done :: "nat \<Rightarrow> cid \<Rightarrow> int \<Rightarrow> world instr list" where
  "process_notify_done r c err = [Do (set_done c err), Notify_if (waits_for r c)]"

lemma notify_section:
  "c_owner (w_cookies w c) = r \<Longrightarrow>
     run_section (process_notify_done r c err) w = (same_flag r w (notify_done c err w), None)"
  by (simp add: process_notify_done_def set_done_def notify_done_def same_flag_def upd_proc_def upd_cookie_def Let_def)

text \<open>The flag is cleared when the section notifies, and only then.\<close>

lemma notify_clears:
  "c_owner (w_cookies w c) = r \<Longrightarrow>
     pr_asleep (w_procs (notify_done c err w) r) \<longleftrightarrow> pr_asleep (w_procs w r) \<and> \<not> waits_for r c (set_done c err w)"
  by (simp add: set_done_def notify_done_def waits_for_def busy_def upd_proc_def upd_cookie_def Let_def)

end
