(* ===== verification/Join_Race.thy ===== *)
theory Join_Race
  imports P2P_Props
begin

text \<open>
  \<^verbatim>\<open>cookie::join\<close> and \<^verbatim>\<open>finalize\<close> change \<^verbatim>\<open>used_\<close> without a common mutex: a rank that joins the root's request in
  a slot holds the mutex of the slot, a rank that leaves it holds the mutex of its owner. \<^verbatim>\<open>used_\<close> is a
  plain \<^verbatim>\<open>int16_t\<close>. The step relations take both as atomic; here is what an unlucky order of the load and
  the store does.
\<close>

text \<open>\<open>used_--\<close> of a leaving rank that has read \<open>v\<close> some time before it writes back.\<close>

definition leave_having_read :: "int \<Rightarrow> cid \<Rightarrow> world \<Rightarrow> world outcome" where
  "leave_having_read v c w = cookie_leave c (upd_cookie c (\<lambda>k. k\<lparr>c_used := v\<rparr>) w)"

lemma leave_reads_now: "leave_having_read (c_used (w_cookies w c)) c w = cookie_leave c w"
  by (simp add: leave_having_read_def upd_cookie_def)






end
