(* ===== verification/Handles.thy ===== *)
theory Handles
  imports Slot_Protocol
begin

text \<open>
  Who holds the requests of collective operations. Every successful call gives its rank one request, new
  or joined; \<^verbatim>\<open>used_\<close> counts the ranks that hold it. Nothing here depends on the arguments of the
  calls: the lemmas follow each member of \<^verbatim>\<open>collect\<close> on the paths that return \<^verbatim>\<open>MPI_SUCCESS\<close>.
\<close>

section \<open>Requests in play and their holders\<close>

text \<open>\<open>B\<close> are the requests in boxes and local lists, \<open>H\<close> has one element for each rank that holds a request.\<close>

definition in_play :: "world \<Rightarrow> cid multiset \<Rightarrow> cid multiset" where
  "in_play w B = unmatched w + pending w + B"

definition held_inv :: "world \<Rightarrow> cid multiset \<Rightarrow> cid multiset \<Rightarrow> bool" where
  "held_inv w B H \<longleftrightarrow> box_inv w B \<and> set_mset H \<subseteq> set_mset (in_play w B) \<and>
     (\<forall>c. c \<in># in_play w B \<longrightarrow> c_used (w_cookies w c) = int (count H c) \<and> c_owner (w_cookies w c) < w_size w) \<and>
     (\<forall>r < w_size w. \<forall>c. c \<in># pending_of (w_procs w r) \<longrightarrow> c_owner (w_cookies w c) = r)"

lemma held_invD:
  assumes "held_inv w B H"
  shows "box_inv w B" "c \<in># H \<Longrightarrow> c \<in># in_play w B"
    "c \<in># in_play w B \<Longrightarrow> c_used (w_cookies w c) = int (count H c)" "c \<in># in_play w B \<Longrightarrow> c_owner (w_cookies w c) < w_size w"
    "r < w_size w \<Longrightarrow> c \<in># pending_of (w_procs w r) \<Longrightarrow> c_owner (w_cookies w c) = r"
  using assms unfolding held_inv_def by auto

text \<open>Steps that change neither the lists nor who holds and owns the requests.\<close>

definition keeps :: "world \<Rightarrow> world \<Rightarrow> bool" where
  "keeps w w' \<longleftrightarrow> same_boxes w w' \<and> (\<forall>c. c_used (w_cookies w' c) = c_used (w_cookies w c) \<and>
     c_owner (w_cookies w' c) = c_owner (w_cookies w c))"

lemma keeps_refl [simp]: "keeps w w"
  by (simp add: keeps_def same_boxes_refl)

lemma keeps_trans: "keeps a b \<Longrightarrow> keeps b c \<Longrightarrow> keeps a c"
  by (simp add: keeps_def same_boxes_def)

lemma keeps_mem [simp]: "keeps w (w\<lparr>w_mem := m\<rparr>)"
  by (simp add: keeps_def same_boxes_mem)

lemma keeps_size: "keeps w w' \<Longrightarrow> w_size w' = w_size w"
  by (simp add: keeps_def same_boxes_def)

lemma same_boxes_in_play:
  assumes "same_boxes w w'" shows "in_play w' B = in_play w B"
proof -
  have "unmatched w' = unmatched w" "pending w' = pending w"
    using assms by (auto intro!: psum_cong simp: same_boxes_def)
  then show ?thesis by (simp add: in_play_def)
qed

lemma keeps_held:
  assumes "keeps w w'" "held_inv w B H" shows "held_inv w' B H"
proof -
  have s: "same_boxes w w'" using assms(1) by (simp add: keeps_def)
  have "box_inv w' B" using same_boxesD(4) [OF s] assms(2) by (simp add: held_inv_def)
  then show ?thesis
    using assms same_boxes_in_play [OF s, of B] by (simp add: held_inv_def keeps_def same_boxes_def)
qed

lemma keeps_notify: "keeps w (notify_done c err w)"
  using same_boxes_notify by (simp add: keeps_def notify_done_effect)

lemma keeps_count: "keeps w (upd_cookie c (\<lambda>k. k\<lparr>c_count := n k\<rparr>) w)"
  by (simp add: keeps_def same_boxes_cookie)

lemma write_keeps: "write_to_owner writev c buf iovec cnt seek skip w = Ret (w', err) \<Longrightarrow> keeps w w'"
  using keeps_trans [OF keeps_trans [OF keeps_count keeps_mem] keeps_notify] keeps_notify
  by (auto simp: write_to_owner_def Let_def split: if_splits prod.splits)

lemma read_keeps: "read_from_owner readv c buf iovec sz count0 seek skip w = Ret (w', err) \<Longrightarrow> keeps w w'"
  using keeps_trans [OF keeps_mem keeps_notify] keeps_notify
  by (auto simp: read_from_owner_def Let_def split: if_splits prod.splits)

lemma reduce_keeps: "reduce_with h p a b cnt ty w = Ret w' \<Longrightarrow> keeps w w'"
  by (auto simp: reduce_with_def and_then_Ret_iff)

section \<open>Requests that are created, joined and moved\<close>

lemma create_lists:
  assumes "create_request r k w = Ret (w1, c)"
  shows "unmatched_of (w_procs w1 s) = unmatched_of (w_procs w s)" "pending_of (w_procs w1 s) = pending_of (w_procs w s)"
    "w_size w1 = w_size w"
  using assms by (auto simp: create_request_def and_then_Ret_iff unmatched_of_def pending_of_def split: list.splits)

lemma held_create:
  assumes inv: "held_inv w B H" and r: "r < w_size w" and cr: "create_request r k w = Ret (w1, c)"
    and k: "c_used k = 1" "c_owner k = r"
  shows "held_inv w1 (add_mset c B) (add_mset c H)"
proof -
  note b = box_create [OF held_invD(1) [OF inv] r cr]
  have un: "unmatched w1 = unmatched w" using create_lists [OF cr] by (intro psum_cong)
  have ip: "in_play w1 (add_mset c B) = add_mset c (in_play w B)" by (simp add: in_play_def un b(7))
  have "c \<notin># unmatched w"
  proof -
    have "count (places w1 + add_mset c B) c \<le> 1" using b(1) by (simp only: box_inv_def)
    then show ?thesis using un by (simp add: places_def not_in_iff)
  qed
  then have new: "c \<notin># in_play w B" using b(2,3) by (simp add: in_play_def)
  then have cH: "c \<notin># H" using held_invD(2) [OF inv] by blast
  have "c_owner (w_cookies w1 x) = s" if s: "s < w_size w1" "x \<in># pending_of (w_procs w1 s)" for s x
  proof -
    have p: "x \<in># pending_of (w_procs w s)" "s < w_size w" using s create_lists [OF cr] by simp_all
    then have "x \<in># pending w" by (auto simp: in_psum)
    then have "x \<noteq> c" using b(3) by blast
    then show ?thesis using held_invD(5) [OF inv p(2,1)] b(6) by simp
  qed
  moreover have "c_used (w_cookies w1 x) = int (count (add_mset c H) x) \<and> c_owner (w_cookies w1 x) < w_size w1"
    if "x \<in># add_mset c (in_play w B)" for x
    using that new cH k r b(5,6) held_invD(3,4) [OF inv, of x] by (cases "x = c") (auto simp: not_in_iff)
  ultimately show ?thesis
    using b(1) held_invD(2) [OF inv] unfolding held_inv_def ip by auto
qed

lemma held_join:
  assumes inv: "held_inv w B H" and c: "c \<in># in_play w B" and n: "size H < 32767"
  shows "held_inv (cookie_join c w) B (add_mset c H)"
proof -
  let ?w = "cookie_join c w"
  have ip: "in_play ?w B = in_play w B" by (rule same_boxes_in_play [OF same_boxes_join])
  have "count H c \<le> size H" by (rule count_le_size)
  then have u: "c_used (w_cookies ?w c) = int (count H c) + 1"
    using held_invD(3) [OF inv c] n by (simp add: cookie_join_def to_i16_id)
  have f: "c_used (w_cookies ?w x) = (if x = c then int (count H c) + 1 else c_used (w_cookies w x))"
    "c_owner (w_cookies ?w x) = c_owner (w_cookies w x)" "w_size ?w = w_size w" "w_procs ?w = w_procs w" for x
    using u by (simp_all add: cookie_join_def)
  have "box_inv ?w B" using same_boxesD(4) [OF same_boxes_join] held_invD(1) [OF inv] by blast
  then show ?thesis
    using held_invD(2-5) [OF inv] c unfolding held_inv_def ip f by auto
qed

lemma held_pending:
  assumes inv: "held_inv w (add_mset c B) H"
  shows "held_inv (to_pending c w) B H"
proof -
  let ?r = "c_owner (w_cookies w c)" and ?w = "to_pending c w"
  have "c \<in># in_play w (add_mset c B)" by (simp add: in_play_def)
  from held_invD(4) [OF inv this] have r: "?r < w_size w" .
  note tp = to_pending_effect [OF r]
  have pr: "w_procs ?w = (w_procs w)(?r := (w_procs w ?r)\<lparr>pr_pending := c # pr_pending (w_procs w ?r)\<rparr>)"
    by (simp add: to_pending_def move_to_pending_def)
  have "unmatched ?w = unmatched w" using tp(3) by (intro psum_cong) (simp_all add: pr unmatched_of_def)
  then have ip: "in_play ?w B = in_play w (add_mset c B)" by (simp add: in_play_def tp(4))
  have "c_owner (w_cookies w x) = s" if "s < w_size w" "x \<in># pending_of (w_procs ?w s)" for s x
    using that held_invD(5) [OF inv, of s x] by (auto simp: pr pending_of_def split: if_splits)
  then show ?thesis
    using inv unfolding held_inv_def ip tp(1,3,5) by auto
qed

text \<open>A request that is given up; its owner recycles those that nobody holds any more.\<close>

lemma held_leave:
  assumes inv: "held_inv w B H" and c: "c \<in># H" and n: "size H \<le> 32767"
  shows "\<exists>w'. cookie_leave c w = Ret w' \<and> held_inv w' B (H - {#c#}) \<and> w_mem w' = w_mem w \<and> w_size w' = w_size w \<and>
    w_cookies w' = (w_cookies w)(c := (w_cookies w c)\<lparr>c_used := int (count H c) - 1\<rparr>) \<and>
    unmatched w' = unmatched w \<and> pending w' \<subseteq># pending w \<and> (count H c = 1 \<longrightarrow> c \<notin># pending w')"
proof -
  let ?r = "c_owner (w_cookies w c)"
  define k where "k = (w_cookies w c)\<lparr>c_used := to_i16 (c_used (w_cookies w c) - 1)\<rparr>"
  define unused where "unused = (\<lambda>x. c_used (((w_cookies w)(c := k)) x) = 0)"
  have ip: "c \<in># in_play w B" by (rule held_invD(2) [OF inv c])
  have r: "?r < w_size w" by (rule held_invD(4) [OF inv ip])
  obtain w' where fin: "finalize ?r c w = Ret w'" using finalize_total [OF held_invD(1) [OF inv] r] by blast
  note f = finalize_effect [OF held_invD(1) [OF inv] r fin, folded k_def, folded unused_def]
  have cnt: "count H c \<le> size H" "0 < count H c" using c by (simp_all add: count_le_size)
  have k': "k = (w_cookies w c)\<lparr>c_used := int (count H c) - 1\<rparr>"
    using held_invD(3) [OF inv ip] cnt n by (simp add: k_def to_i16_id)
  have used: "c_used (((w_cookies w)(c := k)) x) = int (count (H - {#c#}) x)" if "x \<in># in_play w B" for x
    using held_invD(3) [OF inv that] cnt(2) by (auto simp: k')
  have play: "in_play w B = in_play w' B + mset (filter unused (pr_pending (w_procs w ?r)))"
    using f(5,6) by (simp add: in_play_def ac_simps)
  have gone: "count (H - {#c#}) x = 0" if "x \<in># in_play w B" "x \<notin># in_play w' B" for x
  proof -
    have "x \<in># mset (filter unused (pr_pending (w_procs w ?r)))" using that unfolding play by auto
    then have "unused x" by simp
    then show ?thesis using used [OF that(1)] by (simp add: unused_def)
  qed
  obtain fs where pr: "w_procs w' = (w_procs w)(?r := (w_procs w ?r)\<lparr>pr_pending :=
      filter (\<lambda>x. \<not> unused x) (pr_pending (w_procs w ?r)), pr_free := fs\<rparr>)"
    using f(7) unfolding unused_def by blast
  have H: "x \<in># in_play w' B" if x: "x \<in># H - {#c#}" for x
  proof (rule ccontr)
    assume out: "x \<notin># in_play w' B"
    have "x \<in># in_play w B" by (rule held_invD(2) [OF inv in_diffD [OF x]])
    from gone [OF this out] x show False by (metis count_eq_zero_iff)
  qed
  have own: "c_owner (w_cookies w' x) = c_owner (w_cookies w x)" for x using f(3) by (simp add: k_def)
  have pend: "c_owner (w_cookies w x) = s" if "s < w_size w" "x \<in># pending_of (w_procs w' s)" for s x
    using that held_invD(5) [OF inv, of s x] by (auto simp: pr pending_of_def split: if_splits)
  have "held_inv w' B (H - {#c#})"
    unfolding held_inv_def
  proof (intro conjI allI impI)
    show "set_mset (H - {#c#}) \<subseteq> set_mset (in_play w' B)" using H by blast
    fix x assume x: "x \<in># in_play w' B"
    then have "x \<in># in_play w B" unfolding play by simp
    then show "c_used (w_cookies w' x) = int (count (H - {#c#}) x)" "c_owner (w_cookies w' x) < w_size w'"
      using used [of x] held_invD(4) [OF inv, of x] own f(1,3) by simp_all
  qed (use f(1,4) own pend in simp_all)
  moreover have "c \<notin># pending w'" if "count H c = 1"
  proof
    assume p: "c \<in># pending w'"
    then have cw: "c \<in># pending w" using f(6) by simp
    then obtain s where s: "s < w_size w" "c \<in># pending_of (w_procs w s)" by (auto simp: in_psum)
    have "?r = s" by (rule held_invD(5) [OF inv s])
    then have "c \<in># mset (filter unused (pr_pending (w_procs w ?r)))"
      using s that used [OF ip] by (simp add: pending_of_def unused_def)
    then have "0 < count (mset (filter unused (pr_pending (w_procs w ?r)))) c" "0 < count (pending w') c"
      using p by (simp_all only: count_greater_zero_iff)
    then have "2 \<le> count (pending w) c" unfolding f(6) count_union by linarith
    moreover have "count (pending w) c \<le> 1"
    proof -
      have "count (places w + B) c \<le> 1" using held_invD(1) [OF inv] by (simp only: box_inv_def)
      then show ?thesis by (simp add: places_def)
    qed
    ultimately show False by simp
  qed
  moreover have "cookie_leave c w = Ret w'" using fin by (simp add: cookie_leave_def)
  moreover have "pending w' \<subseteq># pending w" unfolding f(6) by simp
  ultimately show ?thesis using f(1-3,5) k' by blast
qed

section \<open>One slot\<close>

text \<open>\<open>B\<close> are the requests in the other boxes and in local lists.\<close>

definition slot_held :: "nat \<Rightarrow> cid multiset \<Rightarrow> cid multiset \<Rightarrow> cworld \<Rightarrow> bool" where
  "slot_held i B H s \<longleftrightarrow> held_inv (cw_world s) (mset (k_box (cw_slots s i)) + B) H"

definition only_slot :: "nat \<Rightarrow> cworld \<Rightarrow> cworld \<Rightarrow> bool" where
  "only_slot i s s' \<longleftrightarrow> w_size (cw_world s') = w_size (cw_world s) \<and> (\<forall>j. j \<noteq> i \<longrightarrow> cw_slots s' j = cw_slots s j)"

text \<open>What a member does when it returns \<^verbatim>\<open>MPI_SUCCESS\<close>: it gives one request to the caller.\<close>

definition gives :: "nat \<Rightarrow> cid multiset \<Rightarrow> cid multiset \<Rightarrow> cworld \<Rightarrow> started \<Rightarrow> bool" where
  "gives i B H s res \<longleftrightarrow> (\<forall>s' c. res = Ret (s', MPI_SUCCESS, c) \<longrightarrow>
     (\<exists>d. c = Some d \<and> slot_held i B (add_mset d H) s' \<and> only_slot i s s'))"

lemma only_slot_refl [simp]: "only_slot i s s"
  by (simp add: only_slot_def)

lemma only_slot_trans: "only_slot i a b \<Longrightarrow> only_slot i b c \<Longrightarrow> only_slot i a c"
  by (simp add: only_slot_def)

lemma only_slot_steps [simp]:
  "only_slot i s (upd_slot i f s') \<longleftrightarrow> only_slot i s s'" "only_slot i s (unlock i s') \<longleftrightarrow> only_slot i s s'"
  "only_slot i s (set_world w s') \<longleftrightarrow> w_size w = w_size (cw_world s) \<and> (\<forall>j. j \<noteq> i \<longrightarrow> cw_slots s' j = cw_slots s j)"
  by (simp_all add: only_slot_def unlock_def upd_slot_def set_world_def)

lemma only_slotD: "only_slot i s s' \<Longrightarrow> w_size (cw_world s') = w_size (cw_world s)" "only_slot i s s' \<Longrightarrow> j \<noteq> i \<Longrightarrow> cw_slots s' j = cw_slots s j"
  by (simp_all add: only_slot_def)

lemma slot_held_unlock [simp]: "slot_held i B H (unlock i s) \<longleftrightarrow> slot_held i B H s"
  by (simp add: slot_held_def)

lemma slot_held_world: "keeps (cw_world s) w \<Longrightarrow> slot_held i B H s \<Longrightarrow> slot_held i B H (set_world w s)"
  by (simp add: slot_held_def keeps_held)

lemma slot_held_upd: "(\<And>k. k_box (f k) = k_box k) \<Longrightarrow> slot_held i B H (upd_slot i f s) \<longleftrightarrow> slot_held i B H s"
  by (simp add: slot_held_def)

lemma copy_in_keeps: "slot_held i B H s \<Longrightarrow> slot_held i B H (copy_in h u a ty m k b ty' m' k' s)"
  by (simp add: copy_in_def slot_held_world)

lemma copy_in_only [simp]: "only_slot i s (copy_in h u a ty m k b ty' m' k' s') \<longleftrightarrow> only_slot i s s'"
  by (simp add: copy_in_def only_slot_def)

lemma gives_Ret [simp]:
  "gives i B H s (Ret (s', ret, c)) \<longleftrightarrow> (ret = MPI_SUCCESS \<longrightarrow> (\<exists>d. c = Some d \<and> slot_held i B (add_mset d H) s' \<and> only_slot i s s'))"
  "gives i B H s Undef" "gives i B H s Block" "gives i B H s (Exit n)"
  by (auto simp: gives_def)

lemma gives_and_then: "(\<And>x. r = Ret x \<Longrightarrow> gives i B H s (f x)) \<Longrightarrow> gives i B H s (and_then r f)"
  by (cases r) simp_all

lemma gives_from: "only_slot i s0 s \<Longrightarrow> gives i B H s res \<Longrightarrow> gives i B H s0 res"
  unfolding gives_def using only_slot_trans by blast

lemma created_held:
  assumes st: "slot_held i B H s" and u: "u_rank u < w_size (cw_world s)"
    and cr: "collect_create u i buf ty sz cnt num s = Ret (s', c)"
  shows "slot_held i B (add_mset c H) s'" "only_slot i s s'"
proof -
  let ?k = "mk_cookie (u_rank u) buf ty sz cnt (int (u_rank u)) UMPI_TAG_CC num"
  obtain w where w: "create_request (u_rank u) ?k (cw_world s) = Ret (w, c)"
    "s' = upd_slot i (\<lambda>k. k\<lparr>k_box := k_box k @ [c]\<rparr>) (set_world w s)"
    using cr by (auto simp: collect_create_def and_then_Ret_iff)
  have "held_inv w (add_mset c (mset (k_box (cw_slots s i)) + B)) (add_mset c H)"
    by (rule held_create [OF st [unfolded slot_held_def] u w(1)]) (simp_all add: mk_cookie_def)
  then show "slot_held i B (add_mset c H) s'" by (simp add: slot_held_def w(2))
  show "only_slot i s s'" using create_lists(3) [OF w(1)] by (simp add: w(2))
qed

text \<open>The caller's own request, put at the back of the box.\<close>

lemma gives_create:
  assumes "slot_held i B H s" "u_rank u < w_size (cw_world s)"
  shows "gives i B H s (and_then (collect_create u i buf ty sz cnt num s) (\<lambda>(s1, c). Ret (unlock i s1, MPI_SUCCESS, Some c)))"
  using created_held [OF assms] by (intro gives_and_then) auto

section \<open>Joining a request in the box\<close>

lemma box_in_play: "c \<in> set (k_box (cw_slots s i)) \<Longrightarrow> c \<in># in_play (cw_world s) (mset (k_box (cw_slots s i)) + B)"
  by (simp add: in_play_def)

lemma late_joined:
  assumes st: "slot_held i B H s" and n: "size H < 32767" and lj: "late_join u i root s = Some (s1, c)"
  shows "slot_held i B (add_mset c H) s1" "only_slot i s s1"
proof -
  obtain cs where box: "k_box (cw_slots s i) = c # cs" using lj by (auto simp: late_join_def Let_def split: list.splits if_splits)
  let ?w = "cookie_join c (cw_world s)"
  have "c \<in># in_play (cw_world s) (mset (k_box (cw_slots s i)) + B)" using box by (intro box_in_play) simp
  from held_join [OF st [unfolded slot_held_def] this n]
  have j: "held_inv ?w (mset (k_box (cw_slots s i)) + B) (add_mset c H)" .
  have "held_inv (to_pending c ?w) (mset cs + B) (add_mset c H)"
    using j by (intro held_pending) (simp add: box)
  moreover have "w_size ?w = w_size (cw_world s)" "w_size (to_pending c ?w) = w_size (cw_world s)"
    by (simp_all add: cookie_join_def to_pending_def move_to_pending_def)
  ultimately show "slot_held i B (add_mset c H) s1" "only_slot i s s1"
    using lj j box by (auto simp: late_join_def Let_def slot_held_def split: if_splits)
qed

lemma gives_late:
  assumes st: "slot_held i B H s" and u: "u_rank u < w_size (cw_world s)" and n: "size H < 32767"
    and T: "\<And>s1 c. slot_held i B (add_mset c H) s1 \<Longrightarrow> only_slot i s s1 \<Longrightarrow> gives i B H s (T s1 c)"
  shows "gives i B H s (case late_join u i root s of Some (s1, c) \<Rightarrow> T s1 c
    | None \<Rightarrow> and_then (collect_create u i buf ty sz cnt num s) (\<lambda>(s1, c). Ret (unlock i s1, MPI_SUCCESS, Some c)))"
  using gives_create [OF st u] late_joined [OF st n] T by (auto split: option.split)

text \<open>A transfer that follows.\<close>

lemma gives_transfer:
  assumes "slot_held i B (add_mset c H) s1" "only_slot i s s1" "\<And>w ret. t = Ret (w, ret) \<Longrightarrow> keeps (cw_world s1) w"
  shows "gives i B H s (finish_with (Some c) s1 t)"
  unfolding finish_with_def
proof (intro gives_and_then)
  fix x assume x: "t = Ret x"
  obtain w ret where "x = (w, ret)" by (cases x)
  then have "keeps (cw_world s1) w" using assms(3) x by simp
  then show "gives i B H s (case x of (w, ret) \<Rightarrow> Ret (set_world w s1, ret, Some c))"
    using assms(1,2) slot_held_world [of s1 w i B "add_mset c H"] keeps_size [of "cw_world s1" w] \<open>x = (w, ret)\<close>
    by (auto simp: only_slot_def)
qed

section \<open>Taking the whole box\<close>

lemma todo_held:
  assumes f: "\<And>c w w' ret. f c w = Ret (w', ret) \<Longrightarrow> keeps w w'"
  shows "held_inv w (mset cs + B) H \<Longrightarrow> todo_loop f cs w = Ret (w', MPI_SUCCESS) \<Longrightarrow> held_inv w' B H \<and> w_size w' = w_size w"
proof (induction cs arbitrary: w)
  case (Cons c cs)
  have p: "held_inv (to_pending c w) (mset cs + B) H" using Cons.prems(1) by (intro held_pending) simp
  obtain w1 where w1: "f c (to_pending c w) = Ret (w1, 0)" "todo_loop f cs w1 = Ret (w', MPI_SUCCESS)"
    using Cons.prems(2) by (auto simp: and_then_Ret_iff mpi_consts split: if_splits)
  have k: "keeps (to_pending c w) w1" by (rule f [OF w1(1)])
  from Cons.IH [OF keeps_held [OF k p] w1(2)] show ?case
    using keeps_size [OF k] by (simp add: to_pending_def move_to_pending_def)
qed auto

lemma gives_todo:
  assumes h: "held_inv (cw_world s1) (mset todo + (mset (k_box (cw_slots s1 i)) + B)) (add_mset c H)" and o': "only_slot i s s1"
    and f: "\<And>c w w' ret. f c w = Ret (w', ret) \<Longrightarrow> keeps w w'"
  shows "gives i B H s (finish_with (Some c) s1 (todo_loop f todo (cw_world s1)))"
  unfolding gives_def finish_with_def
proof (intro allI impI)
  fix s' c'
  assume "and_then (todo_loop f todo (cw_world s1)) (\<lambda>(w, ret). Ret (set_world w s1, ret, Some c)) = Ret (s', MPI_SUCCESS, c')"
  then obtain w where w: "todo_loop f todo (cw_world s1) = Ret (w, MPI_SUCCESS)" "s' = set_world w s1" "c' = Some c"
    by (auto simp: and_then_Ret_iff)
  have "held_inv w (mset (k_box (cw_slots s1 i)) + B) (add_mset c H) \<and> w_size w = w_size (cw_world s1)"
    by (rule todo_held [OF f h w(1)])
  then show "\<exists>d. c' = Some d \<and> slot_held i B (add_mset d H) s' \<and> only_slot i s s'"
    using w(2,3) o' by (simp add: slot_held_def only_slot_def)
qed

lemma root_started:
  assumes st: "slot_held i B H s" and u: "u_rank u < w_size (cw_world s)" and n: "size H < 32767"
    and rs: "root_start u i buf ty sz cnt s = Ret (s1, c, todo)"
  shows "held_inv (cw_world s1) (mset todo + (mset (k_box (cw_slots s1 i)) + B)) (add_mset c H)" "only_slot i s s1"
proof -
  let ?b = "k_box (cw_slots s i)" and ?s0 = "upd_slot i (\<lambda>k. k\<lparr>k_box := []\<rparr>) s"
  have h: "held_inv (cw_world s) (mset ?b + B) H" using st by (simp add: slot_held_def)
  have "held_inv (cw_world s1) (mset todo + (mset (k_box (cw_slots s1 i)) + B)) (add_mset c H) \<and> only_slot i s s1"
  proof (cases "joined_last u (cw_slots ?s0 i)")
    case True
    then have l: "?b \<noteq> []" "c = last ?b" "todo = ?b" "s1 = unlock i (set_world (cookie_join c (cw_world s)) ?s0)"
      using rs by (auto simp: root_start_def take_box_def Let_def split: if_splits)
    have "c \<in># in_play (cw_world s) (mset ?b + B)" using l(1,2) by (intro box_in_play) simp
    from held_join [OF h this n] show ?thesis by (simp add: l(3,4) cookie_join_def upd_slot_def)
  next
    case False
    then obtain s2 where s2: "collect_create u i buf ty sz cnt (u_size u - k_joined (cw_slots ?s0 i)) ?s0 = Ret (s2, c)"
      "s1 = unlock i s2" "todo = ?b"
      using rs by (auto simp: root_start_def take_box_def Let_def and_then_Ret_iff)
    have "slot_held i (mset ?b + B) H ?s0" using h by (simp add: slot_held_def)
    from created_held [OF this _ s2(1)] u show ?thesis
      by (simp add: s2(2,3) slot_held_def ac_simps only_slot_def upd_slot_def unlock_def)
  qed
  then show "held_inv (cw_world s1) (mset todo + (mset (k_box (cw_slots s1 i)) + B)) (add_mset c H)" "only_slot i s s1" by blast+
qed

lemma gives_root:
  assumes "slot_held i B H s" "u_rank u < w_size (cw_world s)" "size H < 32767" "\<And>c w w' ret. f c w = Ret (w', ret) \<Longrightarrow> keeps w w'"
  shows "gives i B H s (and_then (root_start u i buf ty sz cnt s) (\<lambda>(s1, c, todo). finish_with (Some c) s1 (todo_loop f todo (cw_world s1))))"
proof (intro gives_and_then)
  fix x assume x: "root_start u i buf ty sz cnt s = Ret x"
  obtain s1 c todo where "x = (s1, c, todo)" by (cases x)
  then show "gives i B H s (case x of (s1, c, todo) \<Rightarrow> finish_with (Some c) s1 (todo_loop f todo (cw_world s1)))"
    using gives_todo [OF root_started [OF assms(1-3)] assms(4)] x by simp
qed

section \<open>The members with a root\<close>

lemma gives_rooted:
  assumes "slot_held i B H s" "u_rank u < w_size (cw_world s)" "size H < 32767"
  shows "gives i B H s (bcast_request h u i buf cnt ty root s)" "gives i B H s (root_bcast_request h u i buf cnt ty s)"
    "gives i B H s (gather_request h u i buf cnt ty root s)" "gives i B H s (root_gather_request h u i buf cnt ty s)"
    "gives i B H s (gatherv_request h u i buf cnt ty root s)" "gives i B H s (root_gatherv_request h u i buf rcs dis ty s)"
    "gives i B H s (scatter_request h u i buf cnt ty root s)" "gives i B H s (root_scatter_request h u i buf cnt ty s)"
proof -
  note l = gives_late [OF assms] and r = gives_root [OF assms] and t = gives_transfer
  show "gives i B H s (bcast_request h u i buf cnt ty root s)"
    unfolding bcast_request_def by (intro l t) (auto dest: read_keeps)
  show "gives i B H s (gather_request h u i buf cnt ty root s)"
    unfolding gather_request_def by (intro l t) (auto dest: write_keeps)
  show "gives i B H s (gatherv_request h u i buf cnt ty root s)"
    unfolding gatherv_request_def by (intro l) (auto intro!: t dest: write_keeps)
  show "gives i B H s (scatter_request h u i buf cnt ty root s)"
    unfolding scatter_request_def by (intro l t) (auto dest: read_keeps)
  show "gives i B H s (root_bcast_request h u i buf cnt ty s)" "gives i B H s (root_scatter_request h u i buf cnt ty s)"
    unfolding root_bcast_request_def root_scatter_request_def by (intro r; erule write_keeps)+
  show "gives i B H s (root_gather_request h u i buf cnt ty s)"
    unfolding root_gather_request_def by (intro r) (erule read_keeps)
  let ?s = "upd_slot i (\<lambda>k. k\<lparr>k_displs := take (nat (u_size u)) dis\<rparr>) s"
  have "slot_held i B H ?s" "u_rank u < w_size (cw_world ?s)" using assms by (simp_all add: slot_held_upd)
  note r' = gives_from [OF _ gives_root [OF this assms(3)], of s]
  show "gives i B H s (root_gatherv_request h u i buf rcs dis ty s)"
    unfolding root_gatherv_request_def Let_def by (auto intro!: r' dest: read_keeps)
qed

section \<open>The other members\<close>

lemma box_taken:
  assumes "slot_held i B H s" "take_box i s = (s1, todo)"
  shows "held_inv (cw_world s1) (mset todo + (mset (k_box (cw_slots s1 i)) + B)) H" "only_slot i s s1" "todo = k_box (cw_slots s i)"
  using assms by (auto simp: take_box_def slot_held_def)

text \<open>The last rank of an allgather takes the box, joins its first request, reads it and serves the others.\<close>

lemma gives_allgather_last:
  assumes st: "slot_held i B H s1" and o': "only_slot i s s1" and box: "k_box (cw_slots s1 i) = front # cs" and n: "size H < 32767"
  shows "gives i B H s (let (s2, todo) = take_box i s1; first = hd todo; s3 = unlock i (set_world (cookie_join first (cw_world s2)) s2)
    in and_then (read_from_owner readv first dst ty m m 0 0 (to_pending first (cw_world s3))) (\<lambda>(w4, _).
         finish_with (Some first) s3 (todo_loop (\<lambda>c. write_to_owner writev c dst ty m 0 0) (tl todo) w4)))"
proof -
  let ?w = "cw_world s1" and ?f = "\<lambda>c. write_to_owner writev c dst ty m 0 0"
  define s3 where "s3 = unlock i (set_world (cookie_join front ?w) (upd_slot i (\<lambda>k. k\<lparr>k_box := []\<rparr>) s1))"
  have "held_inv ?w (mset (front # cs) + B) H" using st box by (simp add: slot_held_def)
  moreover have "front \<in># in_play ?w (mset (front # cs) + B)" by (simp add: in_play_def)
  ultimately have "held_inv (cookie_join front ?w) (mset (front # cs) + B) (add_mset front H)" using n by (intro held_join)
  then have p: "held_inv (to_pending front (cookie_join front ?w)) (mset cs + B) (add_mset front H)"
    by (intro held_pending) simp
  have "gives i B H s (and_then (read_from_owner readv front dst ty m m 0 0 (to_pending front (cw_world s3)))
      (\<lambda>(w4, _). finish_with (Some front) s3 (todo_loop ?f cs w4)))"
  proof (intro gives_and_then, clarify)
    fix w4 ret4 assume "read_from_owner readv front dst ty m m 0 0 (to_pending front (cw_world s3)) = Ret (w4, ret4)"
    then have k4: "keeps (to_pending front (cookie_join front ?w)) w4" by (auto simp: s3_def dest: read_keeps)
    have w4: "held_inv (cw_world (set_world w4 s3)) (mset cs + (mset (k_box (cw_slots (set_world w4 s3) i)) + B)) (add_mset front H)"
      "only_slot i s (set_world w4 s3)"
      using keeps_held [OF k4 p] keeps_size [OF k4] o'
      by (simp_all add: s3_def to_pending_def move_to_pending_def cookie_join_def only_slot_def unlock_def upd_slot_def)
    have "finish_with (Some front) s3 t = finish_with (Some front) (set_world w4 s3) t" for t
      by (simp add: finish_with_def set_world_def)
    then show "gives i B H s (finish_with (Some front) s3 (todo_loop ?f cs w4))"
      using gives_todo [OF w4, of ?f] write_keeps by auto
  qed
  then show ?thesis using box by (simp add: Let_def take_box_def s3_def)
qed

lemma gives_allgather:
  assumes st: "slot_held i B H s" and u: "u_rank u < w_size (cw_world s)" and n: "size H < 32767"
  shows "gives i B H s (allgather_request h u i sendbuf sendcount sendtype recvbuf recvcount recvtype s)"
proof (cases "joined_first (cw_slots s i)")
  case True
  define s1 where "s1 = (if sendbuf = h_in_place h then s else copy_in h u (Priv (u_rank u), sendbuf) (the sendtype) sendcount 0
      (Priv (u_rank u), recvbuf) recvtype recvcount (int (u_rank u) * recvcount) s)"
  have s1: "slot_held i B H s1" "u_rank u < w_size (cw_world s1)" "only_slot i s s1"
    using st u copy_in_keeps [OF st] by (simp_all add: s1_def copy_in_def)
  show ?thesis
    using True gives_from [OF s1(3) gives_create [OF s1(1,2)]] by (simp add: allgather_request_def Let_def s1_def)
next
  case False
  show ?thesis
  proof (cases "k_box (cw_slots s i)")
    case Nil
    then show ?thesis using False by (simp add: allgather_request_def)
  next
    case (Cons front cs)
    let ?r = "Priv (u_rank u)" and ?seek = "c_count (cookie_at s front) * int (u_rank u)"
    let ?tr = "if sendbuf = h_in_place h
      then write_to_owner (h_writev h) front (?r, recvbuf) recvtype recvcount ?seek (recvcount * int (u_rank u)) (cw_world s)
      else write_to_owner (h_writev h) front (?r, sendbuf) (the sendtype) sendcount ?seek 0 (cw_world s)"
    let ?rest = "\<lambda>w1 ret. let s1 = set_world w1 s
        in if ret \<noteq> 0 then Ret (s1, ret, None)
           else if \<not> joined_last u (cw_slots s1 i)
           then and_then (collect_create u i recvbuf recvtype (recvcount * u_size u) recvcount 1 s1) (\<lambda>(s2, c). Ret (unlock i s2, MPI_SUCCESS, Some c))
           else let (s2, todo) = take_box i s1; first = hd todo; s3 = unlock i (set_world (cookie_join first (cw_world s2)) s2)
                in and_then (read_from_owner (h_readv h) first (?r, recvbuf) recvtype (recvcount * u_size u) (recvcount * u_size u) 0 0
                     (to_pending first (cw_world s3))) (\<lambda>(w4, _).
                       finish_with (Some first) s3 (todo_loop (\<lambda>c. write_to_owner (h_writev h) c (?r, recvbuf) recvtype (recvcount * u_size u) 0 0)
                         (tl todo) w4))"
    have "gives i B H s (and_then ?tr (\<lambda>(w1, ret). ?rest w1 ret))"
    proof (intro gives_and_then, clarify)
      fix w1 ret assume "?tr = Ret (w1, ret)"
      then have k: "keeps (cw_world s) w1" by (auto dest: write_keeps split: if_splits)
      let ?s1 = "set_world w1 s"
      have s1: "slot_held i B H ?s1" "u_rank u < w_size (cw_world ?s1)" "only_slot i s ?s1" "k_box (cw_slots ?s1 i) = front # cs"
        using slot_held_world [OF k st] u keeps_size [OF k] Cons by simp_all
      show "gives i B H s (?rest w1 ret)"
        using gives_from [OF s1(3) gives_create [OF s1(1,2)]] gives_allgather_last [OF s1(1,3,4) n] by (simp add: Let_def mpi_consts)
    qed
    then show ?thesis
      using False Cons unfolding allgather_request_def by (simp add: Let_def)
  qed
qed

text \<open>Allreduce: the combination changes memory and the description of the partial result only.\<close>

lemma set_partial_held:
  "slot_held i B H s \<Longrightarrow> slot_held i B H (set_partial i ty cnt s)" "only_slot i s (set_partial i ty cnt s') \<longleftrightarrow> only_slot i s s'"
  by (simp_all add: set_partial_def slot_held_upd)

lemma reduced_held:
  assumes "slot_held i B H s" "and_then (in_world s (reduce_with h p a b cnt ty (cw_world s))) f = Ret x"
  shows "\<exists>s1. f s1 = Ret x \<and> slot_held i B H s1 \<and> only_slot i s s1 \<and> k_box (cw_slots s1 i) = k_box (cw_slots s i) \<and>
    k_joined (cw_slots s1 i) = k_joined (cw_slots s i)"
proof -
  obtain w where w: "reduce_with h p a b cnt ty (cw_world s) = Ret w" "f (set_world w s) = Ret x"
    using assms(2) by (auto simp: in_world_def and_then_Ret_iff)
  have "keeps (cw_world s) w" by (rule reduce_keeps [OF w(1)])
  then show ?thesis
    using w(2) slot_held_world [OF _ assms(1)] keeps_size by (intro exI [of _ "set_world w s"]) simp
qed

lemma combine_held:
  assumes st: "slot_held i B H s" and c: "allreduce_combine h u i sendbuf recvbuf cnt ty p s = Ret (s1, MPI_SUCCESS)"
  shows "slot_held i B H s1 \<and> only_slot i s s1"
proof -
  let ?k = "cw_slots s i" and ?r = "Priv (u_rank u)"
  let ?sb = "(Shm, k_sendbuf ?k)" and ?rb = "(Shm, k_recvbuf ?k)"
  have two: "slot_held i B H (copy_in h u a ty1 m k b ty2 m' k' s) \<and> only_slot i s (copy_in h u a ty1 m k b ty2 m' k' s)" for a ty1 m k b ty2 m' k'
    using copy_in_keeps [OF st] by simp
  show ?thesis
  proof (cases "sendbuf = h_in_place h")
    case True
    let ?s1 = "copy_in h u ?sb (k_iovec ?k) (k_count ?k) 0 ?rb ty cnt 0 s"
    have s1: "slot_held i B H ?s1" "only_slot i s ?s1" using two by blast+
    consider (first) "joined_first ?k" | (middle) "\<not> joined_first ?k" "\<not> joined_last u ?k" | (last) "\<not> joined_first ?k" "joined_last u ?k"
      by blast
    then show ?thesis
    proof cases
      case first
      then show ?thesis
        using c True set_partial_held(1) [OF st] copy_in_keeps by (auto simp: allreduce_combine_def Let_def set_partial_held(2))
    next
      case middle
      then have "and_then (in_world ?s1 (reduce_with h p (?r, recvbuf) ?rb cnt ty (cw_world ?s1)))
          (\<lambda>s2. Ret (copy_in h u ?rb ty cnt 0 ?sb ty cnt 0 (set_partial i ty cnt s2), MPI_SUCCESS)) = Ret (s1, MPI_SUCCESS)"
        using c True by (simp add: allreduce_combine_def Let_def)
      from reduced_held [OF s1(1) this] obtain s2 where "Ret (copy_in h u ?rb ty cnt 0 ?sb ty cnt 0 (set_partial i ty cnt s2), MPI_SUCCESS) = Ret (s1, MPI_SUCCESS)"
        "slot_held i B H s2" "only_slot i ?s1 s2" by blast
      then show ?thesis using only_slot_trans [OF s1(2)] copy_in_keeps set_partial_held by auto
    next
      case last
      then have "and_then (in_world ?s1 (reduce_with h p ?rb (?r, recvbuf) cnt ty (cw_world ?s1))) (\<lambda>s2. Ret (s2, MPI_SUCCESS)) = Ret (s1, MPI_SUCCESS)"
        using c True by (simp add: allreduce_combine_def Let_def)
      from reduced_held [OF s1(1) this] show ?thesis using only_slot_trans [OF s1(2)] by auto
    qed
  next
    case False
    show ?thesis
    proof (cases "joined_first ?k")
      case True
      then show ?thesis using c False two by (auto simp: allreduce_combine_def Let_def)
    next
      case later: False
      have ne: "k_box ?k \<noteq> []" using c False later by (auto simp: allreduce_combine_def Let_def)
      then obtain w1 where w1: "read_from_owner (h_readv h) (last (k_box ?k)) (?r, recvbuf) ty cnt cnt 0 0 (cw_world s) = Ret (w1, MPI_SUCCESS)"
        "and_then (in_world s (reduce_with h p (?r, sendbuf) (?r, recvbuf) cnt ty w1)) (\<lambda>s2. Ret (s2, MPI_SUCCESS)) = Ret (s1, MPI_SUCCESS)"
        using c False later by (auto simp: allreduce_combine_def Let_def and_then_Ret_iff mpi_consts split: if_splits)
      have k: "keeps (cw_world s) w1" by (rule read_keeps [OF w1(1)])
      obtain w2 where w2: "reduce_with h p (?r, sendbuf) (?r, recvbuf) cnt ty w1 = Ret w2" "s1 = set_world w2 s"
        using w1(2) by (auto simp: in_world_def and_then_Ret_iff)
      have "keeps (cw_world s) w2" by (rule keeps_trans [OF k reduce_keeps [OF w2(1)]])
      then show ?thesis using slot_held_world [OF _ st] keeps_size w2(2) by simp
    qed
  qed
qed

lemma gives_allreduce:
  assumes st: "slot_held i B H s" and u: "u_rank u < w_size (cw_world s)" and n: "size H < 32767"
  shows "gives i B H s (allreduce_request h u i sendbuf recvbuf cnt ty p s)"
  unfolding allreduce_request_def
proof (intro gives_and_then, clarify)
  fix s1 ret assume c: "allreduce_combine h u i sendbuf recvbuf cnt ty p s = Ret (s1, ret)"
  let ?busy = "if sendbuf = h_in_place h then 1 else 2 :: int"
  let ?f = "\<lambda>c. write_to_owner (h_writev h) c (Priv (u_rank u), recvbuf) ty cnt 0 0"
  show "gives i B H s (if ret \<noteq> 0 then Ret (s1, ret, None)
     else if \<not> joined_last u (cw_slots s1 i)
     then and_then (collect_create u i recvbuf ty cnt cnt ?busy s1) (\<lambda>(s2, c). Ret (unlock i s2, MPI_SUCCESS, Some c))
     else let (s2, todo) = take_box i s1
          in if todo = [] then Undef
             else let borrow = last todo; s3 = unlock i (set_world (cookie_join borrow (cw_world s2)) s2)
                  in finish_with (Some borrow) s3 (todo_loop ?f todo (cw_world s3)))"
  proof (cases "ret = 0")
    case True
    then have s1: "slot_held i B H s1" "only_slot i s s1" using combine_held [OF st] c by (auto simp: mpi_consts)
    then have u1: "u_rank u < w_size (cw_world s1)" using u by (simp add: only_slot_def)
    note create = gives_from [OF s1(2) gives_create [OF s1(1) u1]]
    show ?thesis
    proof (cases "k_box (cw_slots s1 i) = []")
      case False
      let ?b = "k_box (cw_slots s1 i)"
      let ?s3 = "unlock i (set_world (cookie_join (last ?b) (cw_world s1)) (upd_slot i (\<lambda>k. k\<lparr>k_box := []\<rparr>) s1))"
      have "held_inv (cookie_join (last ?b) (cw_world s1)) (mset ?b + B) (add_mset (last ?b) H)"
        using s1(1) n box_in_play [of "last ?b" s1 i B] False unfolding slot_held_def by (intro held_join) simp_all
      then have "held_inv (cw_world ?s3) (mset ?b + (mset (k_box (cw_slots ?s3 i)) + B)) (add_mset (last ?b) H)" by simp
      moreover have "only_slot i s ?s3" using s1(2) by (simp add: cookie_join_def upd_slot_def only_slot_def unlock_def)
      ultimately have "gives i B H s (finish_with (Some (last ?b)) ?s3 (todo_loop ?f ?b (cw_world ?s3)))"
        using gives_todo [where f = ?f] write_keeps by blast
      then show ?thesis using create by (simp add: Let_def take_box_def True)
    qed (use create True in \<open>simp add: Let_def take_box_def\<close>)
  qed (simp add: mpi_consts)
qed

section \<open>Scans\<close>

lemma loops_held:
  "held_inv w (mset cs + B) H \<Longrightarrow> exscan_loop h p sb rb cnt ty cs w = Ret (w', MPI_SUCCESS) \<Longrightarrow> held_inv w' B H \<and> w_size w' = w_size w"
  "held_inv w (mset cs + B) H \<Longrightarrow> scan_loop h p sb rb cnt ty cs w = Ret (w', MPI_SUCCESS) \<Longrightarrow> held_inv w' B H \<and> w_size w' = w_size w"
proof -
  have step: "held_inv w2 (mset cs + B) H \<and> w_size w2 = w_size w"
    if "held_inv w (mset (c # cs) + B) H" "keeps (to_pending c w) w2" for c cs w w2
  proof -
    have "held_inv (to_pending c w) (mset cs + B) H" using that(1) by (intro held_pending) simp
    from keeps_held [OF that(2) this] keeps_size [OF that(2)] show ?thesis by (simp add: to_pending_def move_to_pending_def)
  qed
  have drop: "drop_todo cs ret w \<noteq> Ret (w', MPI_SUCCESS)" if "ret \<noteq> 0" for cs ret w
    using that by (auto simp: drop_todo_def and_then_Ret_iff mpi_consts)
  show "held_inv w (mset cs + B) H \<Longrightarrow> exscan_loop h p sb rb cnt ty cs w = Ret (w', MPI_SUCCESS) \<Longrightarrow> held_inv w' B H \<and> w_size w' = w_size w"
  proof (induction cs arbitrary: w)
    case (Cons c cs)
    let ?red = "\<lambda>w. if cs \<noteq> [] then reduce_with h p rb sb cnt ty w else Ret w"
    obtain w1 r1 where 1: "read_from_owner (h_readv h) c rb ty cnt 0 0 0 (to_pending c w) = Ret (w1, r1)"
      "(if r1 \<noteq> 0 then drop_todo cs r1 w1 else and_then (write_to_owner (h_writev h) c sb ty cnt 0 0 w1) (\<lambda>(w2, ret).
         if ret \<noteq> 0 then drop_todo cs ret w2 else and_then (?red w2) (exscan_loop h p sb rb cnt ty cs))) = Ret (w', MPI_SUCCESS)"
      using Cons.prems(2) by (auto simp: and_then_Ret_iff split del: if_split)
    then have "r1 = 0" using drop by (cases "r1 = 0") simp_all
    then obtain w2 r2 where 2: "write_to_owner (h_writev h) c sb ty cnt 0 0 w1 = Ret (w2, r2)"
      "(if r2 \<noteq> 0 then drop_todo cs r2 w2 else and_then (?red w2) (exscan_loop h p sb rb cnt ty cs)) = Ret (w', MPI_SUCCESS)"
      using 1(2) by (auto simp: and_then_Ret_iff split del: if_split)
    then have "r2 = 0" using drop by (cases "r2 = 0") simp_all
    then obtain w3 where 3: "?red w2 = Ret w3" "exscan_loop h p sb rb cnt ty cs w3 = Ret (w', MPI_SUCCESS)"
      using 2(2) by (auto simp: and_then_Ret_iff split del: if_split)
    have "keeps w2 w3" using 3(1) reduce_keeps by (auto split: if_splits)
    then have "keeps (to_pending c w) w3" using keeps_trans [OF read_keeps [OF 1(1)]] keeps_trans [OF write_keeps [OF 2(1)]] by blast
    from step [OF Cons.prems(1) this] Cons.IH [OF _ 3(2)] show ?case by simp
  qed auto
  show "held_inv w (mset cs + B) H \<Longrightarrow> scan_loop h p sb rb cnt ty cs w = Ret (w', MPI_SUCCESS) \<Longrightarrow> held_inv w' B H \<and> w_size w' = w_size w"
  proof (induction cs arbitrary: w)
    case (Cons c cs)
    obtain w1 w2 w3 where w: "read_from_owner (h_readv h) c rb ty cnt 0 0 0 (to_pending c w) = Ret (w1, 0)"
      "reduce_with h p rb sb cnt ty w1 = Ret w2" "write_to_owner (h_writev h) c sb ty cnt 0 0 w2 = Ret (w3, 0)"
      "scan_loop h p sb rb cnt ty cs w3 = Ret (w', MPI_SUCCESS)"
      using Cons.prems(2) drop by (auto simp: and_then_Ret_iff split: if_splits)
    have "keeps (to_pending c w) w3"
      using keeps_trans [OF read_keeps [OF w(1)]] keeps_trans [OF reduce_keeps [OF w(2)] write_keeps [OF w(3)]] by blast
    from step [OF Cons.prems(1) this] Cons.IH [OF _ w(4)] show ?case by simp
  qed auto
qed

lemma gives_scan_last:
  assumes loop: "\<And>sb rb cs w w' B H. held_inv w (mset cs + B) H \<Longrightarrow> loop sb rb cs w = Ret (w', MPI_SUCCESS) \<Longrightarrow>
      held_inv w' B H \<and> w_size w' = w_size w"
    and st: "slot_held i B (add_mset c H) s1" and o': "only_slot i s s1" and box: "k_box (cw_slots s1 i) \<noteq> []"
  shows "gives i B H s (scan_last loop h u i cnt ty c s1)"
proof (cases "joined_last u (cw_slots s1 i)")
  case True
  let ?k = "cw_slots s1 i" and ?s2 = "unlock i (upd_slot i (\<lambda>k. k\<lparr>k_box := []\<rparr>) s1)"
  let ?sb = "(Shm, k_sendbuf ?k)" and ?rb = "(Shm, k_recvbuf ?k)"
  obtain first rest where srt: "sort_key (\<lambda>c. c_src (w_cookies (cw_world s1) c)) (k_box ?k) = first # rest"
    using box by (metis neq_Nil_conv set_empty set_sort)
  have "mset (k_box ?k) = mset (first # rest)" using srt by (metis mset_sort)
  then have "held_inv (cw_world s1) (mset (first # rest) + B) (add_mset c H)" using st by (simp add: slot_held_def)
  then have p: "held_inv (to_pending first (cw_world s1)) (mset rest + B) (add_mset c H)" by (intro held_pending) simp
  have run: "scan_last loop h u i cnt ty c s1 = finish_with (Some c) ?s2
      (and_then (read_from_owner (h_readv h) first ?sb ty cnt 0 0 0 (to_pending first (cw_world s1))) (\<lambda>(w, ret).
         if ret \<noteq> 0 then drop_todo rest ret w else loop ?sb ?rb rest w))"
    using True by (intro scan_last_sorted [OF _ srt]) (simp add: joined_last_def)
  show ?thesis
    unfolding gives_def
  proof (intro allI impI)
    fix s' c' assume r: "scan_last loop h u i cnt ty c s1 = Ret (s', MPI_SUCCESS, c')"
    obtain w1 w where w: "read_from_owner (h_readv h) first ?sb ty cnt 0 0 0 (to_pending first (cw_world s1)) = Ret (w1, 0)"
      "loop ?sb ?rb rest w1 = Ret (w, MPI_SUCCESS)" "s' = set_world w ?s2" "c' = Some c"
      using r unfolding run finish_with_def by (auto simp: and_then_Ret_iff drop_todo_def mpi_consts split: if_splits)
    have k: "keeps (to_pending first (cw_world s1)) w1" by (rule read_keeps [OF w(1)])
    have "held_inv w B (add_mset c H) \<and> w_size w = w_size w1" by (rule loop [OF keeps_held [OF k p] w(2)])
    then show "\<exists>d. c' = Some d \<and> slot_held i B (add_mset d H) s' \<and> only_slot i s s'"
      using w(3,4) o' keeps_size [OF k]
      by (simp add: slot_held_def only_slot_def to_pending_def move_to_pending_def upd_slot_def unlock_def)
  qed
qed (use st o' in \<open>simp add: scan_last_def\<close>)

lemma gives_scans:
  assumes st: "slot_held i B H s" and u: "u_rank u < w_size (cw_world s)"
  shows "gives i B H s (scan_request h u i sendbuf recvbuf cnt ty p s)" "gives i B H s (exscan_request h u i sendbuf recvbuf cnt ty p s)"
proof -
  have go: "gives i B H s (and_then (collect_create u i buf ty cnt cnt num s1) (\<lambda>(s2, c). scan_last loop h u i cnt ty c s2))"
    if s1: "slot_held i B H s1" "only_slot i s s1"
      and loop: "\<And>sb rb cs w w' B H. held_inv w (mset cs + B) H \<Longrightarrow> loop sb rb cs w = Ret (w', MPI_SUCCESS) \<Longrightarrow>
        held_inv w' B H \<and> w_size w' = w_size w"
    for s1 buf num loop
  proof (intro gives_and_then, clarify)
    fix s2 c assume c: "collect_create u i buf ty cnt cnt num s1 = Ret (s2, c)"
    have "u_rank u < w_size (cw_world s1)" using s1(2) u by (simp add: only_slot_def)
    note cr = created_held [OF s1(1) this c]
    show "gives i B H s (scan_last loop h u i cnt ty c s2)"
      by (rule gives_scan_last [OF loop cr(1) only_slot_trans [OF s1(2) cr(2)]]) (use collect_create_slot [OF c] in simp_all)
  qed
  show "gives i B H s (scan_request h u i sendbuf recvbuf cnt ty p s)"
    unfolding scan_request_def Let_def using st copy_in_keeps [OF st] by (auto intro!: go loops_held(2) simp: mpi_consts)
  show "gives i B H s (exscan_request h u i sendbuf recvbuf cnt ty p s)"
    unfolding exscan_request_def Let_def using st copy_in_keeps [OF st] by (auto intro!: go loops_held(1) simp: mpi_consts)
qed

end
