(* ===== verification/Scans.thy ===== *)
theory Scans
  imports Allreduce
begin

text \<open>
  \<^verbatim>\<open>MPI_Iscan\<close> and \<^verbatim>\<open>MPI_Iexscan\<close>, called by all ranks in any order of arrival: the last one to arrive sorts
  the requests by rank and goes through them with the two in-place buffers of the slot. The locale
  \<open>prefix_loop\<close> states what one round of such a loop does; the loops of both operations provide it, and the
  runs of both follow from it.
\<close>

section \<open>The buffers\<close>

abbreviation shm_locs :: "allreduce_job \<Rightarrow> int \<Rightarrow> loc list" where
  "shm_locs j b \<equiv> payload (Shm, b) (a_type j) 0 (a_cnt j)"

lemma elem_locs_shift: "elem_locs b xs = (\<lambda>k. map (\<lambda>l. (fst b, snd b + snd l)) (elem_locs (Shm, 0) xs k))"
  by (simp add: fun_eq_iff elem_locs_def loc_range_def add_loc_def map_concat comp_def algebra_simps)

lemma payload_shift: "payload b xs from n = map (\<lambda>l. (fst b, snd b + snd l)) (payload (Shm, 0) xs from n)"
  by (simp add: payload_def map_concat comp_def elem_locs_shift [of b])

lemma payload_distinct: "distinct (payload b xs from n) \<longleftrightarrow> distinct (payload b' xs from n)"
proof -
  have "distinct (payload b xs from n) \<longleftrightarrow> distinct (payload (Shm, 0) xs from n)" for b
  proof -
    have "inj_on (\<lambda>l. (fst b, snd b + snd l)) (set (payload (Shm, 0) xs from n))"
      by (auto simp: inj_on_def dest!: payload_space intro: prod_eqI)
    then show ?thesis unfolding payload_shift [of b] by (simp add: distinct_map)
  qed
  then show ?thesis by blast
qed

text \<open>What the loops rely on: \<open>sb\<close> and \<open>rb\<close> are the addresses of the in-place buffers.\<close>

definition scan_ok :: "host \<Rightarrow> allreduce_job \<Rightarrow> int \<Rightarrow> int \<Rightarrow> (byte list \<Rightarrow> byte list \<Rightarrow> byte list option) \<Rightarrow> bool" where
  "scan_ok h j sb rb F \<longleftrightarrow> vm_ok (h_writev h) \<and> vm_ok (h_readv h) \<and> whole_buf (a_type j) (a_cnt j) \<and>
     op_computes h (a_op j) (a_cnt j) (a_type j) F \<and> distinct (shm_locs j sb) \<and>
     set (shm_locs j sb) \<inter> set (shm_locs j rb) = {}"

lemma shm_apart: "l \<in> set (shm_locs j b) \<Longrightarrow> l \<notin> set (payload (Priv r, x) ty 0 cnt)"
  by (auto dest!: payload_space)

lemma recv_not_shm: "l \<in> set (recv_locs j r) \<Longrightarrow> l \<notin> set (shm_locs j b)"
  unfolding recv_locs_def using shm_apart by blast

lemma scan_okD:
  assumes "scan_ok h j sb rb F"
  shows "vm_ok (h_writev h)" "vm_ok (h_readv h)" "whole_buf (a_type j) (a_cnt j)" "op_computes h (a_op j) (a_cnt j) (a_type j) F"
    "separate (shm_locs j rb) (shm_locs j sb)" "separate (recv_locs j r) (shm_locs j rb)" "separate (shm_locs j sb) (recv_locs j r)"
    "separate (payload (Priv r, x) (a_type j) 0 (a_cnt j)) (shm_locs j sb)"
    "length (payload b (a_type j) 0 (a_cnt j)) = bytes_of (a_type j) (a_cnt j)"
proof -
  have d: "distinct (payload b (a_type j) 0 (a_cnt j))" for b
    using assms payload_distinct [of b "a_type j" 0 "a_cnt j" "(Shm, sb)"] by (simp add: scan_ok_def)
  show "vm_ok (h_writev h)" "vm_ok (h_readv h)" "whole_buf (a_type j) (a_cnt j)" "op_computes h (a_op j) (a_cnt j) (a_type j) F"
    using assms by (simp_all add: scan_ok_def)
  then show "length (payload b (a_type j) 0 (a_cnt j)) = bytes_of (a_type j) (a_cnt j)" by (simp add: length_data)
  show "separate (shm_locs j rb) (shm_locs j sb)" using assms d by (auto simp: separate_def scan_ok_def)
  show "separate (recv_locs j r) (shm_locs j rb)" "separate (shm_locs j sb) (recv_locs j r)"
    using d shm_apart by (auto simp: separate_def recv_locs_def)
  show "separate (payload (Priv r, x) (a_type j) 0 (a_cnt j)) (shm_locs j sb)" using d shm_apart by (auto simp: separate_def)
qed

section \<open>The state between two rounds\<close>

text \<open>The ranks \<open>ps\<close> are done and their fold is in the buffer at \<open>sb\<close>; those in \<open>rs\<close> have their data \<open>d r\<close>.\<close>

definition scan_state ::
  "allreduce_job \<Rightarrow> int \<Rightarrow> (nat \<Rightarrow> byte list) \<Rightarrow> (byte list \<Rightarrow> byte list \<Rightarrow> byte list option) \<Rightarrow> (nat \<Rightarrow> cid) \<Rightarrow> cid multiset \<Rightarrow>
     nat list \<Rightarrow> nat list \<Rightarrow> world \<Rightarrow> bool" where
  "scan_state j sb d F q B ps rs w \<longleftrightarrow> distinct rs \<and> box_inv w (mset (map q rs) + B) \<and>
     (\<forall>r \<in> set rs. r < w_size w \<and> a_offers j w (q r) r 2 \<and> map (w_mem w) (recv_locs j r) = d r) \<and>
     (rs \<noteq> [] \<longrightarrow> fold_ranks F d ps = Some (map (w_mem w) (shm_locs j sb)))"

definition scan_frame :: "allreduce_job \<Rightarrow> int \<Rightarrow> int \<Rightarrow> (nat \<Rightarrow> cid) \<Rightarrow> nat list \<Rightarrow> world \<Rightarrow> world \<Rightarrow> bool" where
  "scan_frame j sb rb q rs w w' \<longleftrightarrow> w_size w' = w_size w \<and> w_pool w' = w_pool w \<and>
     (\<forall>l. l \<notin> set (shm_locs j sb) \<and> l \<notin> set (shm_locs j rb) \<and> (\<forall>r \<in> set rs. l \<notin> set (recv_locs j r)) \<longrightarrow>
        w_mem w' l = w_mem w l) \<and>
     (\<forall>c. c \<notin> q ` set rs \<longrightarrow> w_cookies w' c = w_cookies w c)"

lemma scan_frameD:
  assumes "scan_frame j sb rb q rs w w'"
  shows "w_size w' = w_size w" "w_pool w' = w_pool w" "c \<notin> q ` set rs \<Longrightarrow> w_cookies w' c = w_cookies w c"
    "l \<notin> set (shm_locs j sb) \<Longrightarrow> l \<notin> set (shm_locs j rb) \<Longrightarrow> (\<And>r. r \<in> set rs \<Longrightarrow> l \<notin> set (recv_locs j r)) \<Longrightarrow>
      w_mem w' l = w_mem w l"
  using assms unfolding scan_frame_def by blast+

lemma scan_frame_Cons: "scan_frame j sb rb q [r] w w1 \<Longrightarrow> scan_frame j sb rb q rs w1 w2 \<Longrightarrow> scan_frame j sb rb q (r # rs) w w2"
  by (simp add: scan_frame_def)

lemma recv_elsewhere: "r \<noteq> r' \<Longrightarrow> l \<in> set (recv_locs j r') \<Longrightarrow> l \<notin> set (recv_locs j r) \<and> l \<notin> set (shm_locs j b)"
  using recv_apart [of r r' j] shm_apart [of l b j] unfolding recv_locs_def by blast

lemma scan_state_next:
  assumes st: "scan_state j sb d F q B ps (r # rs) w" and f: "scan_frame j sb rb q [r] w w'"
    and b: "box_inv w' (mset (map q rs) + B)"
    and v: "rs \<noteq> [] \<longrightarrow> fold_ranks F d (ps @ [r]) = Some (map (w_mem w') (shm_locs j sb))"
  shows "scan_state j sb d F q B (ps @ [r]) rs w'"
proof -
  have dist: "distinct (map q (r # rs))"
    using st box_inv_distinct [of w "map q (r # rs)" B] unfolding scan_state_def by blast
  have "r' < w_size w' \<and> a_offers j w' (q r') r' 2 \<and> map (w_mem w') (recv_locs j r') = d r'" if r': "r' \<in> set rs" for r'
  proof -
    have ne: "r \<noteq> r'" using st r' by (auto simp: scan_state_def)
    have "q r' \<notin> q ` set [r]" using dist imageI [OF r', of q] by auto
    then have "a_offers j w' (q r') r' 2 = a_offers j w (q r') r' 2" by (rule offers_cong [OF scan_frameD(3) [OF f]])
    moreover have "map (w_mem w') (recv_locs j r') = map (w_mem w) (recv_locs j r')"
    proof (intro map_cong refl)
      fix l assume "l \<in> set (recv_locs j r')"
      from recv_elsewhere [OF ne this] show "w_mem w' l = w_mem w l" by (intro scan_frameD(4) [OF f]) auto
    qed
    ultimately show ?thesis using st r' scan_frameD(1) [OF f] by (simp add: scan_state_def del: map_eq_conv)
  qed
  then show ?thesis using st b v unfolding scan_state_def by simp
qed

section \<open>The operations of a round\<close>

text \<open>The request is moved to its owner and the data read into the buffer at \<open>rb\<close>.\<close>

lemma round_read:
  assumes ok: "scan_ok h j sb rb F" and st: "scan_state j sb d F q B ps (r # rs) w"
  shows "\<exists>w1. read_from_owner (h_readv h) (q r) (Shm, rb) (a_type j) (a_cnt j) 0 0 0 (to_pending (q r) w) = Ret (w1, MPI_SUCCESS) \<and>
    box_inv w1 (mset (map q rs) + B) \<and> a_offers j w1 (q r) r 1 \<and> w_size w1 = w_size w \<and> w_pool w1 = w_pool w \<and>
    map (w_mem w1) (shm_locs j rb) = d r \<and> (\<forall>l. l \<notin> set (shm_locs j rb) \<longrightarrow> w_mem w1 l = w_mem w l) \<and>
    (\<forall>c. c \<noteq> q r \<longrightarrow> w_cookies w1 c = w_cookies w c)"
proof -
  note o' = scan_okD [OF ok]
  have r: "r < w_size w" "a_offers j w (q r) r 2" "map (w_mem w) (recv_locs j r) = d r" "box_inv w (add_mset (q r) (mset (map q rs) + B))"
    using st by (auto simp: scan_state_def)
  then have "c_owner (w_cookies w (q r)) < w_size w" by (simp add: offers_def Let_def)
  note tp = to_pending_effect [OF this]
  have "a_offers j (to_pending (q r) w) (q r) r 2" using r(2) tp(1) offers_cong by metis
  then obtain w1 where w1: "read_from_owner (h_readv h) (q r) (Shm, rb) (a_type j) (a_cnt j) 0 0 0 (to_pending (q r) w) = Ret (w1, MPI_SUCCESS)"
    "same_boxes (to_pending (q r) w) w1" "w_mem w1 = moved (w_mem w) (recv_locs j r) (shm_locs j rb)" "a_offers j w1 (q r) r 1"
    "\<forall>c. c \<noteq> q r \<longrightarrow> w_cookies w1 c = w_cookies w c"
    using read_same [OF o'(2,3), of "to_pending (q r) w" "q r" r "a_recv j r" 2 0 "(Shm, rb)"] o'(6) [of r] tp(1,2)
    by (auto simp: recv_locs_def)
  have "length (recv_locs j r) = length (shm_locs j rb)" using o'(9) by (simp add: recv_locs_def)
  note mv = moved_whole(1) [OF o'(6) this, of "w_mem w"] moved_whole(2) [OF o'(6) this, of _ "w_mem w"]
  have "box_inv w1 (mset (map q rs) + B)" using r(4) tp(5) same_boxesD(4) [OF w1(2)] by blast
  moreover have "w_pool w1 = w_pool w" using w1(2) by (simp add: same_boxes_def to_pending_def move_to_pending_def)
  moreover have "w_size w1 = w_size w" using same_boxesD(1) [OF w1(2)] tp(3) by simp
  ultimately show ?thesis using w1 mv r(3) by (intro exI [of _ w1]) simp
qed

text \<open>The operation is applied to the two buffers.\<close>

lemma round_reduce:
  assumes ok: "scan_ok h j sb rb F" and v: "F (map (w_mem w) (shm_locs j rb)) (map (w_mem w) (shm_locs j sb)) = Some z"
  shows "\<exists>m. reduce_with h (a_op j) (Shm, rb) (Shm, sb) (a_cnt j) (a_type j) w = Ret (w\<lparr>w_mem := m\<rparr>) \<and> map m (shm_locs j sb) = z \<and>
    (\<forall>l. l \<notin> set (shm_locs j sb) \<longrightarrow> m l = w_mem w l)"
proof -
  obtain w' where w': "reduce_with h (a_op j) (Shm, rb) (Shm, sb) (a_cnt j) (a_type j) w = Ret w'"
    "only_writes (set (shm_locs j sb)) w w'" "map (w_mem w') (shm_locs j sb) = z"
    by (rule reduce_whole [OF scan_okD(4,5) [OF ok] v])
  have "w' = w\<lparr>w_mem := w_mem w'\<rparr>" using w'(2) by (simp add: only_writes_def)
  then show ?thesis using w' only_writesD(3) [OF w'(2)] by (intro exI [of _ "w_mem w'"]) simp
qed

text \<open>The buffer at \<open>sb\<close> is written to the owner.\<close>

lemma round_write:
  assumes ok: "scan_ok h j sb rb F" and k: "a_offers j w c r 1"
  shows "\<exists>w1. write_to_owner (h_writev h) c (Shm, sb) (a_type j) (a_cnt j) 0 0 w = Ret (w1, MPI_SUCCESS) \<and> same_boxes w w1 \<and>
    finished w1 c \<and> map (w_mem w1) (recv_locs j r) = map (w_mem w) (shm_locs j sb) \<and>
    (\<forall>l. l \<notin> set (recv_locs j r) \<longrightarrow> w_mem w1 l = w_mem w l) \<and> (\<forall>d. d \<noteq> c \<longrightarrow> w_cookies w1 d = w_cookies w d)"
proof -
  note o' = scan_okD [OF ok]
  obtain w1 where w1: "write_to_owner (h_writev h) c (Shm, sb) (a_type j) (a_cnt j) 0 0 w = Ret (w1, MPI_SUCCESS)" "same_boxes w w1"
    "w_mem w1 = moved (w_mem w) (shm_locs j sb) (recv_locs j r)" "a_offers j w1 c r (1 - 1)" "\<forall>d. d \<noteq> c \<longrightarrow> w_cookies w1 d = w_cookies w d"
    using write_same [OF o'(1,3) k, of "(Shm, sb)"] o'(7) [of r] by (auto simp: recv_locs_def)
  have "length (shm_locs j sb) = length (recv_locs j r)" using o'(9) by (simp add: recv_locs_def)
  note mv = moved_whole(1) [OF o'(7) this, of "w_mem w"] moved_whole(2) [OF o'(7) this, of _ "w_mem w"]
  show ?thesis using w1 mv offers_finished by (intro exI [of _ w1]) auto
qed

section \<open>The interface of the loops\<close>

text \<open>
  \<open>incl\<close> is 1 when a rank's own data count for its result. A round gives rank \<open>r\<close> its result and leaves
  the fold up to \<open>r\<close> in the buffer at \<open>sb\<close> for the next one.
\<close>

locale prefix_loop =
  fixes loop :: "host \<Rightarrow> op \<Rightarrow> loc \<Rightarrow> loc \<Rightarrow> int \<Rightarrow> iovecs \<Rightarrow> cid list \<Rightarrow> world \<Rightarrow> (world \<times> int) outcome" and incl :: nat
  assumes incl: "incl \<le> 1"
    and loop_end: "loop h p a b cnt ty [] w = Ret (w, MPI_SUCCESS)"
    and loop_round: "scan_ok h j sb rb F \<Longrightarrow> scan_state j sb d F q B ps (r # rs) w \<Longrightarrow>
      fold_ranks F d (ps @ take incl [r]) = Some v \<Longrightarrow> (rs \<noteq> [] \<Longrightarrow> fold_ranks F d (ps @ [r]) \<noteq> None) \<Longrightarrow> ps \<noteq> [] \<Longrightarrow>
      \<exists>w'. loop h (a_op j) (Shm, sb) (Shm, rb) (a_cnt j) (a_type j) (q r # map q rs) w =
          loop h (a_op j) (Shm, sb) (Shm, rb) (a_cnt j) (a_type j) (map q rs) w' \<and>
        scan_state j sb d F q B (ps @ [r]) rs w' \<and> scan_frame j sb rb q [r] w w' \<and>
        map (w_mem w') (recv_locs j r) = v \<and> finished w' (q r)"
begin

lemma loop_run:
  assumes ok: "scan_ok h j sb rb F"
  shows "scan_state j sb d F q B ps rs w \<Longrightarrow> ps \<noteq> [] \<Longrightarrow>
    \<forall>k < length rs. fold_ranks F d (ps @ take (k + incl) rs) = Some (v (rs ! k)) \<Longrightarrow>
    \<exists>w'. loop h (a_op j) (Shm, sb) (Shm, rb) (a_cnt j) (a_type j) (map q rs) w = Ret (w', MPI_SUCCESS) \<and> box_inv w' B \<and>
      scan_frame j sb rb q rs w w' \<and> (\<forall>r \<in> set rs. map (w_mem w') (recv_locs j r) = v r \<and> finished w' (q r))"
proof (induction rs arbitrary: ps w)
  case Nil
  then show ?case by (auto simp: loop_end scan_state_def scan_frame_def)
next
  case (Cons r rs)
  have own: "fold_ranks F d (ps @ take incl [r]) = Some (v r)"
    using Cons.prems(3)[rule_format, of 0] incl by (cases incl) simp_all
  have later: "fold_ranks F d ((ps @ [r]) @ take (k + incl) rs) = Some (v (rs ! k))" if "k < length rs" for k
    using Cons.prems(3)[rule_format, of "Suc k"] that by simp
  have defd: "fold_ranks F d (ps @ [r]) \<noteq> None" if "rs \<noteq> []"
    using later [of 0] that fold_prefix [of "ps @ [r]" F d "take incl rs"] by simp
  obtain w1 where w1: "loop h (a_op j) (Shm, sb) (Shm, rb) (a_cnt j) (a_type j) (q r # map q rs) w =
      loop h (a_op j) (Shm, sb) (Shm, rb) (a_cnt j) (a_type j) (map q rs) w1"
    "scan_state j sb d F q B (ps @ [r]) rs w1" "scan_frame j sb rb q [r] w w1" "map (w_mem w1) (recv_locs j r) = v r" "finished w1 (q r)"
    using loop_round [OF ok Cons.prems(1) own defd Cons.prems(2)] by blast
  obtain w' where w': "loop h (a_op j) (Shm, sb) (Shm, rb) (a_cnt j) (a_type j) (map q rs) w1 = Ret (w', MPI_SUCCESS)" "box_inv w' B"
    "scan_frame j sb rb q rs w1 w'" "\<forall>r \<in> set rs. map (w_mem w') (recv_locs j r) = v r \<and> finished w' (q r)"
    using Cons.IH [OF w1(2)] later by auto
  have n: "r \<notin> set rs" "q r \<notin> q ` set rs"
    using Cons.prems(1) box_inv_distinct [of w "map q (r # rs)" B] by (auto simp: scan_state_def)
  have "map (w_mem w') (recv_locs j r) = map (w_mem w1) (recv_locs j r)"
  proof (intro map_cong refl)
    fix l assume l: "l \<in> set (recv_locs j r)"
    have "\<forall>r' \<in> set rs. l \<notin> set (recv_locs j r')" using n(1) recv_elsewhere [OF _ l] by metis
    moreover have "l \<notin> set (shm_locs j sb)" "l \<notin> set (shm_locs j rb)" using l recv_not_shm by blast+
    ultimately show "w_mem w' l = w_mem w1 l" by (intro scan_frameD(4) [OF w'(3)]) auto
  qed
  moreover have "finished w' (q r)"
    using w1(5) n(2) finished_cong [OF scan_frameD(3) [OF w'(3)]] by blast
  ultimately show ?case
    using w1(1,4) w'(1,2,4) scan_frame_Cons [OF w1(3) w'(3)] by (intro exI [of _ w']) simp
qed

end

section \<open>The two loops\<close>

lemma scan_round:
  assumes ok: "scan_ok h j sb rb F" and st: "scan_state j sb d F q B ps (r # rs) w" and ne: "ps \<noteq> []"
    and v: "fold_ranks F d (ps @ [r]) = Some v"
  shows "\<exists>w'. scan_loop h (a_op j) (Shm, sb) (Shm, rb) (a_cnt j) (a_type j) (q r # map q rs) w =
      scan_loop h (a_op j) (Shm, sb) (Shm, rb) (a_cnt j) (a_type j) (map q rs) w' \<and>
    scan_state j sb d F q B (ps @ [r]) rs w' \<and> scan_frame j sb rb q [r] w w' \<and>
    map (w_mem w') (recv_locs j r) = v \<and> finished w' (q r)"
proof -
  note o' = scan_okD [OF ok]
  obtain w1 where w1: "read_from_owner (h_readv h) (q r) (Shm, rb) (a_type j) (a_cnt j) 0 0 0 (to_pending (q r) w) = Ret (w1, MPI_SUCCESS)"
    "box_inv w1 (mset (map q rs) + B)" "a_offers j w1 (q r) r 1" "w_size w1 = w_size w" "w_pool w1 = w_pool w"
    "map (w_mem w1) (shm_locs j rb) = d r" "\<And>l. l \<notin> set (shm_locs j rb) \<Longrightarrow> w_mem w1 l = w_mem w l"
    "\<And>c. c \<noteq> q r \<Longrightarrow> w_cookies w1 c = w_cookies w c"
    using round_read [OF ok st] by blast
  have sb1: "map (w_mem w1) (shm_locs j sb) = map (w_mem w) (shm_locs j sb)"
    using o'(5) w1(7) by (intro map_cong refl) (auto simp: separate_def)
  have acc: "fold_ranks F d ps = Some (map (w_mem w) (shm_locs j sb))" using st by (simp add: scan_state_def)
  have z: "F (map (w_mem w1) (shm_locs j rb)) (map (w_mem w1) (shm_locs j sb)) = Some v"
    using v fold_ranks_snoc [OF ne, of F d r] acc sb1 w1(6) by (simp add: combine_def del: map_eq_conv)
  obtain m where m: "reduce_with h (a_op j) (Shm, rb) (Shm, sb) (a_cnt j) (a_type j) w1 = Ret (w1\<lparr>w_mem := m\<rparr>)"
    "map m (shm_locs j sb) = v" "\<And>l. l \<notin> set (shm_locs j sb) \<Longrightarrow> m l = w_mem w1 l"
    using round_reduce [OF ok z] by blast
  have "a_offers j (w1\<lparr>w_mem := m\<rparr>) (q r) r 1" using w1(3) by (simp add: offers_def)
  from round_write [OF ok this]
  obtain w2 where w2: "write_to_owner (h_writev h) (q r) (Shm, sb) (a_type j) (a_cnt j) 0 0 (w1\<lparr>w_mem := m\<rparr>) = Ret (w2, MPI_SUCCESS)"
    "same_boxes (w1\<lparr>w_mem := m\<rparr>) w2" "finished w2 (q r)" "map (w_mem w2) (recv_locs j r) = map m (shm_locs j sb)"
    "\<And>l. l \<notin> set (recv_locs j r) \<Longrightarrow> w_mem w2 l = m l" "\<And>c. c \<noteq> q r \<Longrightarrow> w_cookies w2 c = w_cookies w1 c"
    by auto
  have sb: "same_boxes w1 w2" by (rule same_boxes_trans [OF same_boxes_mem w2(2)])
  have f: "scan_frame j sb rb q [r] w w2"
    using sb w1(4,5,7,8) w2(5,6) m(3) by (simp add: scan_frame_def same_boxes_def)
  have "map (w_mem w2) (shm_locs j sb) = v"
    using m(2) w2(5) o'(7) [of r] by (metis (no_types, lifting) disjoint_iff map_cong separate_def)
  then have "scan_state j sb d F q B (ps @ [r]) rs w2"
    using v w1(2) same_boxesD(4) [OF sb] by (intro scan_state_next [OF st f]) simp_all
  then show ?thesis using f w2(1,3,4) m(1,2) w1(1) by (intro exI [of _ w2]) (simp add: mpi_consts)
qed

interpretation scan: prefix_loop scan_loop 1
proof
  show "(1::nat) \<le> 1" by simp
  show "scan_loop h p a b cnt ty [] w = Ret (w, MPI_SUCCESS)" for h p a b cnt ty w by simp
qed (use scan_round in simp)

lemma exscan_round:
  assumes ok: "scan_ok h j sb rb F" and st: "scan_state j sb d F q B ps (r # rs) w" and ne: "ps \<noteq> []"
    and v: "fold_ranks F d ps = Some v" and more: "rs \<noteq> [] \<Longrightarrow> fold_ranks F d (ps @ [r]) \<noteq> None"
  shows "\<exists>w'. exscan_loop h (a_op j) (Shm, sb) (Shm, rb) (a_cnt j) (a_type j) (q r # map q rs) w =
      exscan_loop h (a_op j) (Shm, sb) (Shm, rb) (a_cnt j) (a_type j) (map q rs) w' \<and>
    scan_state j sb d F q B (ps @ [r]) rs w' \<and> scan_frame j sb rb q [r] w w' \<and>
    map (w_mem w') (recv_locs j r) = v \<and> finished w' (q r)"
proof -
  note o' = scan_okD [OF ok]
  obtain w1 where w1: "read_from_owner (h_readv h) (q r) (Shm, rb) (a_type j) (a_cnt j) 0 0 0 (to_pending (q r) w) = Ret (w1, MPI_SUCCESS)"
    "box_inv w1 (mset (map q rs) + B)" "a_offers j w1 (q r) r 1" "w_size w1 = w_size w" "w_pool w1 = w_pool w"
    "map (w_mem w1) (shm_locs j rb) = d r" "\<And>l. l \<notin> set (shm_locs j rb) \<Longrightarrow> w_mem w1 l = w_mem w l"
    "\<And>c. c \<noteq> q r \<Longrightarrow> w_cookies w1 c = w_cookies w c"
    using round_read [OF ok st] by blast
  obtain w2 where w2: "write_to_owner (h_writev h) (q r) (Shm, sb) (a_type j) (a_cnt j) 0 0 w1 = Ret (w2, MPI_SUCCESS)"
    "same_boxes w1 w2" "finished w2 (q r)" "map (w_mem w2) (recv_locs j r) = map (w_mem w1) (shm_locs j sb)"
    "\<And>l. l \<notin> set (recv_locs j r) \<Longrightarrow> w_mem w2 l = w_mem w1 l" "\<And>c. c \<noteq> q r \<Longrightarrow> w_cookies w2 c = w_cookies w1 c"
    using round_write [OF ok w1(3)] by blast
  have sb1: "map (w_mem w1) (shm_locs j sb) = map (w_mem w) (shm_locs j sb)"
    using o'(5) w1(7) by (intro map_cong refl) (auto simp: separate_def)
  have sb2: "map (w_mem w2) (shm_locs j b) = map (w_mem w1) (shm_locs j b)" for b
    using w2(5) shm_apart [of _ b j] by (intro map_cong refl) (auto simp: recv_locs_def)
  have acc: "v = map (w_mem w) (shm_locs j sb)" using st v by (simp add: scan_state_def)
  have bi: "box_inv w2 (mset (map q rs) + B)" using w1(2) same_boxesD(4) [OF w2(2)] by blast
  show ?thesis
  proof (cases "rs = []")
    case True
    have f: "scan_frame j sb rb q [r] w w2"
      using w2(2) w1(4,5,7,8) w2(5,6) by (simp add: scan_frame_def same_boxes_def)
    have "scan_state j sb d F q B (ps @ [r]) rs w2" by (rule scan_state_next [OF st f bi]) (simp add: True)
    then show ?thesis using f w2(1,3,4) w1(1) True sb1 acc by (intro exI [of _ w2]) (simp add: mpi_consts del: map_eq_conv)
  next
    case False
    obtain z where z: "fold_ranks F d (ps @ [r]) = Some z" using more [OF False] by blast
    then have "F (map (w_mem w2) (shm_locs j rb)) (map (w_mem w2) (shm_locs j sb)) = Some z"
      using fold_ranks_snoc [OF ne, of F d r] v acc sb1 sb2 w1(6) by (simp add: combine_def del: map_eq_conv)
    from round_reduce [OF ok this]
    obtain m where m: "reduce_with h (a_op j) (Shm, rb) (Shm, sb) (a_cnt j) (a_type j) w2 = Ret (w2\<lparr>w_mem := m\<rparr>)"
      "map m (shm_locs j sb) = z" "\<And>l. l \<notin> set (shm_locs j sb) \<Longrightarrow> m l = w_mem w2 l"
      by blast
    let ?w = "w2\<lparr>w_mem := m\<rparr>"
    have f: "scan_frame j sb rb q [r] w ?w"
      using w2(2) w1(4,5,7,8) w2(5,6) m(3) by (simp add: scan_frame_def same_boxes_def)
    have "box_inv ?w (mset (map q rs) + B)" using bi same_boxesD(4) [OF same_boxes_mem] by blast
    then have st': "scan_state j sb d F q B (ps @ [r]) rs ?w" using z m(2) by (intro scan_state_next [OF st f]) simp_all
    have "map (w_mem ?w) (recv_locs j r) = map (w_mem w2) (recv_locs j r)"
      by (intro map_cong refl) (simp add: m(3) recv_not_shm)
    then have "map (w_mem ?w) (recv_locs j r) = v" using w2(4) sb1 acc by (simp only:)
    moreover have "finished ?w (q r)" using w2(3) by (simp add: finished_def)
    ultimately show ?thesis
      using f st' w2(1) w1(1) m(1) False by (intro exI [of _ ?w]) (simp add: mpi_consts del: map_eq_conv)
  qed
qed

interpretation exscan: prefix_loop exscan_loop 0
proof
  show "(0::nat) \<le> 1" by simp
  show "exscan_loop h p a b cnt ty [] w = Ret (w, MPI_SUCCESS)" for h p a b cnt ty w by simp
qed (use exscan_round in simp)

section \<open>The calls of all ranks\<close>

abbreviation buf_locs :: "allreduce_job \<Rightarrow> (nat \<Rightarrow> int) \<Rightarrow> nat \<Rightarrow> loc list" where
  "buf_locs j bf r \<equiv> payload (Priv r, bf r) (a_type j) 0 (a_cnt j)"

text \<open>Two transfers for each rank but the first, whose data are the first result.\<close>

definition scan_busy :: "nat \<Rightarrow> int" where
  "scan_busy r = (if r \<noteq> 0 then 2 else 1)"

text \<open>
  After the calls of the ranks \<open>ds\<close>: the requests are for the buffers \<open>bf r\<close>, which hold the data \<open>d r\<close>
  until the last rank has called and the results \<open>v r\<close> after that.
\<close>

definition scan_inv ::
  "allreduce_job \<Rightarrow> int \<Rightarrow> int \<Rightarrow> (nat \<Rightarrow> int) \<Rightarrow> (nat \<Rightarrow> byte list) \<Rightarrow> (nat \<Rightarrow> byte list) \<Rightarrow> mem \<Rightarrow> cid multiset \<Rightarrow> nat list \<Rightarrow>
     (nat \<Rightarrow> cid) \<Rightarrow> cworld \<Rightarrow> bool" where
  "scan_inv j sb rb bf d v m0 B ds q s \<longleftrightarrow> slot_frame (a_n j) (a_ticket j) B ds s \<and>
     k_sendbuf (a_slot j s) = sb \<and> k_recvbuf (a_slot j s) = rb \<and>
     (\<forall>l. l \<notin> set (shm_locs j sb) \<and> l \<notin> set (shm_locs j rb) \<and> (\<forall>r \<in> set ds. l \<notin> set (buf_locs j bf r)) \<longrightarrow>
        w_mem (cw_world s) l = m0 l) \<and>
     (if length ds < a_n j
      then k_box (a_slot j s) = map q ds \<and>
        (\<forall>r \<in> set ds. offers (cw_world s) (q r) r (bf r) (a_type j) (a_cnt j) (scan_busy r) \<and>
           map (w_mem (cw_world s)) (buf_locs j bf r) = d r)
      else k_box (a_slot j s) = [] \<and>
        (\<forall>r \<in> set ds. map (w_mem (cw_world s)) (buf_locs j bf r) = v r \<and> finished (cw_world s) (q r)))"

text \<open>Before it creates its request, a rank has its data in the buffer the request is for.\<close>

definition scan_data :: "allreduce_job \<Rightarrow> (nat \<Rightarrow> int) \<Rightarrow> (nat \<Rightarrow> byte list) \<Rightarrow> nat \<Rightarrow> world \<Rightarrow> world \<Rightarrow> bool" where
  "scan_data j bf d r w w1 \<longleftrightarrow> same_boxes w w1 \<and> w_cookies w1 = w_cookies w \<and> map (w_mem w1) (buf_locs j bf r) = d r \<and>
     (\<forall>l. l \<notin> set (buf_locs j bf r) \<longrightarrow> w_mem w1 l = w_mem w l)"

lemma scan_created:
  assumes inv: "scan_inv j sb rb bf d v m0 B ds q s" and n: "a_n j < 32768" and r: "r < a_n j" "r \<notin> set ds"
    and u: "u_rank u = r" and p: "scan_data j bf d r (cw_world s) w1"
  obtains s3 c where
    "collect_create u (slot_of (a_ticket j)) (bf r) (a_type j) (a_cnt j) (a_cnt j) (scan_busy r)
       (set_world w1 (entered (a_ticket j) (length ds) s)) = Ret (s3, c)"
    "a_slot j s3 = (a_slot j s)\<lparr>k_locked := True, k_ticket := a_ticket j, k_joined := int (Suc (length ds)),
       k_box := map (q(r := c)) (ds @ [r])\<rparr>"
    "w_size (cw_world s3) = a_n j" "box_inv (cw_world s3) (mset (map (q(r := c)) (ds @ [r])) + B)"
    "\<forall>x \<in> set (ds @ [r]). offers (cw_world s3) ((q(r := c)) x) x (bf x) (a_type j) (a_cnt j) (scan_busy x) \<and>
       map (w_mem (cw_world s3)) (buf_locs j bf x) = d x"
    "\<forall>l. l \<notin> set (shm_locs j sb) \<and> l \<notin> set (shm_locs j rb) \<and> (\<forall>x \<in> set (ds @ [r]). l \<notin> set (buf_locs j bf x)) \<longrightarrow>
       w_mem (cw_world s3) l = m0 l"
    "64 * (a_n j - length (ds @ [r])) \<le> unat (p_space (w_pool (cw_world s3)))"
proof -
  let ?i = "slot_of (a_ticket j)" and ?s1 = "set_world w1 (entered (a_ticket j) (length ds) s)"
  have fr: "slot_frame (a_n j) (a_ticket j) B ds s" using inv by (simp add: scan_inv_def)
  have lt: "length ds < a_n j" by (rule slot_frame_not_all [OF fr r])
  have box: "k_box (a_slot j s) = map q ds" using inv lt by (simp add: scan_inv_def)
  have sb: "same_boxes (cw_world s) w1" and ck: "w_cookies w1 = w_cookies (cw_world s)" using p by (simp_all add: scan_data_def)
  obtain s3 c where s3: "collect_create u ?i (bf r) (a_type j) (a_cnt j) (a_cnt j) (scan_busy r) ?s1 = Ret (s3, c)"
    "slot_frame (a_n j) (a_ticket j) B (ds @ [r]) (unlock ?i s3)" "k_box (a_slot j s3) = map (q(r := c)) (ds @ [r])" "c \<notin> q ` set ds"
    "w_mem (cw_world s3) = w_mem w1"
    "w_cookies (cw_world s3) = (w_cookies w1)(c := mk_cookie r (bf r) (a_type j) (a_cnt j) (a_cnt j) (int r) UMPI_TAG_CC (scan_busy r))"
    by (rule slot_frame_create [OF fr r box sb u])
  note mem = s3(5)
  have own: "offers (cw_world s3) c r (bf r) (a_type j) (a_cnt j) (scan_busy r)"
    using s3(6) r n by (intro mk_cookie_offers) (simp_all add: scan_busy_def)
  have old: "offers (cw_world s3) (q x) x (bf x) (a_type j) (a_cnt j) (scan_busy x) \<and>
      map (w_mem (cw_world s3)) (buf_locs j bf x) = d x" if x: "x \<in> set ds" for x
  proof
    have "q x \<noteq> c" using s3(4) x by auto
    then have "w_cookies (cw_world s3) (q x) = w_cookies (cw_world s) (q x)" using s3(6) ck by simp
    from offers_cong [OF this] show "offers (cw_world s3) (q x) x (bf x) (a_type j) (a_cnt j) (scan_busy x)"
      using inv x lt by (simp add: scan_inv_def)
    have "map (w_mem (cw_world s3)) (buf_locs j bf x) = map (w_mem (cw_world s)) (buf_locs j bf x)"
    proof (intro map_cong refl)
      fix l assume "l \<in> set (buf_locs j bf x)"
      moreover have "x \<noteq> r" using x r(2) by blast
      ultimately have "l \<notin> set (buf_locs j bf r)" using data_locs_apart [of x r] by (metis disjoint_iff)
      then show "w_mem (cw_world s3) l = w_mem (cw_world s) l" unfolding mem using p unfolding scan_data_def by blast
    qed
    then show "map (w_mem (cw_world s3)) (buf_locs j bf x) = d x" using inv x lt by (simp add: scan_inv_def del: map_eq_conv)
  qed
  show thesis
  proof (rule that [OF s3(1)])
    show "a_slot j s3 = (a_slot j s)\<lparr>k_locked := True, k_ticket := a_ticket j, k_joined := int (Suc (length ds)),
       k_box := map (q(r := c)) (ds @ [r])\<rparr>"
      using collect_create_slot [OF s3(1)] s3(3) by simp
    show "w_size (cw_world s3) = a_n j" using s3(2) by (simp add: slot_frame_def)
    show "box_inv (cw_world s3) (mset (map (q(r := c)) (ds @ [r])) + B)"
    proof -
      have "k_box (a_slot j (unlock ?i s3)) = map (q(r := c)) (ds @ [r])" using s3(3) by simp
      then show ?thesis using s3(2) by (simp only: slot_frame_def slot_simps(1))
    qed
    show "\<forall>x \<in> set (ds @ [r]). offers (cw_world s3) ((q(r := c)) x) x (bf x) (a_type j) (a_cnt j) (scan_busy x) \<and>
       map (w_mem (cw_world s3)) (buf_locs j bf x) = d x"
      using own old r(2) p mem by (auto simp: scan_data_def simp del: map_eq_conv)
    show "\<forall>l. l \<notin> set (shm_locs j sb) \<and> l \<notin> set (shm_locs j rb) \<and> (\<forall>x \<in> set (ds @ [r]). l \<notin> set (buf_locs j bf x)) \<longrightarrow>
       w_mem (cw_world s3) l = m0 l"
    proof (intro allI impI)
      fix l assume l: "l \<notin> set (shm_locs j sb) \<and> l \<notin> set (shm_locs j rb) \<and> (\<forall>x \<in> set (ds @ [r]). l \<notin> set (buf_locs j bf x))"
      then have "l \<notin> set (buf_locs j bf r)" "\<forall>x \<in> set ds. l \<notin> set (buf_locs j bf x)" by simp_all
      then show "w_mem (cw_world s3) l = m0 l" unfolding mem using p inv l unfolding scan_data_def scan_inv_def by metis
    qed
    show "64 * (a_n j - length (ds @ [r])) \<le> unat (p_space (w_pool (cw_world s3)))"
      using s3(2) by (simp add: slot_frame_def)
  qed
qed

text \<open>The requests in the order of the ranks.\<close>

lemma sort_requests:
  assumes "distinct ds" "set ds = {..<n}" "\<forall>r \<in> set ds. f (q r) = int r"
  shows "sort_key f (map q ds) = map q [0..<n]"
proof (rule map_sorted_distinct_set_unique [of f])
  have inj: "inj_on f (q ` {..<n})"
    using assms(2,3) by (auto simp: inj_on_def)
  have key: "map f (map q [0..<n]) = map int [0..<n]" using assms(2,3) by auto
  show "inj_on f (set (sort_key f (map q ds)) \<union> set (map q [0..<n]))"
    using inj assms(2) by (simp add: atLeast0LessThan)
  show "sorted (map f (sort_key f (map q ds)))" by simp
  show "sorted (map f (map q [0..<n]))" unfolding key by (simp add: sorted_map)
  show "distinct (map f (map q [0..<n]))" unfolding key by (simp add: distinct_map)
  have "mset (map f (sort_key f (map q ds))) = mset (map int ds)"
  proof -
    have "map f (map q ds) = map int ds" using assms(3) by auto
    then show ?thesis by (metis mset_map mset_sort)
  qed
  then show "distinct (map f (sort_key f (map q ds)))"
    using assms(1) mset_eq_imp_distinct_iff [of "map f (sort_key f (map q ds))" "map int ds"] by (simp add: distinct_map)
  show "set (sort_key f (map q ds)) = set (map q [0..<n])" using assms(2) by (simp add: atLeast0LessThan)
qed

text \<open>The ranks whose data are folded into the result of rank \<open>r\<close>.\<close>

definition prefix_ranks :: "nat \<Rightarrow> nat \<Rightarrow> nat list" where
  "prefix_ranks incl r = (if r = 0 then [0] else [0..<r + incl])"

lemma prefix_ranks_1: "prefix_ranks 1 r = [0..<Suc r]"
  by (cases r) (simp_all add: prefix_ranks_def)

context prefix_loop
begin

text \<open>What the last rank does with the sorted requests.\<close>

lemma serve_all:
  assumes ok: "scan_ok h j sb rb F" and n: "0 < n" and bf: "\<forall>r. r \<noteq> 0 \<longrightarrow> bf r = a_recv j r"
    and v: "\<forall>r < n. fold_ranks F d (prefix_ranks incl r) = Some (v r)"
    and rq: "\<forall>r < n. r < w_size w \<and> offers w (q r) r (bf r) (a_type j) (a_cnt j) (scan_busy r) \<and> map (w_mem w) (buf_locs j bf r) = d r"
    and inv: "box_inv w (mset (map q [0..<n]) + B)"
  shows "\<exists>w'. and_then (read_from_owner (h_readv h) (q 0) (Shm, sb) (a_type j) (a_cnt j) 0 0 0 (to_pending (q 0) w)) (\<lambda>(w1, ret).
        if ret \<noteq> 0 then drop_todo (map q [1..<n]) ret w1
        else loop h (a_op j) (Shm, sb) (Shm, rb) (a_cnt j) (a_type j) (map q [1..<n]) w1) = Ret (w', MPI_SUCCESS) \<and>
    w_size w' = w_size w \<and> w_pool w' = w_pool w \<and> box_inv w' B \<and>
    (\<forall>r < n. map (w_mem w') (buf_locs j bf r) = v r \<and> finished w' (q r)) \<and>
    (\<forall>l. l \<notin> set (shm_locs j sb) \<and> l \<notin> set (shm_locs j rb) \<and> (\<forall>r < n. l \<notin> set (buf_locs j bf r)) \<longrightarrow> w_mem w' l = w_mem w l)"
proof -
  note o' = scan_okD [OF ok]
  have sp: "[0..<n] = 0 # [1..<n]" using n by (simp add: upt_rec)
  have inv0: "box_inv w (add_mset (q 0) (mset (map q [1..<n]) + B))" using inv unfolding sp by simp
  have r0: "0 < w_size w" "offers w (q 0) 0 (bf 0) (a_type j) (a_cnt j) 1" "map (w_mem w) (buf_locs j bf 0) = d 0"
    using rq n by (auto simp: scan_busy_def)
  have "c_owner (w_cookies w (q 0)) < w_size w" using r0(1,2) by (simp add: offers_def Let_def)
  note tp = to_pending_effect [OF this]
  have k: "offers (to_pending (q 0) w) (q 0) 0 (bf 0) (a_type j) (a_cnt j) 1"
    using r0(2) offers_cong [of "to_pending (q 0) w" "q 0" w] tp(1) by simp
  obtain w1 where w1: "read_from_owner (h_readv h) (q 0) (Shm, sb) (a_type j) (a_cnt j) 0 0 0 (to_pending (q 0) w) = Ret (w1, MPI_SUCCESS)"
    "same_boxes (to_pending (q 0) w) w1" "w_mem w1 = moved (w_mem w) (buf_locs j bf 0) (shm_locs j sb)"
    "offers w1 (q 0) 0 (bf 0) (a_type j) (a_cnt j) (1 - 1)" "\<forall>c. c \<noteq> q 0 \<longrightarrow> w_cookies w1 c = w_cookies w c"
    using read_same [OF o'(2,3) k, of 0 "(Shm, sb)"] o'(8) [of 0 "bf 0"] tp(1,2) by auto
  have "length (buf_locs j bf 0) = length (shm_locs j sb)" using o'(9) by simp
  note mv = moved_whole(1) [OF o'(8) this, of "w_mem w"] moved_whole(2) [OF o'(8) this, of _ "w_mem w"]
  have bi1: "box_inv w1 (mset (map q [1..<n]) + B)" using inv0 tp(5) same_boxesD(4) [OF w1(2)] by blast
  have size1: "w_size w1 = w_size w" "w_pool w1 = w_pool w"
    using w1(2) tp(3) by (simp_all add: same_boxes_def to_pending_def move_to_pending_def)
  have priv: "map (w_mem w1) (buf_locs j bf r) = map (w_mem w) (buf_locs j bf r)" for r
    unfolding w1(3) using shm_apart [of _ sb j r "bf r" "a_type j" "a_cnt j"] by (intro map_cong refl mv(2)) blast
  have dist: "q 0 \<notin> q ` set [1..<n]"
    using box_inv_distinct [OF inv [unfolded sp]] by simp
  have st: "scan_state j sb d F q B [0] [1..<n] w1"
    unfolding scan_state_def
  proof (intro conjI ballI impI)
    fix r assume r: "r \<in> set [1..<n]"
    have "q r \<noteq> q 0" using dist imageI [OF r, of q] by auto
    then have "w_cookies w1 (q r) = w_cookies w (q r)" using w1(5) by blast
    from offers_cong [OF this] show "a_offers j w1 (q r) r 2" using rq r bf by (auto simp: scan_busy_def)
    show "r < w_size w1" "map (w_mem w1) (recv_locs j r) = d r"
      using rq r size1 priv [of r] bf by (auto simp: recv_locs_def simp del: map_eq_conv)
  qed (use bi1 mv(1) r0(3) w1(3) in simp_all)
  have vs: "\<forall>k < length [1..<n]. fold_ranks F d ([0] @ take (k + incl) [1..<n]) = Some (v ([1..<n] ! k))"
  proof (intro allI impI)
    fix k assume k: "k < length [1..<n]"
    then have "take (k + incl) [1..<n] = [1..<1 + (k + incl)]" using incl by (intro take_upt) simp
    moreover have "prefix_ranks incl (Suc k) = 0 # [1..<1 + (k + incl)]"
      by (simp add: prefix_ranks_def upt_conv_Cons del: upt_Suc)
    ultimately have "[0] @ take (k + incl) [1..<n] = prefix_ranks incl (Suc k)" by simp
    then show "fold_ranks F d ([0] @ take (k + incl) [1..<n]) = Some (v ([1..<n] ! k))" using v k by simp
  qed
  obtain w' where w': "loop h (a_op j) (Shm, sb) (Shm, rb) (a_cnt j) (a_type j) (map q [1..<n]) w1 = Ret (w', MPI_SUCCESS)" "box_inv w' B"
    "scan_frame j sb rb q [1..<n] w1 w'" "\<forall>r \<in> set [1..<n]. map (w_mem w') (recv_locs j r) = v r \<and> finished w' (q r)"
    using loop_run [OF ok st _ vs] by blast
  note f = scan_frameD [OF w'(3)]
  have "map (w_mem w') (buf_locs j bf r) = v r \<and> finished w' (q r)" if "r < n" for r
  proof (cases "r = 0")
    case True
    have "map (w_mem w') (buf_locs j bf 0) = map (w_mem w1) (buf_locs j bf 0)"
    proof (intro map_cong refl f(4))
      fix l x assume l: "l \<in> set (buf_locs j bf 0)"
      show "l \<notin> set (shm_locs j sb)" "l \<notin> set (shm_locs j rb)" using l shm_apart by blast+
      assume "x \<in> set [1..<n]"
      then have "x \<noteq> 0" by simp
      then show "l \<notin> set (recv_locs j x)" using l data_locs_apart unfolding recv_locs_def by blast
    qed
    also have "\<dots> = d 0" using priv [of 0] r0(3) by (simp only:)
    also have "\<dots> = v 0" using v [rule_format, OF n] by (simp add: prefix_ranks_def)
    finally show ?thesis using True finished_cong [OF f(3) [OF dist]] offers_finished [of w1] w1(4) by auto
  next
    case False
    then show ?thesis using w'(4) that bf by (simp add: recv_locs_def)
  qed
  moreover have "w_mem w' l = w_mem w l"
    if l: "l \<notin> set (shm_locs j sb) \<and> l \<notin> set (shm_locs j rb) \<and> (\<forall>r < n. l \<notin> set (buf_locs j bf r))" for l
  proof -
    have "w_mem w' l = w_mem w1 l" using l bf by (intro f(4)) (auto simp: recv_locs_def)
    also have "\<dots> = w_mem w l" unfolding w1(3) using l by (intro mv(2)) blast
    finally show ?thesis .
  qed
  ultimately show ?thesis using w1(1) w'(1,2) f(1,2) size1 by (intro exI [of _ w']) (simp add: mpi_consts)
qed

text \<open>From the creation of the request to the end of the call, for any of the ranks.\<close>

lemma scan_call:
  assumes ok: "scan_ok h j sb rb F" and bf: "\<forall>r. r \<noteq> 0 \<longrightarrow> bf r = a_recv j r"
    and v: "\<forall>r < a_n j. fold_ranks F d (prefix_ranks incl r) = Some (v r)" and n: "a_n j < 32768"
    and inv: "scan_inv j sb rb bf d v m0 B ds q s" and r: "r < a_n j" "r \<notin> set ds"
    and u: "u_rank u = r" "u_size u = int (a_n j)" and p: "scan_data j bf d r (cw_world s) w1"
  shows "\<exists>s2 c. and_then (collect_create u (slot_of (a_ticket j)) (bf r) (a_type j) (a_cnt j) (a_cnt j) (scan_busy r)
        (set_world w1 (entered (a_ticket j) (length ds) s)))
      (\<lambda>(s2, c). scan_last (\<lambda>a b. loop h (a_op j) a b (a_cnt j) (a_type j)) h u (slot_of (a_ticket j)) (a_cnt j) (a_type j) c s2) =
        Ret (s2, MPI_SUCCESS, Some c) \<and> scan_inv j sb rb bf d v m0 B (ds @ [r]) (q(r := c)) s2"
proof -
  let ?i = "slot_of (a_ticket j)" and ?ds = "ds @ [r]"
  have fr: "slot_frame (a_n j) (a_ticket j) B ds s" and k: "k_sendbuf (a_slot j s) = sb" "k_recvbuf (a_slot j s) = rb"
    using inv by (simp_all add: scan_inv_def)
  have lt: "length ds < a_n j" by (rule slot_frame_not_all [OF fr r])
  note ds = slot_frame_space(3,4) [OF fr r]
  obtain s3 c where cr: "collect_create u ?i (bf r) (a_type j) (a_cnt j) (a_cnt j) (scan_busy r)
      (set_world w1 (entered (a_ticket j) (length ds) s)) = Ret (s3, c)"
    and sl: "a_slot j s3 = (a_slot j s)\<lparr>k_locked := True, k_ticket := a_ticket j, k_joined := int (Suc (length ds)),
      k_box := map (q(r := c)) ?ds\<rparr>"
    and s3: "w_size (cw_world s3) = a_n j" "box_inv (cw_world s3) (mset (map (q(r := c)) ?ds) + B)"
      "\<forall>x \<in> set ?ds. offers (cw_world s3) ((q(r := c)) x) x (bf x) (a_type j) (a_cnt j) (scan_busy x) \<and>
         map (w_mem (cw_world s3)) (buf_locs j bf x) = d x"
      "\<forall>l. l \<notin> set (shm_locs j sb) \<and> l \<notin> set (shm_locs j rb) \<and> (\<forall>x \<in> set ?ds. l \<notin> set (buf_locs j bf x)) \<longrightarrow>
         w_mem (cw_world s3) l = m0 l"
      "64 * (a_n j - length ?ds) \<le> unat (p_space (w_pool (cw_world s3)))"
    by (rule scan_created [OF inv n r u(1) p])
  let ?q = "q(r := c)"
  show ?thesis
  proof (cases "length ?ds < a_n j")
    case True
    let ?s2 = "unlock ?i s3"
    have "slot_frame (a_n j) (a_ticket j) B ?ds ?s2"
      unfolding slot_frame_def
    proof (intro conjI)
      have "k_box (a_slot j ?s2) = map ?q ?ds" using sl by simp
      then show "box_inv (cw_world ?s2) (mset (k_box (a_slot j ?s2)) + B)" using s3(2) by (simp only: slot_simps)
    qed (use s3(1,5) ds sl True in \<open>simp_all add: slot_after_def\<close>)
    then have "scan_inv j sb rb bf d v m0 B ?ds ?q ?s2"
      using s3(3,4) True sl k unfolding scan_inv_def by (simp del: length_append map_append set_append)
    moreover have "scan_last (\<lambda>a b. loop h (a_op j) a b (a_cnt j) (a_type j)) h u ?i (a_cnt j) (a_type j) c s3 = Ret (?s2, MPI_SUCCESS, Some c)"
      using True u(2) sl by (simp add: scan_last_def joined_last_def)
    ultimately show ?thesis using cr by auto
  next
    case False
    then have len: "length ?ds = a_n j" using lt by simp
    have all: "set ?ds = {..<a_n j}"
      using ds len card_subset_eq [of "{..<a_n j}" "set ?ds"] distinct_card [of ?ds] by simp
    let ?s1 = "unlock ?i (upd_slot ?i (\<lambda>k. k\<lparr>k_box := []\<rparr>) s3)"
    have src: "\<forall>x \<in> set ?ds. c_src (w_cookies (cw_world s3) (?q x)) = int x"
      using s3(3) by (simp add: offers_def Let_def)
    have sp: "[0..<a_n j] = 0 # [1..<a_n j]" using r(1) by (simp add: upt_conv_Cons)
    have box: "k_box (a_slot j s3) = map ?q ?ds" using sl by simp
    have "sort_key (\<lambda>c. c_src (w_cookies (cw_world s3) c)) (map ?q ?ds) = map ?q [0..<a_n j]"
      by (rule sort_requests [OF ds(1) all, of "\<lambda>c. c_src (w_cookies (cw_world s3) c)" ?q, OF src])
    then have srt: "sort_key (\<lambda>c. c_src (w_cookies (cw_world s3) c)) (k_box (a_slot j s3)) = ?q 0 # map ?q [1..<a_n j]"
      unfolding box sp by (simp only: list.map)
    have rq: "\<forall>x < a_n j. x < w_size (cw_world s3) \<and> offers (cw_world s3) (?q x) x (bf x) (a_type j) (a_cnt j) (scan_busy x) \<and>
        map (w_mem (cw_world s3)) (buf_locs j bf x) = d x"
    proof (intro allI impI)
      fix x assume x: "x < a_n j"
      then have "x \<in> set ?ds" by (simp only: all lessThan_iff)
      from bspec [OF s3(3) this] show "x < w_size (cw_world s3) \<and> offers (cw_world s3) (?q x) x (bf x) (a_type j) (a_cnt j) (scan_busy x) \<and>
          map (w_mem (cw_world s3)) (buf_locs j bf x) = d x"
        using x by (simp only: s3(1))
    qed
    have "mset ?ds = mset [0..<a_n j]"
      by (rule iffD1 [OF set_eq_iff_mset_eq_distinct [OF ds(1) distinct_upt]]) (simp only: all set_upt atLeast0LessThan)
    then have "mset (map ?q ?ds) = mset (map ?q [0..<a_n j])" by (simp only: mset_map)
    then have "box_inv (cw_world s3) (mset (map ?q [0..<a_n j]) + B)" using s3(2) by (simp only:)
    from serve_all [OF ok _ bf v rq this] r(1)
    obtain w' where w': "and_then (read_from_owner (h_readv h) (?q 0) (Shm, sb) (a_type j) (a_cnt j) 0 0 0 (to_pending (?q 0) (cw_world s3)))
        (\<lambda>(w1, ret). if ret \<noteq> 0 then drop_todo (map ?q [1..<a_n j]) ret w1
          else loop h (a_op j) (Shm, sb) (Shm, rb) (a_cnt j) (a_type j) (map ?q [1..<a_n j]) w1) = Ret (w', MPI_SUCCESS)"
      "w_size w' = w_size (cw_world s3)" "w_pool w' = w_pool (cw_world s3)" "box_inv w' B"
      "\<forall>x < a_n j. map (w_mem w') (buf_locs j bf x) = v x \<and> finished w' (?q x)"
      "\<forall>l. l \<notin> set (shm_locs j sb) \<and> l \<notin> set (shm_locs j rb) \<and> (\<forall>x < a_n j. l \<notin> set (buf_locs j bf x)) \<longrightarrow> w_mem w' l = w_mem (cw_world s3) l"
      by auto
    let ?s2 = "set_world w' ?s1"
    have "slot_frame (a_n j) (a_ticket j) B ?ds ?s2"
      using w'(2-4) s3(1,5) ds sl len by (simp add: slot_frame_def)
    moreover have "w_mem w' l = m0 l" if "l \<notin> set (shm_locs j sb) \<and> l \<notin> set (shm_locs j rb) \<and> (\<forall>x \<in> set ?ds. l \<notin> set (buf_locs j bf x))" for l
      using w'(6) s3(4) that all by (metis lessThan_iff)
    ultimately have "scan_inv j sb rb bf d v m0 B ?ds ?q ?s2"
      using w'(5) len sl k all unfolding scan_inv_def by (simp del: length_append map_append set_append)
    moreover have "scan_last (\<lambda>a b. loop h (a_op j) a b (a_cnt j) (a_type j)) h u ?i (a_cnt j) (a_type j) c s3 = Ret (?s2, MPI_SUCCESS, Some c)"
    proof -
      have "k_joined (a_slot j s3) = u_size u" "k_sendbuf (a_slot j s3) = sb" "k_recvbuf (a_slot j s3) = rb"
        unfolding sl using len u(2) k by simp_all
      then show ?thesis using scan_last_sorted [OF _ srt] w'(1) by (simp only: finish_with_def and_then.simps prod.case)
    qed
    ultimately show ?thesis using cr by auto
  qed
qed

end

section \<open>Starting from a free slot\<close>

text \<open>Where the data of a rank are: in the receive buffer when \<^verbatim>\<open>sendbuf\<close> is \<^verbatim>\<open>MPI_IN_PLACE\<close>.\<close>

definition in_locs :: "host \<Rightarrow> allreduce_job \<Rightarrow> nat \<Rightarrow> loc list" where
  "in_locs h j r = (if a_send j r = h_in_place h then recv_locs j r else send_locs j r)"

text \<open>
  \<open>R\<close> are the ranks that use their receive buffer. The vectors fit into the in-place buffers, which are
  \<^verbatim>\<open>UMPI_MAX_IN_PLACE_LEN\<close> bytes long each.
\<close>

definition scan_job_ok :: "host \<Rightarrow> allreduce_job \<Rightarrow> (nat \<Rightarrow> umpi) \<Rightarrow> nat set \<Rightarrow> bool" where
  "scan_job_ok h j us R \<longleftrightarrow> 0 < a_n j \<and> same_call (a_n j) us (a_ticket j) \<and> whole_buf (a_type j) (a_cnt j) \<and>
     distinct (shm_locs j 0) \<and> 0 \<le> iov_stride (a_type j) \<and> a_cnt j * iov_stride (a_type j) \<le> UMPI_MAX_IN_PLACE_LEN \<and>
     (\<forall>r < a_n j. (a_send j r = 0 \<or> r \<in> R \<and> a_recv j r = 0 \<longrightarrow> a_cnt j = 0) \<and>
        (r \<in> R \<and> a_send j r \<noteq> h_in_place h \<longrightarrow> set (send_locs j r) \<inter> set (recv_locs j r) = {}))"

definition scan_start ::
  "host \<Rightarrow> allreduce_job \<Rightarrow> (nat \<Rightarrow> umpi) \<Rightarrow> nat set \<Rightarrow> cid multiset \<Rightarrow> (byte list \<Rightarrow> byte list \<Rightarrow> byte list option) \<Rightarrow> cworld \<Rightarrow> bool" where
  "scan_start h j us R B F s \<longleftrightarrow> scan_job_ok h j us R \<and> vm_ok (h_writev h) \<and> vm_ok (h_readv h) \<and>
     op_computes h (a_op j) (a_cnt j) (a_type j) F \<and>
     UMPI_MAX_IN_PLACE_LEN \<le> \<bar>k_sendbuf (a_slot j s) - k_recvbuf (a_slot j s)\<bar> \<and>
     w_size (cw_world s) = a_n j \<and> box_inv (cw_world s) B \<and> slot_free (a_ticket j) s \<and>
     64 * a_n j \<le> unat (p_space (w_pool (cw_world s)))"

lemma scan_startD:
  assumes "scan_start h j us R B F s"
  shows "scan_ok h j (k_sendbuf (a_slot j s)) (k_recvbuf (a_slot j s)) F" "0 < a_n j" "a_n j < 32768"
    "scan_inv j (k_sendbuf (a_slot j s)) (k_recvbuf (a_slot j s)) bf d v (w_mem (cw_world s)) B [] q s"
proof -
  let ?sb = "k_sendbuf (a_slot j s)" and ?rb = "k_recvbuf (a_slot j s)"
  have ok: "scan_job_ok h j us R" using assms by (simp add: scan_start_def)
  have wf: "wf_iovec (a_type j)" "0 \<le> iov_stride (a_type j)" "a_cnt j * iov_stride (a_type j) \<le> 64" and far: "64 \<le> \<bar>?sb - ?rb\<bar>"
    using ok assms by (simp_all add: scan_job_ok_def scan_start_def whole_buf_def typed_buf_def UMPI_MAX_IN_PLACE_LEN_def)
  have "set (shm_locs j ?sb) \<inter> set (shm_locs j ?rb) = {}"
  proof -
    have w: "b \<le> snd l \<and> snd l < b + 64" if "l \<in> set (shm_locs j b)" for b l
      using payload_within [OF wf(1,2), of "fst l" "snd l" "(Shm, b)" 0 "a_cnt j"] that wf(3) by simp
    have False if "l \<in> set (shm_locs j ?sb)" "l \<in> set (shm_locs j ?rb)" for l
      using w [OF that(1)] w [OF that(2)] far by linarith
    then show ?thesis by blast
  qed
  then show "scan_ok h j ?sb ?rb F"
    using assms ok payload_distinct [of "(Shm, ?sb)" "a_type j" 0 "a_cnt j" "(Shm, 0)"]
    by (simp add: scan_ok_def scan_start_def scan_job_ok_def)
  show n: "0 < a_n j" "a_n j < 32768" using ok by (simp_all add: scan_job_ok_def same_call_def)
  have "slot_frame (a_n j) (a_ticket j) B [] s" using assms by (intro slot_frame_start) (simp_all add: scan_start_def)
  then show "scan_inv j ?sb ?rb bf d v (w_mem (cw_world s)) B [] q s"
    using assms n(1) by (simp add: scan_inv_def scan_start_def slot_free_def)
qed

lemma scan_inv_end:
  assumes "scan_inv j sb rb bf d v m0 B rs q s" "distinct rs" "set rs = {..<a_n j}"
  shows "\<forall>r < a_n j. map (w_mem (cw_world s)) (buf_locs j bf r) = v r \<and> finished (cw_world s) (q r)"
    "\<forall>l. l \<notin> set (shm_locs j sb) \<and> l \<notin> set (shm_locs j rb) \<and> (\<forall>r < a_n j. l \<notin> set (buf_locs j bf r)) \<longrightarrow>
       w_mem (cw_world s) l = m0 l"
    "slot_free (a_ticket j) s \<and> box_inv (cw_world s) B"
proof -
  have "length rs = a_n j" using assms(2,3) distinct_card [of rs] by simp
  then have i: "slot_frame (a_n j) (a_ticket j) B rs s" "k_box (a_slot j s) = []"
    "\<forall>r \<in> set rs. map (w_mem (cw_world s)) (buf_locs j bf r) = v r \<and> finished (cw_world s) (q r)"
    "\<forall>l. l \<notin> set (shm_locs j sb) \<and> l \<notin> set (shm_locs j rb) \<and> (\<forall>r \<in> set rs. l \<notin> set (buf_locs j bf r)) \<longrightarrow>
       w_mem (cw_world s) l = m0 l"
    using assms(1) unfolding scan_inv_def by simp_all
  show "slot_free (a_ticket j) s \<and> box_inv (cw_world s) B" using i(1,2) by (simp add: slot_frame_def slot_free_def)
  show "\<forall>r < a_n j. map (w_mem (cw_world s)) (buf_locs j bf r) = v r \<and> finished (cw_world s) (q r)" using i(3) assms(3) by simp
  show "\<forall>l. l \<notin> set (shm_locs j sb) \<and> l \<notin> set (shm_locs j rb) \<and> (\<forall>r < a_n j. l \<notin> set (buf_locs j bf r)) \<longrightarrow>
       w_mem (cw_world s) l = m0 l" using i(4) unfolding assms(3) by simp
qed

text \<open>The copy into the receive buffer.\<close>

lemma scan_copies:
  assumes ok: "scan_ok h j sb rb F" and job: "scan_job_ok h j us R" and r: "r < a_n j" "r \<in> R"
    and d: "map (w_mem (cw_world s)) (in_locs h j r) = d r" and bf: "bf r = a_recv j r"
  shows "\<exists>w1. (if a_send j r \<noteq> h_in_place h
      then copy_in h u (Priv r, a_send j r) (a_type j) (a_cnt j) 0 (Priv r, a_recv j r) (a_type j) (a_cnt j) 0 s else s) = set_world w1 s \<and>
    scan_data j bf d r (cw_world s) w1"
proof (cases "a_send j r = h_in_place h")
  case True
  have "set_world (cw_world s) s = s" by (simp add: set_world_def)
  then show ?thesis using True d bf by (intro exI [of _ "cw_world s"]) (simp add: scan_data_def same_boxes_refl in_locs_def recv_locs_def)
next
  case False
  note o' = scan_okD [OF ok]
  have sep: "separate (send_locs j r) (recv_locs j r)"
    using job r False o'(7) [of r] by (simp add: scan_job_ok_def separate_def)
  have "typed_buf (a_type j) 0 (a_cnt j)" using o'(3) by (simp add: whole_buf_def)
  from copy_whole [OF o'(1) this sep [unfolded send_locs_def recv_locs_def]]
  obtain w1 where w1: "copy_in h u (Priv r, a_send j r) (a_type j) (a_cnt j) 0 (Priv r, a_recv j r) (a_type j) (a_cnt j) 0 s = set_world w1 s"
    "only_writes (set (recv_locs j r)) (cw_world s) w1" "map (w_mem w1) (recv_locs j r) = map (w_mem (cw_world s)) (send_locs j r)"
    unfolding send_locs_def recv_locs_def by blast
  have "scan_data j bf d r (cw_world s) w1"
    using w1(3) d False bf only_writesD [OF w1(2)] by (simp add: scan_data_def in_locs_def recv_locs_def)
  then show ?thesis using False w1(1) by auto
qed

section \<open>Inclusive scan\<close>

definition iscan_of :: "host \<Rightarrow> (nat \<Rightarrow> umpi) \<Rightarrow> allreduce_job \<Rightarrow> nat \<Rightarrow> cworld \<Rightarrow> call" where
  "iscan_of h us j r = MPI_Iscan h (Some (us r)) (a_send j r) (a_recv j r) (a_cnt j) (Some (a_type j)) (Some (a_op j)) MPI_COMM_WORLD"

text \<open>What a rank finds before it calls: its slot, and its data where they were.\<close>

lemma scan_enter:
  assumes inv: "scan_inv j sb rb bf d v m0 B ds q s" and job: "scan_job_ok h j us R" and r: "r < a_n j" "r \<notin> set ds"
  shows "slot_after (a_ticket j) (length ds) (a_slot j s)" "map (w_mem (cw_world s)) (in_locs h j r) = map m0 (in_locs h j r)"
    "u_rank (us r) = r" "u_size (us r) = int (a_n j)" "same_call (a_n j) us (a_ticket j)"
proof -
  have fr: "slot_frame (a_n j) (a_ticket j) B ds s" using inv by (simp add: scan_inv_def)
  show "slot_after (a_ticket j) (length ds) (a_slot j s)" using fr slot_frame_not_all [OF fr r] by (simp add: slot_frame_def)
  show sc: "same_call (a_n j) us (a_ticket j)" using job by (simp add: scan_job_ok_def)
  then show "u_rank (us r) = r" "u_size (us r) = int (a_n j)" using r(1) by (simp_all add: same_call_def)
  show "map (w_mem (cw_world s)) (in_locs h j r) = map m0 (in_locs h j r)"
  proof (intro map_cong refl)
    fix l assume "l \<in> set (in_locs h j r)"
    then have l: "l \<in> set (recv_locs j r) \<or> l \<in> set (send_locs j r)" by (auto simp: in_locs_def split: if_splits)
    then have "l \<notin> set (shm_locs j sb)" "l \<notin> set (shm_locs j rb)"
      using shm_apart unfolding recv_locs_def send_locs_def by blast+
    moreover have "l \<notin> set (buf_locs j bf x)" if "x \<in> set ds" for x
    proof -
      have "x \<noteq> r" using that r(2) by blast
      then show ?thesis using l data_locs_apart unfolding recv_locs_def send_locs_def by blast
    qed
    ultimately show "w_mem (cw_world s) l = m0 l" using inv unfolding scan_inv_def by blast
  qed
qed

lemma iscan_call:
  assumes ok: "scan_ok h j sb rb F" and job: "scan_job_ok h j us UNIV" and n: "a_n j < 32768"
    and v: "\<forall>r < a_n j. fold_ranks F (\<lambda>r. map m0 (in_locs h j r)) [0..<Suc r] = Some (v r)"
    and inv: "scan_inv j sb rb (a_recv j) (\<lambda>r. map m0 (in_locs h j r)) v m0 B ds q s" and r: "r < a_n j" "r \<notin> set ds"
  shows "\<exists>u s2 c. iscan_of h us j r s = Ret (u, s2, MPI_SUCCESS, Some c) \<and>
    scan_inv j sb rb (a_recv j) (\<lambda>r. map m0 (in_locs h j r)) v m0 B (ds @ [r]) (q(r := c)) s2"
proof -
  let ?u = "(us r)\<lparr>u_ticket := a_ticket j + 1\<rparr>" and ?s1 = "entered (a_ticket j) (length ds) s" and ?i = "slot_of (a_ticket j)"
  note e = scan_enter [OF inv job r]
  have pr: "\<forall>r < a_n j. fold_ranks F (\<lambda>r. map m0 (in_locs h j r)) (prefix_ranks 1 r) = Some (v r)"
    using v by (simp only: prefix_ranks_1)
  obtain w1 where w1: "(if a_send j r \<noteq> h_in_place h
      then copy_in h ?u (Priv r, a_send j r) (a_type j) (a_cnt j) 0 (Priv r, a_recv j r) (a_type j) (a_cnt j) 0 ?s1 else ?s1) = set_world w1 ?s1"
    "scan_data j (a_recv j) (\<lambda>r. map m0 (in_locs h j r)) r (cw_world s) w1"
    using scan_copies [OF ok job r(1), of ?s1 "\<lambda>r. map m0 (in_locs h j r)" "a_recv j"] e(2) by auto
  have req: "scan_request h ?u ?i (a_send j r) (a_recv j r) (a_cnt j) (a_type j) (a_op j) ?s1 =
      and_then (collect_create ?u ?i (a_recv j r) (a_type j) (a_cnt j) (a_cnt j) (scan_busy r) (set_world w1 ?s1))
        (\<lambda>(s2, c). scan_last (\<lambda>a b. scan_loop h (a_op j) a b (a_cnt j) (a_type j)) h ?u ?i (a_cnt j) (a_type j) c s2)"
    using w1(1) e(3) job by (simp add: scan_request_def scan_busy_def scan_job_ok_def Let_def)
  have "iscan_of h us j r s = and_then (scan_request h ?u ?i (a_send j r) (a_recv j r) (a_cnt j) (a_type j) (a_op j) ?s1)
      (\<lambda>(s2, ret, c). Ret (Some ?u, s2, ret, c))"
    using job r in_slot_enter [OF e(5) r(1) e(1)] by (auto simp: iscan_of_def MPI_Iscan_def scan_job_ok_def)
  moreover obtain s2 c where "and_then (collect_create ?u ?i (a_recv j r) (a_type j) (a_cnt j) (a_cnt j) (scan_busy r) (set_world w1 ?s1))
        (\<lambda>(s2, c). scan_last (\<lambda>a b. scan_loop h (a_op j) a b (a_cnt j) (a_type j)) h ?u ?i (a_cnt j) (a_type j) c s2) = Ret (s2, MPI_SUCCESS, Some c)"
    "scan_inv j sb rb (a_recv j) (\<lambda>r. map m0 (in_locs h j r)) v m0 B (ds @ [r]) (q(r := c)) s2"
    using scan.scan_call [OF ok _ pr n inv r _ _ w1(2), of ?u] e(3,4) by auto
  ultimately show ?thesis using req by auto
qed

text \<open>C14: The inclusive scan, whatever the order in which the ranks arrive. All \<open>n\<close> ranks call \<^verbatim>\<open>MPI_Iscan\<close> on a
  free slot, each once, in the order \<open>rs\<close>, each with a send buffer or in place. If combining the vectors
  of the ranks 0 to \<open>r\<close>, in the order of the ranks, is defined with value \<open>v r\<close> for every \<open>r\<close>, every call
  returns \<^verbatim>\<open>MPI_SUCCESS\<close>; after the last, the receive buffer of rank \<open>r\<close> holds \<open>v r\<close>, nothing outside the
  receive buffers and the two in-place buffers of the slot has changed, every request is completed
  without error and the slot is free again.\<close>

theorem iscan_all_orders:
  assumes "scan_start h j us UNIV B F s" "distinct rs" "set rs = {..<a_n j}"
    and "\<forall>r < a_n j. fold_ranks F (\<lambda>r. map (w_mem (cw_world s)) (in_locs h j r)) [0..<Suc r] = Some (v r)"
  shows "\<exists>s' q. calls_all (iscan_of h us j) rs s = Ret (s', map (\<lambda>r. (MPI_SUCCESS, Some (q r))) rs) \<and>
    (\<forall>r < a_n j. map (w_mem (cw_world s')) (recv_locs j r) = v r \<and> finished (cw_world s') (q r)) \<and>
    (\<forall>l. l \<notin> set (shm_locs j (k_sendbuf (a_slot j s))) \<and> l \<notin> set (shm_locs j (k_recvbuf (a_slot j s))) \<and>
       (\<forall>r < a_n j. l \<notin> set (recv_locs j r)) \<longrightarrow> w_mem (cw_world s') l = w_mem (cw_world s) l) \<and>
    slot_free (a_ticket j) s' \<and> box_inv (cw_world s') B"
proof -
  let ?m0 = "w_mem (cw_world s)"
  let ?I = "scan_inv j (k_sendbuf (a_slot j s)) (k_recvbuf (a_slot j s)) (a_recv j) (\<lambda>r. map ?m0 (in_locs h j r)) v ?m0 B"
  note st = scan_startD [OF assms(1)]
  have job: "scan_job_ok h j us UNIV" using assms(1) by (simp add: scan_start_def)
  obtain s' q where r: "calls_all (iscan_of h us j) rs s = Ret (s', map (\<lambda>r. (MPI_SUCCESS, Some (q r))) rs)" "?I rs q s'"
    using calls_all_inv [of ?I "a_n j" "iscan_of h us j" "[]" "\<lambda>_. bp_null" s rs] iscan_call [OF st(1) job st(3) assms(4)] st(4) assms(2,3)
    by auto
  show ?thesis
    using r(1) scan_inv_end [OF r(2) assms(2,3)] unfolding recv_locs_def by blast
qed

lemma demo_scan_start: "0 < n \<Longrightarrow> n \<le> 3 \<Longrightarrow> scan_start demo_host (demo_allreduce\<lparr>a_n := n\<rparr>) (demo_ranks n) R {#}
    (vec_apply (elem_op (h_float demo_host) Op_sum UMPI_ID_UNSIGNED) 4 1) (demo_cworld n demo_vectors)"
proof -
  assume n: "0 < n" "n \<le> 3"
  let ?ty = "[iov_entry (id_val UMPI_ID_UNSIGNED) 4]"
  have "distinct (payload (Shm, 0) ?ty 0 1)"
    using payload_distinct [of "(Shm, 0)" ?ty 0 1 "(Priv 0, 1000)"] demo_locs by simp
  moreover have "send_locs (demo_allreduce\<lparr>a_n := n\<rparr>) r = payload (Priv r, 1000) ?ty 0 1"
    "recv_locs (demo_allreduce\<lparr>a_n := n\<rparr>) r = payload (Priv r, 2000) ?ty 0 1" for r
    by (simp_all add: send_locs_def recv_locs_def demo_allreduce_def)
  then have "set (send_locs (demo_allreduce\<lparr>a_n := n\<rparr>) r) \<inter> set (recv_locs (demo_allreduce\<lparr>a_n := n\<rparr>) r) = {}" for r
    unfolding demo_locs by simp
  moreover have "whole_buf ?ty 1" using demo_allreduce_start by (simp add: allreduce_start_def allreduce_job_ok_def demo_allreduce_def)
  moreover have "iov_stride ?ty = 4" by (simp add: iov_defs)
  ultimately have "scan_job_ok demo_host (demo_allreduce\<lparr>a_n := n\<rparr>) (demo_ranks n) R"
    using n demo_ranks_call [of n] by (simp add: scan_job_ok_def UMPI_MAX_IN_PLACE_LEN_def) (simp add: demo_allreduce_def)
  then show ?thesis
    using n demo_cworld_start [of n demo_vectors] vm_ok_copy demo_computes
    by (simp add: scan_start_def demo_host_def UMPI_MAX_IN_PLACE_LEN_def)
      (simp add: demo_allreduce_def demo_cworld_def new_collect_def)
qed

lemma demo_in_locs: "map demo_vectors (in_locs demo_host (demo_allreduce\<lparr>a_n := n\<rparr>) r) =
    map (\<lambda>a. demo_vectors (Priv r, a)) [1000, 1001, 1002, 1003]"
proof -
  have "in_locs demo_host (demo_allreduce\<lparr>a_n := n\<rparr>) r = payload (Priv r, 1000) [iov_entry (id_val UMPI_ID_UNSIGNED) 4] 0 1"
    by (simp add: in_locs_def send_locs_def demo_allreduce_def demo_host_def)
  then show ?thesis by (simp only: demo_locs list.map)
qed

text \<open>What the ranks 0, 0 and 1, and 0 to 2 add up to: 250, 257 and 513.\<close>

definition demo_prefix :: "nat \<Rightarrow> byte list" where
  "demo_prefix r = (if r = 0 then [250, 0, 0, 0] else if r = 1 then [1, 1, 0, 0] else [1, 2, 0, 0])"

lemma demo_prefixes:
  assumes "r < 3"
  shows "fold_ranks (vec_apply (elem_op (h_float demo_host) Op_sum UMPI_ID_UNSIGNED) 4 1)
    (\<lambda>r. map demo_vectors (in_locs demo_host (demo_allreduce\<lparr>a_n := n\<rparr>) r)) [0..<Suc r] = Some (demo_prefix r)"
proof -
  have u: "[0..<Suc 0] = [0]" "[0..<Suc 1] = [0, 1]" "[0..<Suc 2] = [0, 1, 2]" by (simp_all add: numeral_2_eq_2)
  have "r = 0 \<or> r = 1 \<or> r = 2" using assms by auto
  then show ?thesis
    unfolding demo_in_locs
    by (elim disjE; simp only: u)
      (simp_all add: demo_vectors_def demo_prefix_def combine_def elem_op_def int_op_def decode_int_def wrap_def type_mod_def arith_type_def
        encode_int_def le_bytes_4)
qed

lemma iscan_all_orders_witness:
  "\<exists>s' out. calls_all (iscan_of demo_host (demo_ranks 3) (demo_allreduce\<lparr>a_n := 3\<rparr>)) [2, 0, 1] (demo_cworld 3 demo_vectors) = Ret (s', out) \<and>
    map (w_mem (cw_world s')) (recv_locs (demo_allreduce\<lparr>a_n := 3\<rparr>) 1) = [1, 1, 0, 0] \<and>
    map (w_mem (cw_world s')) (recv_locs (demo_allreduce\<lparr>a_n := 3\<rparr>) 2) = [1, 2, 0, 0]"
proof -
  let ?j = "demo_allreduce\<lparr>a_n := 3\<rparr>"
  have rs: "distinct [2, 0, 1 :: nat]" "set [2, 0, 1] = {..<a_n ?j}" by auto
  have st: "scan_start demo_host ?j (demo_ranks 3) UNIV {#} (vec_apply (elem_op (h_float demo_host) Op_sum UMPI_ID_UNSIGNED) 4 1)
      (demo_cworld 3 demo_vectors)"
    by (rule demo_scan_start) simp_all
  have v: "\<forall>r < a_n ?j. fold_ranks (vec_apply (elem_op (h_float demo_host) Op_sum UMPI_ID_UNSIGNED) 4 1)
      (\<lambda>r. map demo_vectors (in_locs demo_host ?j r)) [0..<Suc r] = Some (demo_prefix r)"
  proof (intro allI impI)
    fix r assume "r < a_n ?j"
    then show "fold_ranks (vec_apply (elem_op (h_float demo_host) Op_sum UMPI_ID_UNSIGNED) 4 1)
      (\<lambda>r. map demo_vectors (in_locs demo_host ?j r)) [0..<Suc r] = Some (demo_prefix r)" by (intro demo_prefixes) simp
  qed
  have n: "1 < a_n ?j" "2 < a_n ?j" and d: "demo_prefix 1 = [1, 1, 0, 0]" "demo_prefix 2 = [1, 2, 0, 0]" by (simp_all add: demo_prefix_def)
  from iscan_all_orders [OF st rs, unfolded demo_cworld_start(2), OF v] n show ?thesis unfolding d [symmetric] by blast
qed

section \<open>Exclusive scan\<close>

definition iexscan_of :: "host \<Rightarrow> (nat \<Rightarrow> umpi) \<Rightarrow> allreduce_job \<Rightarrow> nat \<Rightarrow> cworld \<Rightarrow> call" where
  "iexscan_of h us j r = MPI_Iexscan h (Some (us r)) (a_send j r) (a_recv j r) (a_cnt j) (Some (a_type j)) (Some (a_op j)) MPI_COMM_WORLD"

text \<open>The request of rank 0 is for its send buffer.\<close>

definition exscan_buf :: "allreduce_job \<Rightarrow> nat \<Rightarrow> int" where
  "exscan_buf j r = (if r = 0 then a_send j 0 else a_recv j r)"

lemma iexscan_call:
  assumes ok: "scan_ok h j sb rb F" and job: "scan_job_ok h j us {r. r \<noteq> 0}" and n: "a_n j < 32768" and z: "a_send j 0 \<noteq> h_in_place h"
    and v: "\<forall>r < a_n j. fold_ranks F (\<lambda>r. map m0 (in_locs h j r)) (prefix_ranks 0 r) = Some (v r)"
    and inv: "scan_inv j sb rb (exscan_buf j) (\<lambda>r. map m0 (in_locs h j r)) v m0 B ds q s" and r: "r < a_n j" "r \<notin> set ds"
  shows "\<exists>u s2 c. iexscan_of h us j r s = Ret (u, s2, MPI_SUCCESS, Some c) \<and>
    scan_inv j sb rb (exscan_buf j) (\<lambda>r. map m0 (in_locs h j r)) v m0 B (ds @ [r]) (q(r := c)) s2"
proof -
  let ?u = "(us r)\<lparr>u_ticket := a_ticket j + 1\<rparr>" and ?s1 = "entered (a_ticket j) (length ds) s" and ?i = "slot_of (a_ticket j)"
  let ?d = "\<lambda>r. map m0 (in_locs h j r)"
  note e = scan_enter [OF inv job r]
  have "\<exists>w1. (if r \<noteq> 0 \<and> a_send j r \<noteq> h_in_place h
      then copy_in h ?u (Priv r, a_send j r) (a_type j) (a_cnt j) 0 (Priv r, a_recv j r) (a_type j) (a_cnt j) 0 ?s1 else ?s1) = set_world w1 ?s1 \<and>
    scan_data j (exscan_buf j) ?d r (cw_world s) w1"
  proof (cases "r = 0")
    case True
    have "set_world (cw_world s) ?s1 = ?s1" by (simp add: set_world_def entered_def upd_slot_def)
    then show ?thesis
      using True z e(2) by (intro exI [of _ "cw_world s"]) (simp add: scan_data_def same_boxes_refl exscan_buf_def in_locs_def send_locs_def)
  next
    case False
    then show ?thesis using scan_copies [OF ok job r(1), of ?s1 ?d "exscan_buf j"] e(2) by (auto simp: exscan_buf_def)
  qed
  then obtain w1 where w1: "(if r \<noteq> 0 \<and> a_send j r \<noteq> h_in_place h
      then copy_in h ?u (Priv r, a_send j r) (a_type j) (a_cnt j) 0 (Priv r, a_recv j r) (a_type j) (a_cnt j) 0 ?s1 else ?s1) = set_world w1 ?s1"
    "scan_data j (exscan_buf j) ?d r (cw_world s) w1"
    by blast
  have buf: "(if r \<noteq> 0 then a_recv j r else a_send j r) = exscan_buf j r" by (simp add: exscan_buf_def)
  have req: "exscan_request h ?u ?i (a_send j r) (a_recv j r) (a_cnt j) (a_type j) (a_op j) ?s1 =
      and_then (collect_create ?u ?i (exscan_buf j r) (a_type j) (a_cnt j) (a_cnt j) (scan_busy r) (set_world w1 ?s1))
        (\<lambda>(s2, c). scan_last (\<lambda>a b. exscan_loop h (a_op j) a b (a_cnt j) (a_type j)) h ?u ?i (a_cnt j) (a_type j) c s2)"
    using w1(1) e(3) job buf by (simp add: exscan_request_def scan_busy_def scan_job_ok_def Let_def)
  have "iexscan_of h us j r s = and_then (exscan_request h ?u ?i (a_send j r) (a_recv j r) (a_cnt j) (a_type j) (a_op j) ?s1)
      (\<lambda>(s2, ret, c). Ret (Some ?u, s2, ret, c))"
    using job r e(3) in_slot_enter [OF e(5) r(1) e(1)] by (auto simp: iexscan_of_def MPI_Iexscan_def scan_job_ok_def)
  moreover obtain s2 c where "and_then (collect_create ?u ?i (exscan_buf j r) (a_type j) (a_cnt j) (a_cnt j) (scan_busy r) (set_world w1 ?s1))
        (\<lambda>(s2, c). scan_last (\<lambda>a b. exscan_loop h (a_op j) a b (a_cnt j) (a_type j)) h ?u ?i (a_cnt j) (a_type j) c s2) = Ret (s2, MPI_SUCCESS, Some c)"
    "scan_inv j sb rb (exscan_buf j) ?d v m0 B (ds @ [r]) (q(r := c)) s2"
    using exscan.scan_call [OF ok _ v n inv r _ _ w1(2), of ?u] e(3,4) by (auto simp: exscan_buf_def)
  ultimately show ?thesis using req by auto
qed

text \<open>C15: The exclusive scan, whatever the order in which the ranks arrive: as for \<^verbatim>\<open>MPI_Iscan\<close>, but rank \<open>r\<close>
  receives the vectors of the ranks 0 to \<open>r - 1\<close>, combined in this order, and the receive buffer of rank
  0, which may be a null pointer, is not touched. Rank 0 must not call in place.\<close>

theorem iexscan_all_orders:
  assumes "scan_start h j us {r. r \<noteq> 0} B F s" "distinct rs" "set rs = {..<a_n j}" "a_send j 0 \<noteq> h_in_place h"
    and "\<forall>r < a_n j. r \<noteq> 0 \<longrightarrow> fold_ranks F (\<lambda>r. map (w_mem (cw_world s)) (in_locs h j r)) [0..<r] = Some (v r)"
  shows "\<exists>s' q. calls_all (iexscan_of h us j) rs s = Ret (s', map (\<lambda>r. (MPI_SUCCESS, Some (q r))) rs) \<and>
    (\<forall>r < a_n j. (r \<noteq> 0 \<longrightarrow> map (w_mem (cw_world s')) (recv_locs j r) = v r) \<and> finished (cw_world s') (q r)) \<and>
    (\<forall>l. l \<notin> set (shm_locs j (k_sendbuf (a_slot j s))) \<and> l \<notin> set (shm_locs j (k_recvbuf (a_slot j s))) \<and>
       (\<forall>r < a_n j. r \<noteq> 0 \<longrightarrow> l \<notin> set (recv_locs j r)) \<longrightarrow> w_mem (cw_world s') l = w_mem (cw_world s) l) \<and>
    slot_free (a_ticket j) s' \<and> box_inv (cw_world s') B"
proof -
  let ?m0 = "w_mem (cw_world s)" and ?sb = "k_sendbuf (a_slot j s)" and ?rb = "k_recvbuf (a_slot j s)"
  let ?d = "\<lambda>r. map ?m0 (in_locs h j r)" and ?v = "v(0 := map (w_mem (cw_world s)) (in_locs h j 0))"
  let ?I = "scan_inv j ?sb ?rb (exscan_buf j) ?d ?v ?m0 B"
  note st = scan_startD [OF assms(1)]
  have job: "scan_job_ok h j us {r. r \<noteq> 0}" using assms(1) by (simp add: scan_start_def)
  have v: "\<forall>r < a_n j. fold_ranks F ?d (prefix_ranks 0 r) = Some (?v r)" using assms(5) by (simp add: prefix_ranks_def)
  obtain s' q where r: "calls_all (iexscan_of h us j) rs s = Ret (s', map (\<lambda>r. (MPI_SUCCESS, Some (q r))) rs)" "?I rs q s'"
  proof -
    have "\<exists>u s2 c. iexscan_of h us j r sa = Ret (u, s2, MPI_SUCCESS, Some c) \<and> ?I (ds @ [r]) (q(r := c)) s2"
      if "?I ds q sa" "r < a_n j" "r \<notin> set ds" for ds q sa r
      by (rule iexscan_call [OF st(1) job st(3) assms(4) v that])
    from calls_all_inv [of ?I "a_n j" "iexscan_of h us j", OF this st(4) [of _ _ _ "\<lambda>_. bp_null"], of rs] assms(2,3) that
    show thesis by auto
  qed
  note e = scan_inv_end [OF r(2) assms(2,3)]
  have buf: "buf_locs j (exscan_buf j) r = (if r = 0 then send_locs j 0 else recv_locs j r)" for r
    by (simp add: exscan_buf_def send_locs_def recv_locs_def)
  have zero: "in_locs h j 0 = send_locs j 0" using assms(4) by (simp add: in_locs_def)
  have "w_mem (cw_world s') l = ?m0 l"
    if l: "l \<notin> set (shm_locs j ?sb) \<and> l \<notin> set (shm_locs j ?rb) \<and> (\<forall>r < a_n j. r \<noteq> 0 \<longrightarrow> l \<notin> set (recv_locs j r))" for l
  proof (cases "l \<in> set (send_locs j 0)")
    case True
    have "map (w_mem (cw_world s')) (send_locs j 0) = map ?m0 (send_locs j 0)" using e(1) st(2) buf [of 0] zero by auto
    then show ?thesis using True by (simp only: map_eq_conv)
  next
    case False
    then have "\<forall>r < a_n j. l \<notin> set (buf_locs j (exscan_buf j) r)" using l unfolding buf by auto
    then show ?thesis using e(2) l by blast
  qed
  moreover have "(r \<noteq> 0 \<longrightarrow> map (w_mem (cw_world s')) (recv_locs j r) = v r) \<and> finished (cw_world s') (q r)" if "r < a_n j" for r
    using e(1) that unfolding buf by auto
  ultimately show ?thesis using r(1) e(3) by blast
qed

lemma iexscan_all_orders_witness:
  "\<exists>s' out. calls_all (iexscan_of demo_host (demo_ranks 3) (demo_allreduce\<lparr>a_n := 3\<rparr>)) [2, 0, 1] (demo_cworld 3 demo_vectors) = Ret (s', out) \<and>
    map (w_mem (cw_world s')) (recv_locs (demo_allreduce\<lparr>a_n := 3\<rparr>) 1) = [250, 0, 0, 0] \<and>
    map (w_mem (cw_world s')) (recv_locs (demo_allreduce\<lparr>a_n := 3\<rparr>) 2) = [1, 1, 0, 0]"
proof -
  let ?j = "demo_allreduce\<lparr>a_n := 3\<rparr>"
  have rs: "distinct [2, 0, 1 :: nat]" "set [2, 0, 1] = {..<a_n ?j}" and z: "a_send ?j 0 \<noteq> h_in_place demo_host"
    by (auto simp: demo_allreduce_def demo_host_def)
  have st: "scan_start demo_host ?j (demo_ranks 3) {r. r \<noteq> 0} {#} (vec_apply (elem_op (h_float demo_host) Op_sum UMPI_ID_UNSIGNED) 4 1)
      (demo_cworld 3 demo_vectors)"
    by (rule demo_scan_start) simp_all
  have v: "\<forall>r < a_n ?j. r \<noteq> 0 \<longrightarrow> fold_ranks (vec_apply (elem_op (h_float demo_host) Op_sum UMPI_ID_UNSIGNED) 4 1)
      (\<lambda>r. map demo_vectors (in_locs demo_host ?j r)) [0..<r] = Some (demo_prefix (r - 1))"
  proof (intro allI impI)
    fix r assume "r < a_n ?j" "r \<noteq> 0"
    then have "r - 1 < 3" "[0..<r] = [0..<Suc (r - 1)]" by simp_all
    then show "fold_ranks (vec_apply (elem_op (h_float demo_host) Op_sum UMPI_ID_UNSIGNED) 4 1)
        (\<lambda>r. map demo_vectors (in_locs demo_host ?j r)) [0..<r] = Some (demo_prefix (r - 1))"
      using demo_prefixes by (simp only:)
  qed
  have n: "1 < a_n ?j" "2 < a_n ?j" and d: "[250, 0, 0, 0] = demo_prefix (1 - 1)" "[1, 1, 0, 0] = demo_prefix (2 - 1)"
    by (simp_all add: demo_prefix_def)
  from iexscan_all_orders [OF st rs z, unfolded demo_cworld_start(2), OF v] n show ?thesis unfolding d
    by (metis one_neq_zero zero_neq_numeral)
qed

end
