(* ===== verification/Allreduce_In_Place.thy ===== *)
theory Allreduce_In_Place
  imports Scans
begin

text \<open>
  \<^verbatim>\<open>MPI_Iallreduce\<close> with \<^verbatim>\<open>MPI_IN_PLACE\<close>, called by all ranks in any order of arrival. The partial result
  is in the first in-place buffer of the slot, described by \<^verbatim>\<open>iovec_\<close> and \<^verbatim>\<open>count_\<close>; the second one is where
  the operation is applied. The last rank applies it to its own buffer, with the operands exchanged, and
  writes the result to the others.
\<close>

section \<open>The slot\<close>

lemma set_partial_simps [simp]:
  "cw_world (set_partial i ty cnt s) = cw_world s"
  "cw_slots (set_partial i ty cnt s) i = (cw_slots s i)\<lparr>k_iovec := ty, k_count := cnt\<rparr>"
  "set_partial i ty cnt (set_world w s) = set_world w (set_partial i ty cnt s)"
  by (simp_all add: set_partial_def upd_slot_def set_world_def)

lemma set_partial_entered:
  "set_partial (slot_of t) ty cnt (entered t j s) = entered t j (set_partial (slot_of t) ty cnt s)"
  by (cases "cw_slots s (slot_of t)") (simp add: set_partial_def entered_def upd_slot_def)

lemma slot_frame_partial: "slot_frame n t B ds (set_partial (slot_of t) ty cnt s) = slot_frame n t B ds s"
  by (simp add: slot_frame_def slot_after_def)

lemma set_world_twice [simp]: "set_world w (set_world w' s) = set_world w s"
  by (simp add: set_world_def)

section \<open>Combining\<close>

lemma in_place_bufs:
  assumes "scan_ok h j sb rb F"
  shows "typed_buf (a_type j) 0 (a_cnt j)" "separate (shm_locs j sb) (shm_locs j rb)" "separate (shm_locs j rb) (recv_locs j r)"
proof -
  have d: "distinct (payload b (a_type j) 0 (a_cnt j))" for b
    using assms payload_distinct [of b "a_type j" 0 "a_cnt j" "(Shm, sb)"] by (simp add: scan_ok_def)
  show "separate (shm_locs j sb) (shm_locs j rb)" "separate (shm_locs j rb) (recv_locs j r)"
    using d assms shm_apart by (auto simp: separate_def scan_ok_def recv_locs_def)
  show "typed_buf (a_type j) 0 (a_cnt j)" using assms by (simp add: scan_ok_def whole_buf_def)
qed

lemma in_place_first:
  assumes ok: "scan_ok h j sb rb F" and u: "u_rank u = r" and k: "k_joined (cw_slots s i) = 1" "k_sendbuf (cw_slots s i) = sb"
  obtains w where "allreduce_combine h u i (h_in_place h) (a_recv j r) (a_cnt j) (a_type j) (a_op j) s =
      Ret (set_world w (set_partial i (a_type j) (a_cnt j) s), MPI_SUCCESS)"
    "only_writes (set (shm_locs j sb)) (cw_world s) w" "map (w_mem w) (shm_locs j sb) = map (w_mem (cw_world s)) (recv_locs j r)"
proof -
  obtain w where "copy_in h u (Priv r, a_recv j r) (a_type j) (a_cnt j) 0 (Shm, sb) (a_type j) (a_cnt j) 0
      (set_partial i (a_type j) (a_cnt j) s) = set_world w (set_partial i (a_type j) (a_cnt j) s)"
    "only_writes (set (shm_locs j sb)) (cw_world (set_partial i (a_type j) (a_cnt j) s)) w"
    "map (w_mem w) (shm_locs j sb) = map (w_mem (cw_world (set_partial i (a_type j) (a_cnt j) s))) (data_locs r (a_recv j r) (a_type j) (a_cnt j))"
    by (rule copy_whole [OF scan_okD(1) [OF ok] in_place_bufs(1) [OF ok] scan_okD(8) [OF ok]])
  then show thesis
    using u k by (intro that) (simp_all add: allreduce_combine_def joined_first_def recv_locs_def Let_def)
qed

text \<open>The partial result is copied to the second buffer.\<close>

lemma in_place_fetch:
  assumes ok: "scan_ok h j sb rb F"
  obtains w where "copy_in h u (Shm, sb) (a_type j) (a_cnt j) 0 (Shm, rb) (a_type j) (a_cnt j) 0 s = set_world w s"
    "only_writes (set (shm_locs j rb)) (cw_world s) w" "map (w_mem w) (shm_locs j rb) = map (w_mem (cw_world s)) (shm_locs j sb)"
    "map (w_mem w) (recv_locs j r) = map (w_mem (cw_world s)) (recv_locs j r)"
proof -
  obtain w where w: "copy_in h u (Shm, sb) (a_type j) (a_cnt j) 0 (Shm, rb) (a_type j) (a_cnt j) 0 s = set_world w s"
    "only_writes (set (shm_locs j rb)) (cw_world s) w" "map (w_mem w) (shm_locs j rb) = map (w_mem (cw_world s)) (shm_locs j sb)"
    by (rule copy_whole [OF scan_okD(1) [OF ok] in_place_bufs(1,2) [OF ok]])
  have "set (recv_locs j r) \<inter> set (shm_locs j rb) = {}" using recv_not_shm by blast
  from that [OF w only_writes_map [OF w(2) this]] show thesis .
qed

lemma in_place_middle:
  assumes ok: "scan_ok h j sb rb F" and u: "u_rank u = r" and k: "k_joined (cw_slots s i) \<noteq> 1" "k_joined (cw_slots s i) \<noteq> u_size u"
      "k_sendbuf (cw_slots s i) = sb" "k_recvbuf (cw_slots s i) = rb" "k_iovec (cw_slots s i) = a_type j" "k_count (cw_slots s i) = a_cnt j"
    and v: "F (map (w_mem (cw_world s)) (recv_locs j r)) (map (w_mem (cw_world s)) (shm_locs j sb)) = Some v"
  obtains w where "allreduce_combine h u i (h_in_place h) (a_recv j r) (a_cnt j) (a_type j) (a_op j) s =
      Ret (set_world w (set_partial i (a_type j) (a_cnt j) s), MPI_SUCCESS)"
    "only_writes (set (shm_locs j rb) \<union> set (shm_locs j sb)) (cw_world s) w" "map (w_mem w) (shm_locs j sb) = v"
proof -
  let ?p = "set_partial i (a_type j) (a_cnt j) s"
  obtain w1 where w1: "copy_in h u (Shm, sb) (a_type j) (a_cnt j) 0 (Shm, rb) (a_type j) (a_cnt j) 0 s = set_world w1 s"
    "only_writes (set (shm_locs j rb)) (cw_world s) w1" "map (w_mem w1) (shm_locs j rb) = map (w_mem (cw_world s)) (shm_locs j sb)"
    "map (w_mem w1) (recv_locs j r) = map (w_mem (cw_world s)) (recv_locs j r)"
    by (rule in_place_fetch [OF ok])
  have v1: "F (map (w_mem w1) (recv_locs j r)) (map (w_mem w1) (shm_locs j rb)) = Some v" using v by (simp only: w1(3,4))
  obtain w2 where w2: "reduce_with h (a_op j) (Priv r, a_recv j r) (Shm, rb) (a_cnt j) (a_type j) w1 = Ret w2"
    "only_writes (set (shm_locs j rb)) w1 w2" "map (w_mem w2) (shm_locs j rb) = v"
    by (rule reduce_whole [OF scan_okD(4) [OF ok] scan_okD(6) [OF ok, of r, unfolded recv_locs_def] v1 [unfolded recv_locs_def]])
  obtain w3 where w3: "copy_in h u (Shm, rb) (a_type j) (a_cnt j) 0 (Shm, sb) (a_type j) (a_cnt j) 0 (set_world w2 ?p) =
      set_world w3 (set_world w2 ?p)" "only_writes (set (shm_locs j sb)) (cw_world (set_world w2 ?p)) w3"
    "map (w_mem w3) (shm_locs j sb) = map (w_mem (cw_world (set_world w2 ?p))) (shm_locs j rb)"
    by (rule copy_whole [OF scan_okD(1) [OF ok] in_place_bufs(1) [OF ok] scan_okD(5) [OF ok]])
  show thesis
  proof (rule that)
    show "allreduce_combine h u i (h_in_place h) (a_recv j r) (a_cnt j) (a_type j) (a_op j) s = Ret (set_world w3 ?p, MPI_SUCCESS)"
      using u k w1(1) w2(1) w3(1) by (simp add: allreduce_combine_def joined_first_def joined_last_def in_world_def Let_def)
    show "only_writes (set (shm_locs j rb) \<union> set (shm_locs j sb)) (cw_world s) w3"
      using only_writes_trans [OF only_writes_trans [OF w1(2) w2(2)], of _ w3] w3(2) by simp
    show "map (w_mem w3) (shm_locs j sb) = v" using w3(3) w2(3) by simp
  qed
qed

lemma in_place_last:
  assumes ok: "scan_ok h j sb rb F" and u: "u_rank u = r" and k: "k_joined (cw_slots s i) \<noteq> 1" "k_joined (cw_slots s i) = u_size u"
      "k_sendbuf (cw_slots s i) = sb" "k_recvbuf (cw_slots s i) = rb" "k_iovec (cw_slots s i) = a_type j" "k_count (cw_slots s i) = a_cnt j"
    and v: "F (map (w_mem (cw_world s)) (shm_locs j sb)) (map (w_mem (cw_world s)) (recv_locs j r)) = Some v"
  obtains w where "allreduce_combine h u i (h_in_place h) (a_recv j r) (a_cnt j) (a_type j) (a_op j) s = Ret (set_world w s, MPI_SUCCESS)"
    "only_writes (set (shm_locs j rb) \<union> set (recv_locs j r)) (cw_world s) w" "map (w_mem w) (recv_locs j r) = v"
proof -
  obtain w1 where w1: "copy_in h u (Shm, sb) (a_type j) (a_cnt j) 0 (Shm, rb) (a_type j) (a_cnt j) 0 s = set_world w1 s"
    "only_writes (set (shm_locs j rb)) (cw_world s) w1" "map (w_mem w1) (shm_locs j rb) = map (w_mem (cw_world s)) (shm_locs j sb)"
    "map (w_mem w1) (recv_locs j r) = map (w_mem (cw_world s)) (recv_locs j r)"
    by (rule in_place_fetch [OF ok])
  have v1: "F (map (w_mem w1) (shm_locs j rb)) (map (w_mem w1) (recv_locs j r)) = Some v" using v by (simp only: w1(3,4))
  obtain w2 where w2: "reduce_with h (a_op j) (Shm, rb) (Priv r, a_recv j r) (a_cnt j) (a_type j) w1 = Ret w2"
    "only_writes (set (recv_locs j r)) w1 w2" "map (w_mem w2) (recv_locs j r) = v"
    by (rule reduce_whole [OF scan_okD(4) [OF ok] in_place_bufs(3) [OF ok, of r, unfolded recv_locs_def] v1 [unfolded recv_locs_def], folded recv_locs_def])
  show thesis
  proof (rule that [OF _ only_writes_trans [OF w1(2) w2(2)] w2(3)])
    show "allreduce_combine h u i (h_in_place h) (a_recv j r) (a_cnt j) (a_type j) (a_op j) s = Ret (set_world w2 s, MPI_SUCCESS)"
      using u k w1(1) w2(1) by (simp add: allreduce_combine_def joined_first_def joined_last_def in_world_def Let_def)
  qed
qed

section \<open>The state between two calls\<close>

text \<open>
  The operation is called with the data of the rank first and the partial result second, by the last
  rank the other way round.
\<close>

definition in_place_fold :: "(byte list \<Rightarrow> byte list \<Rightarrow> byte list option) \<Rightarrow> (nat \<Rightarrow> byte list) \<Rightarrow> nat list \<Rightarrow> byte list option" where
  "in_place_fold F d rs = (case fold_ranks F d (butlast rs) of None \<Rightarrow> None | Some a \<Rightarrow> F a (d (last rs)))"

definition in_place_inv ::
  "allreduce_job \<Rightarrow> int \<Rightarrow> int \<Rightarrow> (byte list \<Rightarrow> byte list \<Rightarrow> byte list option) \<Rightarrow> mem \<Rightarrow> cid multiset \<Rightarrow> nat list \<Rightarrow>
     (nat \<Rightarrow> cid) \<Rightarrow> cworld \<Rightarrow> bool" where
  "in_place_inv j sb rb F m0 B ds q s \<longleftrightarrow> slot_frame (a_n j) (a_ticket j) B ds s \<and>
     k_sendbuf (a_slot j s) = sb \<and> k_recvbuf (a_slot j s) = rb \<and>
     (if length ds < a_n j
      then k_box (a_slot j s) = map q ds \<and> (\<forall>r \<in> set ds. a_offers j (cw_world s) (q r) r 1) \<and>
        (\<forall>l. l \<notin> set (shm_locs j sb) \<union> set (shm_locs j rb) \<longrightarrow> w_mem (cw_world s) l = m0 l) \<and>
        (ds \<noteq> [] \<longrightarrow> k_iovec (a_slot j s) = a_type j \<and> k_count (a_slot j s) = a_cnt j \<and>
           fold_ranks F (\<lambda>r. map m0 (recv_locs j r)) ds = Some (map (w_mem (cw_world s)) (shm_locs j sb)))
      else k_box (a_slot j s) = [] \<and>
        (\<forall>r \<in> set ds. in_place_fold F (\<lambda>r. map m0 (recv_locs j r)) ds = Some (map (w_mem (cw_world s)) (recv_locs j r)) \<and>
           finished (cw_world s) (q r)) \<and>
        (\<forall>l. l \<notin> set (shm_locs j sb) \<union> set (shm_locs j rb) \<and> (\<forall>r \<in> set ds. l \<notin> set (recv_locs j r)) \<longrightarrow>
           w_mem (cw_world s) l = m0 l))"

lemma in_place_before:
  assumes "in_place_inv j sb rb F m0 B ds q s" "r < a_n j" "r \<notin> set ds"
  shows "slot_frame (a_n j) (a_ticket j) B ds s" "length ds < a_n j" "k_sendbuf (a_slot j s) = sb" "k_recvbuf (a_slot j s) = rb"
    "k_box (a_slot j s) = map q ds" "\<forall>x \<in> set ds. a_offers j (cw_world s) (q x) x 1"
    "\<And>l. l \<notin> set (shm_locs j sb) \<union> set (shm_locs j rb) \<Longrightarrow> w_mem (cw_world s) l = m0 l"
    "ds \<noteq> [] \<Longrightarrow> k_iovec (a_slot j s) = a_type j \<and> k_count (a_slot j s) = a_cnt j \<and>
       fold_ranks F (\<lambda>r. map m0 (recv_locs j r)) ds = Some (map (w_mem (cw_world s)) (shm_locs j sb))"
    "map (w_mem (cw_world s)) (recv_locs j r) = map m0 (recv_locs j r)"
proof -
  show fr: "slot_frame (a_n j) (a_ticket j) B ds s" using assms(1) by (simp add: in_place_inv_def)
  show lt: "length ds < a_n j" by (rule slot_frame_not_all [OF fr assms(2,3)])
  show "k_sendbuf (a_slot j s) = sb" "k_recvbuf (a_slot j s) = rb" using assms(1) by (simp_all add: in_place_inv_def)
  have i: "k_box (a_slot j s) = map q ds \<and> (\<forall>r \<in> set ds. a_offers j (cw_world s) (q r) r 1) \<and>
        (\<forall>l. l \<notin> set (shm_locs j sb) \<union> set (shm_locs j rb) \<longrightarrow> w_mem (cw_world s) l = m0 l) \<and>
        (ds \<noteq> [] \<longrightarrow> k_iovec (a_slot j s) = a_type j \<and> k_count (a_slot j s) = a_cnt j \<and>
           fold_ranks F (\<lambda>r. map m0 (recv_locs j r)) ds = Some (map (w_mem (cw_world s)) (shm_locs j sb)))"
    using assms(1) lt unfolding in_place_inv_def by presburger
  then show "k_box (a_slot j s) = map q ds" "\<forall>x \<in> set ds. a_offers j (cw_world s) (q x) x 1"
    "ds \<noteq> [] \<Longrightarrow> k_iovec (a_slot j s) = a_type j \<and> k_count (a_slot j s) = a_cnt j \<and>
       fold_ranks F (\<lambda>r. map m0 (recv_locs j r)) ds = Some (map (w_mem (cw_world s)) (shm_locs j sb))"
    by blast+
  show m: "w_mem (cw_world s) l = m0 l" if "l \<notin> set (shm_locs j sb) \<union> set (shm_locs j rb)" for l using i that by blast
  show "map (w_mem (cw_world s)) (recv_locs j r) = map m0 (recv_locs j r)"
    using recv_not_shm by (intro map_cong refl m) blast
qed

section \<open>One call\<close>

text \<open>A rank that is not the last: its combination leaves the fold up to it in the first buffer.\<close>

lemma in_place_combines:
  assumes ok: "scan_ok h j sb rb F" and inv: "in_place_inv j sb rb F m0 B ds q s" and r: "r < a_n j" "r \<notin> set ds"
    and u: "u_rank u = r" "u_size u = int (a_n j)" and lt: "length (ds @ [r]) < a_n j"
    and v: "fold_ranks F (\<lambda>r. map m0 (recv_locs j r)) (ds @ [r]) = Some v"
  obtains w where "allreduce_combine h u (slot_of (a_ticket j)) (h_in_place h) (a_recv j r) (a_cnt j) (a_type j) (a_op j)
      (entered (a_ticket j) (length ds) s) =
      Ret (set_world w (entered (a_ticket j) (length ds) (set_partial (slot_of (a_ticket j)) (a_type j) (a_cnt j) s)), MPI_SUCCESS)"
    "only_writes (set (shm_locs j rb) \<union> set (shm_locs j sb)) (cw_world s) w" "map (w_mem w) (shm_locs j sb) = v"
proof (cases "ds = []")
  case True
  let ?s1 = "entered (a_ticket j) (length ds) s"
  note b = in_place_before [OF inv r]
  have k: "k_joined (cw_slots ?s1 (slot_of (a_ticket j))) = 1" "k_sendbuf (cw_slots ?s1 (slot_of (a_ticket j))) = sb"
    using True b(3) by simp_all
  obtain w where w: "allreduce_combine h u (slot_of (a_ticket j)) (h_in_place h) (a_recv j r) (a_cnt j) (a_type j) (a_op j) ?s1 =
      Ret (set_world w (set_partial (slot_of (a_ticket j)) (a_type j) (a_cnt j) ?s1), MPI_SUCCESS)"
    "only_writes (set (shm_locs j sb)) (cw_world ?s1) w" "map (w_mem w) (shm_locs j sb) = map (w_mem (cw_world ?s1)) (recv_locs j r)"
    by (rule in_place_first [OF ok u(1) k])
  have "only_writes (set (shm_locs j rb) \<union> set (shm_locs j sb)) (cw_world s) w" using w(2) by (simp add: only_writes_def)
  moreover have "map (w_mem w) (shm_locs j sb) = v" using w(3) v True b(9) by simp
  ultimately show thesis using that [of w] w(1) unfolding set_partial_entered by blast
next
  case False
  let ?s1 = "entered (a_ticket j) (length ds) s"
  note b = in_place_before [OF inv r]
  have k: "k_joined (cw_slots ?s1 (slot_of (a_ticket j))) \<noteq> 1" "k_joined (cw_slots ?s1 (slot_of (a_ticket j))) \<noteq> u_size u"
    "k_sendbuf (cw_slots ?s1 (slot_of (a_ticket j))) = sb" "k_recvbuf (cw_slots ?s1 (slot_of (a_ticket j))) = rb"
    "k_iovec (cw_slots ?s1 (slot_of (a_ticket j))) = a_type j" "k_count (cw_slots ?s1 (slot_of (a_ticket j))) = a_cnt j"
    using False b(3,4) b(8) [OF False] lt u(2) by simp_all
  have "combine F (fold_ranks F (\<lambda>r. map m0 (recv_locs j r)) ds) (map m0 (recv_locs j r)) = Some v"
    using v unfolding fold_ranks_snoc [OF False] .
  then have "F (map m0 (recv_locs j r)) (map (w_mem (cw_world s)) (shm_locs j sb)) = Some v"
    using b(8) [OF False] by (simp add: combine_def)
  then have "F (map (w_mem (cw_world ?s1)) (recv_locs j r)) (map (w_mem (cw_world ?s1)) (shm_locs j sb)) = Some v"
    by (simp only: b(9) entered_simps)
  from in_place_middle [OF ok u(1) k this]
  obtain w where w: "allreduce_combine h u (slot_of (a_ticket j)) (h_in_place h) (a_recv j r) (a_cnt j) (a_type j) (a_op j) ?s1 =
      Ret (set_world w (set_partial (slot_of (a_ticket j)) (a_type j) (a_cnt j) ?s1), MPI_SUCCESS)"
    "only_writes (set (shm_locs j rb) \<union> set (shm_locs j sb)) (cw_world ?s1) w" "map (w_mem w) (shm_locs j sb) = v"
    by blast
  from that [OF w(1) [unfolded set_partial_entered] w(2) [unfolded entered_simps] w(3)] show thesis .
qed

lemma in_place_leaves:
  assumes ok: "scan_ok h j sb rb F" and n: "a_n j < 32768" and inv: "in_place_inv j sb rb F m0 B ds q s" and r: "r < a_n j" "r \<notin> set ds"
    and u: "u_rank u = r" "u_size u = int (a_n j)" and lt: "length (ds @ [r]) < a_n j"
    and v: "fold_ranks F (\<lambda>r. map m0 (recv_locs j r)) (ds @ [r]) = Some v"
  shows "\<exists>s2 c. allreduce_request h u (slot_of (a_ticket j)) (h_in_place h) (a_recv j r) (a_cnt j) (a_type j) (a_op j)
      (entered (a_ticket j) (length ds) s) = Ret (s2, MPI_SUCCESS, Some c) \<and> in_place_inv j sb rb F m0 B (ds @ [r]) (q(r := c)) s2"
proof -
  note b = in_place_before [OF inv r]
  let ?i = "slot_of (a_ticket j)" and ?p = "set_partial (slot_of (a_ticket j)) (a_type j) (a_cnt j) s"
  obtain w where w: "allreduce_combine h u ?i (h_in_place h) (a_recv j r) (a_cnt j) (a_type j) (a_op j) (entered (a_ticket j) (length ds) s) =
      Ret (set_world w (entered (a_ticket j) (length ds) ?p), MPI_SUCCESS)"
    "only_writes (set (shm_locs j rb) \<union> set (shm_locs j sb)) (cw_world s) w" "map (w_mem w) (shm_locs j sb) = v"
    by (rule in_place_combines [OF ok inv r u lt v])
  have fr: "slot_frame (a_n j) (a_ticket j) B ds ?p" using b(1) by (simp add: slot_frame_partial)
  have pre: "k_box (cw_slots ?p ?i) = map q ds" "same_boxes (cw_world ?p) w" "\<forall>x \<in> set ds. a_offers j w (q x) x 1"
    using b(5,6) only_writesD(1,2) [OF w(2)] offers_cong [of w _ "cw_world s"] by simp_all
  obtain s2 c where s2: "allreduce_request h u ?i (h_in_place h) (a_recv j r) (a_cnt j) (a_type j) (a_op j) (entered (a_ticket j) (length ds) s) =
      Ret (s2, MPI_SUCCESS, Some c)" "slot_frame (a_n j) (a_ticket j) B (ds @ [r]) s2" "w_mem (cw_world s2) = w_mem w"
    "a_slot j s2 = (a_slot j ?p)\<lparr>k_locked := False, k_ticket := a_ticket j, k_joined := int (Suc (length ds)), k_box := map (q(r := c)) (ds @ [r])\<rparr>"
    "\<forall>x \<in> set (ds @ [r]). a_offers j (cw_world s2) ((q(r := c)) x) x (if x = r \<and> h_in_place h \<noteq> h_in_place h then 2 else 1)"
    by (rule request_leaves [OF w(1) fr n r lt u pre])
  have "w_mem w l = m0 l" if "l \<notin> set (shm_locs j sb) \<union> set (shm_locs j rb)" for l
    using b(7) [OF that] only_writesD(3) [OF w(2), of l] that by simp
  then have "in_place_inv j sb rb F m0 B (ds @ [r]) (q(r := c)) s2"
    using lt s2(2-5) v w(3) b(3,4) unfolding in_place_inv_def by (simp del: length_append map_append set_append)
  with s2(1) show ?thesis by blast
qed

text \<open>The last rank applies the operation to its own buffer and serves the others.\<close>

lemma in_place_ends:
  assumes ok: "scan_ok h j sb rb F" and inv: "in_place_inv j sb rb F m0 B ds q s" and r: "r < a_n j" "r \<notin> set ds"
    and u: "u_rank u = r" "u_size u = int (a_n j)" and all: "length (ds @ [r]) = a_n j" "ds \<noteq> []"
    and v: "in_place_fold F (\<lambda>r. map m0 (recv_locs j r)) (ds @ [r]) = Some v"
  shows "\<exists>s2 c. allreduce_request h u (slot_of (a_ticket j)) (h_in_place h) (a_recv j r) (a_cnt j) (a_type j) (a_op j)
      (entered (a_ticket j) (length ds) s) = Ret (s2, MPI_SUCCESS, Some c) \<and> in_place_inv j sb rb F m0 B (ds @ [r]) (q(r := c)) s2"
proof -
  note b = in_place_before [OF inv r]
  let ?i = "slot_of (a_ticket j)" and ?s1 = "entered (a_ticket j) (length ds) s"
  have k: "k_joined (cw_slots ?s1 ?i) \<noteq> 1" "k_joined (cw_slots ?s1 ?i) = u_size u" "k_sendbuf (cw_slots ?s1 ?i) = sb"
    "k_recvbuf (cw_slots ?s1 ?i) = rb" "k_iovec (cw_slots ?s1 ?i) = a_type j" "k_count (cw_slots ?s1 ?i) = a_cnt j"
    using b(3,4) b(8) [OF all(2)] all u(2) by (cases ds; simp)+
  have "F (map (w_mem (cw_world ?s1)) (shm_locs j sb)) (map (w_mem (cw_world ?s1)) (recv_locs j r)) = Some v"
    using v b(8) [OF all(2)] by (simp add: in_place_fold_def b(9) del: map_eq_conv)
  from in_place_last [OF ok u(1) k this]
  obtain w where w: "allreduce_combine h u ?i (h_in_place h) (a_recv j r) (a_cnt j) (a_type j) (a_op j) ?s1 = Ret (set_world w ?s1, MPI_SUCCESS)"
    "only_writes (set (shm_locs j rb) \<union> set (recv_locs j r)) (cw_world s) w" "map (w_mem w) (recv_locs j r) = v"
    unfolding entered_simps by blast
  have pre: "same_boxes (cw_world s) w" "\<forall>x \<in> set ds. a_offers j w (q x) x 1"
    "\<forall>x \<in> set ds. distinct (data_locs x (a_recv j x) (a_type j) (a_cnt j))"
    using b(6) only_writesD(1,2) [OF w(2)] offers_cong [of w _ "cw_world s"] in_place_bufs(3) [OF ok]
    by (simp_all add: separate_def recv_locs_def)
  obtain s2 where s2: "allreduce_request h u ?i (h_in_place h) (a_recv j r) (a_cnt j) (a_type j) (a_op j) ?s1 =
      Ret (s2, MPI_SUCCESS, Some (last (map q ds)))" "slot_frame (a_n j) (a_ticket j) B (ds @ [r]) s2"
    "a_slot j s2 = (a_slot j s)\<lparr>k_locked := False, k_ticket := a_ticket j, k_joined := int (Suc (length ds)), k_box := []\<rparr>"
    "\<forall>x \<in> set (ds @ [r]). map (w_mem (cw_world s2)) (recv_locs j x) = map (w_mem w) (recv_locs j r) \<and>
       finished (cw_world s2) ((q(r := last (map q ds))) x)"
    "\<forall>l. (\<forall>x \<in> set ds. l \<notin> set (recv_locs j x)) \<longrightarrow> w_mem (cw_world s2) l = w_mem w l"
    by (rule request_serves [OF w(1) b(1) scan_okD(1,3) [OF ok] r all u b(5) pre, folded recv_locs_def])
  have "w_mem (cw_world s2) l = m0 l"
    if "l \<notin> set (shm_locs j sb) \<union> set (shm_locs j rb) \<and> (\<forall>x \<in> set (ds @ [r]). l \<notin> set (recv_locs j x))" for l
  proof -
    have "\<forall>x \<in> set ds. l \<notin> set (recv_locs j x)" using that by simp
    then have "w_mem (cw_world s2) l = w_mem w l" using s2(5) by blast
    then show ?thesis using b(7) [of l] only_writesD(3) [OF w(2), of l] that by simp
  qed
  then have "in_place_inv j sb rb F m0 B (ds @ [r]) (q(r := last (map q ds))) s2"
    using all s2(2-4) v w(3) b(3,4) unfolding in_place_inv_def by (simp del: length_append last_map set_append)
  with s2(1) show ?thesis by blast
qed

section \<open>All calls\<close>

text \<open>Every prefix of a run that has a result has one.\<close>

lemma in_place_prefix:
  assumes "in_place_fold F d (ds @ r # ys) = Some v" "ys \<noteq> []"
  shows "\<exists>z. fold_ranks F d (ds @ [r]) = Some z"
proof -
  have "butlast (ds @ r # ys) = (ds @ [r]) @ butlast ys" using assms(2) by (simp add: butlast_append)
  then have "fold_ranks F d ((ds @ [r]) @ butlast ys) \<noteq> None"
    using assms(1) unfolding in_place_fold_def
    by (cases "fold_ranks F d (butlast (ds @ r # ys))") simp_all
  then have "fold_ranks F d (ds @ [r]) \<noteq> None" by (rule fold_prefix [rotated]) simp
  then show ?thesis by simp
qed

lemma in_place_call:
  assumes ok: "scan_ok h j sb rb F" and job: "scan_job_ok h j us UNIV" and ip: "2 \<le> a_n j" "\<forall>r < a_n j. a_send j r = h_in_place h"
    and rs: "distinct rs" "set rs = {..<a_n j}" and v: "in_place_fold F (\<lambda>r. map m0 (recv_locs j r)) rs = Some v"
    and inv: "in_place_inv j sb rb F m0 B ds q s" and o': "rs = ds @ r # ys"
  shows "\<exists>u s2 c. iallreduce_of h us j r s = Ret (u, s2, MPI_SUCCESS, Some c) \<and> in_place_inv j sb rb F m0 B (ds @ [r]) (q(r := c)) s2"
proof -
  let ?u = "(us r)\<lparr>u_ticket := a_ticket j + 1\<rparr>" and ?e = "entered (a_ticket j) (length ds) s"
  have r: "r < a_n j" "r \<notin> set ds" using rs o' by auto
  note b = in_place_before [OF inv r]
  have len: "length rs = a_n j" using rs distinct_card [of rs] by simp
  have sc: "same_call (a_n j) us (a_ticket j)" using job by (simp add: scan_job_ok_def)
  then have u: "u_rank ?u = r" "u_size ?u = int (a_n j)" "a_n j < 32768" using r by (simp_all add: same_call_def)
  have sa: "slot_after (a_ticket j) (length ds) (a_slot j s)" using b(1,2) by (simp add: slot_frame_def)
  have call: "iallreduce_of h us j r s = and_then (allreduce_request h ?u (slot_of (a_ticket j)) (h_in_place h) (a_recv j r) (a_cnt j)
      (a_type j) (a_op j) ?e) (\<lambda>(s2, ret, c). Ret (Some ?u, s2, ret, c))"
    using job ip(2) r(1) in_slot_enter [OF sc r(1) sa] by (auto simp: iallreduce_of_def MPI_Iallreduce_def scan_job_ok_def)
  have "\<exists>s2 c. allreduce_request h ?u (slot_of (a_ticket j)) (h_in_place h) (a_recv j r) (a_cnt j) (a_type j) (a_op j) ?e =
      Ret (s2, MPI_SUCCESS, Some c) \<and> in_place_inv j sb rb F m0 B (ds @ [r]) (q(r := c)) s2"
  proof (cases "ys = []")
    case True
    then have l: "length (ds @ [r]) = a_n j" "ds \<noteq> []" using len o' ip(1) by auto
    show ?thesis by (rule in_place_ends [OF ok inv r u(1,2) l v [unfolded o' True]])
  next
    case False
    then have l: "length (ds @ [r]) < a_n j" using len o' by (cases ys) auto
    obtain z where "fold_ranks F (\<lambda>r. map m0 (recv_locs j r)) (ds @ [r]) = Some z" using in_place_prefix [OF v [unfolded o'] False] by blast
    then show ?thesis by (rule in_place_leaves [OF ok u(3) inv r u(1,2) l])
  qed
  then show ?thesis using call by auto
qed

lemma in_place_runs:
  assumes "scan_start h j us UNIV B F s" "2 \<le> a_n j" "\<forall>r < a_n j. a_send j r = h_in_place h"
    and "distinct rs" "set rs = {..<a_n j}"
    and "in_place_fold F (\<lambda>r. map (w_mem (cw_world s)) (recv_locs j r)) rs = Some v"
  shows "\<exists>s' q. calls_all (iallreduce_of h us j) rs s = Ret (s', map (\<lambda>r. (MPI_SUCCESS, Some (q r))) rs) \<and>
    (\<forall>r < a_n j. map (w_mem (cw_world s')) (recv_locs j r) = v \<and> finished (cw_world s') (q r)) \<and>
    (\<forall>l. l \<notin> set (shm_locs j (k_sendbuf (a_slot j s))) \<union> set (shm_locs j (k_recvbuf (a_slot j s))) \<and>
       (\<forall>r < a_n j. l \<notin> set (recv_locs j r)) \<longrightarrow> w_mem (cw_world s') l = w_mem (cw_world s) l) \<and>
    slot_free (a_ticket j) s' \<and> box_inv (cw_world s') B"
proof -
  let ?sb = "k_sendbuf (a_slot j s)" and ?rb = "k_recvbuf (a_slot j s)"
  let ?I = "in_place_inv j ?sb ?rb F (w_mem (cw_world s)) B"
  have ok: "scan_ok h j ?sb ?rb F" by (rule scan_startD(1) [OF assms(1)])
  have job: "scan_job_ok h j us UNIV" using assms(1) by (simp add: scan_start_def)
  have "slot_frame (a_n j) (a_ticket j) B [] s" using assms(1) by (intro slot_frame_start) (simp_all add: scan_start_def)
  then have st: "?I [] (\<lambda>_. bp_null) s" using assms(1,2) by (simp add: in_place_inv_def scan_start_def slot_free_def)
  have step: "\<exists>u s2 c. iallreduce_of h us j r sa = Ret (u, s2, MPI_SUCCESS, Some c) \<and> ?I (ds @ [r]) (q(r := c)) s2"
    if inv: "?I ds q sa" and o': "\<exists>ys. rs = ds @ r # ys" for ds q sa r
    using in_place_call [OF ok job assms(2-6) inv] o' by blast
  obtain s' q where r: "calls_all (iallreduce_of h us j) rs s = Ret (s', map (\<lambda>r. (MPI_SUCCESS, Some (q r))) rs)" "?I rs q s'"
    using calls_all_order [of ?I rs "iallreduce_of h us j", OF step assms(4) st] by auto
  have "length rs = a_n j" using assms(4,5) distinct_card [of rs] by simp
  then have e: "slot_frame (a_n j) (a_ticket j) B rs s'" "k_box (a_slot j s') = []"
    "\<forall>r \<in> set rs. in_place_fold F (\<lambda>r. map (w_mem (cw_world s)) (recv_locs j r)) rs = Some (map (w_mem (cw_world s')) (recv_locs j r)) \<and>
       finished (cw_world s') (q r)"
    "\<forall>l. l \<notin> set (shm_locs j ?sb) \<union> set (shm_locs j ?rb) \<and> (\<forall>r \<in> set rs. l \<notin> set (recv_locs j r)) \<longrightarrow>
       w_mem (cw_world s') l = w_mem (cw_world s) l"
    using r(2) unfolding in_place_inv_def by simp_all
  have "slot_free (a_ticket j) s' \<and> box_inv (cw_world s') B" using e(1,2) by (simp add: slot_frame_def slot_free_def)
  moreover have "\<forall>r < a_n j. map (w_mem (cw_world s')) (recv_locs j r) = v \<and> finished (cw_world s') (q r)"
    using e(3) assms(5,6) by (simp del: map_eq_conv)
  moreover have "\<forall>l. l \<notin> set (shm_locs j ?sb) \<union> set (shm_locs j ?rb) \<and> (\<forall>r < a_n j. l \<notin> set (recv_locs j r)) \<longrightarrow>
      w_mem (cw_world s') l = w_mem (cw_world s) l"
    using e(4) unfolding assms(5) by simp
  ultimately show ?thesis using r(1) by blast
qed

text \<open>C10: allreduce in place, whatever the order in which the ranks arrive. All \<open>n\<close> ranks, at least two, call
  \<^verbatim>\<open>MPI_Iallreduce\<close> with \<^verbatim>\<open>MPI_IN_PLACE\<close> on a free slot, each once, in the order \<open>rs\<close>. If combining their
  vectors is defined with value \<open>v\<close>, every call returns \<^verbatim>\<open>MPI_SUCCESS\<close>; after the last, every rank's buffer
  holds \<open>v\<close>, nothing else but the two in-place buffers of the slot has changed, every request is completed
  without error and the slot is free again. \<open>v\<close> is the fold of the operation over the ranks in this order,
  with the operands exchanged in the last step.\<close>

theorem allreduce_in_place_all_orders:
  assumes "scan_start h j us UNIV B F s" "2 \<le> a_n j" "\<forall>r < a_n j. a_send j r = h_in_place h"
    and "distinct rs" "set rs = {..<a_n j}"
    and "in_place_fold F (\<lambda>r. map (w_mem (cw_world s)) (recv_locs j r)) rs = Some v"
  shows "\<exists>s' q. calls_all (iallreduce_of h us j) rs s = Ret (s', map (\<lambda>r. (MPI_SUCCESS, Some (q r))) rs) \<and>
    (\<forall>r < a_n j. map (w_mem (cw_world s')) (recv_locs j r) = v \<and> finished (cw_world s') (q r)) \<and>
    (\<forall>l. l \<notin> set (shm_locs j (k_sendbuf (a_slot j s))) \<union> set (shm_locs j (k_recvbuf (a_slot j s))) \<and>
       (\<forall>r < a_n j. l \<notin> set (recv_locs j r)) \<longrightarrow> w_mem (cw_world s') l = w_mem (cw_world s) l) \<and>
    slot_free (a_ticket j) s' \<and> box_inv (cw_world s') B"
  by (rule in_place_runs [OF assms])

text \<open>Three ranks with one \<^verbatim>\<open>unsigned\<close> each.\<close>

definition demo_in_place :: allreduce_job where
  "demo_in_place = demo_allreduce\<lparr>a_send := \<lambda>_. 1, a_recv := \<lambda>_. 1000\<rparr>"

lemma demo_in_place_recv: "recv_locs demo_in_place r = [(Priv r, 1000), (Priv r, 1001), (Priv r, 1002), (Priv r, 1003)]"
  unfolding demo_locs(1) [symmetric] by (simp add: recv_locs_def demo_in_place_def demo_allreduce_def)

lemma demo_in_place_start: "scan_start demo_host demo_in_place (demo_ranks 3) UNIV {#}
    (vec_apply (elem_op (h_float demo_host) Op_sum UMPI_ID_UNSIGNED) 4 1) (demo_cworld 3 demo_vectors)"
proof -
  have "scan_start demo_host (demo_allreduce\<lparr>a_n := 3\<rparr>) (demo_ranks 3) {} {#}
      (vec_apply (elem_op (h_float demo_host) Op_sum UMPI_ID_UNSIGNED) 4 1) (demo_cworld 3 demo_vectors)"
    by (rule demo_scan_start) simp_all
  then show ?thesis by (simp add: scan_start_def scan_job_ok_def demo_in_place_def) (simp add: demo_host_def demo_allreduce_def)
qed

lemma allreduce_in_place_all_orders_witness:
  "\<exists>s' out. calls_all (iallreduce_of demo_host (demo_ranks 3) demo_in_place) [2, 0, 1] (demo_cworld 3 demo_vectors) = Ret (s', out) \<and>
    map (w_mem (cw_world s')) (recv_locs demo_in_place 0) = [1, 2, 0, 0]"
proof -
  have rs: "distinct [2, 0, 1 :: nat]" "set [2, 0, 1] = {..<a_n demo_in_place}" "2 \<le> a_n demo_in_place"
    "\<forall>r < a_n demo_in_place. a_send demo_in_place r = h_in_place demo_host" "0 < a_n demo_in_place"
    by (auto simp: demo_in_place_def demo_allreduce_def demo_host_def)
  have v: "in_place_fold (vec_apply (elem_op (h_float demo_host) Op_sum UMPI_ID_UNSIGNED) 4 1)
      (\<lambda>r. map demo_vectors (recv_locs demo_in_place r)) [2, 0, 1] = Some [1, 2, 0, 0]"
    unfolding demo_in_place_recv
    by (simp add: in_place_fold_def demo_vectors_def combine_def elem_op_def int_op_def decode_int_def wrap_def type_mod_def arith_type_def
        encode_int_def le_bytes_4)
  from allreduce_in_place_all_orders [OF demo_in_place_start rs(3,4,1,2), unfolded demo_cworld_start(2), OF v] rs(5)
  show ?thesis by blast
qed

section \<open>The predefined operations\<close>

text \<open>With an operation that is always defined the exchange of the operands makes no difference.\<close>

lemma in_place_fold_order_free:
  assumes i: "int_type_of i = Some t" "always_defined k t"
    and rs: "mset rs = mset rs'" "2 \<le> length rs" "\<forall>r \<in> set rs. length (d r) = n * fst t"
  shows "in_place_fold (vec_apply (elem_op fop k i) (fst t) n) d rs = fold_ranks (vec_apply (elem_op fop k i) (fst t) n) d rs'"
proof -
  let ?F = "vec_apply (elem_op fop k i) (fst t) n"
  have ne: "butlast rs \<noteq> []" "rs \<noteq> []" using rs(2) by (cases rs rule: rev_cases; auto)+
  have l: "\<forall>r \<in> set (butlast rs). length (d r) = n * fst t" "length (d (last rs)) = n * fst t"
    using rs(3) ne(2) by (auto dest: in_set_butlastD)
  obtain a where a: "fold_ranks ?F d (butlast rs) = Some a" "length a = n * fst t"
    using fold_order_free [OF i refl ne(1) l(1)] by blast
  let ?d = "\<lambda>r :: nat. if r = 0 then a else d (last rs)"
  have two: "mset [0, 1 :: nat] = mset [1, 0]" "\<forall>r \<in> set [0, 1]. length (?d r) = n * fst t" using a(2) l(2) by simp_all
  have "fold_ranks ?F ?d [0, 1] = fold_ranks ?F ?d [1, 0]" using fold_order_free [OF i two(1) _ two(2)] by blast
  then have "?F (d (last rs)) a = ?F a (d (last rs))" by (simp add: combine_def)
  moreover have "fold_ranks ?F d (butlast rs @ [last rs]) = combine ?F (fold_ranks ?F d (butlast rs)) (d (last rs))"
    by (rule fold_ranks_snoc [OF ne(1)])
  ultimately have "in_place_fold ?F d rs = fold_ranks ?F d rs"
    using a(1) ne(2) by (simp add: in_place_fold_def combine_def)
  also have "\<dots> = fold_ranks ?F d rs'" using fold_order_free [OF i rs(1) ne(2) rs(3)] by blast
  finally show ?thesis .
qed

text \<open>C17: allreduce in place with a predefined operation on an integer type whose result is always defined:
  whatever the order in which the ranks arrive, every call returns and every rank ends with the fold of
  the vectors in the order of the ranks; neither the order nor the exchange of the operands shows.\<close>

theorem allreduce_in_place_rank_order:
  assumes i: "int_type_of i = Some t" "predefined i = Some (a_type j)" "always_defined k t" "a_op j = Generic k"
    and st: "scan_start h j us UNIV B (vec_apply (elem_op (h_float h) k i) (fst t) (nat (a_cnt j))) s"
    and ip: "2 \<le> a_n j" "\<forall>r < a_n j. a_send j r = h_in_place h" and rs: "distinct rs" "set rs = {..<a_n j}"
  shows "\<exists>s' out v. calls_all (iallreduce_of h us j) rs s = Ret (s', out) \<and>
    fold_ranks (vec_apply (elem_op (h_float h) k i) (fst t) (nat (a_cnt j))) (\<lambda>r. map (w_mem (cw_world s)) (recv_locs j r)) [0..<a_n j] =
      Some v \<and> (\<forall>r < a_n j. map (w_mem (cw_world s')) (recv_locs j r) = v)"
proof -
  let ?F = "vec_apply (elem_op (h_float h) k i) (fst t) (nat (a_cnt j))" and ?d = "\<lambda>r. map (w_mem (cw_world s)) (recv_locs j r)"
  have cnt: "0 \<le> a_cnt j" using st by (simp add: scan_start_def scan_job_ok_def whole_buf_def)
  have l: "\<forall>r \<in> set xs. length (?d r) = nat (a_cnt j) * fst t" for xs
    by (simp add: recv_locs_def int_payload [OF i(1,2) cnt])
  have m: "mset rs = mset [0..<a_n j]"
    by (rule iffD1 [OF set_eq_iff_mset_eq_distinct [OF rs(1) distinct_upt]]) (simp only: rs(2) set_upt atLeast0LessThan)
  have len: "2 \<le> length rs" using rs ip(1) distinct_card [of rs] by simp
  have "[0..<a_n j] \<noteq> []" using ip(1) by simp
  from fold_order_free [OF i(1,3) refl this l, of "h_float h"]
  obtain v where v: "fold_ranks ?F ?d [0..<a_n j] = Some v" by blast
  have "in_place_fold ?F ?d rs = Some v"
    using in_place_fold_order_free [OF i(1,3) m len l, of "h_float h"] v by simp
  from in_place_runs [OF st ip rs this] v show ?thesis by blast
qed

lemma allreduce_in_place_rank_order_witness:
  "\<exists>s' out. calls_all (iallreduce_of demo_host (demo_ranks 3) demo_in_place) [2, 0, 1] (demo_cworld 3 demo_vectors) = Ret (s', out) \<and>
    map (w_mem (cw_world s')) (recv_locs demo_in_place 0) = map (w_mem (cw_world s')) (recv_locs demo_in_place 2)"
proof -
  have rs: "distinct [2, 0, 1 :: nat]" "set [2, 0, 1] = {..<a_n demo_in_place}" "2 \<le> a_n demo_in_place"
    "\<forall>r < a_n demo_in_place. a_send demo_in_place r = h_in_place demo_host" "0 < a_n demo_in_place" "2 < a_n demo_in_place"
    by (auto simp: demo_in_place_def demo_allreduce_def demo_host_def)
  have i: "int_type_of UMPI_ID_UNSIGNED = Some (4, False)" "predefined UMPI_ID_UNSIGNED = Some (a_type demo_in_place)"
    "always_defined Op_sum (4, False)" "a_op demo_in_place = Generic Op_sum"
    by (simp_all add: demo_in_place_def demo_allreduce_def always_defined_def)
  have st: "scan_start demo_host demo_in_place (demo_ranks 3) UNIV {#}
      (vec_apply (elem_op (h_float demo_host) Op_sum UMPI_ID_UNSIGNED) (fst (4, False)) (nat (a_cnt demo_in_place))) (demo_cworld 3 demo_vectors)"
    using demo_in_place_start by (simp add: demo_in_place_def demo_allreduce_def)
  from allreduce_in_place_rank_order [OF i st rs(3,4,1,2)] rs(5,6) show ?thesis by metis
qed

end
