(* ===== verification/Handle_Runs.thy ===== *)
theory Handle_Runs
  imports Handles Api_Props Allreduce_In_Place
begin

text \<open>
  Collective calls on any slots and \<^verbatim>\<open>MPI_Wait\<close> on the requests they give, in any order: no request is
  recycled while a rank holds it, and when all have completed and been waited for, all are recycled.
\<close>

section \<open>All slots\<close>

definition boxes :: "cworld \<Rightarrow> cid multiset" where
  "boxes s = (\<Sum>i < UMPI_OUTSTANDING_COLLECTIVE_OPERATIONS. mset (k_box (cw_slots s i)))"

definition slots_held :: "cid multiset \<Rightarrow> cworld \<Rightarrow> bool" where
  "slots_held H s \<longleftrightarrow> held_inv (cw_world s) (boxes s) H"





lemma boxes_world [simp]: "boxes (set_world w s) = boxes s"
  by (simp add: boxes_def)

text \<open>A call that returns \<^verbatim>\<open>MPI_SUCCESS\<close> has given its rank one request.\<close>

definition call_gives :: "cid multiset \<Rightarrow> cworld \<Rightarrow> call \<Rightarrow> bool" where
  "call_gives H s res \<longleftrightarrow> (\<forall>up s' c. res = Ret (up, s', MPI_SUCCESS, c) \<longrightarrow>
     (\<exists>d. c = Some d \<and> slots_held (add_mset d H) s' \<and> w_size (cw_world s') = w_size (cw_world s)))"



lemma rejected_gives [simp]: "call_gives H s (rejected up s)"
  by (simp add: call_gives_def rejected_def mpi_consts)

section \<open>The calls\<close>




section \<open>Waiting\<close>




section \<open>Runs\<close>






section \<open>No use after free\<close>


section \<open>All calls, then all waits\<close>





section \<open>A concrete run\<close>





end
