(* ===== verification/Scatter.thy ===== *)
theory Scatter
  imports Rooted
begin

text \<open>
  \<^verbatim>\<open>MPI_Iscatter\<close> as an instance of \<open>rooted_transfers\<close>: called by all ranks in any order of arrival,
  it gives rank \<open>r\<close> the \<open>r\<close>-th part of the root's buffer.
\<close>

section \<open>Scatter\<close>

record scatter_job =
  s_n :: nat
  s_ticket :: "32 word"
  s_root :: nat
  s_send :: int
  s_scnt :: int
  s_stype :: iovecs
  s_recv :: "nat \<Rightarrow> int"
  s_rcnt :: "nat \<Rightarrow> int"
  s_rtype :: "nat \<Rightarrow> iovecs"

definition iscatter_of :: "host \<Rightarrow> (nat \<Rightarrow> umpi) \<Rightarrow> scatter_job \<Rightarrow> nat \<Rightarrow> cworld \<Rightarrow> call" where
  "iscatter_of h us j r = MPI_Iscatter h (Some (us r)) (s_send j) (s_scnt j) (Some (s_stype j))
     (s_recv j r) (s_rcnt j r) (Some (s_rtype j r)) (int (s_root j)) MPI_COMM_WORLD"

text \<open>With \<^verbatim>\<open>MPI_IN_PLACE\<close> the root keeps its part where it is.\<close>

definition s_in_place :: "host \<Rightarrow> scatter_job \<Rightarrow> nat \<Rightarrow> bool" where
  "s_in_place h j r \<longleftrightarrow> r = s_root j \<and> s_recv j r = h_in_place h"

definition scatter_src :: "host \<Rightarrow> scatter_job \<Rightarrow> nat \<Rightarrow> loc list" where
  "scatter_src h j r =
     (if s_in_place h j r then [] else payload (Priv (s_root j), s_send j) (s_stype j) (s_scnt j * int r) (s_scnt j))"

definition scatter_dst :: "host \<Rightarrow> scatter_job \<Rightarrow> nat \<Rightarrow> loc list" where
  "scatter_dst h j r = (if s_in_place h j r then [] else payload (Priv r, s_recv j r) (s_rtype j r) 0 (s_rcnt j r))"

definition scatter_ok :: "host \<Rightarrow> scatter_job \<Rightarrow> bool" where
  "scatter_ok h j \<longleftrightarrow> vm_ok (h_writev h) \<and> vm_ok (h_readv h) \<and> 2 \<le> s_n j \<and> s_n j < 32768 \<and> s_root j < s_n j \<and>
     (s_send j = 0 \<longrightarrow> s_scnt j = 0) \<and> whole_buf (s_stype j) (s_scnt j * int (s_n j)) \<and> 0 \<le> s_scnt j \<and>
     (\<forall>r < s_n j. (s_recv j r = 0 \<longrightarrow> s_rcnt j r = 0) \<and>
        (s_in_place h j r \<or>
          whole_buf (s_rtype j r) (s_rcnt j r) \<and> bytes_of (s_rtype j r) (s_rcnt j r) = bytes_of (s_stype j) (s_scnt j) \<and>
          separate (payload (Priv (s_root j), s_send j) (s_stype j) 0 (s_scnt j * int (s_n j))) (scatter_dst h j r)))"

definition scatter_view :: "host \<Rightarrow> scatter_job \<Rightarrow> rooted" where
  "scatter_view h j = \<lparr>rt_n = s_n j, rt_ticket = s_ticket j, rt_root = s_root j,
     rt_early = (\<lambda>r. (s_recv j r, s_rtype j r, s_rcnt j r)), rt_buf = s_send j, rt_type = s_stype j,
     rt_size = s_scnt j * int (s_n j), rt_cnt = s_scnt j, rt_displs = None, rt_src = scatter_src h j, rt_dst = scatter_dst h j\<rparr>"

definition scatter_late :: "host \<Rightarrow> scatter_job \<Rightarrow> nat \<Rightarrow> int list \<Rightarrow> cid \<Rightarrow> world \<Rightarrow> (world \<times> int) outcome" where
  "scatter_late h j r ds c w = read_from_owner (h_readv h) c (Priv r, s_recv j r) (s_rtype j r) (s_rcnt j r) (s_rcnt j r)
     0 (c_count (w_cookies w c) * int r) w"

definition scatter_serve :: "host \<Rightarrow> scatter_job \<Rightarrow> cid \<Rightarrow> world \<Rightarrow> (world \<times> int) outcome" where
  "scatter_serve h j c w = write_to_owner (h_writev h) c (Priv (s_root j), s_send j) (s_stype j) (s_scnt j)
     0 (s_scnt j * c_src (w_cookies w c)) w"

lemma scatter_view_sel [simp]:
  "rt_n (scatter_view h j) = s_n j" "rt_ticket (scatter_view h j) = s_ticket j" "rt_root (scatter_view h j) = s_root j"
  "rt_early (scatter_view h j) r = (s_recv j r, s_rtype j r, s_rcnt j r)" "rt_buf (scatter_view h j) = s_send j"
  "rt_type (scatter_view h j) = s_stype j" "rt_size (scatter_view h j) = s_scnt j * int (s_n j)"
  "rt_cnt (scatter_view h j) = s_scnt j" "rt_displs (scatter_view h j) = None"
  "rt_src (scatter_view h j) = scatter_src h j" "rt_dst (scatter_view h j) = scatter_dst h j"
  by (simp_all add: scatter_view_def)

lemma scatter_okD:
  assumes "scatter_ok h j"
  shows "vm_ok (h_writev h)" "vm_ok (h_readv h)" "s_root j < s_n j" "whole_buf (s_stype j) (s_scnt j * int (s_n j))" "0 \<le> s_scnt j"
    "s_n j < 32768" "2 \<le> s_n j"
  using assms by (simp_all add: scatter_ok_def)

lemma scatter_rank:
  assumes "scatter_ok h j" "r < s_n j" "\<not> s_in_place h j r"
  shows "whole_buf (s_rtype j r) (s_rcnt j r)" "bytes_of (s_rtype j r) (s_rcnt j r) = bytes_of (s_stype j) (s_scnt j)"
    "separate (payload (Priv (s_root j), s_send j) (s_stype j) 0 (s_scnt j * int (s_n j))) (scatter_dst h j r)"
    "scatter_src h j r = payload (Priv (s_root j), s_send j) (s_stype j) (s_scnt j * int r) (s_scnt j)"
    "scatter_dst h j r = payload (Priv r, s_recv j r) (s_rtype j r) 0 (s_rcnt j r)"
  using assms by (auto simp: scatter_ok_def scatter_src_def scatter_dst_def)

text \<open>The \<open>r\<close>-th part of the root's buffer.\<close>

lemma scatter_part:
  assumes "scatter_ok h j" "r < s_n j"
  shows "0 \<le> s_scnt j * int r" "s_scnt j * int r + s_scnt j \<le> s_scnt j * int (s_n j)"
    "typed_buf (s_stype j) (s_scnt j * int r) (s_scnt j)"
    "set (payload (Priv (s_root j), s_send j) (s_stype j) (s_scnt j * int r) (s_scnt j)) \<subseteq>
       set (payload (Priv (s_root j), s_send j) (s_stype j) 0 (s_scnt j * int (s_n j)))"
proof -
  note ok = scatter_okD [OF assms(1)]
  show i: "0 \<le> s_scnt j * int r" using ok(5) by simp
  have "s_scnt j * (int r + 1) \<le> s_scnt j * int (s_n j)" using ok(5) assms(2) by (intro mult_left_mono) simp_all
  then show le: "s_scnt j * int r + s_scnt j \<le> s_scnt j * int (s_n j)" by (simp add: distrib_left)
  show "typed_buf (s_stype j) (s_scnt j * int r) (s_scnt j)"
    using ok(4) by (intro typed_buf_part [OF _ i ok(5) le]) (simp add: whole_buf_def)
  show "set (payload (Priv (s_root j), s_send j) (s_stype j) (s_scnt j * int r) (s_scnt j)) \<subseteq>
      set (payload (Priv (s_root j), s_send j) (s_stype j) 0 (s_scnt j * int (s_n j)))"
    by (rule part_subset [OF i ok(5) le])
qed

lemma scatter_src_sep:
  assumes "scatter_ok h j" "r < s_n j" "x < s_n j"
  shows "set (scatter_src h j r) \<inter> set (scatter_dst h j x) = {}"
proof (cases "s_in_place h j x")
  case False
  then show ?thesis
    using scatter_rank(3) [OF assms(1,3)] scatter_part(4) [OF assms(1,2)] by (auto simp: separate_def scatter_src_def)
qed (simp add: scatter_dst_def)

lemma scatter_dst_sep: "r \<noteq> x \<Longrightarrow> set (scatter_dst h j r) \<inter> set (scatter_dst h j x) = {}"
  by (auto simp: scatter_dst_def dest!: payload_space split: if_splits)

lemma scatter_view_ok:
  assumes ok: "scatter_ok h j" shows "rooted_ok (scatter_view h j)"
proof -
  have "distinct (scatter_dst h j r) \<and> length (scatter_src h j r) = length (scatter_dst h j r)" if r: "r < s_n j" for r
  proof (cases "s_in_place h j r")
    case False
    note k = scatter_rank [OF ok r False]
    have "length (scatter_src h j r) = bytes_of (s_stype j) (s_scnt j)" "length (scatter_dst h j r) = bytes_of (s_rtype j r) (s_rcnt j r)"
      using typed_bufD(1,3) [OF scatter_part(3) [OF ok r]] k by (simp_all add: length_payload_bytes whole_buf_def typed_buf_def)
    then show ?thesis using k(2,3) by (simp add: separate_def)
  qed (simp add: scatter_src_def scatter_dst_def)
  then show ?thesis
    using scatter_okD [OF ok] scatter_src_sep [OF ok] scatter_dst_sep unfolding rooted_ok_def by auto
qed

lemma scatter_late_moves:
  assumes ok: "scatter_ok h j" and r: "r < s_n j" "r \<noteq> s_root j"
    and k: "root_req (scatter_view h j) w c busy" "1 \<le> busy" "busy < 32768"
  shows "transfers (scatter_late h j r ds c w) w c (scatter_src h j r) (scatter_dst h j r)
    (\<lambda>w'. root_req (scatter_view h j) w' c (busy - 1))"
proof -
  have np: "\<not> s_in_place h j r" using r by (simp add: s_in_place_def)
  note m = scatter_rank [OF ok r(1) np] and p = scatter_part [OF ok r(1)] and d = scatter_okD [OF ok]
  let ?a = "s_scnt j * int r" and ?N = "s_scnt j * int (s_n j)" and ?P = "payload (Priv (s_root j), s_send j) (s_stype j)"
  have rq: "request_is w c (s_root j) (s_send j) (s_stype j) ?N (s_scnt j) busy" using k(1) by (simp add: root_req_def)
  then have cnt: "c_count (w_cookies w c) = s_scnt j" by (simp add: request_is_def Let_def)
  have le: "0 \<le> ?N - ?a" "?a + (?N - ?a) \<le> ?N" using p(1,2) d(5) by linarith+
  have "set (?P ?a (?N - ?a)) \<subseteq> set (?P 0 ?N)" using le by (intro part_subset [OF p(1)])
  then have sep: "separate (?P ?a (?N - ?a)) (payload (Priv r, s_recv j r) (s_rtype j r) 0 (s_rcnt j r))"
    using m(3,5) by (auto simp: separate_def)
  have rest: "typed_buf (s_stype j) ?a (?N - ?a)"
    using d(4) by (intro typed_buf_part [OF _ p(1) le]) (simp add: whole_buf_def)
  have w: "typed_buf (s_rtype j r) 0 (s_rcnt j r - 0)" "iov_len (s_rtype j r) \<noteq> 0" "0 \<le> s_rcnt j r" "s_rcnt j r < 2 ^ 31"
    "iov_len (s_stype j) \<noteq> 0"
    using m(1) d(4) by (simp_all add: whole_buf_def)
  have zero: "s_rcnt j r \<noteq> 0 \<or> bytes_of (s_stype j) (?N - ?a) = 0"
  proof (rule disjCI)
    assume "\<not> bytes_of (s_stype j) (?N - ?a) = 0"
    then have "s_scnt j \<noteq> 0" "unat (iov_len (s_stype j)) \<noteq> 0" by (auto simp: bytes_of_def)
    then have "bytes_of (s_rtype j r) (s_rcnt j r) \<noteq> 0" using m(2) d(5) by (simp add: bytes_of_def)
    then show "s_rcnt j r \<noteq> 0" by (auto simp: bytes_of_def)
  qed
  have "0 + s_rcnt j r \<le> s_rcnt j r" by simp
  from read_part [OF d(2) rq k(2,3) w(1,2,3) this w(4) rest w(5) m(2) d(5) p(2) zero sep]
  show ?thesis unfolding m(4,5) scatter_late_def cnt root_req_def scatter_view_sel .
qed

lemma scatter_serve_moves:
  assumes ok: "scatter_ok h j" and r: "r < s_n j" "r \<noteq> s_root j" and k: "early_req (scatter_view h j) w r c"
  shows "transfers (scatter_serve h j c w) w c (scatter_src h j r) (scatter_dst h j r) (\<lambda>w'. finished w' c)"
proof -
  have np: "\<not> s_in_place h j r" using r by (simp add: s_in_place_def)
  note m = scatter_rank [OF ok r(1) np] and p = scatter_part [OF ok r(1)] and d = scatter_okD [OF ok]
  have rq: "request_is w c r (s_recv j r) (s_rtype j r) (s_rcnt j r) (s_rcnt j r) 1" using k by (simp add: early_req_def)
  have w: "typed_buf (s_rtype j r) 0 (s_rcnt j r - 0)" "iov_len (s_rtype j r) \<noteq> 0" "0 \<le> s_rcnt j r" "s_rcnt j r < 2 ^ 31"
    using m(1) by (simp_all add: whole_buf_def)
  have "separate (payload (Priv (s_root j), s_send j) (s_stype j) (s_scnt j * int r) (s_scnt j))
      (payload (Priv r, s_recv j r) (s_rtype j r) 0 (s_rcnt j r - 0))"
    using m(3,5) p(4) by (auto simp: separate_def)
  from write_part [OF d(1) rq _ _ p(3) w(1,2) m(2) [symmetric] w(3) _ w(3) _ _ w(4) this]
  have "transfers (write_to_owner (h_writev h) c (Priv (s_root j), s_send j) (s_stype j) (s_scnt j) 0 (s_scnt j * int r) w) w c
      (scatter_src h j r) (scatter_dst h j r) (\<lambda>w'. request_is w' c r (s_recv j r) (s_rtype j r) (s_rcnt j r) (s_rcnt j r) 0)"
    unfolding m(4,5) by simp
  then show ?thesis
    unfolding scatter_serve_def request_isD(2) [OF rq] transfers_def using request_is_finished by blast
qed

interpretation scatter: rooted_transfers "scatter_ok h" "scatter_view h" "scatter_late h" "scatter_serve h" for h
  by unfold_locales (simp_all add: scatter_view_ok scatter_late_moves scatter_serve_moves)

text \<open>The two members, and the call of a rank.\<close>

lemma scatter_member: "scatter_request h u i (s_recv j r) (s_rcnt j r) (s_rtype j r) root s =
    member_call (scatter_late h j r) u i (s_recv j r, s_rtype j r, s_rcnt j r) root s" if "u_rank u = r"
  using that by (simp add: scatter_request_def member_call_def scatter_late_def cookie_at_def split: option.splits prod.splits)

lemma scatter_root: "root_scatter_request h u i (s_send j) (s_scnt j) (s_stype j) s =
    root_call (scatter_serve h j) u i (s_send j) (s_stype j) (s_scnt j * int (s_n j)) (s_scnt j) s"
  if "u_rank u = s_root j" "u_size u = int (s_n j)"
proof -
  have "(\<lambda>c w. write_to_owner (h_writev h) c (Priv (s_root j), s_send j) (s_stype j) (s_scnt j) 0
      (s_scnt j * c_src (w_cookies w c)) w) = scatter_serve h j"
    by (simp add: fun_eq_iff scatter_serve_def)
  then show ?thesis using that by (simp add: root_scatter_request_def root_call_def)
qed

lemma iscatter_member:
  assumes ok: "scatter_ok h j" and sc: "same_call (s_n j) us (s_ticket j)" and r: "r < s_n j" "r \<noteq> s_root j"
    and sa: "slot_after (s_ticket j) n (cw_slots s (slot_of (s_ticket j)))"
  shows "iscatter_of h us j r s = returned (after_entry us (s_ticket j) r) (member_call (scatter_late h j r)
    (after_entry us (s_ticket j) r) (slot_of (s_ticket j)) (s_recv j r, s_rtype j r, s_rcnt j r) (int (s_root j))
    (entered (s_ticket j) n s))"
proof -
  have u: "u_rank (us r) = r" "u_size (us r) = int (s_n j)" using sc r(1) by (simp_all add: same_call_def)
  have "u_rank (after_entry us (s_ticket j) r) = r" using u by simp
  note m = scatter_member [OF this]
  have "s_recv j r = 0 \<longrightarrow> s_rcnt j r = 0" "s_root j < s_n j" using ok r(1) by (auto simp: scatter_ok_def)
  then show ?thesis
    using r u in_slot_enter [OF sc r(1) sa] by (auto simp: iscatter_of_def MPI_Iscatter_def returned_def m)
qed

lemma iscatter_root:
  assumes ok: "scatter_ok h j" and sc: "same_call (s_n j) us (s_ticket j)"
    and sa: "slot_after (s_ticket j) (length ds) (cw_slots s (slot_of (s_ticket j)))"
  shows "\<exists>s1. root_prepares (scatter_view h j) ds s s1 \<and>
    iscatter_of h us j (s_root j) s = returned (after_entry us (s_ticket j) (s_root j)) (root_call (scatter_serve h j)
      (after_entry us (s_ticket j) (s_root j)) (slot_of (s_ticket j)) (s_send j) (s_stype j) (s_scnt j * int (s_n j)) (s_scnt j) s1)"
proof -
  let ?r = "s_root j" and ?e = "entered (s_ticket j) (length ds) s" and ?U = "after_entry us (s_ticket j) (s_root j)"
  note d = scatter_okD [OF ok]
  have u: "u_rank (us ?r) = ?r" "u_size (us ?r) = int (s_n j)" using sc d(3) by (simp_all add: same_call_def)
  have "u_rank ?U = ?r" "u_size ?U = int (s_n j)" using u by simp_all
  note rc = scatter_root [OF this]
  define s1 where "s1 = (if s_recv j ?r \<noteq> h_in_place h
    then copy_in h ?U (Priv ?r, s_send j) (s_stype j) (s_scnt j) (int ?r * s_scnt j) (Priv ?r, s_recv j ?r) (s_rtype j ?r) (s_rcnt j ?r) 0 ?e
    else ?e)"
  have b: "same_bytes (s_scnt j) (s_stype j) (s_rcnt j ?r) (s_rtype j ?r)" if np: "s_recv j ?r \<noteq> h_in_place h"
  proof -
    have "\<not> s_in_place h j ?r" using np by (simp add: s_in_place_def)
    note m = scatter_rank [OF ok d(3) this]
    have "unat (size_of_int (s_scnt j) * iov_len (s_stype j)) = unat (size_of_int (s_rcnt j ?r) * iov_len (s_rtype j ?r))"
      using typed_bufD(5) [OF scatter_part(3) [OF ok d(3)]] typed_bufD(5) [of "s_rtype j ?r" 0 "s_rcnt j ?r"] m(1,2)
      by (simp add: whole_buf_def)
    then show ?thesis unfolding same_bytes_def word_unat_eq_iff .
  qed
  have n: "s_recv j ?r = 0 \<longrightarrow> s_rcnt j ?r = 0" "s_send j = 0 \<longrightarrow> s_scnt j = 0" using ok d(3) by (auto simp: scatter_ok_def)
  have "iscatter_of h us j ?r s = returned ?U (root_call (scatter_serve h j) ?U (slot_of (s_ticket j)) (s_send j) (s_stype j)
      (s_scnt j * int (s_n j)) (s_scnt j) s1)"
    using u n b d(3) in_slot_enter [OF sc d(3) sa] by (auto simp: iscatter_of_def MPI_Iscatter_def returned_def rc s1_def)
  moreover have "root_prepares (scatter_view h j) ds s s1"
  proof (cases "s_recv j ?r = h_in_place h")
    case True
    then show ?thesis
      by (intro root_prepares_plain) (simp_all add: s1_def scatter_src_def scatter_dst_def s_in_place_def moved_def same_boxes_def)
  next
    case False
    then have np: "\<not> s_in_place h j ?r" by (simp add: s_in_place_def)
    note m = scatter_rank [OF ok d(3) np]
    have "separate (scatter_src h j ?r) (scatter_dst h j ?r)" using rooted_okD(1) [OF scatter_view_ok [OF ok]] d(3) by simp
    then have "s1 = set_world ((cw_world ?e)\<lparr>w_mem := moved (w_mem (cw_world ?e)) (scatter_src h j ?r) (scatter_dst h j ?r)\<rparr>) ?e"
      using copy_in_prepares [OF d(1) scatter_part(3) [OF ok d(3)], of "s_rtype j ?r" 0 "s_rcnt j ?r"] m(1,2) False
      unfolding m(4,5) s1_def by (simp add: whole_buf_def mult.commute)
    then show ?thesis by (intro root_prepares_plain) (simp_all add: same_boxes_mem)
  qed
  ultimately show ?thesis by blast
qed

text \<open>C11: scatter, whatever the order in which the ranks arrive. All \<open>n\<close> ranks call \<^verbatim>\<open>MPI_Iscatter\<close> on a
  free slot, each once, in any order; the root's buffer has \<open>n\<close> parts of \<open>sendcount\<close> elements, each rank
  receives as many bytes with a type and count of its own, and the pool has room for \<open>n\<close> requests. Every
  call returns \<^verbatim>\<open>MPI_SUCCESS\<close> with a request. When the last rank has called, rank \<open>r\<close>'s buffer holds
  the \<open>r\<close>-th part (the root's too, unless it passed \<^verbatim>\<open>MPI_IN_PLACE\<close>), nothing outside these buffers
  has changed, every request is completed without error, and the slot is free again.\<close>

theorem iscatter_all_orders:
  assumes "scatter_ok h j" "same_call (s_n j) us (s_ticket j)"
    and "w_size (cw_world s) = s_n j" "box_inv (cw_world s) B" "slot_free (s_ticket j) s"
      "64 * s_n j \<le> unat (p_space (w_pool (cw_world s)))"
    and "distinct rs" "set rs = {..<s_n j}"
  shows "\<exists>s' q. calls_all (iscatter_of h us j) rs s = Ret (s', map (\<lambda>r. (MPI_SUCCESS, Some (q r))) rs) \<and>
    (\<forall>r < s_n j. (\<not> s_in_place h j r \<longrightarrow>
         map (w_mem (cw_world s')) (payload (Priv r, s_recv j r) (s_rtype j r) 0 (s_rcnt j r)) =
         map (w_mem (cw_world s)) (payload (Priv (s_root j), s_send j) (s_stype j) (s_scnt j * int r) (s_scnt j))) \<and>
       finished (cw_world s') (q r)) \<and>
    (\<forall>l. (\<forall>r < s_n j. l \<notin> set (scatter_dst h j r)) \<longrightarrow> w_mem (cw_world s') l = w_mem (cw_world s) l) \<and>
    slot_free (s_ticket j) s' \<and> box_inv (cw_world s') B"
proof -
  note a = scatter.all_orders [of h j us s B rs "iscatter_of h us j", unfolded scatter_view_sel, OF assms]
  obtain s' q where r: "calls_all (iscatter_of h us j) rs s = Ret (s', map (\<lambda>r. (MPI_SUCCESS, Some (q r))) rs)"
    "\<forall>r < s_n j. map (w_mem (cw_world s')) (scatter_dst h j r) = map (w_mem (cw_world s)) (scatter_src h j r) \<and> finished (cw_world s') (q r)"
    "\<forall>l. (\<forall>r < s_n j. l \<notin> set (scatter_dst h j r)) \<longrightarrow> w_mem (cw_world s') l = w_mem (cw_world s) l"
    "slot_free (s_ticket j) s'" "box_inv (cw_world s') B"
    using a [OF iscatter_member [OF assms(1,2)] iscatter_root [OF assms(1,2)]] by blast
  have "map (w_mem (cw_world s')) (payload (Priv r, s_recv j r) (s_rtype j r) 0 (s_rcnt j r)) =
      map (w_mem (cw_world s)) (payload (Priv (s_root j), s_send j) (s_stype j) (s_scnt j * int r) (s_scnt j))"
    if "r < s_n j" "\<not> s_in_place h j r" for r
  proof -
    have "map (w_mem (cw_world s')) (scatter_dst h j r) = map (w_mem (cw_world s)) (scatter_src h j r)" using r(2) that(1) by blast
    then show ?thesis using that(2) unfolding scatter_src_def scatter_dst_def by (simp only: if_False)
  qed
  then show ?thesis using r by (intro exI [of _ s'] exI [of _ q]) simp
qed

definition demo_short :: iovecs where
  "demo_short = [iov_entry (id_val UMPI_ID_SHORT) 2]"

lemma demo_short: "payload (Priv r, 2000) demo_short 0 1 = [(Priv r, 2000), (Priv r, 2001)]" "whole_buf demo_short 1" "iov_len demo_short = 2"
  by (simp_all add: payload_def elem_locs_def demo_short_def iov_defs loc_range_def add_loc_def upt_rec whole_buf_def typed_buf_def wf_iovec_def)

text \<open>Rank 1 sends two bytes to each of three ranks, which receive a short.\<close>

definition demo_scatter :: scatter_job where
  "demo_scatter = \<lparr>s_n = 3, s_ticket = 0, s_root = 1, s_send = 1000, s_scnt = 2, s_stype = demo_byte,
     s_recv = (\<lambda>r. 2000), s_rcnt = (\<lambda>r. 1), s_rtype = (\<lambda>r. demo_short)\<rparr>"

definition demo_bytes :: mem where
  "demo_bytes = (\<lambda>l. if l = (Priv 1, 1000) then 5 else if l = (Priv 1, 1004) then 7 else if l = (Priv 1, 1005) then 9 else 0)"

lemma demo_scatter_ok: "scatter_ok demo_host demo_scatter"
  using demo_byte_whole [of 6] demo_short
  by (auto simp: scatter_ok_def demo_scatter_def s_in_place_def demo_host_def vm_ok_copy scatter_dst_def separate_def bytes_of_def
      demo_byte_payload demo_byte_len)

lemma iscatter_all_orders_witness:
  "\<exists>s' out. calls_all (iscatter_of demo_host (demo_ranks 3) demo_scatter) [2, 1, 0] (demo_cworld 3 demo_bytes) = Ret (s', out) \<and>
    map (w_mem (cw_world s')) [(Priv 0, 2000), (Priv 0, 2001)] = [5, 0] \<and>
    map (w_mem (cw_world s')) [(Priv 2, 2000), (Priv 2, 2001)] = [7, 9]"
proof -
  have j: "s_n demo_scatter = 3" "s_ticket demo_scatter = 0" "s_root demo_scatter = 1" by (simp_all add: demo_scatter_def)
  have np: "\<not> s_in_place demo_host demo_scatter r" for r by (simp add: s_in_place_def demo_scatter_def demo_host_def)
  note c = demo_cworld_start [of 3 demo_bytes]
  have start: "w_size (cw_world (demo_cworld 3 demo_bytes)) = s_n demo_scatter" "slot_free (s_ticket demo_scatter) (demo_cworld 3 demo_bytes)"
    "64 * s_n demo_scatter \<le> unat (p_space (w_pool (cw_world (demo_cworld 3 demo_bytes))))"
    "same_call (s_n demo_scatter) (demo_ranks 3) (s_ticket demo_scatter)"
    "distinct [2, 1, 0 :: nat]" "set [2, 1, 0] = {..<s_n demo_scatter}"
    unfolding j using c demo_ranks_call [of 3] by auto
  obtain s' q where r: "calls_all (iscatter_of demo_host (demo_ranks 3) demo_scatter) [2, 1, 0] (demo_cworld 3 demo_bytes) =
      Ret (s', map (\<lambda>r. (MPI_SUCCESS, Some (q r))) [2, 1, 0 :: nat])"
    "\<And>r. r < 3 \<Longrightarrow> map (w_mem (cw_world s')) (payload (Priv r, s_recv demo_scatter r) (s_rtype demo_scatter r) 0 (s_rcnt demo_scatter r)) =
       map demo_bytes (payload (Priv 1, s_send demo_scatter) (s_stype demo_scatter) (s_scnt demo_scatter * int r) (s_scnt demo_scatter))"
    using iscatter_all_orders [OF demo_scatter_ok start(4,1) c(3) start(2,3,5,6)] np unfolding c(2) j by blast
  have "map (w_mem (cw_world s')) [(Priv 0, 2000), (Priv 0, 2001)] = [5, 0]"
    using r(2) [of 0] by (simp add: demo_scatter_def demo_byte_payload demo_bytes_def demo_short(1) upto.simps [of 0])
  moreover have "map (w_mem (cw_world s')) [(Priv 2, 2000), (Priv 2, 2001)] = [7, 9]"
    using r(2) [of 2] by (simp add: demo_scatter_def demo_byte_payload demo_bytes_def demo_short(1))
  ultimately show ?thesis using r(1) by (intro exI conjI)
qed

end
