(* ===== verification/Gather.thy ===== *)
theory Gather
  imports Scatter
begin

text \<open>
  \<^verbatim>\<open>MPI_Igatherv\<close>, and \<^verbatim>\<open>MPI_Igather\<close> with one element for each rank, as instances of
  \<open>rooted_transfers\<close>: called by all ranks in any order of arrival, they put the data of rank \<open>r\<close> into
  its part of the root's buffer.
\<close>

section \<open>Data that goes to a part of the root's buffer\<close>

text \<open>
  \<open>k\<close> elements from element \<open>a\<close> on of the root's buffer of \<open>n\<close>, filled with \<open>scnt\<close> elements of
  rank \<open>r\<close>, either by that rank or by the root.
\<close>

definition fills_part :: "loc \<Rightarrow> iovecs \<Rightarrow> int \<Rightarrow> loc \<Rightarrow> iovecs \<Rightarrow> int \<Rightarrow> int \<Rightarrow> int \<Rightarrow> bool" where
  "fills_part src sty scnt dst rty n a k \<longleftrightarrow> whole_buf sty scnt \<and> whole_buf rty n \<and> bytes_of sty scnt = bytes_of rty k \<and>
     0 \<le> a \<and> 0 \<le> k \<and> a + k \<le> n \<and> separate (payload src sty 0 scnt) (payload dst rty 0 n)"

lemma fills_partD:
  assumes "fills_part src sty scnt dst rty n a k"
  shows "typed_buf sty 0 scnt" "iov_len sty \<noteq> 0" "0 \<le> scnt" "typed_buf rty a k" "typed_buf rty a (n - a)" "iov_len rty \<noteq> 0"
    "0 \<le> k" "a + k \<le> n" "k < 2 ^ 31" "bytes_of sty scnt = bytes_of rty k" "n < 2 ^ 31"
    "separate (payload src sty 0 scnt) (payload dst rty a (n - a))" "separate (payload src sty 0 scnt) (payload dst rty a k)"
    "length (payload src sty 0 scnt) = length (payload dst rty a k)"
proof -
  have f: "typed_buf sty 0 scnt" "iov_len sty \<noteq> 0" "0 \<le> scnt" "typed_buf rty 0 n" "iov_len rty \<noteq> 0" "n < 2 ^ 31"
    "bytes_of sty scnt = bytes_of rty k" "0 \<le> a" "0 \<le> k" "a + k \<le> n" "separate (payload src sty 0 scnt) (payload dst rty 0 n)"
    using assms by (simp_all add: fills_part_def whole_buf_def)
  have le: "0 \<le> n - a" "a + (n - a) \<le> n" using f by simp_all
  show b: "typed_buf rty a k" "typed_buf rty a (n - a)"
    using typed_buf_part [OF f(4,8,9,10)] typed_buf_part [OF f(4,8) le] by simp_all
  show "separate (payload src sty 0 scnt) (payload dst rty a (n - a))" "separate (payload src sty 0 scnt) (payload dst rty a k)"
    using f(11) part_subset [OF f(8) le, of dst rty] part_subset [OF f(8,9,10), of dst rty]
      part_distinct [OF _ f(8) le, of dst rty] part_distinct [OF _ f(8,9,10), of dst rty]
    unfolding separate_def by blast+
  show "length (payload src sty 0 scnt) = length (payload dst rty a k)"
    using typed_bufD(1,3) [OF f(1)] typed_bufD(1,3) [OF b(1)] f(7) by (simp add: length_payload_bytes)
  show "k < 2 ^ 31" using f by simp
qed (use assms in \<open>simp_all add: fills_part_def whole_buf_def\<close>)

lemma write_fills:
  assumes vm: "vm_ok writev" and f: "fills_part src sty scnt (Priv o', buf) rty n a k"
    and rq: "request_is w c o' buf rty n cnt busy" "1 \<le> busy" "busy < 32768" and cnt: "0 \<le> cnt" "cnt \<le> k"
  shows "transfers (write_to_owner writev c src sty scnt a 0 w) w c (payload src sty 0 scnt) (payload (Priv o', buf) rty a k)
    (\<lambda>w'. request_is w' c o' buf rty n cnt (busy - 1))"
proof -
  note d = fills_partD [OF f]
  have "cnt \<le> n" "cnt < 2 ^ 31" using cnt d(7,8,9) f by (simp_all add: fills_part_def)
  from write_part [OF vm rq d(1,5,6,10,7,8) cnt this d(12)] show ?thesis .
qed

lemma read_fills:
  assumes vm: "vm_ok readv" and f: "fills_part (Priv r, buf) sty scnt dst rty n a k"
    and rq: "request_is w c r buf sty scnt scnt busy" "1 \<le> busy" "busy < 32768"
  shows "transfers (read_from_owner readv c dst rty n k a 0 w) w c (payload (Priv r, buf) sty 0 scnt) (payload dst rty a k)
    (\<lambda>w'. request_is w' c r buf sty scnt scnt (busy - 1))"
proof -
  note d = fills_partD [OF f]
  have zero: "k \<noteq> 0 \<or> bytes_of sty (scnt - 0) = 0" using d(10) by (auto simp: bytes_of_def)
  have "typed_buf sty 0 (scnt - 0)" "0 + scnt \<le> scnt" "separate (payload (Priv r, buf) sty 0 (scnt - 0)) (payload dst rty a k)"
    using d(1,13) by simp_all
  from read_part [OF vm rq d(5,6,7,8,9) this(1) d(2) d(10) [symmetric] d(3) this(2) zero this(3)] show ?thesis by simp
qed

lemma same_bytes_fills:
  assumes "fills_part src sty scnt dst rty n a k" shows "same_bytes scnt sty k rty"
  using typed_bufD(5) [OF fills_partD(1) [OF assms]] typed_bufD(5) [OF fills_partD(4) [OF assms]] fills_partD(10) [OF assms]
  unfolding same_bytes_def word_unat_eq_iff by simp

lemma copy_in_fills:
  assumes "vm_ok (h_writev h)" "fills_part sb sty scnt rb rty n a k"
  shows "copy_in h u sb sty scnt 0 rb rty k a s =
    set_world ((cw_world s)\<lparr>w_mem := moved (w_mem (cw_world s)) (payload sb sty 0 scnt) (payload rb rty a k)\<rparr>) s"
  using fills_partD [OF assms(2)] by (intro copy_in_prepares [OF assms(1)])

section \<open>Gatherv\<close>

record gather_job =
  g_n :: nat
  g_ticket :: "32 word"
  g_root :: nat
  g_send :: "nat \<Rightarrow> int"
  g_scnt :: "nat \<Rightarrow> int"
  g_stype :: "nat \<Rightarrow> iovecs"
  g_recv :: int
  g_counts :: "int list"
  g_displs :: "int list"
  g_rtype :: iovecs

definition igatherv_of :: "host \<Rightarrow> (nat \<Rightarrow> umpi) \<Rightarrow> gather_job \<Rightarrow> nat \<Rightarrow> cworld \<Rightarrow> call" where
  "igatherv_of h us j r = MPI_Igatherv h (Some (us r)) (g_send j r) (g_scnt j r) (Some (g_stype j r))
     (g_recv j) (Some (g_counts j)) (Some (g_displs j)) (Some (g_rtype j)) (int (g_root j)) MPI_COMM_WORLD"

definition g_in_place :: "host \<Rightarrow> gather_job \<Rightarrow> nat \<Rightarrow> bool" where
  "g_in_place h j r \<longleftrightarrow> r = g_root j \<and> g_send j r = h_in_place h"

definition g_total :: "gather_job \<Rightarrow> int" where
  "g_total j = sum_list (take (g_n j) (g_counts j))"

definition gather_src :: "host \<Rightarrow> gather_job \<Rightarrow> nat \<Rightarrow> loc list" where
  "gather_src h j r = (if g_in_place h j r then [] else payload (Priv r, g_send j r) (g_stype j r) 0 (g_scnt j r))"

definition gather_dst :: "host \<Rightarrow> gather_job \<Rightarrow> nat \<Rightarrow> loc list" where
  "gather_dst h j r =
     (if g_in_place h j r then [] else payload (Priv (g_root j), g_recv j) (g_rtype j) (g_displs j ! r) (g_counts j ! r))"

text \<open>The parts \<open>displs\<close> and \<open>counts\<close> give do not overlap and lie in the first \<open>g_total\<close> elements.\<close>

definition parts_ok :: "gather_job \<Rightarrow> bool" where
  "parts_ok j \<longleftrightarrow> g_n j \<le> length (g_counts j) \<and> g_n j \<le> length (g_displs j) \<and>
     (\<forall>r < g_n j. 0 \<le> g_displs j ! r \<and> 0 \<le> g_counts j ! r \<and> g_displs j ! r + g_counts j ! r \<le> g_total j \<and>
        (\<forall>x < g_n j. r \<noteq> x \<longrightarrow> g_displs j ! r + g_counts j ! r \<le> g_displs j ! x \<or> g_displs j ! x + g_counts j ! x \<le> g_displs j ! r))"

definition gather_ok :: "host \<Rightarrow> gather_job \<Rightarrow> bool" where
  "gather_ok h j \<longleftrightarrow> vm_ok (h_writev h) \<and> vm_ok (h_readv h) \<and> 2 \<le> g_n j \<and> g_n j < 32768 \<and> g_root j < g_n j \<and>
     g_recv j \<noteq> 0 \<and> parts_ok j \<and> distinct (payload (Priv (g_root j), g_recv j) (g_rtype j) 0 (g_total j)) \<and>
     (\<forall>r < g_n j. (g_send j r = 0 \<longrightarrow> g_scnt j r = 0) \<and>
        (g_in_place h j r \<or> fills_part (Priv r, g_send j r) (g_stype j r) (g_scnt j r) (Priv (g_root j), g_recv j) (g_rtype j)
           (g_total j) (g_displs j ! r) (g_counts j ! r)))"

definition gatherv_view :: "host \<Rightarrow> gather_job \<Rightarrow> rooted" where
  "gatherv_view h j = \<lparr>rt_n = g_n j, rt_ticket = g_ticket j, rt_root = g_root j,
     rt_early = (\<lambda>r. (g_send j r, g_stype j r, g_scnt j r)), rt_buf = g_recv j, rt_type = g_rtype j,
     rt_size = g_total j, rt_cnt = 0, rt_displs = Some (take (g_n j) (g_displs j)), rt_src = gather_src h j, rt_dst = gather_dst h j\<rparr>"

definition gatherv_late :: "host \<Rightarrow> gather_job \<Rightarrow> nat \<Rightarrow> int list \<Rightarrow> cid \<Rightarrow> world \<Rightarrow> (world \<times> int) outcome" where
  "gatherv_late h j r ds c w = (if length ds \<le> r then Undef
     else write_to_owner (h_writev h) c (Priv r, g_send j r) (g_stype j r) (g_scnt j r) (ds ! r) 0 w)"

definition gatherv_serve :: "host \<Rightarrow> gather_job \<Rightarrow> cid \<Rightarrow> world \<Rightarrow> (world \<times> int) outcome" where
  "gatherv_serve h j c w = read_from_owner (h_readv h) c (Priv (g_root j), g_recv j) (g_rtype j) (g_total j)
     (g_counts j ! nat (c_src (w_cookies w c))) (g_displs j ! nat (c_src (w_cookies w c))) 0 w"

lemma gatherv_view_sel [simp]:
  "rt_n (gatherv_view h j) = g_n j" "rt_ticket (gatherv_view h j) = g_ticket j" "rt_root (gatherv_view h j) = g_root j"
  "rt_early (gatherv_view h j) r = (g_send j r, g_stype j r, g_scnt j r)" "rt_buf (gatherv_view h j) = g_recv j"
  "rt_type (gatherv_view h j) = g_rtype j" "rt_size (gatherv_view h j) = g_total j" "rt_cnt (gatherv_view h j) = 0"
  "rt_displs (gatherv_view h j) = Some (take (g_n j) (g_displs j))"
  "rt_src (gatherv_view h j) = gather_src h j" "rt_dst (gatherv_view h j) = gather_dst h j"
  by (simp_all add: gatherv_view_def)

lemma gather_okD:
  assumes "gather_ok h j"
  shows "vm_ok (h_writev h)" "vm_ok (h_readv h)" "g_root j < g_n j" "g_n j < 32768" "2 \<le> g_n j"
    "g_n j \<le> length (g_counts j)" "g_n j \<le> length (g_displs j)"
    "distinct (payload (Priv (g_root j), g_recv j) (g_rtype j) 0 (g_total j))"
    "g_recv j \<noteq> 0"
  using assms by (simp_all add: gather_ok_def parts_ok_def)

lemma gather_rank:
  assumes "gather_ok h j" "r < g_n j" "\<not> g_in_place h j r"
  shows "fills_part (Priv r, g_send j r) (g_stype j r) (g_scnt j r) (Priv (g_root j), g_recv j) (g_rtype j)
      (g_total j) (g_displs j ! r) (g_counts j ! r)"
    "gather_src h j r = payload (Priv r, g_send j r) (g_stype j r) 0 (g_scnt j r)"
    "gather_dst h j r = payload (Priv (g_root j), g_recv j) (g_rtype j) (g_displs j ! r) (g_counts j ! r)"
  using assms by (auto simp: gather_ok_def gather_src_def gather_dst_def)

lemma gather_dst_whole:
  assumes "gather_ok h j" "r < g_n j"
  shows "set (gather_dst h j r) \<subseteq> set (payload (Priv (g_root j), g_recv j) (g_rtype j) 0 (g_total j))"
  using assms part_subset unfolding gather_dst_def gather_ok_def parts_ok_def by auto

lemma gather_src_sep:
  assumes "gather_ok h j" "r < g_n j" "x < g_n j"
  shows "set (gather_src h j r) \<inter> set (gather_dst h j x) = {}"
proof (cases "g_in_place h j r")
  case False
  have "separate (gather_src h j r) (payload (Priv (g_root j), g_recv j) (g_rtype j) 0 (g_total j))"
    using gather_rank(1) [OF assms(1,2) False] unfolding gather_rank(2) [OF assms(1,2) False] by (simp add: fills_part_def)
  then show ?thesis using gather_dst_whole [OF assms(1,3)] by (auto simp: separate_def)
qed (simp add: gather_src_def)

lemma gather_dst_sep:
  assumes ok: "gather_ok h j" and r: "r < g_n j" "x < g_n j" "r \<noteq> x"
  shows "set (gather_dst h j r) \<inter> set (gather_dst h j x) = {}"
proof -
  let ?p = "\<lambda>r. set (payload (Priv (g_root j), g_recv j) (g_rtype j) (g_displs j ! r) (g_counts j ! r))"
  have p: "0 \<le> g_displs j ! r" "0 \<le> g_counts j ! r" "g_displs j ! r + g_counts j ! r \<le> g_total j"
    "0 \<le> g_displs j ! x" "0 \<le> g_counts j ! x" "g_displs j ! x + g_counts j ! x \<le> g_total j"
    "g_displs j ! r + g_counts j ! r \<le> g_displs j ! x \<or> g_displs j ! x + g_counts j ! x \<le> g_displs j ! r"
    using ok r unfolding gather_ok_def parts_ok_def by blast+
  have "?p r \<inter> ?p x = {}"
    using p(7)
  proof
    assume "g_displs j ! r + g_counts j ! r \<le> g_displs j ! x"
    from parts_apart [OF gather_okD(8) [OF ok] p(1,2) this p(5,6)] show ?thesis .
  next
    assume "g_displs j ! x + g_counts j ! x \<le> g_displs j ! r"
    from parts_apart [OF gather_okD(8) [OF ok] p(4,5) this p(2,3)] show ?thesis by blast
  qed
  then show ?thesis by (simp add: gather_dst_def)
qed

lemma gatherv_view_ok:
  assumes ok: "gather_ok h j" shows "rooted_ok (gatherv_view h j)"
proof -
  have "distinct (gather_dst h j r) \<and> length (gather_src h j r) = length (gather_dst h j r)" if r: "r < g_n j" for r
  proof (cases "g_in_place h j r")
    case False
    note k = gather_rank [OF ok r False]
    show ?thesis using fills_partD(13,14) [OF k(1)] unfolding k(2,3) by (simp add: separate_def)
  qed (simp add: gather_src_def gather_dst_def)
  then show ?thesis
    using gather_okD [OF ok] gather_src_sep [OF ok] gather_dst_sep [OF ok] unfolding rooted_ok_def by auto
qed

lemma gatherv_late_moves:
  assumes ok: "gather_ok h j" and r: "r < g_n j" "r \<noteq> g_root j" and ds: "displs_set (gatherv_view h j) ds"
    and k: "root_req (gatherv_view h j) w c busy" "1 \<le> busy" "busy < 32768"
  shows "transfers (gatherv_late h j r ds c w) w c (gather_src h j r) (gather_dst h j r)
    (\<lambda>w'. root_req (gatherv_view h j) w' c (busy - 1))"
proof -
  have np: "\<not> g_in_place h j r" using r by (simp add: g_in_place_def)
  note m = gather_rank [OF ok r(1) np]
  have "ds = take (g_n j) (g_displs j)" using ds by (simp add: displs_set_def)
  then have d: "ds ! r = g_displs j ! r" "\<not> length ds \<le> r" using r(1) gather_okD(7) [OF ok] by simp_all
  have rq: "request_is w c (g_root j) (g_recv j) (g_rtype j) (g_total j) 0 busy" using k(1) by (simp add: root_req_def)
  from write_fills [OF gather_okD(1) [OF ok] m(1) rq k(2,3)] fills_partD(7) [OF m(1)]
  show ?thesis unfolding m(2,3) gatherv_late_def d(1) root_req_def gatherv_view_sel using d(2) by simp
qed

lemma gatherv_serve_moves:
  assumes ok: "gather_ok h j" and r: "r < g_n j" "r \<noteq> g_root j" and k: "early_req (gatherv_view h j) w r c"
  shows "transfers (gatherv_serve h j c w) w c (gather_src h j r) (gather_dst h j r) (\<lambda>w'. finished w' c)"
proof -
  have np: "\<not> g_in_place h j r" using r by (simp add: g_in_place_def)
  note m = gather_rank [OF ok r(1) np]
  have rq: "request_is w c r (g_send j r) (g_stype j r) (g_scnt j r) (g_scnt j r) 1" using k by (simp add: early_req_def)
  from read_fills [OF gather_okD(2) [OF ok] m(1) rq] show ?thesis
    unfolding gatherv_serve_def request_isD(2) [OF rq] m(2,3) nat_int transfers_def using request_is_finished by fastforce
qed

interpretation gatherv: rooted_transfers "gather_ok h" "gatherv_view h" "gatherv_late h" "gatherv_serve h" for h
  by unfold_locales (simp_all add: gatherv_view_ok gatherv_late_moves gatherv_serve_moves)

text \<open>The two members, and the call of a rank.\<close>

lemma gatherv_member: "gatherv_request h u i (g_send j r) (g_scnt j r) (g_stype j r) root s =
    member_call (gatherv_late h j r) u i (g_send j r, g_stype j r, g_scnt j r) root s" if "u_rank u = r"
  using that
  by (simp add: gatherv_request_def member_call_def gatherv_late_def finish_with_def split: option.splits prod.splits)

lemma gatherv_root: "root_gatherv_request h u i (g_recv j) (g_counts j) (g_displs j) (g_rtype j) s =
    root_call (gatherv_serve h j) u i (g_recv j) (g_rtype j) (g_total j) 0 (upd_slot i (\<lambda>k. k\<lparr>k_displs := take (g_n j) (g_displs j)\<rparr>) s)"
  if "u_rank u = g_root j" "u_size u = int (g_n j)" "g_n j \<le> length (g_counts j)" "g_n j \<le> length (g_displs j)"
proof -
  have "(\<lambda>c w. read_from_owner (h_readv h) c (Priv (g_root j), g_recv j) (g_rtype j) (g_total j)
      (g_counts j ! nat (c_src (w_cookies w c))) (g_displs j ! nat (c_src (w_cookies w c))) 0 w) = gatherv_serve h j"
    by (simp add: fun_eq_iff gatherv_serve_def)
  then show ?thesis using that by (simp add: root_gatherv_request_def root_call_def g_total_def [symmetric] Let_def)
qed

lemma igatherv_member:
  assumes ok: "gather_ok h j" and sc: "same_call (g_n j) us (g_ticket j)" and r: "r < g_n j" "r \<noteq> g_root j"
    and sa: "slot_after (g_ticket j) n (cw_slots s (slot_of (g_ticket j)))"
  shows "igatherv_of h us j r s = returned (after_entry us (g_ticket j) r) (member_call (gatherv_late h j r)
    (after_entry us (g_ticket j) r) (slot_of (g_ticket j)) (g_send j r, g_stype j r, g_scnt j r) (int (g_root j))
    (entered (g_ticket j) n s))"
proof -
  have u: "u_rank (us r) = r" "u_size (us r) = int (g_n j)" using sc r(1) by (simp_all add: same_call_def)
  have "u_rank (after_entry us (g_ticket j) r) = r" using u by simp
  note m = gatherv_member [OF this]
  have "g_send j r = 0 \<longrightarrow> g_scnt j r = 0" "g_root j < g_n j" using ok r(1) by (auto simp: gather_ok_def)
  then show ?thesis
    using r u in_slot_enter [OF sc r(1) sa] by (auto simp: igatherv_of_def MPI_Igatherv_def returned_def m)
qed

text \<open>The root's copy of its own part, with \<open>f\<close> the write of the displacements.\<close>

lemma gather_prepares:
  assumes ok: "gather_ok h j" and v: "rt_root v = g_root j" "rt_ticket v = g_ticket j" "rt_src v = gather_src h j" "rt_dst v = gather_dst h j"
    and s1: "s1 = (if g_send j (g_root j) \<noteq> h_in_place h
      then copy_in h u (Priv (g_root j), g_send j (g_root j)) (g_stype j (g_root j)) (g_scnt j (g_root j)) 0
        (Priv (g_root j), g_recv j) (g_rtype j) (g_counts j ! g_root j) (g_displs j ! g_root j) (entered (g_ticket j) (length ds) s)
      else entered (g_ticket j) (length ds) s)"
  shows "same_boxes (cw_world s) (cw_world s1)" "w_cookies (cw_world s1) = w_cookies (cw_world s)"
    "w_mem (cw_world s1) = moved (w_mem (cw_world s)) (rt_src v (rt_root v)) (rt_dst v (rt_root v))"
    "cw_slots s1 = cw_slots (entered (g_ticket j) (length ds) s)"
proof -
  let ?e = "entered (g_ticket j) (length ds) s"
  have "s1 = set_world ((cw_world s)\<lparr>w_mem := moved (w_mem (cw_world s)) (gather_src h j (g_root j)) (gather_dst h j (g_root j))\<rparr>) ?e"
  proof (cases "g_send j (g_root j) = h_in_place h")
    case True
    then show ?thesis by (simp add: s1 gather_src_def gather_dst_def g_in_place_def moved_def set_world_def entered_def upd_slot_def)
  next
    case False
    then have np: "\<not> g_in_place h j (g_root j)" by (simp add: g_in_place_def)
    note m = gather_rank [OF ok gather_okD(3) [OF ok] np]
    show ?thesis using copy_in_fills [OF gather_okD(1) [OF ok] m(1), of u ?e] False unfolding m(2,3) s1 by simp
  qed
  then show "same_boxes (cw_world s) (cw_world s1)" "w_cookies (cw_world s1) = w_cookies (cw_world s)"
    "w_mem (cw_world s1) = moved (w_mem (cw_world s)) (rt_src v (rt_root v)) (rt_dst v (rt_root v))"
    "cw_slots s1 = cw_slots ?e"
    using v by (simp_all add: same_boxes_mem)
qed

lemma igatherv_root:
  assumes ok: "gather_ok h j" and sc: "same_call (g_n j) us (g_ticket j)"
    and sa: "slot_after (g_ticket j) (length ds) (cw_slots s (slot_of (g_ticket j)))"
  shows "\<exists>s1. root_prepares (gatherv_view h j) ds s s1 \<and>
    igatherv_of h us j (g_root j) s = returned (after_entry us (g_ticket j) (g_root j)) (root_call (gatherv_serve h j)
      (after_entry us (g_ticket j) (g_root j)) (slot_of (g_ticket j)) (g_recv j) (g_rtype j) (g_total j) 0 s1)"
proof -
  let ?r = "g_root j" and ?e = "entered (g_ticket j) (length ds) s" and ?U = "after_entry us (g_ticket j) (g_root j)"
  let ?i = "slot_of (g_ticket j)"
  note d = gather_okD [OF ok]
  have u: "u_rank (us ?r) = ?r" "u_size (us ?r) = int (g_n j)" using sc d(3) by (simp_all add: same_call_def)
  have "u_rank ?U = ?r" "u_size ?U = int (g_n j)" using u by simp_all
  note rc = gatherv_root [OF this d(6,7)]
  define s1 where "s1 = (if g_send j ?r \<noteq> h_in_place h
      then copy_in h ?U (Priv ?r, g_send j ?r) (g_stype j ?r) (g_scnt j ?r) 0
        (Priv ?r, g_recv j) (g_rtype j) (g_counts j ! ?r) (g_displs j ! ?r) ?e else ?e)"
  note p = gather_prepares [OF ok _ _ _ _ s1_def, of "gatherv_view h j", unfolded gatherv_view_sel, OF refl refl refl refl]
  have b: "same_bytes (g_scnt j ?r) (g_stype j ?r) (g_counts j ! ?r) (g_rtype j)" if "g_send j ?r \<noteq> h_in_place h"
    using that gather_rank(1) [OF ok d(3)] same_bytes_fills by (auto simp: g_in_place_def)
  have n: "g_send j ?r = 0 \<longrightarrow> g_scnt j ?r = 0" "?r < length (g_counts j)" "?r < length (g_displs j)"
    using ok d(3,6,7) by (auto simp: gather_ok_def)
  let ?s2 = "upd_slot ?i (\<lambda>k. k\<lparr>k_displs := take (g_n j) (g_displs j)\<rparr>) s1"
  have "igatherv_of h us j ?r s = returned ?U (root_call (gatherv_serve h j) ?U ?i (g_recv j) (g_rtype j) (g_total j) 0 ?s2)"
    using u n b d(3,9) in_slot_enter [OF sc d(3) sa] by (auto simp: igatherv_of_def MPI_Igatherv_def returned_def rc s1_def)
  moreover have "root_prepares (gatherv_view h j) ds s ?s2"
    unfolding root_prepares_def displs_set_def using p by (auto intro!: exI [of _ "take (g_n j) (g_displs j)"])
  ultimately show ?thesis by blast
qed

text \<open>C12: gatherv, whatever the order in which the ranks arrive. All \<open>n\<close> ranks call \<^verbatim>\<open>MPI_Igatherv\<close> on a
  free slot, each once, in any order; the displacements and counts of the root give parts that do not overlap
  and lie in the first \<open>recvcounts[0] + .. + recvcounts[n - 1]\<close> elements of its buffer, each rank sends
  as many bytes as its part has, with a type and count of its own, and the pool has room for \<open>n\<close> requests.
  Every call returns \<^verbatim>\<open>MPI_SUCCESS\<close> with a request. When the last rank has called, the data of
  rank \<open>r\<close> is at element \<open>displs[r]\<close> of the root's buffer (the root's too, unless it passed
  \<^verbatim>\<open>MPI_IN_PLACE\<close>), nothing outside these parts has changed, every request is completed without
  error, and the slot is free again.\<close>

theorem igatherv_all_orders:
  assumes "gather_ok h j" "same_call (g_n j) us (g_ticket j)"
    and "w_size (cw_world s) = g_n j" "box_inv (cw_world s) B" "slot_free (g_ticket j) s"
      "64 * g_n j \<le> unat (p_space (w_pool (cw_world s)))"
    and "distinct rs" "set rs = {..<g_n j}"
  shows "\<exists>s' q. calls_all (igatherv_of h us j) rs s = Ret (s', map (\<lambda>r. (MPI_SUCCESS, Some (q r))) rs) \<and>
    (\<forall>r < g_n j. (\<not> g_in_place h j r \<longrightarrow>
         map (w_mem (cw_world s')) (payload (Priv (g_root j), g_recv j) (g_rtype j) (g_displs j ! r) (g_counts j ! r)) =
         map (w_mem (cw_world s)) (payload (Priv r, g_send j r) (g_stype j r) 0 (g_scnt j r))) \<and>
       finished (cw_world s') (q r)) \<and>
    (\<forall>l. (\<forall>r < g_n j. l \<notin> set (gather_dst h j r)) \<longrightarrow> w_mem (cw_world s') l = w_mem (cw_world s) l) \<and>
    slot_free (g_ticket j) s' \<and> box_inv (cw_world s') B"
proof -
  note a = gatherv.all_orders [of h j us s B rs "igatherv_of h us j", unfolded gatherv_view_sel, OF assms]
  obtain s' q where r: "calls_all (igatherv_of h us j) rs s = Ret (s', map (\<lambda>r. (MPI_SUCCESS, Some (q r))) rs)"
    "\<forall>r < g_n j. map (w_mem (cw_world s')) (gather_dst h j r) = map (w_mem (cw_world s)) (gather_src h j r) \<and> finished (cw_world s') (q r)"
    "\<forall>l. (\<forall>r < g_n j. l \<notin> set (gather_dst h j r)) \<longrightarrow> w_mem (cw_world s') l = w_mem (cw_world s) l"
    "slot_free (g_ticket j) s'" "box_inv (cw_world s') B"
    using a [OF igatherv_member [OF assms(1,2)] igatherv_root [OF assms(1,2)]] by blast
  have "map (w_mem (cw_world s')) (payload (Priv (g_root j), g_recv j) (g_rtype j) (g_displs j ! r) (g_counts j ! r)) =
      map (w_mem (cw_world s)) (payload (Priv r, g_send j r) (g_stype j r) 0 (g_scnt j r))"
    if "r < g_n j" "\<not> g_in_place h j r" for r
  proof -
    have "map (w_mem (cw_world s')) (gather_dst h j r) = map (w_mem (cw_world s)) (gather_src h j r)" using r(2) that(1) by blast
    then show ?thesis using that(2) unfolding gather_src_def gather_dst_def by (simp only: if_False)
  qed
  then show ?thesis using r by (intro exI [of _ s'] exI [of _ q]) simp
qed

text \<open>Three ranks send one, two and one byte to rank 1, which has them in the order 1, 2, 0.\<close>

definition demo_gather :: gather_job where
  "demo_gather = \<lparr>g_n = 3, g_ticket = 0, g_root = 1, g_send = (\<lambda>r. 1000), g_scnt = (\<lambda>r. if r = 1 then 2 else 1),
     g_stype = (\<lambda>r. demo_byte), g_recv = 2000, g_counts = [1, 2, 1], g_displs = [3, 0, 2],
     g_rtype = demo_byte\<rparr>"

definition demo_sent :: mem where
  "demo_sent = (\<lambda>l. if l = (Priv 0, 1000) then 5 else if l = (Priv 1, 1000) then 6 else if l = (Priv 1, 1001) then 7
     else if l = (Priv 2, 1000) then 8 else 0)"

lemma demo_gather_ok: "gather_ok demo_host demo_gather"
proof -
  have r: "r < 3 \<longleftrightarrow> r = 0 \<or> r = 1 \<or> r = 2" for r :: nat by auto
  show ?thesis
    by (auto simp: gather_ok_def parts_ok_def demo_gather_def g_in_place_def g_total_def demo_host_def vm_ok_copy r demo_byte_payload
        demo_byte_whole fills_part_def separate_def distinct_map inj_on_def numeral_2_eq_2 bytes_of_def)
qed

lemma igatherv_all_orders_witness:
  "\<exists>s' out. calls_all (igatherv_of demo_host (demo_ranks 3) demo_gather) [2, 1, 0] (demo_cworld 3 demo_sent) = Ret (s', out) \<and>
    map (w_mem (cw_world s')) [(Priv 1, 2000), (Priv 1, 2001)] = [6, 7] \<and>
    map (w_mem (cw_world s')) [(Priv 1, 2002)] = [8] \<and> map (w_mem (cw_world s')) [(Priv 1, 2003)] = [5]"
proof -
  have j: "g_n demo_gather = 3" "g_ticket demo_gather = 0" "g_root demo_gather = 1" by (simp_all add: demo_gather_def)
  have np: "\<not> g_in_place demo_host demo_gather r" for r by (simp add: g_in_place_def demo_gather_def demo_host_def)
  note c = demo_cworld_start [of 3 demo_sent]
  have start: "w_size (cw_world (demo_cworld 3 demo_sent)) = g_n demo_gather" "slot_free (g_ticket demo_gather) (demo_cworld 3 demo_sent)"
    "64 * g_n demo_gather \<le> unat (p_space (w_pool (cw_world (demo_cworld 3 demo_sent))))"
    "same_call (g_n demo_gather) (demo_ranks 3) (g_ticket demo_gather)"
    "distinct [2, 1, 0 :: nat]" "set [2, 1, 0] = {..<g_n demo_gather}"
    unfolding j using c demo_ranks_call [of 3] by auto
  obtain s' q where r: "calls_all (igatherv_of demo_host (demo_ranks 3) demo_gather) [2, 1, 0] (demo_cworld 3 demo_sent) =
      Ret (s', map (\<lambda>r. (MPI_SUCCESS, Some (q r))) [2, 1, 0 :: nat])"
    "\<And>r. r < 3 \<Longrightarrow> map (w_mem (cw_world s')) (payload (Priv 1, g_recv demo_gather) (g_rtype demo_gather) (g_displs demo_gather ! r)
        (g_counts demo_gather ! r)) =
       map demo_sent (payload (Priv r, g_send demo_gather r) (g_stype demo_gather r) 0 (g_scnt demo_gather r))"
    using igatherv_all_orders [OF demo_gather_ok start(4,1) c(3) start(2,3,5,6)] np unfolding c(2) j by blast
  note d = demo_gather_def demo_byte_payload demo_sent_def upto.simps [of 0] upto.simps [of 1]
  have "map (w_mem (cw_world s')) [(Priv 1, 2000), (Priv 1, 2001)] = [6, 7]" using r(2) [of 1] by (simp add: d)
  moreover have "map (w_mem (cw_world s')) [(Priv 1, 2002)] = [8]" using r(2) [of 2] by (simp add: d)
  moreover have "map (w_mem (cw_world s')) [(Priv 1, 2003)] = [5]" using r(2) [of 0] by (simp add: d)
  ultimately show ?thesis using r(1) by (intro exI conjI)
qed

section \<open>Gather\<close>

text \<open>
  \<^verbatim>\<open>MPI_Igather\<close> with one element for every rank: the parts \<open>displs = [0, .., n - 1]\<close> of one element
  each. (With more, the root reads to the wrong elements, see \<open>root_gather_request\<close>.)
\<close>

definition igather_of :: "host \<Rightarrow> (nat \<Rightarrow> umpi) \<Rightarrow> gather_job \<Rightarrow> nat \<Rightarrow> cworld \<Rightarrow> call" where
  "igather_of h us j r = MPI_Igather h (Some (us r)) (g_send j r) (g_scnt j r) (Some (g_stype j r))
     (g_recv j) 1 (Some (g_rtype j)) (int (g_root j)) MPI_COMM_WORLD"

definition gather_one_ok :: "host \<Rightarrow> gather_job \<Rightarrow> bool" where
  "gather_one_ok h j \<longleftrightarrow> gather_ok h j \<and> g_counts j = replicate (g_n j) 1 \<and> g_displs j = map int [0..<g_n j]"

definition gather_view :: "host \<Rightarrow> gather_job \<Rightarrow> rooted" where
  "gather_view h j = (gatherv_view h j)\<lparr>rt_cnt := 1, rt_displs := None\<rparr>"

definition gather_late :: "host \<Rightarrow> gather_job \<Rightarrow> nat \<Rightarrow> int list \<Rightarrow> cid \<Rightarrow> world \<Rightarrow> (world \<times> int) outcome" where
  "gather_late h j r ds c w = write_to_owner (h_writev h) c (Priv r, g_send j r) (g_stype j r) (g_scnt j r)
     (c_count (w_cookies w c) * int r) 0 w"

definition gather_serve :: "host \<Rightarrow> gather_job \<Rightarrow> cid \<Rightarrow> world \<Rightarrow> (world \<times> int) outcome" where
  "gather_serve h j c w = read_from_owner (h_readv h) c (Priv (g_root j), g_recv j) (g_rtype j) (int (g_n j)) 1
     (c_src (w_cookies w c)) 0 w"

lemma gather_view_sel [simp]:
  "rt_n (gather_view h j) = g_n j" "rt_ticket (gather_view h j) = g_ticket j" "rt_root (gather_view h j) = g_root j"
  "rt_early (gather_view h j) r = (g_send j r, g_stype j r, g_scnt j r)" "rt_buf (gather_view h j) = g_recv j"
  "rt_type (gather_view h j) = g_rtype j" "rt_size (gather_view h j) = g_total j" "rt_cnt (gather_view h j) = 1"
  "rt_displs (gather_view h j) = None" "rt_src (gather_view h j) = gather_src h j" "rt_dst (gather_view h j) = gather_dst h j"
  by (simp_all add: gather_view_def)

lemma gather_one:
  assumes "gather_one_ok h j"
  shows "gather_ok h j" "g_total j = int (g_n j)" "r < g_n j \<Longrightarrow> g_counts j ! r = 1" "r < g_n j \<Longrightarrow> g_displs j ! r = int r"
  using assms by (simp_all add: gather_one_ok_def g_total_def sum_list_replicate)

lemma gather_view_ok: "gather_one_ok h j \<Longrightarrow> rooted_ok (gather_view h j)"
  using gatherv_view_ok [OF gather_one(1), of h j] by (simp add: rooted_ok_def)

lemma gather_late_moves:
  assumes ok: "gather_one_ok h j" and r: "r < g_n j" "r \<noteq> g_root j"
    and k: "root_req (gather_view h j) w c busy" "1 \<le> busy" "busy < 32768"
  shows "transfers (gather_late h j r ds c w) w c (gather_src h j r) (gather_dst h j r)
    (\<lambda>w'. root_req (gather_view h j) w' c (busy - 1))"
proof -
  have np: "\<not> g_in_place h j r" using r by (simp add: g_in_place_def)
  note g = gather_one(1) [OF ok] and one = gather_one(3,4) [OF ok r(1)]
  note m = gather_rank [OF g r(1) np]
  have rq: "request_is w c (g_root j) (g_recv j) (g_rtype j) (g_total j) 1 busy" using k(1) by (simp add: root_req_def)
  then have cnt: "c_count (w_cookies w c) * int r = int r" by (simp add: request_is_def Let_def)
  from write_fills [OF gather_okD(1) [OF g] m(1) rq k(2,3)] one(1)
  show ?thesis unfolding m(2,3) gather_late_def cnt one(2) root_req_def gather_view_sel by simp
qed

lemma gather_serve_moves:
  assumes ok: "gather_one_ok h j" and r: "r < g_n j" "r \<noteq> g_root j" and k: "early_req (gather_view h j) w r c"
  shows "transfers (gather_serve h j c w) w c (gather_src h j r) (gather_dst h j r) (\<lambda>w'. finished w' c)"
proof -
  have np: "\<not> g_in_place h j r" using r by (simp add: g_in_place_def)
  note g = gather_one(1) [OF ok] and one = gather_one(3,4) [OF ok r(1)] gather_one(2) [OF ok]
  note m = gather_rank [OF g r(1) np]
  have rq: "request_is w c r (g_send j r) (g_stype j r) (g_scnt j r) (g_scnt j r) 1" using k by (simp add: early_req_def)
  from read_fills [OF gather_okD(2) [OF g] m(1) rq] show ?thesis
    unfolding gather_serve_def request_isD(2) [OF rq] m(2,3) one transfers_def using request_is_finished by fastforce
qed

interpretation gather: rooted_transfers "gather_one_ok h" "gather_view h" "gather_late h" "gather_serve h" for h
  by unfold_locales (simp_all add: gather_view_ok gather_late_moves gather_serve_moves)

lemma gather_member: "gather_request h u i (g_send j r) (g_scnt j r) (g_stype j r) root s =
    member_call (gather_late h j r) u i (g_send j r, g_stype j r, g_scnt j r) root s" if "u_rank u = r"
  using that by (simp add: gather_request_def member_call_def gather_late_def cookie_at_def split: option.splits prod.splits)

lemma gather_root: "root_gather_request h u i (g_recv j) 1 (g_rtype j) s =
    root_call (gather_serve h j) u i (g_recv j) (g_rtype j) (g_total j) 1 s"
  if "u_rank u = g_root j" "u_size u = int (g_n j)" "g_total j = int (g_n j)"
proof -
  have "(\<lambda>c w. read_from_owner (h_readv h) c (Priv (g_root j), g_recv j) (g_rtype j) (int (g_n j)) 1 (c_src (w_cookies w c)) 0 w) =
      gather_serve h j"
    by (simp add: fun_eq_iff gather_serve_def)
  then show ?thesis using that by (simp add: root_gather_request_def root_call_def)
qed

lemma igather_member:
  assumes ok: "gather_one_ok h j" and sc: "same_call (g_n j) us (g_ticket j)" and r: "r < g_n j" "r \<noteq> g_root j"
    and sa: "slot_after (g_ticket j) n (cw_slots s (slot_of (g_ticket j)))"
  shows "igather_of h us j r s = returned (after_entry us (g_ticket j) r) (member_call (gather_late h j r)
    (after_entry us (g_ticket j) r) (slot_of (g_ticket j)) (g_send j r, g_stype j r, g_scnt j r) (int (g_root j))
    (entered (g_ticket j) n s))"
proof -
  have u: "u_rank (us r) = r" "u_size (us r) = int (g_n j)" using sc r(1) by (simp_all add: same_call_def)
  have "u_rank (after_entry us (g_ticket j) r) = r" using u by simp
  note m = gather_member [OF this]
  have "g_send j r = 0 \<longrightarrow> g_scnt j r = 0" "g_root j < g_n j" using gather_one(1) [OF ok] r(1) by (auto simp: gather_ok_def)
  then show ?thesis
    using r u in_slot_enter [OF sc r(1) sa] by (auto simp: igather_of_def MPI_Igather_def returned_def m)
qed

lemma igather_root:
  assumes ok: "gather_one_ok h j" and sc: "same_call (g_n j) us (g_ticket j)"
    and sa: "slot_after (g_ticket j) (length ds) (cw_slots s (slot_of (g_ticket j)))"
  shows "\<exists>s1. root_prepares (gather_view h j) ds s s1 \<and>
    igather_of h us j (g_root j) s = returned (after_entry us (g_ticket j) (g_root j)) (root_call (gather_serve h j)
      (after_entry us (g_ticket j) (g_root j)) (slot_of (g_ticket j)) (g_recv j) (g_rtype j) (g_total j) 1 s1)"
proof -
  let ?r = "g_root j" and ?e = "entered (g_ticket j) (length ds) s" and ?U = "after_entry us (g_ticket j) (g_root j)"
  note g = gather_one(1) [OF ok]
  note d = gather_okD [OF g] and one = gather_one(3,4) [OF ok gather_okD(3) [OF g]]
  have u: "u_rank (us ?r) = ?r" "u_size (us ?r) = int (g_n j)" using sc d(3) by (simp_all add: same_call_def)
  have "u_rank ?U = ?r" "u_size ?U = int (g_n j)" using u by simp_all
  note rc = gather_root [OF this gather_one(2) [OF ok]]
  define s1 where "s1 = (if g_send j ?r \<noteq> h_in_place h
      then copy_in h ?U (Priv ?r, g_send j ?r) (g_stype j ?r) (g_scnt j ?r) 0
        (Priv ?r, g_recv j) (g_rtype j) (g_counts j ! ?r) (g_displs j ! ?r) ?e else ?e)"
  note p = gather_prepares [OF g _ _ _ _ s1_def, of "gather_view h j", unfolded gather_view_sel, OF refl refl refl refl]
  have b: "same_bytes (g_scnt j ?r) (g_stype j ?r) 1 (g_rtype j)" if "g_send j ?r \<noteq> h_in_place h"
    using that gather_rank(1) [OF g d(3)] same_bytes_fills [of _ _ _ _ _ _ _ "1"] one(1) by (auto simp: g_in_place_def)
  have n: "g_send j ?r = 0 \<longrightarrow> g_scnt j ?r = 0" using g d(3) by (auto simp: gather_ok_def)
  have "igather_of h us j ?r s = returned ?U (root_call (gather_serve h j) ?U (slot_of (g_ticket j)) (g_recv j) (g_rtype j) (g_total j) 1 s1)"
    using u n b d(3,9) in_slot_enter [OF sc d(3) sa] one by (auto simp: igather_of_def MPI_Igather_def returned_def rc s1_def)
  moreover have "root_prepares (gather_view h j) ds s s1" using p by (intro root_prepares_plain) simp_all
  ultimately show ?thesis by blast
qed

text \<open>gather, whatever the order in which the ranks arrive, with \<^verbatim>\<open>recvcount\<close> 1. All \<open>n\<close> ranks call
  \<^verbatim>\<open>MPI_Igather\<close> on a free slot, each once, in any order, each with as many bytes as one element of the
  root's has, with a type and count of its own; the pool has room for \<open>n\<close> requests. Every call returns
  \<^verbatim>\<open>MPI_SUCCESS\<close> with a request. When the last rank has called, element \<open>r\<close> of the root's buffer holds
  the data of rank \<open>r\<close>, nothing else has changed, every request is completed without error, and the
  slot is free again. With a larger \<^verbatim>\<open>recvcount\<close> this is not so: the root reads the ranks before it to
  element \<open>r\<close> and the ranks after it write to element \<open>r * recvcount\<close>.\<close>

theorem igather_all_orders:
  assumes "gather_one_ok h j" "same_call (g_n j) us (g_ticket j)"
    and "w_size (cw_world s) = g_n j" "box_inv (cw_world s) B" "slot_free (g_ticket j) s"
      "64 * g_n j \<le> unat (p_space (w_pool (cw_world s)))"
    and "distinct rs" "set rs = {..<g_n j}"
  shows "\<exists>s' q. calls_all (igather_of h us j) rs s = Ret (s', map (\<lambda>r. (MPI_SUCCESS, Some (q r))) rs) \<and>
    (\<forall>r < g_n j. (\<not> g_in_place h j r \<longrightarrow>
         map (w_mem (cw_world s')) (payload (Priv (g_root j), g_recv j) (g_rtype j) (int r) 1) =
         map (w_mem (cw_world s)) (payload (Priv r, g_send j r) (g_stype j r) 0 (g_scnt j r))) \<and>
       finished (cw_world s') (q r)) \<and>
    (\<forall>l. (\<forall>r < g_n j. l \<notin> set (gather_dst h j r)) \<longrightarrow> w_mem (cw_world s') l = w_mem (cw_world s) l) \<and>
    slot_free (g_ticket j) s' \<and> box_inv (cw_world s') B"
proof -
  note a = gather.all_orders [of h j us s B rs "igather_of h us j", unfolded gather_view_sel, OF assms]
  obtain s' q where r: "calls_all (igather_of h us j) rs s = Ret (s', map (\<lambda>r. (MPI_SUCCESS, Some (q r))) rs)"
    "\<forall>r < g_n j. map (w_mem (cw_world s')) (gather_dst h j r) = map (w_mem (cw_world s)) (gather_src h j r) \<and> finished (cw_world s') (q r)"
    "\<forall>l. (\<forall>r < g_n j. l \<notin> set (gather_dst h j r)) \<longrightarrow> w_mem (cw_world s') l = w_mem (cw_world s) l"
    "slot_free (g_ticket j) s'" "box_inv (cw_world s') B"
    using a [OF igather_member [OF assms(1,2)] igather_root [OF assms(1,2)]] by blast
  have "map (w_mem (cw_world s')) (payload (Priv (g_root j), g_recv j) (g_rtype j) (int r) 1) =
      map (w_mem (cw_world s)) (payload (Priv r, g_send j r) (g_stype j r) 0 (g_scnt j r))"
    if l: "r < g_n j" "\<not> g_in_place h j r" for r
  proof -
    have "map (w_mem (cw_world s')) (gather_dst h j r) = map (w_mem (cw_world s)) (gather_src h j r)" using r(2) l(1) by blast
    then show ?thesis
      using l(2) unfolding gather_src_def gather_dst_def gather_one(3,4) [OF assms(1) l(1)] by (simp only: if_False)
  qed
  then show ?thesis using r by (intro exI [of _ s'] exI [of _ q]) simp
qed

definition demo_one :: gather_job where
  "demo_one = demo_gather\<lparr>g_scnt := (\<lambda>r. 1), g_counts := [1, 1, 1], g_displs := [0, 1, 2]\<rparr>"

lemma demo_one_ok: "gather_one_ok demo_host demo_one"
proof -
  have r: "r < 3 \<longleftrightarrow> r = 0 \<or> r = 1 \<or> r = 2" for r :: nat by auto
  have "gather_ok demo_host demo_one"
    by (auto simp: gather_ok_def parts_ok_def demo_one_def demo_gather_def g_in_place_def g_total_def demo_host_def vm_ok_copy r
        demo_byte_payload demo_byte_whole fills_part_def separate_def distinct_map inj_on_def numeral_2_eq_2 bytes_of_def)
  then show ?thesis by (simp add: gather_one_ok_def demo_one_def demo_gather_def numeral_3_eq_3)
qed

lemma igather_all_orders_witness:
  "\<exists>s' out. calls_all (igather_of demo_host (demo_ranks 3) demo_one) [2, 1, 0] (demo_cworld 3 demo_sent) = Ret (s', out) \<and>
    map (w_mem (cw_world s')) [(Priv 1, 2000)] = [5] \<and> map (w_mem (cw_world s')) [(Priv 1, 2002)] = [8]"
proof -
  have j: "g_n demo_one = 3" "g_ticket demo_one = 0" "g_root demo_one = 1" by (simp_all add: demo_one_def demo_gather_def)
  have np: "\<not> g_in_place demo_host demo_one r" for r by (simp add: g_in_place_def demo_one_def demo_gather_def demo_host_def)
  note c = demo_cworld_start [of 3 demo_sent]
  have start: "w_size (cw_world (demo_cworld 3 demo_sent)) = g_n demo_one" "slot_free (g_ticket demo_one) (demo_cworld 3 demo_sent)"
    "64 * g_n demo_one \<le> unat (p_space (w_pool (cw_world (demo_cworld 3 demo_sent))))"
    "same_call (g_n demo_one) (demo_ranks 3) (g_ticket demo_one)"
    "distinct [2, 1, 0 :: nat]" "set [2, 1, 0] = {..<g_n demo_one}"
    unfolding j using c demo_ranks_call [of 3] by auto
  obtain s' q where r: "calls_all (igather_of demo_host (demo_ranks 3) demo_one) [2, 1, 0] (demo_cworld 3 demo_sent) =
      Ret (s', map (\<lambda>r. (MPI_SUCCESS, Some (q r))) [2, 1, 0 :: nat])"
    "\<And>r. r < 3 \<Longrightarrow> map (w_mem (cw_world s')) (payload (Priv 1, g_recv demo_one) (g_rtype demo_one) (int r) 1) =
       map demo_sent (payload (Priv r, g_send demo_one r) (g_stype demo_one r) 0 (g_scnt demo_one r))"
    using igather_all_orders [OF demo_one_ok start(4,1) c(3) start(2,3,5,6)] np unfolding c(2) j by blast
  note d = demo_one_def demo_gather_def demo_byte_payload demo_sent_def upto.simps [of 0]
  have "map (w_mem (cw_world s')) [(Priv 1, 2000)] = [5]" using r(2) [of 0] by (simp add: d)
  moreover have "map (w_mem (cw_world s')) [(Priv 1, 2002)] = [8]" using r(2) [of 2] by (simp add: d)
  ultimately show ?thesis using r(1) by (intro exI conjI)
qed

end
