(* ===== verification/Allgather.thy ===== *)
theory Allgather
  imports Rooted
begin

text \<open>
  \<^verbatim>\<open>MPI_Iallgather\<close> called by all ranks in any order of arrival. The first rank leaves a request for
  its receive buffer; the others write their data there; the last one reads the whole and writes it to
  the ranks in between.
\<close>

section \<open>The calls of all ranks\<close>

record allgather_job =
  ag_n :: nat
  ag_ticket :: "32 word"
  ag_send :: "nat \<Rightarrow> int"
  ag_scnt :: "nat \<Rightarrow> int"
  ag_stype :: "nat \<Rightarrow> iovecs"
  ag_recv :: "nat \<Rightarrow> int"
  ag_rcnt :: "nat \<Rightarrow> int"
  ag_rtype :: "nat \<Rightarrow> iovecs"

definition iallgather_of :: "host \<Rightarrow> (nat \<Rightarrow> umpi) \<Rightarrow> allgather_job \<Rightarrow> nat \<Rightarrow> cworld \<Rightarrow> call" where
  "iallgather_of h us j r = MPI_Iallgather h (Some (us r)) (ag_send j r) (ag_scnt j r) (Some (ag_stype j r))
     (ag_recv j r) (ag_rcnt j r) (Some (ag_rtype j r)) MPI_COMM_WORLD"

definition ag_in_place :: "host \<Rightarrow> allgather_job \<Rightarrow> nat \<Rightarrow> bool" where
  "ag_in_place h j r \<longleftrightarrow> ag_send j r = h_in_place h"

abbreviation ag_size :: "allgather_job \<Rightarrow> nat \<Rightarrow> int" where
  "ag_size j r \<equiv> ag_rcnt j r * int (ag_n j)"

definition ag_whole :: "allgather_job \<Rightarrow> nat \<Rightarrow> loc list" where
  "ag_whole j r = payload (Priv r, ag_recv j r) (ag_rtype j r) 0 (ag_size j r)"

text \<open>The part of rank \<open>x\<close> in the receive buffer of rank \<open>r\<close>, and the data of rank \<open>r\<close>.\<close>

definition ag_part :: "allgather_job \<Rightarrow> nat \<Rightarrow> nat \<Rightarrow> loc list" where
  "ag_part j r x = payload (Priv r, ag_recv j r) (ag_rtype j r) (ag_rcnt j r * int x) (ag_rcnt j r)"

definition ag_src :: "host \<Rightarrow> allgather_job \<Rightarrow> nat \<Rightarrow> loc list" where
  "ag_src h j r = (if ag_in_place h j r then ag_part j r r else payload (Priv r, ag_send j r) (ag_stype j r) 0 (ag_scnt j r))"

text \<open>The number of bytes of a rank's data, the same for all.\<close>

definition ag_bytes :: "allgather_job \<Rightarrow> nat" where
  "ag_bytes j = bytes_of (ag_rtype j 0) (ag_rcnt j 0)"

definition ag_ok :: "host \<Rightarrow> allgather_job \<Rightarrow> bool" where
  "ag_ok h j \<longleftrightarrow> vm_ok (h_writev h) \<and> vm_ok (h_readv h) \<and> 2 \<le> ag_n j \<and> ag_n j < 32768 \<and>
     (\<forall>r < ag_n j. whole_buf (ag_rtype j r) (ag_size j r) \<and> 0 \<le> ag_rcnt j r \<and> distinct (ag_whole j r) \<and>
        bytes_of (ag_rtype j r) (ag_rcnt j r) = ag_bytes j \<and>
        (ag_send j r = 0 \<longrightarrow> ag_scnt j r = 0) \<and> (ag_recv j r = 0 \<longrightarrow> ag_rcnt j r = 0) \<and>
        (ag_in_place h j r \<or>
          whole_buf (ag_stype j r) (ag_scnt j r) \<and> bytes_of (ag_stype j r) (ag_scnt j r) = bytes_of (ag_rtype j r) (ag_rcnt j r) \<and>
          set (payload (Priv r, ag_send j r) (ag_stype j r) 0 (ag_scnt j r)) \<inter> set (ag_whole j r) = {}))"

lemma ag_okD:
  assumes "ag_ok h j"
  shows "vm_ok (h_writev h)" "vm_ok (h_readv h)" "2 \<le> ag_n j" "ag_n j < 32768"
  using assms by (simp_all add: ag_ok_def)

lemma ag_rank:
  assumes "ag_ok h j" "r < ag_n j"
  shows "typed_buf (ag_rtype j r) 0 (ag_size j r)" "iov_len (ag_rtype j r) \<noteq> 0" "0 \<le> ag_rcnt j r" "distinct (ag_whole j r)"
    "ag_size j r < 2 ^ 31" "0 \<le> ag_size j r" "ag_rcnt j r \<le> ag_size j r" "ag_rcnt j r < 2 ^ 31"
    "bytes_of (ag_rtype j r) (ag_rcnt j r) = ag_bytes j"
proof -
  show b: "typed_buf (ag_rtype j r) 0 (ag_size j r)" "iov_len (ag_rtype j r) \<noteq> 0" "0 \<le> ag_rcnt j r" "distinct (ag_whole j r)"
    "ag_size j r < 2 ^ 31" "bytes_of (ag_rtype j r) (ag_rcnt j r) = ag_bytes j"
    using assms by (simp_all add: ag_ok_def whole_buf_def)
  have "ag_rcnt j r * 1 \<le> ag_size j r" using ag_okD(3) [OF assms(1)] b(3) by (intro mult_left_mono) simp_all
  then show "ag_rcnt j r \<le> ag_size j r" "ag_rcnt j r < 2 ^ 31" "0 \<le> ag_size j r" using b(3,5) by simp_all
qed

lemma ag_part_range:
  assumes "ag_ok h j" "r < ag_n j" "x < ag_n j"
  shows "0 \<le> ag_rcnt j r * int x" "ag_rcnt j r * int x + ag_rcnt j r \<le> ag_size j r"
    "typed_buf (ag_rtype j r) (ag_rcnt j r * int x) (ag_rcnt j r)"
    "set (ag_part j r x) \<subseteq> set (ag_whole j r)" "distinct (ag_part j r x)"
    "length (ag_part j r x) = ag_bytes j"
proof -
  note d = ag_rank [OF assms(1,2)]
  show i: "0 \<le> ag_rcnt j r * int x" using d(3) by simp
  have "ag_rcnt j r * (int x + 1) \<le> ag_size j r" using d(3) assms(3) by (intro mult_left_mono) simp_all
  then show le: "ag_rcnt j r * int x + ag_rcnt j r \<le> ag_size j r" by (simp add: distrib_left)
  show t: "typed_buf (ag_rtype j r) (ag_rcnt j r * int x) (ag_rcnt j r)" by (rule typed_buf_part [OF d(1) i d(3) le])
  show "set (ag_part j r x) \<subseteq> set (ag_whole j r)" "distinct (ag_part j r x)"
    using part_subset [OF i d(3) le] part_distinct [OF _ i d(3) le] d(4) unfolding ag_part_def ag_whole_def by auto
  show "length (ag_part j r x) = ag_bytes j"
    using typed_bufD(1,3) [OF t] d(9) by (simp add: ag_part_def length_payload_bytes)
qed

lemma ag_parts_apart:
  assumes ok: "ag_ok h j" and r: "r < ag_n j" "x < ag_n j" "y < ag_n j" "x \<noteq> y"
  shows "set (ag_part j r x) \<inter> set (ag_part j r y) = {}"
proof -
  have lt: "set (ag_part j r x) \<inter> set (ag_part j r y) = {}" if "x < y" "x < ag_n j" "y < ag_n j" for x y
  proof -
    note x = ag_part_range [OF ok r(1) that(2)] and y = ag_part_range [OF ok r(1) that(3)] and d = ag_rank [OF ok r(1)]
    have "ag_rcnt j r * (int x + 1) \<le> ag_rcnt j r * int y" using d(3) that(1) by (intro mult_left_mono) simp_all
    then have "ag_rcnt j r * int x + ag_rcnt j r \<le> ag_rcnt j r * int y" by (simp add: distrib_left)
    from parts_apart [OF d(4) [unfolded ag_whole_def] x(1) d(3) this d(3) y(2)] show ?thesis unfolding ag_part_def .
  qed
  show ?thesis
  proof (cases "x < y")
    case False
    then show ?thesis using lt [of y x] r by auto
  qed (rule lt [OF _ r(2,3)])
qed

lemma payload_parts: "0 \<le> k \<Longrightarrow> payload b xs 0 (k * int n) = concat (map (\<lambda>x. payload b xs (k * int x) k) [0..<n])"
proof (induction n)
  case (Suc n)
  have "k * int n \<le> k * int (Suc n)" using Suc.prems by (intro mult_left_mono) simp_all
  then have "payload b xs 0 (k * int (Suc n)) = payload b xs 0 (k * int n) @ payload b xs (k * int n) k"
    using payload_rest [of "k * int n" "k * int (Suc n)" b xs 0] Suc.prems by (simp add: distrib_left)
  then show ?case using Suc by simp
qed simp

lemma ag_whole_parts: "ag_ok h j \<Longrightarrow> r < ag_n j \<Longrightarrow> ag_whole j r = concat (map (ag_part j r) [0..<ag_n j])"
  using payload_parts [of "ag_rcnt j r"] ag_rank(3) by (simp add: ag_whole_def ag_part_def [abs_def])

lemma ag_src_rank:
  assumes "ag_ok h j" "r < ag_n j"
  shows "\<not> ag_in_place h j r \<Longrightarrow> whole_buf (ag_stype j r) (ag_scnt j r)"
    "\<not> ag_in_place h j r \<Longrightarrow> bytes_of (ag_stype j r) (ag_scnt j r) = bytes_of (ag_rtype j r) (ag_rcnt j r)"
    "\<not> ag_in_place h j r \<Longrightarrow> set (ag_src h j r) \<inter> set (ag_whole j r) = {}"
    "l \<in> set (ag_src h j r) \<Longrightarrow> fst l = Priv r" "length (ag_src h j r) = ag_bytes j"
proof -
  show n: "whole_buf (ag_stype j r) (ag_scnt j r)" "bytes_of (ag_stype j r) (ag_scnt j r) = bytes_of (ag_rtype j r) (ag_rcnt j r)"
    "set (ag_src h j r) \<inter> set (ag_whole j r) = {}" if "\<not> ag_in_place h j r"
    using assms that by (auto simp: ag_ok_def ag_src_def)
  show "l \<in> set (ag_src h j r) \<Longrightarrow> fst l = Priv r" by (auto simp: ag_src_def ag_part_def dest!: payload_space split: if_splits)
  show "length (ag_src h j r) = ag_bytes j"
  proof (cases "ag_in_place h j r")
    case True
    then show ?thesis using ag_part_range(6) [OF assms(1,2,2)] by (simp add: ag_src_def)
  next
    case False
    then show ?thesis using n [OF False] ag_rank(9) [OF assms]
      by (simp add: ag_src_def length_payload_bytes whole_buf_def typed_buf_def)
  qed
qed

lemma ag_whole_space: "l \<in> set (ag_whole j r) \<Longrightarrow> fst l = Priv r"
  by (auto simp: ag_whole_def dest!: payload_space)

section \<open>The transfers\<close>

abbreviation ag_req :: "allgather_job \<Rightarrow> world \<Rightarrow> nat \<Rightarrow> cid \<Rightarrow> int \<Rightarrow> bool" where
  "ag_req j w r c \<equiv> request_is w c r (ag_recv j r) (ag_rtype j r) (ag_size j r) (ag_rcnt j r)"

lemma ag_whole_facts:
  assumes "ag_ok h j" "r < ag_n j"
  shows "bytes_of (ag_rtype j r) (ag_size j r) = ag_n j * ag_bytes j" "length (ag_whole j r) = ag_n j * ag_bytes j"
proof -
  note d = ag_rank [OF assms]
  show b: "bytes_of (ag_rtype j r) (ag_size j r) = ag_n j * ag_bytes j"
    unfolding d(9) [symmetric] bytes_of_def using d(3) by (simp add: nat_mult_distrib)
  show "length (ag_whole j r) = ag_n j * ag_bytes j"
    using typed_bufD(1,3) [OF d(1)] b by (simp add: ag_whole_def length_payload_bytes)
qed

lemma ag_separate:
  assumes ok: "ag_ok h j" and r: "r < ag_n j" "f < ag_n j" "r \<noteq> f"
  shows "separate (ag_src h j r) (ag_part j f r)" "separate (ag_whole j f) (ag_whole j r)"
proof -
  have sp: "l \<notin> set (ag_whole j f)" if "fst l = Priv r" for l using that ag_whole_space [of l j f] r(3) by auto
  then show "separate (ag_src h j r) (ag_part j f r)"
    using ag_part_range(4,5) [OF ok r(2,1)] ag_src_rank(4) [OF ok r(1)] unfolding separate_def by blast
  show "separate (ag_whole j f) (ag_whole j r)"
    using sp ag_rank(4) [OF ok r(1)] ag_whole_space [of _ j r] unfolding separate_def by blast
qed

lemma ag_write:
  assumes ok: "ag_ok h j" and r: "r < ag_n j" "f < ag_n j" "r \<noteq> f"
    and rq: "ag_req j w f c busy" "1 \<le> busy" "busy < 32768"
  shows "transfers (if ag_in_place h j r
      then write_to_owner (h_writev h) c (Priv r, ag_recv j r) (ag_rtype j r) (ag_rcnt j r) (ag_rcnt j f * int r) (ag_rcnt j r * int r) w
      else write_to_owner (h_writev h) c (Priv r, ag_send j r) (ag_stype j r) (ag_scnt j r) (ag_rcnt j f * int r) 0 w)
    w c (ag_src h j r) (ag_part j f r) (\<lambda>w'. ag_req j w' f c (busy - 1))"
proof -
  note d = ag_rank [OF ok r(2)] and p = ag_part_range [OF ok r(2,1)] and own = ag_part_range [OF ok r(1,1)]
  let ?a = "ag_rcnt j f * int r"
  have le: "0 \<le> ag_size j f - ?a" "?a + (ag_size j f - ?a) \<le> ag_size j f" using p(1,2) d(3) by linarith+
  have o': "typed_buf (ag_rtype j f) ?a (ag_size j f - ?a)" by (rule typed_buf_part [OF d(1) p(1) le])
  have dist: "distinct (payload (Priv f, ag_recv j f) (ag_rtype j f) ?a (ag_size j f - ?a))"
    using part_distinct [OF _ p(1) le] d(4) unfolding ag_whole_def .
  have sep: "separate (payload (Priv r, b) ty k n) (payload (Priv f, ag_recv j f) (ag_rtype j f) ?a (ag_size j f - ?a))" for b ty k n
    using dist r(3) by (auto simp: separate_def dest!: payload_space)
  show ?thesis
  proof (cases "ag_in_place h j r")
    case True
    have "bytes_of (ag_rtype j r) (ag_rcnt j r) = bytes_of (ag_rtype j f) (ag_rcnt j f)"
      using ag_rank(9) [OF ok r(1)] d(9) by simp
    from write_part [OF ag_okD(1) [OF ok] rq own(3) o' d(2) this d(3) p(2) d(3) order_refl d(7,8) sep] True
    show ?thesis by (simp add: ag_src_def ag_part_def)
  next
    case False
    note n = ag_src_rank(1,2) [OF ok r(1) False]
    have "typed_buf (ag_stype j r) 0 (ag_scnt j r)" "bytes_of (ag_stype j r) (ag_scnt j r) = bytes_of (ag_rtype j f) (ag_rcnt j f)"
      using n ag_rank(9) [OF ok r(1)] d(9) by (simp_all add: whole_buf_def)
    from write_part [OF ag_okD(1) [OF ok] rq this(1) o' d(2) this(2) d(3) p(2) d(3) order_refl d(7,8) sep] False
    show ?thesis by (simp add: ag_src_def ag_part_def)
  qed
qed

lemma ag_read:
  assumes ok: "ag_ok h j" and r: "r < ag_n j" "f < ag_n j" "r \<noteq> f"
    and rq: "ag_req j w f c busy" "1 \<le> busy" "busy < 32768"
  shows "transfers (read_from_owner (h_readv h) c (Priv r, ag_recv j r) (ag_rtype j r) (ag_size j r) (ag_size j r) 0 0 w)
    w c (ag_whole j f) (ag_whole j r) (\<lambda>w'. ag_req j w' f c (busy - 1))"
proof -
  note d = ag_rank [OF ok r(1)] and e = ag_rank [OF ok r(2)]
  have t: "typed_buf (ag_rtype j r) 0 (ag_size j r - 0)" "typed_buf (ag_rtype j f) 0 (ag_size j f - 0)"
    "0 + ag_size j r \<le> ag_size j r" "0 + ag_size j f \<le> ag_size j f"
    using d(1) e(1) by simp_all
  have b: "bytes_of (ag_rtype j r) (ag_size j r) = bytes_of (ag_rtype j f) (ag_size j f)"
    using ag_whole_facts(1) [OF ok] r by simp
  then have zero: "ag_size j r \<noteq> 0 \<or> bytes_of (ag_rtype j f) (ag_size j f - 0) = 0"
    by (cases "ag_size j r = 0") (simp_all add: bytes_of_def del: mult_eq_0_iff)
  have "separate (payload (Priv f, ag_recv j f) (ag_rtype j f) 0 (ag_size j f - 0)) (payload (Priv r, ag_recv j r) (ag_rtype j r) 0 (ag_size j r))"
    using ag_separate(2) [OF ok r] by (simp add: ag_whole_def)
  from read_part [OF ag_okD(2) [OF ok] rq t(1) d(2) d(6) t(3) d(5) t(2) e(2) b e(6) t(4) zero this]
  show ?thesis unfolding ag_whole_def .
qed

lemma ag_spread:
  assumes ok: "ag_ok h j" and r: "r < ag_n j" "x < ag_n j" "r \<noteq> x"
    and rq: "ag_req j w x c busy" "1 \<le> busy" "busy < 32768"
  shows "transfers (write_to_owner (h_writev h) c (Priv r, ag_recv j r) (ag_rtype j r) (ag_size j r) 0 0 w)
    w c (ag_whole j r) (ag_whole j x) (\<lambda>w'. ag_req j w' x c (busy - 1))"
proof -
  note d = ag_rank [OF ok r(1)] and e = ag_rank [OF ok r(2)]
  have t: "typed_buf (ag_rtype j x) 0 (ag_size j x - 0)" "0 + ag_size j x \<le> ag_size j x" using e(1) by simp_all
  have b: "bytes_of (ag_rtype j r) (ag_size j r) = bytes_of (ag_rtype j x) (ag_size j x)"
    using ag_whole_facts(1) [OF ok] r by simp
  have "separate (payload (Priv r, ag_recv j r) (ag_rtype j r) 0 (ag_size j r)) (payload (Priv x, ag_recv j x) (ag_rtype j x) 0 (ag_size j x - 0))"
    using ag_separate(2) [OF ok r(2,1) r(3) [symmetric]] by (simp add: ag_whole_def)
  from write_part [OF ag_okD(1) [OF ok] rq d(1) t(1) e(2) b e(6) t(2) e(3,7,7,8) this]
  show ?thesis unfolding ag_whole_def .
qed

section \<open>Memory between two calls\<close>

text \<open>The data of the ranks \<open>ds\<close> are in their parts of the first rank's buffer.\<close>

definition ag_gathered :: "host \<Rightarrow> allgather_job \<Rightarrow> mem \<Rightarrow> nat \<Rightarrow> nat list \<Rightarrow> mem \<Rightarrow> bool" where
  "ag_gathered h j m0 f ds m \<longleftrightarrow> (\<forall>x \<in> set ds. map m (ag_part j f x) = map m0 (ag_src h j x)) \<and>
     (\<forall>l. (\<forall>x \<in> set ds. l \<notin> set (ag_part j f x)) \<longrightarrow> m l = m0 l)"

lemma ag_gathered_step:
  assumes ok: "ag_ok h j" and g: "ag_gathered h j m0 f ds m" and ds: "set ds \<subseteq> {..<ag_n j}" "r \<notin> set ds"
    and r: "r < ag_n j" "f < ag_n j" "if ds = [] then r = f \<and> \<not> ag_in_place h j r else r \<noteq> f"
  shows "ag_gathered h j m0 f (ds @ [r]) (moved m (ag_src h j r) (ag_part j f r))"
proof -
  let ?m = "moved m (ag_src h j r) (ag_part j f r)"
  have out: "l \<notin> set (ag_whole j f)" if "l \<in> set (ag_src h j r)" for l
  proof (cases "r = f")
    case True
    then have "\<not> ag_in_place h j r" using r(3) by (auto split: if_splits)
    then show ?thesis using ag_src_rank(3) [OF ok r(1)] that True by blast
  next
    case False
    then show ?thesis using ag_src_rank(4) [OF ok r(1) that] ag_whole_space [of l j f] by auto
  qed
  have sep: "separate (ag_src h j r) (ag_part j f r)"
    using out ag_part_range(4,5) [OF ok r(2,1)] by (auto simp: separate_def)
  have len: "length (ag_src h j r) = length (ag_part j f r)" using ag_src_rank(5) [OF ok r(1)] ag_part_range(6) [OF ok r(2,1)] by simp
  note mv = moved_whole(1) [OF sep len] moved_whole(2) [OF sep len]
  have own: "map m (ag_src h j r) = map m0 (ag_src h j r)"
  proof (intro map_cong refl)
    fix l assume l: "l \<in> set (ag_src h j r)"
    have "l \<notin> set (ag_part j f x)" if "x \<in> set ds" for x using out [OF l] ag_part_range(4) [OF ok r(2), of x] that ds(1) by blast
    then show "m l = m0 l" using g unfolding ag_gathered_def by blast
  qed
  have "map ?m (ag_part j f x) = map m0 (ag_src h j x)" if x: "x \<in> set (ds @ [r])" for x
  proof (cases "x = r")
    case True
    then show ?thesis using mv(1) own by (simp only:)
  next
    case False
    then have x: "x \<in> set ds" "x < ag_n j" using x ds(1) by auto
    have "map ?m (ag_part j f x) = map m (ag_part j f x)"
      using ag_parts_apart [OF ok r(2) x(2) r(1) False] by (intro map_cong refl mv(2)) blast
    then show ?thesis using g x(1) unfolding ag_gathered_def by metis
  qed
  moreover have "?m l = m0 l" if "\<forall>x \<in> set (ds @ [r]). l \<notin> set (ag_part j f x)" for l
  proof -
    have "?m l = m l" using that by (intro mv(2)) simp
    then show ?thesis using g that unfolding ag_gathered_def by simp
  qed
  ultimately show ?thesis unfolding ag_gathered_def by blast
qed

lemma ag_gathered_start: "ag_gathered h j m0 f [] m0"
  by (simp add: ag_gathered_def)

lemma ag_gathered_in_place: "ag_in_place h j f \<Longrightarrow> ag_gathered h j m0 f [f] m0"
  by (simp add: ag_gathered_def ag_src_def)

text \<open>The data of all ranks, in the order of the ranks.\<close>

definition ag_result :: "host \<Rightarrow> allgather_job \<Rightarrow> mem \<Rightarrow> byte list" where
  "ag_result h j m0 = concat (map (\<lambda>x. map m0 (ag_src h j x)) [0..<ag_n j])"

lemma ag_gathered_all:
  assumes "ag_ok h j" "f < ag_n j" "ag_gathered h j m0 f ds m" "set ds = {..<ag_n j}"
  shows "map m (ag_whole j f) = ag_result h j m0" "\<And>l. l \<notin> set (ag_whole j f) \<Longrightarrow> m l = m0 l"
proof -
  have "map (\<lambda>x. map m (ag_part j f x)) [0..<ag_n j] = map (\<lambda>x. map m0 (ag_src h j x)) [0..<ag_n j]"
  proof (rule map_cong [OF refl])
    fix x assume "x \<in> set [0..<ag_n j]"
    then have "x \<in> set ds" using assms(4) by simp
    then show "map m (ag_part j f x) = map m0 (ag_src h j x)" using assms(3) unfolding ag_gathered_def by blast
  qed
  then show "map m (ag_whole j f) = ag_result h j m0"
    unfolding ag_whole_parts [OF assms(1,2)] ag_result_def by (simp only: map_concat map_map comp_def)
  fix l assume "l \<notin> set (ag_whole j f)"
  then have "\<forall>x \<in> set ds. l \<notin> set (ag_part j f x)" using ag_part_range(4) [OF assms(1,2)] assms(4) by blast
  then show "m l = m0 l" using assms(3) unfolding ag_gathered_def by blast
qed

section \<open>The state between two calls\<close>

abbreviation ag_slot :: "allgather_job \<Rightarrow> cworld \<Rightarrow> collect" where
  "ag_slot j s \<equiv> cw_slots s (slot_of (ag_ticket j))"

definition ag_inv :: "host \<Rightarrow> allgather_job \<Rightarrow> mem \<Rightarrow> cid multiset \<Rightarrow> nat list \<Rightarrow> (nat \<Rightarrow> cid) \<Rightarrow> cworld \<Rightarrow> bool" where
  "ag_inv h j m0 B ds q s \<longleftrightarrow> slot_frame (ag_n j) (ag_ticket j) B ds s \<and>
     (let w = cw_world s; f = hd ds
      in if length ds < ag_n j
         then k_box (ag_slot j s) = map q ds \<and> ag_gathered h j m0 f ds (w_mem w) \<and>
           (ds \<noteq> [] \<longrightarrow> ag_req j w f (q f) (int (Suc (ag_n j - length ds)))) \<and> (\<forall>r \<in> set (tl ds). ag_req j w r (q r) 1)
         else k_box (ag_slot j s) = [] \<and> (\<forall>r \<in> set ds. finished w (q r) \<and> map (w_mem w) (ag_whole j r) = ag_result h j m0) \<and>
           (\<forall>l. (\<forall>r \<in> set ds. l \<notin> set (ag_whole j r)) \<longrightarrow> w_mem w l = m0 l))"

lemma ag_inv_frame: "ag_inv h j m0 B ds q s \<Longrightarrow> slot_frame (ag_n j) (ag_ticket j) B ds s"
  by (simp add: ag_inv_def)

lemma ag_before:
  assumes "ag_inv h j m0 B ds q s" "length ds < ag_n j"
  shows "k_box (ag_slot j s) = map q ds" "ag_gathered h j m0 (hd ds) ds (w_mem (cw_world s))"
    "ds \<noteq> [] \<Longrightarrow> ag_req j (cw_world s) (hd ds) (q (hd ds)) (int (Suc (ag_n j - length ds)))"
    "\<And>r. r \<in> set (tl ds) \<Longrightarrow> ag_req j (cw_world s) r (q r) 1"
  using assms by (simp_all add: ag_inv_def Let_def)

lemma ag_inv_start:
  assumes "w_size (cw_world s) = ag_n j" "box_inv (cw_world s) B" "slot_free (ag_ticket j) s"
    "64 * ag_n j \<le> unat (p_space (w_pool (cw_world s)))" "0 < ag_n j"
  shows "ag_inv h j (w_mem (cw_world s)) B [] q s"
  using slot_frame_start [OF assms(1-4)] assms(3,5) ag_gathered_start by (simp add: ag_inv_def slot_free_def)

text \<open>A rank that is not the last leaves a request.\<close>

lemma ag_leaves:
  assumes ok: "ag_ok h j" and inv: "ag_inv h j m0 B ds q s" and r: "r < ag_n j" "r \<notin> set ds"
    and last: "Suc (length ds) < ag_n j" and u: "u_rank u = r"
    and w1: "same_boxes (cw_world s) w1" "ag_gathered h j m0 (hd (ds @ [r])) (ds @ [r]) (w_mem w1)"
      "ds \<noteq> [] \<Longrightarrow> ag_req j w1 (hd ds) (q (hd ds)) (int (ag_n j - length ds))"
      "\<And>d. d \<notin> {q (hd ds)} \<Longrightarrow> w_cookies w1 d = w_cookies (cw_world s) d"
    and num: "num = (if ds = [] then int (ag_n j) else 1)"
  shows "\<exists>s2 c. collect_create u (slot_of (ag_ticket j)) (ag_recv j r) (ag_rtype j r) (ag_size j r) (ag_rcnt j r) num
      (set_world w1 (entered (ag_ticket j) (length ds) s)) = Ret (s2, c) \<and>
    ag_inv h j m0 B (ds @ [r]) (q(r := c)) (unlock (slot_of (ag_ticket j)) s2)"
proof -
  have fr: "slot_frame (ag_n j) (ag_ticket j) B ds s" by (rule ag_inv_frame [OF inv])
  have lt: "length ds < ag_n j" using last by simp
  note b = ag_before [OF inv lt]
  obtain s2 c where s2: "collect_create u (slot_of (ag_ticket j)) (ag_recv j r) (ag_rtype j r) (ag_size j r) (ag_rcnt j r) num
      (set_world w1 (entered (ag_ticket j) (length ds) s)) = Ret (s2, c)"
    "slot_frame (ag_n j) (ag_ticket j) B (ds @ [r]) (unlock (slot_of (ag_ticket j)) s2)" "k_box (ag_slot j s2) = map (q(r := c)) (ds @ [r])"
    "c \<notin> q ` set ds" "w_mem (cw_world s2) = w_mem w1"
    "w_cookies (cw_world s2) = (w_cookies w1)(c := mk_cookie r (ag_recv j r) (ag_rtype j r) (ag_size j r) (ag_rcnt j r) (int r) UMPI_TAG_CC num)"
    by (rule slot_frame_create [OF fr r b(1) w1(1) u])
  have new: "ag_req j (cw_world s2) r c num"
    using s2(6) ag_okD(3,4) [OF ok] r(1) num by (intro mk_cookie_request) simp_all
  have fr_ne: "x \<noteq> r" if "x \<in> set ds" for x using that r(2) by auto
  have old: "ag_req j (cw_world s2) x (q x) k" if "ag_req j w1 x (q x) k" "x \<in> set ds" for x k
  proof -
    have "q x \<noteq> c" using s2(4) that(2) by auto
    then have "w_cookies (cw_world s2) (q x) = w_cookies w1 (q x)" using s2(6) by simp
    from request_is_cong [OF this] show ?thesis using that(1) by simp
  qed
  have first: "ag_req j (cw_world s2) (hd (ds @ [r])) ((q(r := c)) (hd (ds @ [r]))) (int (Suc (ag_n j - length (ds @ [r]))))"
  proof (cases "ds = []")
    case True
    then show ?thesis using new num lt by (simp add: of_nat_diff)
  next
    case False
    then have "hd ds \<in> set ds" by simp
    moreover have "int (Suc (ag_n j - length (ds @ [r]))) = int (ag_n j - length ds)" using last by simp
    ultimately show ?thesis using old [OF w1(3) [OF False]] fr_ne False by (simp del: of_nat_Suc)
  qed
  have dq: "distinct (map q ds)"
  proof -
    have "box_inv (cw_world s) (mset (map q ds) + B)" using fr b(1) by (simp add: slot_frame_def)
    then show ?thesis using box_inv_distinct by blast
  qed
  have rest: "ag_req j (cw_world s2) x ((q(r := c)) x) 1" if x: "x \<in> set (tl (ds @ [r]))" for x
  proof (cases "x = r")
    case True
    then have "ds \<noteq> []" using x by auto
    then show ?thesis using True new num by simp
  next
    case False
    then have t: "x \<in> set (tl ds)" "x \<in> set ds" using x by (cases ds; auto)+
    have "q x \<noteq> q (hd ds)" using dq t(1) by (cases ds) (simp, metis distinct.simps(2) image_eqI list.map(2) list.sel(1,3) list.set_map)
    then have "w_cookies w1 (q x) = w_cookies (cw_world s) (q x)" using w1(4) by simp
    from request_is_cong [OF this] have "ag_req j w1 x (q x) 1" using b(4) [OF t(1)] by simp
    then show ?thesis using old t(2) False by simp
  qed
  have "ag_inv h j m0 B (ds @ [r]) (q(r := c)) (unlock (slot_of (ag_ticket j)) s2)"
    unfolding ag_inv_def Let_def using s2(2,3,5) w1(2) first rest last
    by (simp del: map_append of_nat_Suc hd_append2 tl_append2)
  then show ?thesis using s2(1) by blast
qed

section \<open>One call\<close>

text \<open>The write into the first rank's buffer.\<close>

lemma ag_writes:
  assumes ok: "ag_ok h j" and inv: "ag_inv h j m0 B ds q s" and r: "r < ag_n j" "r \<notin> set ds" and ds: "ds \<noteq> []"
  obtains w1 where "(if ag_in_place h j r
      then write_to_owner (h_writev h) (q (hd ds)) (Priv r, ag_recv j r) (ag_rtype j r) (ag_rcnt j r) (ag_rcnt j (hd ds) * int r)
        (ag_rcnt j r * int r) (cw_world s)
      else write_to_owner (h_writev h) (q (hd ds)) (Priv r, ag_send j r) (ag_stype j r) (ag_scnt j r) (ag_rcnt j (hd ds) * int r) 0
        (cw_world s)) = Ret (w1, MPI_SUCCESS)"
    "same_boxes (cw_world s) w1" "ag_gathered h j m0 (hd ds) (ds @ [r]) (w_mem w1)"
    "ag_req j w1 (hd ds) (q (hd ds)) (int (ag_n j - length ds))" "\<And>d. d \<noteq> q (hd ds) \<Longrightarrow> w_cookies w1 d = w_cookies (cw_world s) d"
    "c_count (w_cookies (cw_world s) (q (hd ds))) = ag_rcnt j (hd ds)"
proof -
  have fr: "slot_frame (ag_n j) (ag_ticket j) B ds s" by (rule ag_inv_frame [OF inv])
  have lt: "length ds < ag_n j" by (rule slot_frame_not_all [OF fr r])
  note b = ag_before [OF inv lt]
  have sub: "set ds \<subseteq> {..<ag_n j}" using fr by (simp add: slot_frame_def)
  have "hd ds \<in> set ds" by (rule hd_in_set [OF ds])
  then have f: "hd ds < ag_n j" "hd ds \<noteq> r" using sub r(2) by auto
  have bz: "1 \<le> int (Suc (ag_n j - length ds))" "int (Suc (ag_n j - length ds)) < 32768"
    "int (Suc (ag_n j - length ds)) - 1 = int (ag_n j - length ds)"
    using lt ag_okD(4) [OF ok] ds by (cases ds; simp)+
  note rq = b(3) [OF ds]
  from ag_write [OF ok r(1) f(1) f(2) [symmetric] rq bz(1,2)]
  obtain w1 where w1: "(if ag_in_place h j r
      then write_to_owner (h_writev h) (q (hd ds)) (Priv r, ag_recv j r) (ag_rtype j r) (ag_rcnt j r) (ag_rcnt j (hd ds) * int r)
        (ag_rcnt j r * int r) (cw_world s)
      else write_to_owner (h_writev h) (q (hd ds)) (Priv r, ag_send j r) (ag_stype j r) (ag_scnt j r) (ag_rcnt j (hd ds) * int r) 0
        (cw_world s)) = Ret (w1, MPI_SUCCESS)"
    "same_boxes (cw_world s) w1" "w_mem w1 = moved (w_mem (cw_world s)) (ag_src h j r) (ag_part j (hd ds) r)"
    "ag_req j w1 (hd ds) (q (hd ds)) (int (Suc (ag_n j - length ds)) - 1)" "\<forall>d. d \<noteq> q (hd ds) \<longrightarrow> w_cookies w1 d = w_cookies (cw_world s) d"
    unfolding transfers_def by blast
  have "ag_gathered h j m0 (hd ds) (ds @ [r]) (w_mem w1)"
    unfolding w1(3) using ds f by (intro ag_gathered_step [OF ok b(2) sub r(2,1)]) auto
  moreover have "c_count (w_cookies (cw_world s) (q (hd ds))) = ag_rcnt j (hd ds)" using rq by (simp add: request_is_def Let_def)
  ultimately show thesis using that [OF w1(1,2)] w1(4,5) unfolding bz(3) by blast
qed

text \<open>The first rank copies its own data.\<close>

lemma ag_copies:
  assumes ok: "ag_ok h j" and r: "r < ag_n j" and g: "ag_gathered h j m0 r [] (w_mem (cw_world s))"
  obtains w1 where "(if ag_in_place h j r then s else copy_in h u (Priv r, ag_send j r) (ag_stype j r) (ag_scnt j r) 0
      (Priv r, ag_recv j r) (ag_rtype j r) (ag_rcnt j r) (int r * ag_rcnt j r) s) = set_world w1 s"
    "same_boxes (cw_world s) w1" "ag_gathered h j m0 r [r] (w_mem w1)" "w_cookies w1 = w_cookies (cw_world s)"
proof (cases "ag_in_place h j r")
  case True
  have "w_mem (cw_world s) = m0" using g by (simp add: ag_gathered_def fun_eq_iff)
  then show thesis using that [of "cw_world s"] True ag_gathered_in_place [OF True, of m0] by (simp add: same_boxes_refl)
next
  case False
  note n = ag_src_rank(1,2,3) [OF ok r False] and p = ag_part_range [OF ok r r]
  have src: "ag_src h j r = payload (Priv r, ag_send j r) (ag_stype j r) 0 (ag_scnt j r)" using False by (simp add: ag_src_def)
  have sep: "separate (payload (Priv r, ag_send j r) (ag_stype j r) 0 (ag_scnt j r))
      (payload (Priv r, ag_recv j r) (ag_rtype j r) (ag_rcnt j r * int r) (ag_rcnt j r))"
    using n(3) p(4,5) unfolding src separate_def ag_part_def by blast
  have "typed_buf (ag_stype j r) 0 (ag_scnt j r)" using n(1) by (simp add: whole_buf_def)
  note c = copy_in_prepares [OF ag_okD(1) [OF ok] this p(3) n(2) sep, of u s]
  let ?w1 = "(cw_world s)\<lparr>w_mem := moved (w_mem (cw_world s)) (ag_src h j r) (ag_part j r r)\<rparr>"
  have "ag_gathered h j m0 r ([] @ [r]) (w_mem ?w1)" using ag_gathered_step [OF ok g _ _ r r] False by simp
  then show thesis
    using that [of ?w1] c False by (simp add: src ag_part_def same_boxes_mem mult.commute)
qed

lemma ag_first:
  assumes ok: "ag_ok h j" and inv: "ag_inv h j m0 B [] q s" and r: "r < ag_n j" and u: "u_rank u = r" "u_size u = int (ag_n j)"
  shows "\<exists>s2 c. allgather_request h u (slot_of (ag_ticket j)) (ag_send j r) (ag_scnt j r) (Some (ag_stype j r)) (ag_recv j r) (ag_rcnt j r)
      (ag_rtype j r) (entered (ag_ticket j) 0 s) = Ret (s2, MPI_SUCCESS, Some c) \<and> ag_inv h j m0 B [r] (q(r := c)) s2"
proof -
  let ?i = "slot_of (ag_ticket j)" and ?e = "entered (ag_ticket j) 0 s"
  have n: "2 \<le> ag_n j" using ag_okD(3) [OF ok] .
  have g: "ag_gathered h j m0 r [] (w_mem (cw_world ?e))" using ag_before(2) [OF inv] n by (simp add: ag_gathered_def)
  obtain w1 where w1: "(if ag_in_place h j r then ?e else copy_in h u (Priv r, ag_send j r) (ag_stype j r) (ag_scnt j r) 0
      (Priv r, ag_recv j r) (ag_rtype j r) (ag_rcnt j r) (int r * ag_rcnt j r) ?e) = set_world w1 ?e"
    "same_boxes (cw_world ?e) w1" "ag_gathered h j m0 r [r] (w_mem w1)" "w_cookies w1 = w_cookies (cw_world ?e)"
    by (rule ag_copies [OF ok r g])
  have sb: "same_boxes (cw_world s) w1" "w_cookies w1 = w_cookies (cw_world s)" using w1(2,4) by simp_all
  obtain s2 c where s2: "collect_create u ?i (ag_recv j r) (ag_rtype j r) (ag_size j r) (ag_rcnt j r) (int (ag_n j))
      (set_world w1 (entered (ag_ticket j) (length ([] :: nat list)) s)) = Ret (s2, c)" "ag_inv h j m0 B ([] @ [r]) (q(r := c)) (unlock ?i s2)"
    using ag_leaves [OF ok inv r _ _ u(1) sb(1), of "int (ag_n j)"] w1(3) sb(2) n by auto
  have "allgather_request h u ?i (ag_send j r) (ag_scnt j r) (Some (ag_stype j r)) (ag_recv j r) (ag_rcnt j r) (ag_rtype j r) ?e =
      Ret (unlock ?i s2, MPI_SUCCESS, Some c)"
    using w1(1) s2(1) u by (simp add: allgather_request_def joined_first_def ag_in_place_def Let_def)
  then show ?thesis using s2(2) by auto
qed

text \<open>What a later rank does after its write, with the request \<open>c\<close> at the front of the box and \<open>cs\<close> behind it.\<close>

definition allgather_rest ::
  "host \<Rightarrow> umpi \<Rightarrow> nat \<Rightarrow> int \<Rightarrow> int \<Rightarrow> iovecs \<Rightarrow> cid \<Rightarrow> cid list \<Rightarrow> cworld \<Rightarrow> started" where
  "allgather_rest h u i recvbuf recvcount recvtype c cs s1 =
     (let r = Priv (u_rank u); sz = recvcount * u_size u
      in if \<not> joined_last u (cw_slots s1 i)
         then and_then (collect_create u i recvbuf recvtype sz recvcount 1 s1) (\<lambda>(s2, c). Ret (unlock i s2, MPI_SUCCESS, Some c))
         else
           let s2 = upd_slot i (\<lambda>k. k\<lparr>k_box := []\<rparr>) s1; s3 = unlock i (set_world (cookie_join c (cw_world s2)) s2)
           in and_then (read_from_owner (h_readv h) c (r, recvbuf) recvtype sz sz 0 0 (to_pending c (cw_world s3))) (\<lambda>(w4, _).
              finish_with (Some c) s3 (todo_loop (\<lambda>c. write_to_owner (h_writev h) c (r, recvbuf) recvtype sz 0 0) cs w4)))"

lemma allgather_later:
  assumes "\<not> joined_first (cw_slots s i)" "k_box (cw_slots s i) = c # cs"
    and "(if sendbuf = h_in_place h
      then write_to_owner (h_writev h) c (Priv (u_rank u), recvbuf) recvtype recvcount (c_count (cookie_at s c) * int (u_rank u))
        (recvcount * int (u_rank u)) (cw_world s)
      else write_to_owner (h_writev h) c (Priv (u_rank u), sendbuf) sendtype sendcount (c_count (cookie_at s c) * int (u_rank u)) 0
        (cw_world s)) = Ret (w1, MPI_SUCCESS)"
  shows "allgather_request h u i sendbuf sendcount (Some sendtype) recvbuf recvcount recvtype s =
    allgather_rest h u i recvbuf recvcount recvtype c cs (set_world w1 s)"
proof -
  have z: "(MPI_SUCCESS \<noteq> 0) = False" by (simp add: mpi_consts)
  have bx: "k_box (cw_slots (set_world w1 s) i) = c # cs" using assms(2) by simp
  show ?thesis
    unfolding allgather_request_def allgather_rest_def Let_def take_box_def
    by (simp only: assms bx list.case and_then.simps split_conv if_False z option.sel list.sel)
qed

lemma ag_later:
  assumes ok: "ag_ok h j" and inv: "ag_inv h j m0 B ds q s" and r: "r < ag_n j" "r \<notin> set ds" and ds: "ds \<noteq> []" and u: "u_rank u = r"
  defines "i \<equiv> slot_of (ag_ticket j)" and "e \<equiv> entered (ag_ticket j) (length ds) s"
  obtains w1 where "allgather_request h u i (ag_send j r) (ag_scnt j r) (Some (ag_stype j r)) (ag_recv j r) (ag_rcnt j r) (ag_rtype j r) e =
      allgather_rest h u i (ag_recv j r) (ag_rcnt j r) (ag_rtype j r) (q (hd ds)) (map q (tl ds)) (set_world w1 e)"
    "same_boxes (cw_world s) w1" "ag_gathered h j m0 (hd ds) (ds @ [r]) (w_mem w1)"
    "ag_req j w1 (hd ds) (q (hd ds)) (int (ag_n j - length ds))" "\<And>d. d \<noteq> q (hd ds) \<Longrightarrow> w_cookies w1 d = w_cookies (cw_world s) d"
proof -
  have lt: "length ds < ag_n j" by (rule slot_frame_not_all [OF ag_inv_frame [OF inv] r])
  obtain w1 where w1: "(if ag_in_place h j r
      then write_to_owner (h_writev h) (q (hd ds)) (Priv r, ag_recv j r) (ag_rtype j r) (ag_rcnt j r) (ag_rcnt j (hd ds) * int r)
        (ag_rcnt j r * int r) (cw_world s)
      else write_to_owner (h_writev h) (q (hd ds)) (Priv r, ag_send j r) (ag_stype j r) (ag_scnt j r) (ag_rcnt j (hd ds) * int r) 0
        (cw_world s)) = Ret (w1, MPI_SUCCESS)"
    "same_boxes (cw_world s) w1" "ag_gathered h j m0 (hd ds) (ds @ [r]) (w_mem w1)"
    "ag_req j w1 (hd ds) (q (hd ds)) (int (ag_n j - length ds))" "\<And>d. d \<noteq> q (hd ds) \<Longrightarrow> w_cookies w1 d = w_cookies (cw_world s) d"
    "c_count (w_cookies (cw_world s) (q (hd ds))) = ag_rcnt j (hd ds)"
    using ag_writes [OF ok inv r ds(1)] by blast
  have nf: "\<not> joined_first (cw_slots e i)" using ds by (simp add: e_def i_def joined_first_def)
  have bx: "k_box (cw_slots e i) = q (hd ds) # map q (tl ds)"
    using ag_before(1) [OF inv lt] ds by (cases ds) (simp_all add: e_def i_def)
  have we: "cw_world e = cw_world s" by (simp add: e_def)
  show thesis
  proof (rule that [OF _ w1(2-5)])
    show "allgather_request h u i (ag_send j r) (ag_scnt j r) (Some (ag_stype j r)) (ag_recv j r) (ag_rcnt j r) (ag_rtype j r) e =
        allgather_rest h u i (ag_recv j r) (ag_rcnt j r) (ag_rtype j r) (q (hd ds)) (map q (tl ds)) (set_world w1 e)"
      by (rule allgather_later [OF nf bx]) (use w1(1) u in \<open>simp only: cookie_at_def we w1(6) ag_in_place_def\<close>)
  qed
qed

text \<open>Neither the first nor the last.\<close>

lemma ag_middle:
  assumes ok: "ag_ok h j" and inv: "ag_inv h j m0 B ds q s" and r: "r < ag_n j" "r \<notin> set ds" and u: "u_rank u = r" "u_size u = int (ag_n j)"
    and ds: "ds \<noteq> []" "Suc (length ds) < ag_n j"
  shows "\<exists>s2 c. allgather_request h u (slot_of (ag_ticket j)) (ag_send j r) (ag_scnt j r) (Some (ag_stype j r)) (ag_recv j r) (ag_rcnt j r)
      (ag_rtype j r) (entered (ag_ticket j) (length ds) s) = Ret (s2, MPI_SUCCESS, Some c) \<and> ag_inv h j m0 B (ds @ [r]) (q(r := c)) s2"
proof (rule ag_later [OF ok inv r ds(1) u(1)], goal_cases)
  case (1 w1)
  let ?i = "slot_of (ag_ticket j)" and ?e = "entered (ag_ticket j) (length ds) s"
  have g: "ag_gathered h j m0 (hd (ds @ [r])) (ds @ [r]) (w_mem w1)" using 1(3) ds(1) by simp
  obtain s2 c where s2: "collect_create u ?i (ag_recv j r) (ag_rtype j r) (ag_size j r) (ag_rcnt j r) 1 (set_world w1 ?e) = Ret (s2, c)"
    "ag_inv h j m0 B (ds @ [r]) (q(r := c)) (unlock ?i s2)"
    using ag_leaves [OF ok inv r ds(2) u(1) 1(2) g 1(4), of 1] 1(5) ds(1) by auto
  have "\<not> joined_last u (cw_slots (set_world w1 ?e) ?i)" using ds u(2) by (simp add: joined_last_def)
  then show ?case using 1(1) s2 u(2) by (simp add: allgather_rest_def Let_def)
qed

text \<open>The last rank reads the whole \<dots>\<close>

lemma ag_last_reads:
  assumes ok: "ag_ok h j" and r: "r < ag_n j" "f < ag_n j" "r \<noteq> f"
    and w: "box_inv w (add_mset c B)" "w_size w = ag_n j" "ag_req j w f c 1"
  obtains w4 where "read_from_owner (h_readv h) c (Priv r, ag_recv j r) (ag_rtype j r) (ag_size j r) (ag_size j r) 0 0
      (to_pending c (cookie_join c w)) = Ret (w4, MPI_SUCCESS)"
    "box_inv w4 B" "w_size w4 = ag_n j" "w_mem w4 = moved (w_mem w) (ag_whole j f) (ag_whole j r)" "finished w4 c"
    "\<And>d. d \<noteq> c \<Longrightarrow> w_cookies w4 d = w_cookies w d"
proof -
  let ?j = "cookie_join c w"
  have j1: "w_mem ?j = w_mem w" "\<And>d. d \<noteq> c \<Longrightarrow> w_cookies ?j d = w_cookies w d" "ag_req j ?j f c 1"
    using w(3) by (simp_all add: request_is_join) (simp_all add: cookie_join_def upd_cookie_def)
  have sj: "w_size ?j = ag_n j" "box_inv ?j (add_mset c B)"
    using same_boxesD(1,4) [OF same_boxes_join, of c w] w(1,2) by simp_all
  have "c_owner (w_cookies ?j c) < w_size ?j" using request_isD(1) [OF j1(3)] r(2) sj(1) by simp
  note tp = to_pending_effect [OF this]
  have rq: "ag_req j (to_pending c ?j) f c 1" using j1(3) request_is_cong [of "to_pending c ?j" c ?j] tp(1) by simp
  obtain w4 where w4: "read_from_owner (h_readv h) c (Priv r, ag_recv j r) (ag_rtype j r) (ag_size j r) (ag_size j r) 0 0
      (to_pending c ?j) = Ret (w4, MPI_SUCCESS)"
    "same_boxes (to_pending c ?j) w4" "w_mem w4 = moved (w_mem (to_pending c ?j)) (ag_whole j f) (ag_whole j r)"
    "ag_req j w4 f c 0" "\<And>d. d \<noteq> c \<Longrightarrow> w_cookies w4 d = w_cookies (to_pending c ?j) d"
    using ag_read [OF ok r rq] unfolding transfers_def by auto
  show thesis
  proof (rule that [OF w4(1)])
    show "box_inv w4 B" "w_size w4 = ag_n j" using same_boxesD(1,4) [OF w4(2)] tp(3,5) sj by simp_all
    show "w_mem w4 = moved (w_mem w) (ag_whole j f) (ag_whole j r)" using w4(3) tp(2) j1(1) by simp
    show "finished w4 c" by (rule request_is_finished [OF w4(4)])
    show "w_cookies w4 d = w_cookies w d" if "d \<noteq> c" for d using w4(5) [OF that] tp(1) j1(2) [OF that] by simp
  qed
qed

text \<open>\<dots> and writes it to the ranks in between.\<close>

lemma ag_whole_apart: "x \<noteq> y \<Longrightarrow> l \<in> set (ag_whole j x) \<Longrightarrow> l \<notin> set (ag_whole j y)"
  using ag_whole_space [of l j x] ag_whole_space [of l j y] by auto

lemma ag_last_writes:
  assumes ok: "ag_ok h j" and r: "r < ag_n j" and xs: "distinct xs" "\<And>x. x \<in> set xs \<Longrightarrow> x < ag_n j \<and> x \<noteq> r \<and> ag_req j w x (q x) 1"
    and w: "box_inv w (mset (map q xs) + B)" "w_size w = ag_n j"
  obtains w' where "todo_loop (\<lambda>c. write_to_owner (h_writev h) c (Priv r, ag_recv j r) (ag_rtype j r) (ag_size j r) 0 0) (map q xs) w =
      Ret (w', MPI_SUCCESS)" "w_size w' = ag_n j" "box_inv w' B"
    "\<And>x. x \<in> set xs \<Longrightarrow> map (w_mem w') (ag_whole j x) = map (w_mem w) (ag_whole j r) \<and> finished w' (q x)"
    "\<And>l. (\<And>x. x \<in> set xs \<Longrightarrow> l \<notin> set (ag_whole j x)) \<Longrightarrow> w_mem w' l = w_mem w l" "\<And>d. d \<notin> q ` set xs \<Longrightarrow> w_cookies w' d = w_cookies w d"
proof -
  have ap: "apart_parts (\<lambda>_. ag_whole j r) (ag_whole j) (set xs)"
    unfolding apart_parts_def
  proof (intro ballI conjI impI)
    fix x assume "x \<in> set xs"
    then have x: "x < ag_n j" "x \<noteq> r" using xs(2) by auto
    show "separate (ag_whole j r) (ag_whole j x)" by (rule ag_separate(2) [OF ok x(1) r x(2)])
    show "length (ag_whole j r) = length (ag_whole j x)" using ag_whole_facts(2) [OF ok] r x by simp
    fix y assume "y \<in> set xs"
    then have "y \<noteq> r" using xs(2) by auto
    then show "set (ag_whole j r) \<inter> set (ag_whole j y) = {}" using ag_whole_apart by blast
    show "x \<noteq> y \<Longrightarrow> set (ag_whole j x) \<inter> set (ag_whole j y) = {}" using ag_whole_apart by blast
  qed
  have tr: "transfers (write_to_owner (h_writev h) (q x) (Priv r, ag_recv j r) (ag_rtype j r) (ag_size j r) 0 0 w) w (q x)
      (ag_whole j r) (ag_whole j x) (\<lambda>w'. finished w' (q x))" if "x \<in> set xs" "ag_req j w x (q x) 1" for x w
  proof -
    have "x < ag_n j" "r \<noteq> x" using xs(2) [OF that(1)] by auto
    from ag_spread [OF ok r this that(2)] show ?thesis unfolding transfers_def using request_is_finished by fastforce
  qed
  have own: "c_owner (w_cookies w c) = x" if "ag_req j w x c 1" for w x c by (rule request_isD(1) [OF that])
  have pre: "\<forall>x \<in> set xs. x < w_size w \<and> ag_req j w x (q x) 1" using xs(2) w(2) by simp
  show thesis
    using todo_serves [where P = "\<lambda>w x c. ag_req j w x c 1", OF tr request_is_cong own xs(1) ap w(1) pre] that w(2) by auto
qed

text \<open>All buffers are filled, and nothing else has changed.\<close>

lemma ag_filled:
  assumes ok: "ag_ok h j" and r: "r < ag_n j" "f < ag_n j" "r \<noteq> f" "\<And>x. x \<in> set xs \<Longrightarrow> x \<noteq> r \<and> x \<noteq> f"
    and before: "map m (ag_whole j f) = D" "\<And>l. l \<notin> set (ag_whole j f) \<Longrightarrow> m l = m0 l"
    and after: "\<And>x. x \<in> set xs \<Longrightarrow> map m' (ag_whole j x) = map (moved m (ag_whole j f) (ag_whole j r)) (ag_whole j r)"
      "\<And>l. (\<And>x. x \<in> set xs \<Longrightarrow> l \<notin> set (ag_whole j x)) \<Longrightarrow> m' l = moved m (ag_whole j f) (ag_whole j r) l"
  shows "x \<in> set (f # xs @ [r]) \<Longrightarrow> map m' (ag_whole j x) = D"
    "\<forall>x \<in> set (f # xs @ [r]). l \<notin> set (ag_whole j x) \<Longrightarrow> m' l = m0 l"
proof -
  have len: "length (ag_whole j f) = length (ag_whole j r)" using ag_whole_facts(2) [OF ok] r by simp
  note m4 = moved_whole(1) [OF ag_separate(2) [OF ok r(1-3)] len] moved_whole(2) [OF ag_separate(2) [OF ok r(1-3)] len]
  have same: "map m' (ag_whole j x) = map (moved m (ag_whole j f) (ag_whole j r)) (ag_whole j x)" if "x \<notin> set xs" for x
    using that by (intro map_cong refl after(2)) (metis ag_whole_apart)
  have "map (moved m (ag_whole j f) (ag_whole j r)) (ag_whole j f) = map m (ag_whole j f)"
    using ag_whole_apart [OF r(3) [symmetric]] by (intro map_cong refl m4(2)) blast
  then have f: "map m' (ag_whole j f) = D" using same [of f] r(4) before(1) by metis
  have R: "map (moved m (ag_whole j f) (ag_whole j r)) (ag_whole j r) = D" unfolding m4(1) by (rule before(1))
  then have r': "map m' (ag_whole j r) = D" using same [of r] r(4) by metis
  show "map m' (ag_whole j x) = D" if "x \<in> set (f # xs @ [r])"
  proof (cases "x \<in> set xs")
    case True
    then show ?thesis using after(1) R by (simp only:)
  next
    case False
    then show ?thesis using that f r' by auto
  qed
  show "m' l = m0 l" if l: "\<forall>x \<in> set (f # xs @ [r]). l \<notin> set (ag_whole j x)"
  proof -
    have "m' l = moved m (ag_whole j f) (ag_whole j r) l" using l by (intro after(2)) simp
    also have "\<dots> = m l" using l by (intro m4(2)) simp
    also have "\<dots> = m0 l" using l by (intro before(2)) simp
    finally show ?thesis .
  qed
qed

lemma ag_last:
  assumes ok: "ag_ok h j" and inv: "ag_inv h j m0 B ds q s" and r: "r < ag_n j" "r \<notin> set ds" and u: "u_rank u = r" "u_size u = int (ag_n j)"
    and last: "Suc (length ds) = ag_n j"
  shows "\<exists>s2 c. allgather_request h u (slot_of (ag_ticket j)) (ag_send j r) (ag_scnt j r) (Some (ag_stype j r)) (ag_recv j r) (ag_rcnt j r)
      (ag_rtype j r) (entered (ag_ticket j) (length ds) s) = Ret (s2, MPI_SUCCESS, Some c) \<and> ag_inv h j m0 B (ds @ [r]) (q(r := c)) s2"
proof -
  let ?i = "slot_of (ag_ticket j)" and ?e = "entered (ag_ticket j) (length ds) s" and ?W = "ag_whole j" and ?n = "ag_n j"
  have ne: "ds \<noteq> []" using last ag_okD(3) [OF ok] by auto
  obtain f xs where ds: "ds = f # xs" using ne by (cases ds) auto
  have fr: "slot_frame ?n (ag_ticket j) B ds s" by (rule ag_inv_frame [OF inv])
  have lt: "length ds < ?n" using last by simp
  note b = ag_before [OF inv lt] and sp = slot_frame_space [OF fr r]
  have all: "set (ds @ [r]) = {..<?n}" using sp(3,4) last distinct_card [of "ds @ [r]"] by (intro card_subset_eq) simp_all
  have rk: "f < ?n" "r \<noteq> f" "\<And>x. x \<in> set xs \<Longrightarrow> x < ?n \<and> x \<noteq> r \<and> x \<noteq> f" "distinct xs" using sp(3,4) by (auto simp: ds)
  have one: "int (?n - length ds) = 1" using last by simp
  obtain w1 where w1: "allgather_request h u ?i (ag_send j r) (ag_scnt j r) (Some (ag_stype j r)) (ag_recv j r) (ag_rcnt j r) (ag_rtype j r) ?e =
      allgather_rest h u ?i (ag_recv j r) (ag_rcnt j r) (ag_rtype j r) (q f) (map q xs) (set_world w1 ?e)"
    "same_boxes (cw_world s) w1" "ag_gathered h j m0 f (ds @ [r]) (w_mem w1)"
    "ag_req j w1 f (q f) 1" "\<And>d. d \<noteq> q f \<Longrightarrow> w_cookies w1 d = w_cookies (cw_world s) d"
    using ag_later [OF ok inv r ne u(1), unfolded one] by (auto simp: ds)
  note ga = ag_gathered_all [OF ok rk(1) w1(3) all]
  have bx: "box_inv (cw_world s) (mset (map q ds) + B)" "w_size (cw_world s) = ?n" using fr b(1) by (simp_all add: slot_frame_def)
  have dq: "q x \<noteq> q f" if "x \<in> set xs" for x using box_inv_distinct [OF bx(1)] imageI [OF that, of q] by (auto simp: ds)
  have b1: "box_inv w1 (add_mset (q f) (mset (map q xs) + B))" "w_size w1 = ?n" using bx same_boxesD(1,4) [OF w1(2)] by (simp_all add: ds)
  obtain w4 where w4: "read_from_owner (h_readv h) (q f) (Priv r, ag_recv j r) (ag_rtype j r) (ag_size j r) (ag_size j r) 0 0
      (to_pending (q f) (cookie_join (q f) w1)) = Ret (w4, MPI_SUCCESS)"
    "box_inv w4 (mset (map q xs) + B)" "w_size w4 = ?n" "w_mem w4 = moved (w_mem w1) (?W f) (?W r)" "finished w4 (q f)"
    "\<And>d. d \<noteq> q f \<Longrightarrow> w_cookies w4 d = w_cookies w1 d"
    using ag_last_reads [OF ok r(1) rk(1,2) b1 w1(4)] by blast
  have pre: "x < ?n \<and> x \<noteq> r \<and> ag_req j w4 x (q x) 1" if x: "x \<in> set xs" for x
    using request_is_cong [of w4 "q x" "cw_world s"] w4(6) w1(5) dq [OF x] b(4) [of x] rk(3) [OF x] x by (simp add: ds)
  obtain w5 where w5: "todo_loop (\<lambda>c. write_to_owner (h_writev h) c (Priv r, ag_recv j r) (ag_rtype j r) (ag_size j r) 0 0) (map q xs) w4 =
      Ret (w5, MPI_SUCCESS)" "w_size w5 = ?n" "box_inv w5 B"
    "\<And>x. x \<in> set xs \<Longrightarrow> map (w_mem w5) (?W x) = map (w_mem w4) (?W r) \<and> finished w5 (q x)"
    "\<And>l. (\<And>x. x \<in> set xs \<Longrightarrow> l \<notin> set (?W x)) \<Longrightarrow> w_mem w5 l = w_mem w4 l" "\<And>d. d \<notin> q ` set xs \<Longrightarrow> w_cookies w5 d = w_cookies w4 d"
    using ag_last_writes [OF ok r(1) rk(4) pre w4(2,3)] by blast
  have R: "map (w_mem w5) (?W x) = ag_result h j m0" if "x \<in> set (f # xs @ [r])" for x
    using ag_filled(1) [where m' = "w_mem w5", OF ok r(1) rk(1,2) _ ga(1,2) _ _ that] w5(4,5) rk(3) unfolding w4(4) by blast
  have out: "w_mem w5 l = m0 l" if "\<forall>x \<in> set (f # xs @ [r]). l \<notin> set (?W x)" for l
    using ag_filled(2) [where m' = "w_mem w5", OF ok r(1) rk(1,2) _ ga(1,2) _ _ that] w5(4,5) rk(3) unfolding w4(4) by blast
  have "w_cookies w5 (q f) = w_cookies w4 (q f)" using dq by (intro w5(6)) force
  then have "finished w5 (q f)" using finished_cong w4(5) by blast
  then have fin: "finished w5 ((q(r := q f)) x)" if "x \<in> set (ds @ [r])" for x using that w5(4) r(2) by (auto simp: ds)
  define s2 where "s2 = set_world w5 (unlock ?i (set_world (cookie_join (q f) w1) (upd_slot ?i (\<lambda>k. k\<lparr>k_box := []\<rparr>) (set_world w1 ?e))))"
  have s2: "cw_world s2 = w5" "cw_slots s2 ?i = (ag_slot j s)\<lparr>k_locked := False, k_ticket := ag_ticket j, k_joined := int ?n, k_box := []\<rparr>"
    using last by (simp_all add: s2_def)
  have "slot_frame ?n (ag_ticket j) B (ds @ [r]) s2" unfolding slot_frame_def using sp(3,4) s2 w5(2,3) last by simp
  then have "ag_inv h j m0 B (ds @ [r]) (q(r := q f)) s2"
    unfolding ag_inv_def Let_def using s2 last fin R out by (simp add: ds)
  moreover have "joined_last u (cw_slots (set_world w1 ?e) ?i)" using last u(2) by (simp add: joined_last_def)
  then have "allgather_request h u ?i (ag_send j r) (ag_scnt j r) (Some (ag_stype j r)) (ag_recv j r) (ag_rcnt j r) (ag_rtype j r) ?e =
      Ret (s2, MPI_SUCCESS, Some (q f))"
    using w1(1) w4(1) w5(1) u by (simp add: allgather_rest_def Let_def finish_with_def s2_def)
  ultimately show ?thesis by blast
qed

section \<open>All calls\<close>

lemma iallgather_call:
  assumes ok: "ag_ok h j" and sc: "same_call (ag_n j) us (ag_ticket j)" and inv: "ag_inv h j m0 B ds q s" and r: "r < ag_n j" "r \<notin> set ds"
  shows "\<exists>u s2 c. iallgather_of h us j r s = Ret (u, s2, MPI_SUCCESS, Some c) \<and> ag_inv h j m0 B (ds @ [r]) (q(r := c)) s2"
proof -
  let ?u = "(us r)\<lparr>u_ticket := ag_ticket j + 1\<rparr>" and ?e = "entered (ag_ticket j) (length ds) s" and ?i = "slot_of (ag_ticket j)"
  have fr: "slot_frame (ag_n j) (ag_ticket j) B ds s" by (rule ag_inv_frame [OF inv])
  have lt: "length ds < ag_n j" by (rule slot_frame_not_all [OF fr r])
  have sa: "slot_after (ag_ticket j) (length ds) (ag_slot j s)" using fr lt by (simp add: slot_frame_def)
  have u: "u_rank ?u = r" "u_size ?u = int (ag_n j)" using sc r(1) by (simp_all add: same_call_def)
  have c: "ag_send j r = 0 \<longrightarrow> ag_scnt j r = 0" "ag_recv j r = 0 \<longrightarrow> ag_rcnt j r = 0" using ok r(1) by (auto simp: ag_ok_def)
  have sb: "same_bytes (ag_scnt j r) (ag_stype j r) (ag_rcnt j r) (ag_rtype j r)" if np: "\<not> ag_in_place h j r"
  proof -
    have "unat (size_of_int (ag_scnt j r) * iov_len (ag_stype j r)) = bytes_of (ag_stype j r) (ag_scnt j r)"
      using typed_bufD(5) [of "ag_stype j r" 0 "ag_scnt j r"] ag_src_rank(1) [OF ok r(1) np] by (simp add: whole_buf_def)
    moreover have "typed_buf (ag_rtype j r) 0 (ag_rcnt j r)" using ag_part_range(3) [OF ok r(1), of 0] r(1) by simp
    then have "unat (size_of_int (ag_rcnt j r) * iov_len (ag_rtype j r)) = bytes_of (ag_rtype j r) (ag_rcnt j r)" by (rule typed_bufD(5))
    ultimately show ?thesis using ag_src_rank(2) [OF ok r(1) np] unfolding same_bytes_def word_unat_eq_iff by simp
  qed
  have "\<exists>s2 c. allgather_request h ?u ?i (ag_send j r) (ag_scnt j r) (Some (ag_stype j r)) (ag_recv j r) (ag_rcnt j r) (ag_rtype j r) ?e =
      Ret (s2, MPI_SUCCESS, Some c) \<and> ag_inv h j m0 B (ds @ [r]) (q(r := c)) s2"
  proof (cases "ds = []")
    case True
    then show ?thesis using ag_first [OF ok _ r(1) u] inv by simp
  next
    case False
    show ?thesis
    proof (cases "Suc (length ds) = ag_n j")
      case True
      then show ?thesis by (rule ag_last [OF ok inv r u])
    next
      case no: False
      with lt show ?thesis by (intro ag_middle [OF ok inv r u False]) simp
    qed
  qed
  moreover have "iallgather_of h us j r s = and_then (allgather_request h ?u ?i (ag_send j r) (ag_scnt j r) (Some (ag_stype j r))
      (ag_recv j r) (ag_rcnt j r) (ag_rtype j r) ?e) (\<lambda>(s2, ret, c). Ret (Some ?u, s2, ret, c))"
    using c sb in_slot_enter [OF sc r(1) sa] by (auto simp: iallgather_of_def MPI_Iallgather_def ag_in_place_def)
  ultimately show ?thesis by auto
qed

text \<open>C13: allgather, whatever the order in which the ranks arrive. All \<open>n\<close> ranks call \<^verbatim>\<open>MPI_Iallgather\<close> on a
  free slot, each once, in any order, with types and counts of their own that agree in the number of
  bytes, in place or not; the pool has room for \<open>n\<close> requests. Every call returns \<^verbatim>\<open>MPI_SUCCESS\<close> with a
  request. When the last rank has called, every receive buffer holds the data of all ranks in the order of
  the ranks, nothing outside these buffers has changed, every request is completed without error, and the
  slot is free again.\<close>

theorem iallgather_all_orders:
  assumes "ag_ok h j" "same_call (ag_n j) us (ag_ticket j)"
    and "w_size (cw_world s) = ag_n j" "box_inv (cw_world s) B" "slot_free (ag_ticket j) s"
      "64 * ag_n j \<le> unat (p_space (w_pool (cw_world s)))"
    and "distinct rs" "set rs = {..<ag_n j}"
  shows "\<exists>s' q. calls_all (iallgather_of h us j) rs s = Ret (s', map (\<lambda>r. (MPI_SUCCESS, Some (q r))) rs) \<and>
    (\<forall>r < ag_n j. map (w_mem (cw_world s')) (ag_whole j r) =
         concat (map (\<lambda>x. map (w_mem (cw_world s)) (ag_src h j x)) [0..<ag_n j]) \<and> finished (cw_world s') (q r)) \<and>
    (\<forall>l. (\<forall>r < ag_n j. l \<notin> set (ag_whole j r)) \<longrightarrow> w_mem (cw_world s') l = w_mem (cw_world s) l) \<and>
    slot_free (ag_ticket j) s' \<and> box_inv (cw_world s') B"
proof -
  let ?I = "ag_inv h j (w_mem (cw_world s)) B"
  have "0 < ag_n j" using ag_okD(3) [OF assms(1)] by simp
  note st = ag_inv_start [OF assms(3-6) this, of h "\<lambda>_. bp_null"]
  obtain s' q where r: "calls_all (iallgather_of h us j) rs s = Ret (s', map (\<lambda>r. (MPI_SUCCESS, Some (q r))) rs)" "?I rs q s'"
    using calls_all_inv [of ?I "ag_n j" "iallgather_of h us j" "[]" "\<lambda>_. bp_null" s rs, OF iallgather_call [OF assms(1,2)] st] assms(7,8)
    by auto
  have "length rs = ag_n j" using assms(7,8) distinct_card [of rs] by simp
  then have i: "k_box (ag_slot j s') = []" "\<forall>r \<in> set rs. finished (cw_world s') (q r) \<and>
      map (w_mem (cw_world s')) (ag_whole j r) = ag_result h j (w_mem (cw_world s))"
    "\<forall>l. (\<forall>r \<in> set rs. l \<notin> set (ag_whole j r)) \<longrightarrow> w_mem (cw_world s') l = w_mem (cw_world s) l"
    using r(2) unfolding ag_inv_def Let_def by simp_all
  have "slot_free (ag_ticket j) s' \<and> box_inv (cw_world s') B"
    using ag_inv_frame [OF r(2)] i(1) by (simp add: slot_frame_def slot_free_def)
  then show ?thesis using r(1) i(2,3) unfolding assms(8) ag_result_def by (intro exI [of _ s'] exI [of _ q]) blast
qed

text \<open>Three ranks with a byte each, rank 1 in place.\<close>

definition demo_allgather :: allgather_job where
  "demo_allgather = \<lparr>ag_n = 3, ag_ticket = 0, ag_send = (\<lambda>r. if r = 1 then 1 else 1000), ag_scnt = (\<lambda>r. 1), ag_stype = (\<lambda>r. demo_byte),
     ag_recv = (\<lambda>r. 2000), ag_rcnt = (\<lambda>r. 1), ag_rtype = (\<lambda>r. demo_byte)\<rparr>"

definition demo_letters :: mem where
  "demo_letters = (\<lambda>l. if l = (Priv 0, 1000) then 97 else if l = (Priv 1, 2001) then 98 else if l = (Priv 2, 1000) then 99 else 0)"

lemma demo_allgather_ok: "ag_ok demo_host demo_allgather"
  by (auto simp: ag_ok_def demo_allgather_def ag_in_place_def demo_host_def vm_ok_copy ag_whole_def ag_bytes_def demo_byte_whole
      demo_byte_payload distinct_map inj_on_def)

lemma iallgather_all_orders_witness:
  "\<exists>s' out. calls_all (iallgather_of demo_host (demo_ranks 3) demo_allgather) [2, 0, 1] (demo_cworld 3 demo_letters) = Ret (s', out) \<and>
    map (w_mem (cw_world s')) (ag_whole demo_allgather 0) = [97, 98, 99] \<and>
    map (w_mem (cw_world s')) (ag_whole demo_allgather 1) = [97, 98, 99]"
proof -
  have j: "ag_n demo_allgather = 3" "ag_ticket demo_allgather = 0" by (simp_all add: demo_allgather_def)
  note c = demo_cworld_start [of 3 demo_letters]
  have start: "w_size (cw_world (demo_cworld 3 demo_letters)) = ag_n demo_allgather"
    "slot_free (ag_ticket demo_allgather) (demo_cworld 3 demo_letters)"
    "64 * ag_n demo_allgather \<le> unat (p_space (w_pool (cw_world (demo_cworld 3 demo_letters))))"
    "same_call (ag_n demo_allgather) (demo_ranks 3) (ag_ticket demo_allgather)"
    "distinct [2, 0, 1 :: nat]" "set [2, 0, 1] = {..<ag_n demo_allgather}"
    unfolding j using c demo_ranks_call [of 3] by auto
  obtain s' q where r: "calls_all (iallgather_of demo_host (demo_ranks 3) demo_allgather) [2, 0, 1] (demo_cworld 3 demo_letters) =
      Ret (s', map (\<lambda>r. (MPI_SUCCESS, Some (q r))) [2, 0, 1 :: nat])"
    "\<And>r. r < 3 \<Longrightarrow> map (w_mem (cw_world s')) (ag_whole demo_allgather r) =
       concat (map (\<lambda>x. map demo_letters (ag_src demo_host demo_allgather x)) [0..<3])"
    using iallgather_all_orders [OF demo_allgather_ok start(4,1) c(3) start(2,3,5,6)] unfolding c(2) j by blast
  have "concat (map (\<lambda>x. map demo_letters (ag_src demo_host demo_allgather x)) [0..<3]) = [97, 98, 99]"
    by (simp add: upt_rec ag_src_def ag_in_place_def ag_part_def demo_allgather_def demo_host_def demo_byte_payload demo_letters_def)
  then show ?thesis using r(1) r(2) [of 0] r(2) [of 1] by (intro exI conjI) simp_all
qed

end
